(* ===== verification/Horreum_Prelude.thy ===== *)
theory Horreum_Prelude
  imports Main "HOL-Library.Word" "HOL-Library.Multiset"
begin

text \<open>
  Shared vocabulary of the development: the machine integers of the Go sources, byte slices,
  the little-endian encodings of \<^verbatim>\<open>encoding/binary\<close>, FNV-1a, and the generic list and word
  lemmas the component theories use.

  Conventions:
  \<^item> a Go \<^verbatim>\<open>uintN\<close> is an \<open>N word\<close>; \<open>+\<close>, \<open>-\<close>, \<open>*\<close> wrap;
  \<^item> a slice is a list and its \<^verbatim>\<open>len\<close> a \<open>nat\<close> (Go's \<^verbatim>\<open>int\<close> is 64 bits wide, and no slice
    of the program is that long);
  \<^item> a Go result \<^verbatim>\<open>(T, error)\<close> is a sum \<open>'e + 'a\<close>;
  \<^item> a loop of the source with no bound of its own (a probe loop, a compare-and-swap loop)
    returns an \<open>option\<close>: \<open>None\<close> is the loop that never returns, and every such loop has a
    lemma that says when it does return.
\<close>

unbundle bit_operations_syntax

type_synonym byte = "8 word"
type_synonym u8 = "8 word"
type_synonym u16 = "16 word"
type_synonym u32 = "32 word"
type_synonym u64 = "64 word"
type_synonym bytes = "byte list"

named_theorems le_simps \<open>little-endian encodings and their lengths\<close>
named_theorems slice_simps \<open>slices and in-place copies\<close>

section \<open>Definitions\<close>

subsection \<open>encoding/binary, little endian\<close>

definition le_bytes :: "nat \<Rightarrow> 'a::len word \<Rightarrow> bytes" where
  "le_bytes k w = map (\<lambda>i. ucast (drop_bit (8 * i) w)) [0..<k]"

fun le_word :: "bytes \<Rightarrow> 'a::len word" where
  "le_word [] = 0"
| "le_word (b # bs) = ucast b OR push_bit 8 (le_word bs)"

definition put_u16 :: "u16 \<Rightarrow> bytes" where "put_u16 w = le_bytes 2 w"
definition put_u32 :: "u32 \<Rightarrow> bytes" where "put_u32 w = le_bytes 4 w"
definition put_u64 :: "u64 \<Rightarrow> bytes" where "put_u64 w = le_bytes 8 w"
definition get_u16 :: "bytes \<Rightarrow> u16" where "get_u16 bs = le_word (take 2 bs)"
definition get_u32 :: "bytes \<Rightarrow> u32" where "get_u32 bs = le_word (take 4 bs)"
definition get_u64 :: "bytes \<Rightarrow> u64" where "get_u64 bs = le_word (take 8 bs)"

subsection \<open>Slices\<close>

definition slice :: "'a list \<Rightarrow> nat \<Rightarrow> nat \<Rightarrow> 'a list" where
  "slice xs a b = take (b - a) (drop a xs)"

definition copy_at :: "'a list \<Rightarrow> nat \<Rightarrow> 'a list \<Rightarrow> 'a list" where
  "copy_at xs off ys = take off xs @ ys @ drop (off + length ys) xs"

subsection \<open>Byte comparisons\<close>

definition bytesEq :: "bytes \<Rightarrow> bytes \<Rightarrow> bool" where
  "bytesEq a b \<longleftrightarrow> (if length a \<noteq> length b then False else list_all (\<lambda>i. a ! i = b ! i) [0..<length a])"

definition bytesHasPrefix :: "bytes \<Rightarrow> bytes \<Rightarrow> bool" where
  "bytesHasPrefix s p \<longleftrightarrow> (if length s < length p then False else list_all (\<lambda>i. s ! i = p ! i) [0..<length p])"

subsection \<open>FNV-1a\<close>

definition fnv_offset :: u64 where "fnv_offset = 14695981039346656037"
definition fnv_prime :: u64 where "fnv_prime = 1099511628211"

definition fnv_step :: "u64 \<Rightarrow> byte \<Rightarrow> u64" where
  "fnv_step h b = (h XOR ucast b) * fnv_prime"

definition fnv1a :: "bytes \<Rightarrow> u64" where
  "fnv1a bs = foldl fnv_step fnv_offset bs"

section \<open>Lemmas\<close>

subsection \<open>Little-endian round trips\<close>

lemma length_le_bytes [simp]: "length (le_bytes k w) = k"
  by (simp add: le_bytes_def)

lemma nth_le_bytes: "i < k \<Longrightarrow> le_bytes k w ! i = ucast (drop_bit (8 * i) w)"
  by (simp add: le_bytes_def)

lemma bit_le_word:
  "bit (le_word bs :: 'a::len word) n \<longleftrightarrow> n < LENGTH('a) \<and> n div 8 < length bs \<and> bit (bs ! (n div 8)) (n mod 8)"
proof (induction bs arbitrary: n)
  case Nil
  then show ?case by simp
next
  case (Cons b bs)
  show ?case
  proof (cases "n < 8")
    case True
    then show ?thesis
      by (simp add: bit_or_iff bit_push_bit_iff bit_ucast_iff)
  next
    case False
    then obtain m where m: "n = m + 8" by (metis add.commute le_Suc_ex not_less)
    have "\<not> bit b n" using False bit_imp_le_length [of b n] by auto
    moreover have "n div 8 = Suc (m div 8)" "n mod 8 = m mod 8" using m by simp_all
    ultimately show ?thesis
      using Cons.IH [of m] m by (auto simp: bit_or_iff bit_push_bit_iff bit_ucast_iff)
  qed
qed

lemma le_word_le_bytes:
  fixes w :: "'a::len word"
  assumes "LENGTH('a) = 8 * k"
  shows "le_word (le_bytes k w) = w"
proof (rule bit_word_eqI)
  fix n assume n: "n < LENGTH('a)"
  then have "n div 8 < k" using assms by linarith
  then show "bit (le_word (le_bytes k w) :: 'a word) n = bit w n"
    using n by (simp add: bit_le_word nth_le_bytes bit_ucast_iff bit_drop_bit_eq)
qed

lemma le_bytes_le_word:
  assumes "LENGTH('a) = 8 * length bs"
  shows "le_bytes (length bs) (le_word bs :: 'a::len word) = bs"
proof (rule nth_equalityI)
  fix i assume "i < length (le_bytes (length bs) (le_word bs :: 'a word))"
  then have i: "i < length bs" by simp
  show "le_bytes (length bs) (le_word bs :: 'a word) ! i = bs ! i"
  proof (rule bit_word_eqI)
    fix n assume n: "n < LENGTH(8)"
    then have "(8 * i + n) div 8 = i" "(8 * i + n) mod 8 = n" by simp_all
    then show "bit (le_bytes (length bs) (le_word bs :: 'a word) ! i) n = bit (bs ! i) n"
      using i n assms by (simp add: nth_le_bytes bit_ucast_iff bit_drop_bit_eq bit_le_word)
  qed
qed simp

lemma length_put [simp, le_simps]:
  "length (put_u16 a) = 2" "length (put_u32 b) = 4" "length (put_u64 c) = 8"
  by (simp_all add: put_u16_def put_u32_def put_u64_def)

lemma get_put [simp, le_simps]:
  "get_u16 (put_u16 a @ xs) = a" "get_u32 (put_u32 b @ xs) = b" "get_u64 (put_u64 c @ xs) = c"
  "get_u16 (put_u16 a) = a" "get_u32 (put_u32 b) = b" "get_u64 (put_u64 c) = c"
  by (simp_all add: get_u16_def put_u16_def get_u32_def put_u32_def get_u64_def put_u64_def
      le_word_le_bytes)

lemma put_get [le_simps]:
  "length xs = 2 \<Longrightarrow> put_u16 (get_u16 xs) = xs"
  "length xs = 4 \<Longrightarrow> put_u32 (get_u32 xs) = xs"
  "length xs = 8 \<Longrightarrow> put_u64 (get_u64 xs) = xs"
  using le_bytes_le_word [of xs, where 'a = 16] le_bytes_le_word [of xs, where 'a = 32]
    le_bytes_le_word [of xs, where 'a = 64]
  by (simp_all add: put_u16_def get_u16_def put_u32_def get_u32_def put_u64_def get_u64_def)

subsection \<open>Slices\<close>

lemma length_slice [simp, slice_simps]: "b \<le> length xs \<Longrightarrow> length (slice xs a b) = b - a"
  by (simp add: slice_def)

lemma slice_append_left [slice_simps]:
  "b \<le> length xs \<Longrightarrow> slice (xs @ ys) a b = slice xs a b"
  by (cases "a \<le> b") (simp_all add: slice_def)

lemma slice_append_right [slice_simps]:
  "length xs \<le> a \<Longrightarrow> slice (xs @ ys) a b = slice ys (a - length xs) (b - length xs)"
  by (simp add: slice_def)

lemma slice_full [simp, slice_simps]: "slice xs 0 (length xs) = xs"
  by (simp add: slice_def)

lemma slice_take_drop: "slice xs a b = drop a (take b xs)"
  by (simp add: slice_def drop_take)

lemma nth_slice: "a + i < b \<Longrightarrow> b \<le> length xs \<Longrightarrow> slice xs a b ! i = xs ! (a + i)"
  by (simp add: slice_def)

lemma length_copy_at [simp, slice_simps]:
  "off + length ys \<le> length xs \<Longrightarrow> length (copy_at xs off ys) = length xs"
  by (simp add: copy_at_def)

lemma nth_copy_at:
  "off + length ys \<le> length xs \<Longrightarrow> i < length xs \<Longrightarrow>
   copy_at xs off ys ! i = (if off \<le> i \<and> i < off + length ys then ys ! (i - off) else xs ! i)"
  by (auto simp: copy_at_def nth_append)

lemma slice_copy_at_same [slice_simps]:
  "off + length ys \<le> length xs \<Longrightarrow> slice (copy_at xs off ys) off (off + length ys) = ys"
  by (simp add: slice_def copy_at_def)

lemma slice_copy_at_other:
  assumes "off + length ys \<le> length xs" "b \<le> length xs" "b \<le> off \<or> off + length ys \<le> a"
  shows "slice (copy_at xs off ys) a b = slice xs a b"
  using assms by (intro nth_equalityI) (auto simp: nth_slice nth_copy_at)

subsection \<open>Lists\<close>

lemma bytesEq_iff [simp]: "bytesEq a b \<longleftrightarrow> a = b"
  by (auto simp: bytesEq_def list_all_iff intro: nth_equalityI)

lemma bytesHasPrefix_iff: "bytesHasPrefix s p \<longleftrightarrow> take (length p) s = p"
proof (cases "length s < length p")
  case True
  then show ?thesis by (auto simp: bytesHasPrefix_def dest: arg_cong [of _ _ length])
next
  case False
  then show ?thesis
    by (auto simp: bytesHasPrefix_def list_all_iff intro: nth_equalityI) (metis nth_take)
qed

lemma bytesHasPrefix_Nil [simp]: "bytesHasPrefix s []"
  by (simp add: bytesHasPrefix_iff)

lemma mset_swap_None:
  assumes "i < length xs" "j < length xs" "i \<noteq> j"
  shows "mset (xs[i := xs ! j, j := xs ! i]) = mset xs"
  using assms mset_swap [of i xs j] by (simp add: list_update_swap)

lemma set_map_filter': "set (List.map_filter f xs) = {y. \<exists>x \<in> set xs. f x = Some y}"
  by (induction xs) (auto simp: map_filter_simps split: option.splits)

subsection \<open>Words\<close>

lemma unat_u32_lt: "unat (w :: u32) < 4294967296"
  using unsigned_less [of w, where 'a = nat] by simp

lemma unat_u16_lt: "unat (w :: u16) < 65536"
  using unsigned_less [of w, where 'a = nat] by simp

lemma unat_u64_lt: "unat (w :: u64) < 18446744073709551616"
  using unsigned_less [of w, where 'a = nat] by simp

lemma unat_u8_lt: "unat (w :: u8) < 256"
  using unsigned_less [of w, where 'a = nat] by simp

lemma unat_u64_of_u32 [simp]: "unat (ucast (w :: u32) :: u64) = unat w"
  using unat_u32_lt [of w] by (simp add: unsigned_ucast_eq take_bit_nat_eq_self)

lemma unat_u32_of_u16 [simp]: "unat (ucast (w :: u16) :: u32) = unat w"
  using unat_u16_lt [of w] by (simp add: unsigned_ucast_eq take_bit_nat_eq_self)

lemma unat_of_nat_u16: "n < 65536 \<Longrightarrow> unat (of_nat n :: u16) = n"
  by (simp add: unat_of_nat)

lemma unat_of_nat_u32: "n < 4294967296 \<Longrightarrow> unat (of_nat n :: u32) = n"
  by (simp add: unat_of_nat)

lemma unat_of_nat_u64: "n < 18446744073709551616 \<Longrightarrow> unat (of_nat n :: u64) = n"
  by (simp add: unat_of_nat)

lemma and_mask_mod:
  fixes w m :: u64
  assumes "unat m = 2 ^ k - 1"
  shows "unat (w AND m) = unat w mod 2 ^ k"
proof -
  have "unat (w AND m) = unat w AND unat m" by (simp add: unsigned_and_eq)
  also have "\<dots> = take_bit k (unat w)"
    using assms by (simp add: take_bit_eq_mask mask_eq_exp_minus_1)
  finally show ?thesis by (simp add: take_bit_eq_mod)
qed

end
