(* ===== verification/Allocator.thy ===== *)
theory Allocator
  imports Horreum_Prelude
begin

text \<open>
  \<^verbatim>\<open>internal/arena/allocator.go\<close>: the bump allocator with twelve segregated free lists that
  manages one mapped region. The record \<open>Allocator\<close> holds the bump pointer, the region size and
  the free lists (a \<^verbatim>\<open>*freeNode\<close> chain is the list of its offsets, head first); the mutex and the
  compare-and-swap of the bump pointer are taken in one step, as a call that is not interfered
  with. \<open>alloc_inv\<close> is the allocator's contract: live and free blocks are aligned, lie between
  the reserved prefix and the bump pointer, and never overlap.
\<close>

section \<open>Definitions\<close>

datatype arena_error = ErrArenaFull | ErrOffsetInvalid | ErrSizeTooLarge | ErrMmap | ArenaPanic

definition alignBytes :: nat where "alignBytes = 8"
definition numSizeClasses :: nat where "numSizeClasses = 12"

definition sizeClasses :: "u32 list" where
  "sizeClasses = [8, 16, 32, 64, 128, 256, 512, 1024, 2048, 4096, 8192, 0]"

record Allocator =
  al_offset :: u64
  al_size :: u32
  al_fl :: "u32 list list"

definition alloc_Init :: "u32 \<Rightarrow> Allocator" where
  "alloc_Init sz = \<lparr>al_offset = 0, al_size = sz, al_fl = replicate numSizeClasses []\<rparr>"

definition alloc_Skip :: "Allocator \<Rightarrow> u32 \<Rightarrow> Allocator" where
  "alloc_Skip a n = a\<lparr>al_offset := ucast n\<rparr>"

definition sizeClass :: "u32 \<Rightarrow> nat" where
  "sizeClass n =
    (if n \<le> 8 then 0 else if n \<le> 16 then 1 else if n \<le> 32 then 2 else if n \<le> 64 then 3
     else if n \<le> 128 then 4 else if n \<le> 256 then 5 else if n \<le> 512 then 6
     else if n \<le> 1024 then 7 else if n \<le> 2048 then 8 else if n \<le> 4096 then 9
     else if n \<le> 8192 then 10 else 11)"

definition classSize :: "nat \<Rightarrow> u32" where
  "classSize cls = (if cls < numSizeClasses - 1 then sizeClasses ! cls else 0)"

text \<open>The size the bump branch reserves for a request of \<open>n\<close> bytes (\<open>n \<noteq> 0\<close>).\<close>

definition allocSize :: "u32 \<Rightarrow> u32" where
  "allocSize n =
    (if sizeClass n < numSizeClasses - 1 then classSize (sizeClass n) else (n + 8 - 1) AND NOT 7)"

definition Alloc :: "Allocator \<Rightarrow> u32 \<Rightarrow> (arena_error + u32) \<times> Allocator" where
  "Alloc a n0 =
    (let n = (if n0 = 0 then 1 else n0); cls = sizeClass n in
     if cls < numSizeClasses - 1 \<and> al_fl a ! cls \<noteq> []
     then (Inr (hd (al_fl a ! cls)), a\<lparr>al_fl := (al_fl a)[cls := tl (al_fl a ! cls)]\<rparr>)
     else
       let cur = al_offset a; aligned = (cur + 8 - 1) AND NOT 7; newOff = aligned + ucast (allocSize n)
       in if newOff > ucast (al_size a) then (Inl ErrArenaFull, a)
          else (Inr (ucast aligned), a\<lparr>al_offset := newOff\<rparr>))"

definition alloc_Free :: "Allocator \<Rightarrow> u32 \<Rightarrow> u32 \<Rightarrow> Allocator" where
  "alloc_Free a off sz =
    (let cls = sizeClass sz in
     if cls \<ge> numSizeClasses - 1 then a
     else a\<lparr>al_fl := (al_fl a)[cls := off # (al_fl a ! cls)]\<rparr>)"

record AllocStats =
  st_used :: u64
  st_free :: u64
  st_freelist :: u64

definition alloc_Stats :: "Allocator \<Rightarrow> AllocStats" where
  "alloc_Stats a =
    \<lparr>st_used = al_offset a, st_free = ucast (al_size a) - al_offset a,
     st_freelist = of_nat (sum_list (map length (al_fl a)))\<rparr>"

subsection \<open>Contract\<close>

text \<open>A block is its first byte and its length; \<open>blockOf off size\<close> is the block a handle owns.\<close>

type_synonym block = "nat \<times> nat"

definition blockLen :: "u32 \<Rightarrow> nat" where
  "blockLen n = unat (allocSize (if n = 0 then 1 else n))"

definition blockOf :: "u32 \<Rightarrow> u32 \<Rightarrow> block" where
  "blockOf off n = (unat off, blockLen n)"

definition apart :: "block \<Rightarrow> block \<Rightarrow> bool" where
  "apart x y \<longleftrightarrow> fst x + snd x \<le> fst y \<or> fst y + snd y \<le> fst x"

definition class_blocks :: "Allocator \<Rightarrow> nat \<Rightarrow> block list" where
  "class_blocks a c = map (\<lambda>off. (unat off, unat (classSize c))) (al_fl a ! c)"

definition free_blocks :: "Allocator \<Rightarrow> block list" where
  "free_blocks a = concat (map (class_blocks a) [0..<numSizeClasses - 1])"

definition placed :: "nat \<Rightarrow> nat \<Rightarrow> block \<Rightarrow> bool" where
  "placed base lim b \<longleftrightarrow> 8 dvd fst b \<and> 8 \<le> snd b \<and> base \<le> fst b \<and> fst b + snd b \<le> lim"

definition alloc_inv :: "nat \<Rightarrow> Allocator \<Rightarrow> block set \<Rightarrow> bool" where
  "alloc_inv base a L \<longleftrightarrow>
     length (al_fl a) = numSizeClasses \<and>
     base \<le> unat (al_offset a) \<and> unat (al_offset a) \<le> unat (al_size a) \<and>
     (\<forall>b \<in> set (free_blocks a) \<union> L. placed base (unat (al_offset a)) b) \<and>
     (\<forall>x \<in> set (free_blocks a) \<union> L. \<forall>y \<in> set (free_blocks a) \<union> L. x \<noteq> y \<longrightarrow> apart x y) \<and>
     distinct (free_blocks a) \<and> set (free_blocks a) \<inter> L = {}"

section \<open>Size classes\<close>

lemmas size_class_defs = sizeClass_def classSize_def sizeClasses_def numSizeClasses_def

lemma numSizeClasses_simps [simp]: "numSizeClasses = 12" "numSizeClasses - Suc 0 = 11"
  by (simp_all add: numSizeClasses_def)

lemma sizeClass_le [simp]: "sizeClass n \<le> 11"
  by (simp add: sizeClass_def)

lemma sizeClass_zero [simp]: "sizeClass 0 = 0" "sizeClass 1 = 0"
  by (simp_all add: sizeClass_def)

lemma classSize_bounds:
  assumes "c < 11"
  shows "8 \<le> unat (classSize c)" "unat (classSize c) \<le> 8192" "8 dvd unat (classSize c)"
proof -
  have "[8, 16, 32, 64, 128, 256, 512, 1024, 2048, 4096, 8192] ! c
      \<in> set [8, 16, 32, 64, 128, 256, 512, 1024, 2048, 4096, 8192 :: u32]"
    using assms by (intro nth_mem) simp
  moreover have "classSize c = [8, 16, 32, 64, 128, 256, 512, 1024, 2048, 4096, 8192] ! c"
    using assms nth_append [of "[8, 16, 32, 64, 128, 256, 512, 1024, 2048, 4096, 8192 :: u32]" "[0]" c]
    by (simp add: classSize_def sizeClasses_def)
  ultimately have "classSize c \<in> {8, 16, 32, 64, 128, 256, 512, 1024, 2048, 4096, 8192}" by simp
  then show "8 \<le> unat (classSize c)" "unat (classSize c) \<le> 8192" "8 dvd unat (classSize c)"
    by auto
qed


lemma sizeClass_large: "sizeClass n = 11 \<longleftrightarrow> 8192 < n"
proof (cases "8192 < n")
  case True
  then have "\<not> n \<le> k" if "k \<le> 8192" for k using that by (meson leD order.strict_trans1 order.trans)
  with True show ?thesis by (simp add: sizeClass_def)
next
  case False
  then show ?thesis by (simp add: sizeClass_def not_less)
qed

lemma sizeClass_fits: "sizeClass n < 11 \<Longrightarrow> n \<le> classSize (sizeClass n)"
proof -
  assume "sizeClass n < 11"
  then have "n \<le> 8192" using sizeClass_large [of n] by (simp add: not_less)
  then show ?thesis unfolding sizeClass_def by (simp add: classSize_def sizeClasses_def)
qed

subsection \<open>Rounding up to the alignment\<close>

lemma and_not_7: "unat ((w :: 'a::len word) AND NOT 7) = 8 * (unat w div 8)"
proof -
  have seven: "(7 :: 'a word) = mask 3" by (simp add: mask_eq_exp_minus_1)
  have "w AND NOT (mask 3) = push_bit 3 (drop_bit 3 w)"
    by (rule bit_word_eqI)
      (auto simp: bit_and_iff bit_not_iff bit_push_bit_iff bit_drop_bit_eq bit_mask_iff possible_bit_def)
  then have "unat (w AND NOT 7) = unat (push_bit 3 (drop_bit 3 w))" by (simp only: seven)
  also have "\<dots> = take_bit LENGTH('a) (push_bit 3 (drop_bit 3 (unat w)))"
    by (simp add: unsigned_push_bit_eq unsigned_drop_bit_eq take_bit_nat_eq_self)
  also have "\<dots> = push_bit 3 (drop_bit 3 (unat w))"
  proof (rule take_bit_nat_eq_self)
    have "push_bit 3 (drop_bit 3 (unat w)) \<le> unat w"
      by (simp add: push_bit_eq_mult drop_bit_eq_div)
    also have "unat w < 2 ^ LENGTH('a)" by (rule unsigned_less)
    finally show "push_bit 3 (drop_bit 3 (unat w)) < 2 ^ LENGTH('a)" .
  qed
  finally show ?thesis by (simp add: push_bit_eq_mult drop_bit_eq_div)
qed

lemma align_up_u64:
  fixes w :: u64
  assumes "unat w < 4294967296"
  shows "unat ((w + 8 - 1) AND NOT 7) = 8 * ((unat w + 7) div 8)"
proof -
  have "unat (w + 8 - 1) = unat w + 7"
    using assms by (simp add: unat_word_ariths)
  then show ?thesis by (simp only: and_not_7)
qed

lemma align_up_u32:
  fixes w :: u32
  assumes "unat w \<le> 67108864"
  shows "unat ((w + 8 - 1) AND NOT 7) = 8 * ((unat w + 7) div 8)"
proof -
  have "unat (w + 8 - 1) = unat w + 7"
    using assms by (simp add: unat_word_ariths)
  then show ?thesis by (simp only: and_not_7)
qed

subsection \<open>Block lengths\<close>

lemma allocSize_small: "sizeClass n < 11 \<Longrightarrow> allocSize n = classSize (sizeClass n)"
  by (simp add: allocSize_def)

lemma allocSize_large:
  "sizeClass n = 11 \<Longrightarrow> unat n \<le> 67108864 \<Longrightarrow> unat (allocSize n) = 8 * ((unat n + 7) div 8)"
  using align_up_u32 [of n] by (simp add: allocSize_def)

lemma allocSize_bounds:
  assumes "n \<noteq> 0" "unat n \<le> 67108864"
  shows "unat n \<le> unat (allocSize n)" "8 \<le> unat (allocSize n)" "8 dvd unat (allocSize n)"
    "unat (allocSize n) \<le> 67108864"
proof -
  have n0: "0 < unat n" using assms(1) by (simp add: unat_gt_0)
  consider "sizeClass n < 11" | "sizeClass n = 11"
    using sizeClass_le [of n] le_neq_implies_less by blast
  then have "unat n \<le> unat (allocSize n) \<and> 8 \<le> unat (allocSize n) \<and> 8 dvd unat (allocSize n)
      \<and> unat (allocSize n) \<le> 67108864"
  proof cases
    case 1
    then show ?thesis
      using sizeClass_fits [OF 1] classSize_bounds [OF 1] by (simp add: allocSize_small word_le_nat_alt)
  next
    case 2
    show ?thesis unfolding allocSize_large [OF 2 assms(2)] using n0 assms(2) by auto
  qed
  then show "unat n \<le> unat (allocSize n)" "8 \<le> unat (allocSize n)" "8 dvd unat (allocSize n)"
    "unat (allocSize n) \<le> 67108864" by auto
qed

lemma blockLen_bounds:
  assumes "unat n \<le> 67108864"
  shows "unat n \<le> blockLen n" "8 \<le> blockLen n" "8 dvd blockLen n" "blockLen n \<le> 67108864"
  using allocSize_bounds [of "if n = 0 then 1 else n"] assms by (auto simp: blockLen_def)

lemma blockLen_class: "sizeClass n < 11 \<Longrightarrow> blockLen n = unat (classSize (sizeClass n))"
  by (simp add: blockLen_def allocSize_small)

section \<open>The free lists as a multiset of blocks\<close>

lemma mset_free_blocks: "mset (free_blocks a) = (\<Sum>c<11. mset (class_blocks a c))"
  by (simp add: free_blocks_def mset_concat comp_def interv_sum_list_conv_sum_set_nat atLeast0LessThan)

lemma mset_free_push:
  assumes "c < 11" "length (al_fl a) = 12"
  shows "mset (free_blocks (a\<lparr>al_fl := (al_fl a)[c := off # (al_fl a ! c)]\<rparr>))
    = add_mset (unat off, unat (classSize c)) (mset (free_blocks a))"
proof -
  let ?a = "a\<lparr>al_fl := (al_fl a)[c := off # (al_fl a ! c)]\<rparr>"
  have same: "class_blocks ?a d = class_blocks a d" if "d \<noteq> c" for d
    using that by (simp add: class_blocks_def)
  have at_c: "class_blocks ?a c = (unat off, unat (classSize c)) # class_blocks a c"
    using assms by (simp add: class_blocks_def)
  have "(\<Sum>d<11. mset (class_blocks ?a d)) = mset (class_blocks ?a c) + (\<Sum>d\<in>{..<11} - {c}. mset (class_blocks ?a d))"
    using assms(1) by (simp add: sum.remove)
  also have "(\<Sum>d\<in>{..<11} - {c}. mset (class_blocks ?a d)) = (\<Sum>d\<in>{..<11} - {c}. mset (class_blocks a d))"
    by (rule sum.cong) (auto simp: same)
  also have "mset (class_blocks ?a c) + \<dots> = add_mset (unat off, unat (classSize c)) (\<Sum>d<11. mset (class_blocks a d))"
    using assms(1) by (simp add: at_c sum.remove)
  finally show ?thesis by (simp add: mset_free_blocks)
qed

lemma mset_free_pop:
  assumes "c < 11" "length (al_fl a) = 12" "al_fl a ! c \<noteq> []"
  shows "mset (free_blocks a) = add_mset (unat (hd (al_fl a ! c)), unat (classSize c))
    (mset (free_blocks (a\<lparr>al_fl := (al_fl a)[c := tl (al_fl a ! c)]\<rparr>)))"
  using mset_free_push [of c "a\<lparr>al_fl := (al_fl a)[c := tl (al_fl a ! c)]\<rparr>" "hd (al_fl a ! c)"] assms
  by simp

lemma free_blocks_offset [simp]: "free_blocks (a\<lparr>al_offset := x\<rparr>) = free_blocks a"
proof -
  have "class_blocks (a\<lparr>al_offset := x\<rparr>) = class_blocks a"
    by (simp add: class_blocks_def fun_eq_iff)
  then show ?thesis by (simp add: free_blocks_def)
qed

section \<open>The contract is kept by every operation\<close>

lemma apart_commute: "apart x y \<longleftrightarrow> apart y x"
  by (auto simp: apart_def)

lemma placed_mono: "placed base lim b \<Longrightarrow> lim \<le> lim' \<Longrightarrow> placed base lim' b"
  by (auto simp: placed_def)

lemma alloc_inv_Init: "alloc_inv 0 (alloc_Init sz) {}"
proof -
  have "free_blocks (alloc_Init sz) = []"
    by (auto simp: free_blocks_def class_blocks_def alloc_Init_def)
  then show ?thesis by (simp add: alloc_inv_def alloc_Init_def)
qed

lemma alloc_inv_Skip:
  assumes "unat n \<le> unat sz"
  shows "alloc_inv (unat n) (alloc_Skip (alloc_Init sz) n) {}"
proof -
  have "free_blocks (alloc_Init sz) = []"
    by (auto simp: free_blocks_def class_blocks_def alloc_Init_def)
  then show ?thesis using assms by (simp add: alloc_inv_def alloc_Skip_def) (simp add: alloc_Init_def)
qed

text \<open>Taking a block from a free list moves it from the free to the live side.\<close>

lemma alloc_inv_pop:
  assumes inv: "alloc_inv base a L" and c: "c < 11" "al_fl a ! c \<noteq> []"
    and b: "b = (unat (hd (al_fl a ! c)), unat (classSize c))"
  shows "alloc_inv base (a\<lparr>al_fl := (al_fl a)[c := tl (al_fl a ! c)]\<rparr>) (insert b L)"
    and "b \<notin> L" and "\<forall>x \<in> L. apart x b" and "placed base (unat (al_offset a)) b"
proof -
  let ?a = "a\<lparr>al_fl := (al_fl a)[c := tl (al_fl a ! c)]\<rparr>"
  have len: "length (al_fl a) = 12" using inv by (simp add: alloc_inv_def)
  have m: "mset (free_blocks a) = mset (b # free_blocks ?a)"
    using mset_free_pop [OF c(1) len c(2)] b by simp
  have set: "set (free_blocks a) = insert b (set (free_blocks ?a))"
    using mset_eq_setD [OF m] by simp
  have dist: "distinct (b # free_blocks ?a)"
    using mset_eq_imp_distinct_iff [OF m] inv by (simp add: alloc_inv_def)
  show "b \<notin> L" using inv set by (auto simp: alloc_inv_def)
  then show "\<forall>x \<in> L. apart x b" using inv set unfolding alloc_inv_def by blast
  show "placed base (unat (al_offset a)) b" using inv set by (simp add: alloc_inv_def)
  show "alloc_inv base ?a (insert b L)"
    using inv set dist \<open>b \<notin> L\<close> unfolding alloc_inv_def by auto
qed

text \<open>A bump allocation starts at or after the old bump pointer, past every block.\<close>

lemma alloc_inv_bump:
  assumes inv: "alloc_inv base a L" and n: "n \<noteq> 0" "unat n \<le> 67108864"
    and al: "aligned = (al_offset a + 8 - 1) AND NOT 7"
    and fits: "\<not> aligned + ucast (allocSize n) > ucast (al_size a)"
    and b: "b = (unat aligned, unat (allocSize n))"
  shows "alloc_inv base (a\<lparr>al_offset := aligned + ucast (allocSize n)\<rparr>) (insert b L)"
    and "b \<notin> L" and "\<forall>x \<in> L. apart x b"
    and "unat (ucast aligned :: u32) = unat aligned"
    and "fst b + snd b \<le> unat (al_size a)"
proof -
  have off: "unat (al_offset a) \<le> unat (al_size a)" using inv by (simp add: alloc_inv_def)
  have a: "unat aligned = 8 * ((unat (al_offset a) + 7) div 8)"
    unfolding al using off unat_u32_lt [of "al_size a"] by (intro align_up_u64) simp
  have ge: "unat (al_offset a) \<le> unat aligned" and le: "unat aligned \<le> unat (al_offset a) + 7"
    unfolding a by auto
  note asz = allocSize_bounds [OF n]
  have new: "unat (aligned + ucast (allocSize n)) = unat aligned + unat (allocSize n)"
    using asz le off unat_u32_lt [of "al_size a"] by (simp add: unat_word_ariths)
  have end_le: "unat aligned + unat (allocSize n) \<le> unat (al_size a)"
    using fits new by (simp add: word_less_nat_alt not_less)
  show "fst b + snd b \<le> unat (al_size a)" using end_le b by simp
  show "unat (ucast aligned :: u32) = unat aligned"
    using end_le unat_u32_lt [of "al_size a"] by (simp add: unsigned_ucast_eq take_bit_nat_eq_self)
  let ?B = "set (free_blocks a) \<union> L"
  have old: "placed base (unat (al_offset a)) x" if "x \<in> ?B" for x
    using inv that unfolding alloc_inv_def by blast
  have apart: "apart x b" and neq: "x \<noteq> b" if "x \<in> ?B" for x
    using old [OF that] ge asz b by (auto simp: placed_def apart_def)
  show "b \<notin> L" using neq by blast
  show "\<forall>x \<in> L. apart x b" using apart by auto
  have base: "base \<le> unat (al_offset a)" using inv by (simp add: alloc_inv_def)
  have "placed base (unat aligned + unat (allocSize n)) b"
    using b asz ge base a by (simp add: placed_def)
  moreover have "placed base (unat aligned + unat (allocSize n)) x" if "x \<in> ?B" for x
    using placed_mono [OF old [OF that]] ge by simp
  moreover have "\<forall>x \<in> ?B. \<forall>y \<in> ?B. x \<noteq> y \<longrightarrow> apart x y" "distinct (free_blocks a)"
    "set (free_blocks a) \<inter> L = {}" "length (al_fl a) = 12"
    using inv by (auto simp: alloc_inv_def)
  moreover have "apart b x" if "x \<in> ?B" for x using apart [OF that] apart_commute by blast
  moreover have "b \<notin> set (free_blocks a)" using neq by blast
  ultimately show "alloc_inv base (a\<lparr>al_offset := aligned + ucast (allocSize n)\<rparr>) (insert b L)"
    using base ge end_le apart unfolding alloc_inv_def
    by (auto simp: new)
qed

text \<open>The functional specification of \<^verbatim>\<open>Alloc\<close>.\<close>

lemma Alloc_Inr:
  assumes inv: "alloc_inv base a L" and n: "unat n \<le> 67108864" and r: "Alloc a n = (Inr off, a')"
  shows "alloc_inv base a' (insert (blockOf off n) L)" and "blockOf off n \<notin> L"
    and "\<forall>x \<in> L. apart x (blockOf off n)" and "al_size a' = al_size a"
    and "unat off + blockLen n \<le> unat (al_size a)" and "base \<le> unat off" and "8 dvd unat off"
proof -
  define m where "m = (if n = 0 then 1 else n)"
  have m: "m \<noteq> 0" "unat m \<le> 67108864" using n by (auto simp: m_def)
  have len: "blockLen n = unat (allocSize m)" by (simp add: blockLen_def m_def)
  have "alloc_inv base a' (insert (blockOf off n) L) \<and> blockOf off n \<notin> L
    \<and> (\<forall>x \<in> L. apart x (blockOf off n)) \<and> al_size a' = al_size a
    \<and> unat off + blockLen n \<le> unat (al_size a)"
  proof (cases "sizeClass m < 11 \<and> al_fl a ! sizeClass m \<noteq> []")
    case True
    then have off: "off = hd (al_fl a ! sizeClass m)"
      and a': "a' = a\<lparr>al_fl := (al_fl a)[sizeClass m := tl (al_fl a ! sizeClass m)]\<rparr>"
      using r by (auto simp: Alloc_def Let_def m_def split: if_splits)
    have b: "blockOf off n = (unat (hd (al_fl a ! sizeClass m)), unat (classSize (sizeClass m)))"
      using True by (simp add: blockOf_def off len allocSize_small)
    note pop = alloc_inv_pop [OF inv conjunct1 [OF True] conjunct2 [OF True] b, folded a']
    have "unat off + blockLen n \<le> unat (al_size a)"
      using pop(4) inv by (simp add: placed_def blockOf_def alloc_inv_def)
    with pop show ?thesis by (simp add: a')
  next
    case False
    let ?al = "(al_offset a + 8 - 1) AND NOT 7"
    have "Alloc a n = (if ?al + ucast (allocSize m) > ucast (al_size a) then (Inl ErrArenaFull, a)
        else (Inr (ucast ?al), a\<lparr>al_offset := ?al + ucast (allocSize m)\<rparr>))"
      unfolding Alloc_def Let_def m_def [symmetric] using False by auto
    with r have fits: "\<not> ?al + ucast (allocSize m) > ucast (al_size a)"
      and off: "off = ucast ?al" and a': "a' = a\<lparr>al_offset := ?al + ucast (allocSize m)\<rparr>"
      by (auto split: if_splits)
    note bump = alloc_inv_bump [OF inv m refl fits refl]
    have "blockOf off n = (unat ?al, unat (allocSize m))"
      unfolding blockOf_def off len using bump(4) by simp
    with bump show ?thesis by (simp add: a' blockOf_def)
  qed
  then show *: "alloc_inv base a' (insert (blockOf off n) L)" "blockOf off n \<notin> L"
    "\<forall>x \<in> L. apart x (blockOf off n)" "al_size a' = al_size a"
    "unat off + blockLen n \<le> unat (al_size a)" by auto
  from *(1) have "placed base (unat (al_offset a')) (blockOf off n)" by (simp add: alloc_inv_def)
  then show "base \<le> unat off" "8 dvd unat off" by (auto simp: placed_def blockOf_def)
qed

lemma Alloc_Inl: "Alloc a n = (Inl e, a') \<Longrightarrow> a' = a \<and> e = ErrArenaFull"
  by (auto simp: Alloc_def Let_def split: if_splits)

lemma alloc_inv_Free:
  assumes inv: "alloc_inv base a L" and b: "blockOf off n \<in> L"
  shows "alloc_inv base (alloc_Free a off n) (L - {blockOf off n})"
    and "al_size (alloc_Free a off n) = al_size a"
proof -
  let ?b = "blockOf off n"
  have len: "length (al_fl a) = 12" using inv by (simp add: alloc_inv_def)
  have keep: "alloc_inv base a (L - {?b})"
    using inv unfolding alloc_inv_def by auto
  have "alloc_inv base (alloc_Free a off n) (L - {?b})"
  proof (cases "sizeClass n < 11")
    case True
    let ?a = "a\<lparr>al_fl := (al_fl a)[sizeClass n := off # (al_fl a ! sizeClass n)]\<rparr>"
    have bb: "?b = (unat off, unat (classSize (sizeClass n)))"
      using True by (simp add: blockOf_def blockLen_class)
    have m: "mset (free_blocks ?a) = mset (?b # free_blocks a)"
      using mset_free_push [OF True len, of off] bb by simp
    have set: "set (free_blocks ?a) = insert ?b (set (free_blocks a))"
      using mset_eq_setD [OF m] by simp
    have notin: "?b \<notin> set (free_blocks a)" using inv b by (auto simp: alloc_inv_def)
    have dist: "distinct (free_blocks ?a)"
      using mset_eq_imp_distinct_iff [OF m] notin inv by (simp add: alloc_inv_def)
    have "set (free_blocks ?a) \<union> (L - {?b}) = set (free_blocks a) \<union> L"
      using set b by auto
    then have "alloc_inv base ?a (L - {?b})"
      using inv set dist len unfolding alloc_inv_def by auto
    then show ?thesis using True by (simp add: alloc_Free_def Let_def)
  next
    case False
    then have "alloc_Free a off n = a" by (simp add: alloc_Free_def Let_def)
    with keep show ?thesis by simp
  qed
  then show "alloc_inv base (alloc_Free a off n) (L - {?b})" .
  show "al_size (alloc_Free a off n) = al_size a" by (simp add: alloc_Free_def Let_def)
qed

end
