(* ===== verification/Arena.thy ===== *)
theory Arena
  imports Allocator
begin

text \<open>
  \<^verbatim>\<open>internal/arena/arena.go\<close>, \<^verbatim>\<open>view.go\<close> and the portable \<^verbatim>\<open>mmap_other.go\<close>: the manager that owns
  up to 256 mapped regions, stores blobs in them and hands out \<open>Handle\<close>s, and keeps one metadata
  word per eight bytes of region for the eviction policy.

  \<open>Manager\<close> is the struct: the atomically published slice of regions, the index of the current
  one (the pointer \<^verbatim>\<open>current\<close> is always \<^verbatim>\<open>regions[currentIdx]\<close>: the two are stored together),
  the region size and the live-object counter. The kernel's \<^verbatim>\<open>mmap\<close> is the parameter \<open>mmap\<close>
  (\<open>mmap_ok\<close>: a mapping has the requested length, and a failure is an error value); \<open>mmapRegion_other\<close> is the portable
  implementation of it. A call on a closed manager dereferences an unmapped region: \<open>ArenaPanic\<close>.

  \<open>mgr_inv m H\<close> says that \<open>m\<close> is a well-formed manager whose live handles are \<open>H\<close>; the operations
  keep it, \<open>Put\<close> returns a fresh handle that reads back what was stored, and nothing but \<open>Put\<close> on a
  freed block changes what a live handle reads.
\<close>

section \<open>Definitions\<close>

definition MaxObjectSize :: u32 where "MaxObjectSize = 67108864"
definition persistSuperblockBytes :: u64 where "persistSuperblockBytes = 4096"

definition persistReservedBytes :: "u64 \<Rightarrow> u32" where
  "persistReservedBytes regionSize =
    (let ck0 = regionSize div 8;
         ck1 = (if ck0 > 1048576 then 1048576 else ck0);
         ck = (if ck1 < persistSuperblockBytes then persistSuperblockBytes else ck1);
         reserved = persistSuperblockBytes + ck;
         cap = regionSize div 2
     in ucast (if reserved > cap then cap else reserved))"

record Handle =
  h_Offset :: u32
  h_Size :: u32
  h_Meta :: u16
  h_Region :: u8

record region =
  rg_data :: bytes
  rg_alloc :: Allocator
  rg_meta :: "u32 list option"

record Manager =
  mg_regions :: "region list"
  mg_currentIdx :: u32
  mg_size :: u64
  mg_anon :: bool
  mg_liveObjs :: u64
  mg_filePath :: string

type_synonym mmap_fn = "u64 \<Rightarrow> arena_error + bytes"
type_synonym mmap_file_fn = "string \<Rightarrow> u64 \<Rightarrow> bool \<Rightarrow> arena_error + bytes"

definition zeroHandle :: Handle where
  "zeroHandle = \<lparr>h_Offset = 0, h_Size = 0, h_Meta = 0, h_Region = 0\<rparr>"

definition mmapRegion_other :: mmap_fn where
  "mmapRegion_other sz = Inr (replicate (unat sz) 0)"

definition mmapFileRegion_other :: "(string \<Rightarrow> bool) \<Rightarrow> (string \<Rightarrow> bool) \<Rightarrow> mmap_file_fn" where
  "mmapFileRegion_other canCreate exists path sz create =
    (if (if create then canCreate path else exists path) then Inr (replicate (unat sz) 0)
     else Inl ErrMmap)"

definition newRegion :: "mmap_fn \<Rightarrow> u64 \<Rightarrow> arena_error + region" where
  "newRegion mmap sz =
    (case mmap sz of
       Inl e \<Rightarrow> Inl e
     | Inr d \<Rightarrow> Inr \<lparr>rg_data = d, rg_alloc = alloc_Init (ucast sz), rg_meta = None\<rparr>)"

text \<open>\<^verbatim>\<open>make([]atomic.Int32, uint32(len(data))/alignBytes)\<close>\<close>

definition makeMeta :: "bytes \<Rightarrow> u32 list" where
  "makeMeta d = replicate (unat (of_nat (length d) :: u32) div alignBytes) 0"

definition NewManager :: "mmap_fn \<Rightarrow> u64 \<Rightarrow> bool \<Rightarrow> arena_error + Manager" where
  "NewManager mmap regionSize persistent =
    (case newRegion mmap regionSize of
       Inl e \<Rightarrow> Inl e
     | Inr r \<Rightarrow> Inr \<lparr>mg_regions = [r\<lparr>rg_meta := Some (makeMeta (rg_data r))\<rparr>], mg_currentIdx = 0,
         mg_size = regionSize, mg_anon = (\<not> persistent), mg_liveObjs = 0, mg_filePath = []\<rparr>)"

definition OpenFileManager :: "mmap_file_fn \<Rightarrow> string \<Rightarrow> u64 \<Rightarrow> bool \<Rightarrow> arena_error + Manager" where
  "OpenFileManager mmapFile path regionSize create =
    (if regionSize = 0 then Inl ErrMmap
     else case mmapFile path regionSize create of
       Inl e \<Rightarrow> Inl e
     | Inr d \<Rightarrow> Inr \<lparr>mg_regions =
           [\<lparr>rg_data = d,
             rg_alloc = alloc_Skip (alloc_Init (ucast regionSize)) (persistReservedBytes regionSize),
             rg_meta = Some (makeMeta d)\<rparr>],
         mg_currentIdx = 0, mg_size = regionSize, mg_anon = False, mg_liveObjs = 0,
         mg_filePath = path\<rparr>)"

definition ensureMetaLocked :: "Manager \<Rightarrow> nat \<Rightarrow> Manager" where
  "ensureMetaLocked m i =
    (if i \<ge> length (mg_regions m) then m
     else case rg_meta (mg_regions m ! i) of
       Some _ \<Rightarrow> m
     | None \<Rightarrow> m\<lparr>mg_regions := (mg_regions m)[i :=
         (mg_regions m ! i)\<lparr>rg_meta := Some (makeMeta (rg_data (mg_regions m ! i)))\<rparr>]\<rparr>)"

definition EnsureMeta :: "Manager \<Rightarrow> u8 \<Rightarrow> Manager" where
  "EnsureMeta m regionIdx = ensureMetaLocked m (unat regionIdx)"

text \<open>
  The common tail of \<^verbatim>\<open>Put\<close> and \<^verbatim>\<open>putSlow\<close> once a block is allocated in region \<open>i\<close>: copy the value,
  count the object, make sure the metadata slice exists, clear the block's metadata word.
\<close>

definition putAt :: "Manager \<Rightarrow> nat \<Rightarrow> u32 \<Rightarrow> u32 \<Rightarrow> bytes \<Rightarrow> (arena_error + Handle) \<times> Manager" where
  "putAt m i off n value =
    (let reg = mg_regions m ! i;
         reg1 = reg\<lparr>rg_data := copy_at (rg_data reg) (unat off) (take (unat n) value)\<rparr>;
         m1 = m\<lparr>mg_regions := (mg_regions m)[i := reg1], mg_liveObjs := mg_liveObjs m + 1\<rparr>;
         m2 = ensureMetaLocked m1 i;
         reg2 = mg_regions m2 ! i
     in case rg_meta reg2 of
          None \<Rightarrow> (Inl ArenaPanic, m2)
        | Some ms \<Rightarrow>
            if unat off div alignBytes < length ms
            then (Inr \<lparr>h_Offset = off, h_Size = n, h_Meta = 0, h_Region = of_nat i\<rparr>,
                  m2\<lparr>mg_regions := (mg_regions m2)[i := reg2\<lparr>rg_meta := Some (ms[unat off div alignBytes := 0])\<rparr>]\<rparr>)
            else (Inl ArenaPanic, m2))"

definition setAlloc :: "Manager \<Rightarrow> nat \<Rightarrow> Allocator \<Rightarrow> Manager" where
  "setAlloc m i a = m\<lparr>mg_regions := (mg_regions m)[i := (mg_regions m ! i)\<lparr>rg_alloc := a\<rparr>]\<rparr>"

definition putSlow :: "mmap_fn \<Rightarrow> Manager \<Rightarrow> bytes \<Rightarrow> u32 \<Rightarrow> (arena_error + Handle) \<times> Manager" where
  "putSlow mmap m value n =
    (let i = unat (mg_currentIdx m) in
     case Alloc (rg_alloc (mg_regions m ! i)) n of
       (Inr off, a) \<Rightarrow> putAt (setAlloc m i a) i off n value
     | (Inl _, _) \<Rightarrow>
         let newIdx = length (mg_regions m) in
         if newIdx \<ge> 256 then (Inl ErrArenaFull, m)
         else case newRegion mmap (mg_size m) of
           Inl e \<Rightarrow> (Inl e, m)
         | Inr r \<Rightarrow>
             let m1 = m\<lparr>mg_regions := mg_regions m @ [r\<lparr>rg_meta := Some (makeMeta (rg_data r))\<rparr>],
                        mg_currentIdx := of_nat newIdx\<rparr>
             in case Alloc (rg_alloc r) n of
                  (Inl e, _) \<Rightarrow> (Inl e, m1)
                | (Inr off, a) \<Rightarrow> putAt (setAlloc m1 newIdx a) newIdx off n value)"

definition Put :: "mmap_fn \<Rightarrow> Manager \<Rightarrow> bytes \<Rightarrow> (arena_error + Handle) \<times> Manager" where
  "Put mmap m value =
    (let n = of_nat (length value) :: u32; i = unat (mg_currentIdx m) in
     if n > MaxObjectSize then (Inl ErrSizeTooLarge, m)
     else if i \<ge> length (mg_regions m) then (Inl ArenaPanic, m)
     else case Alloc (rg_alloc (mg_regions m ! i)) n of
       (Inr off, a) \<Rightarrow> putAt (setAlloc m i a) i off n value
     | (Inl _, _) \<Rightarrow> putSlow mmap m value n)"

definition unsafeView :: "bytes \<Rightarrow> u32 \<Rightarrow> u32 \<Rightarrow> arena_error + bytes" where
  "unsafeView d off sz =
    (if unat off < length d then Inr (slice d (unat off) (unat off + unat sz)) else Inl ArenaPanic)"

definition View :: "Manager \<Rightarrow> Handle \<Rightarrow> arena_error + bytes" where
  "View m h =
    (if unat (h_Region h) \<ge> length (mg_regions m) then Inl ErrOffsetInvalid
     else let reg = mg_regions m ! unat (h_Region h);
              fin = ucast (h_Offset h) + ucast (h_Size h) :: u64
          in if unat fin > length (rg_data reg) then Inl ErrOffsetInvalid
             else unsafeView (rg_data reg) (h_Offset h) (h_Size h))"

definition Free :: "Manager \<Rightarrow> Handle \<Rightarrow> (arena_error + unit) \<times> Manager" where
  "Free m h =
    (if unat (h_Region h) \<ge> length (mg_regions m) then (Inl ErrOffsetInvalid, m)
     else let i = unat (h_Region h); reg = mg_regions m ! i;
              fin = ucast (h_Offset h) + ucast (h_Size h) :: u64
          in if unat fin > length (rg_data reg) then (Inl ErrOffsetInvalid, m)
             else (Inr (), (setAlloc m i (alloc_Free (rg_alloc reg) (h_Offset h) (h_Size h)))
                     \<lparr>mg_liveObjs := mg_liveObjs m + NOT 0\<rparr>))"

record Stats =
  ss_UsedBytes :: u64
  ss_FreeBytes :: u64
  ss_LiveObjects :: u64
  ss_FreelistLen :: u64

text \<open>All fields of \<^verbatim>\<open>Stats\<close> but the floating-point \<^verbatim>\<open>Fragmentation\<close>.\<close>

definition mgr_Stats :: "Manager \<Rightarrow> Stats" where
  "mgr_Stats m =
    (let rs = map (\<lambda>r. alloc_Stats (rg_alloc r)) (mg_regions m);
         used = sum_list (map st_used rs)
     in \<lparr>ss_UsedBytes = (if mg_filePath m \<noteq> [] then used - ucast (persistReservedBytes (mg_size m)) else used),
         ss_FreeBytes = sum_list (map st_free rs),
         ss_LiveObjects = mg_liveObjs m,
         ss_FreelistLen = sum_list (map st_freelist rs)\<rparr>)"

definition SetLiveObjects :: "Manager \<Rightarrow> u64 \<Rightarrow> Manager" where
  "SetLiveObjects m n = m\<lparr>mg_liveObjs := n\<rparr>"

definition SetUsedBytes :: "Manager \<Rightarrow> u64 \<Rightarrow> Manager" where
  "SetUsedBytes m n =
    (if mg_regions m = [] then m
     else setAlloc m 0 ((rg_alloc (mg_regions m ! 0))
            \<lparr>al_offset := n + ucast (persistReservedBytes (mg_size m))\<rparr>))"

definition mgr_Close :: "Manager \<Rightarrow> Manager" where
  "mgr_Close m = m\<lparr>mg_regions := []\<rparr>"

subsection \<open>The metadata word of a handle\<close>

definition metaCell :: "Manager \<Rightarrow> Handle \<Rightarrow> u32 option" where
  "metaCell m h =
    (if unat (h_Region h) \<ge> length (mg_regions m) then None
     else case rg_meta (mg_regions m ! unat (h_Region h)) of
       None \<Rightarrow> None
     | Some ms \<Rightarrow>
         let idx = unat (h_Offset h) div alignBytes
         in if idx \<ge> length ms then None else Some (ms ! idx))"

definition setCell :: "Manager \<Rightarrow> Handle \<Rightarrow> u32 \<Rightarrow> Manager" where
  "setCell m h v =
    (let i = unat (h_Region h); reg = mg_regions m ! i in
     case rg_meta reg of
       None \<Rightarrow> m
     | Some ms \<Rightarrow> m\<lparr>mg_regions := (mg_regions m)[i := reg\<lparr>rg_meta := Some (ms[unat (h_Offset h) div alignBytes := v])\<rparr>]\<rparr>)"

definition freqMask :: u32 where "freqMask = 3"

definition IncFreq :: "Manager \<Rightarrow> Handle \<Rightarrow> u16 \<times> Manager" where
  "IncFreq m h =
    (case metaCell m h of
       None \<Rightarrow> (0, m)
     | Some cur \<Rightarrow>
         let freq = cur AND freqMask;
             nxt = (cur AND NOT freqMask) OR ((freq + 1) AND freqMask)
         in (ucast ((freq + 1) AND freqMask), setCell m h nxt))"

definition GetFreq :: "Manager \<Rightarrow> Handle \<Rightarrow> u16" where
  "GetFreq m h = (case metaCell m h of None \<Rightarrow> 0 | Some cur \<Rightarrow> ucast (cur AND freqMask))"

definition SetFreq :: "Manager \<Rightarrow> Handle \<Rightarrow> u16 \<Rightarrow> Manager" where
  "SetFreq m h freq =
    (case metaCell m h of
       None \<Rightarrow> m
     | Some cur \<Rightarrow> setCell m h ((cur AND NOT freqMask) OR (ucast freq AND freqMask)))"

definition SetMeta :: "Manager \<Rightarrow> Handle \<Rightarrow> u16 \<Rightarrow> Manager" where
  "SetMeta m h meta = (case metaCell m h of None \<Rightarrow> m | Some _ \<Rightarrow> setCell m h (ucast meta))"

definition GetMeta :: "Manager \<Rightarrow> Handle \<Rightarrow> u16" where
  "GetMeta m h = (case metaCell m h of None \<Rightarrow> 0 | Some cur \<Rightarrow> ucast cur)"

definition CASMeta :: "Manager \<Rightarrow> Handle \<Rightarrow> u16 \<Rightarrow> u16 \<Rightarrow> bool \<times> Manager" where
  "CASMeta m h old new =
    (case metaCell m h of
       None \<Rightarrow> (False, m)
     | Some cur \<Rightarrow> if cur = ucast old then (True, setCell m h (ucast new)) else (False, m))"

text \<open>
  The two read-modify-write loops compare the 32-bit word with its own low half: when the word has
  a high bit the swap never succeeds, and the loop does not return.
\<close>

definition casLoop16 :: "Manager \<Rightarrow> Handle \<Rightarrow> (u16 \<Rightarrow> u16) \<Rightarrow> Manager option" where
  "casLoop16 m h f =
    (case metaCell m h of
       None \<Rightarrow> Some m
     | Some cell \<Rightarrow>
         let current = ucast cell :: u16; newVal = f current
         in if newVal = current then Some m
            else if cell = ucast current then Some (setCell m h (ucast newVal))
            else None)"

definition OrMetaBits :: "Manager \<Rightarrow> Handle \<Rightarrow> u16 \<Rightarrow> Manager option" where
  "OrMetaBits m h bits = casLoop16 m h (\<lambda>current. current OR bits)"

definition ClearMetaBits :: "Manager \<Rightarrow> Handle \<Rightarrow> u16 \<Rightarrow> Manager option" where
  "ClearMetaBits m h msk = casLoop16 m h (\<lambda>current. current AND NOT msk)"

definition QueueTagMask :: u16 where "QueueTagMask = 12"
definition QueueTagNone :: u16 where "QueueTagNone = 0"
definition QueueTagS :: u16 where "QueueTagS = 4"
definition QueueTagM :: u16 where "QueueTagM = 8"
definition CompressedFlag :: u16 where "CompressedFlag = 16"
definition EncryptedFlag :: u16 where "EncryptedFlag = 32"

subsection \<open>Contract\<close>

definition mmap_ok :: "mmap_fn \<Rightarrow> bool" where
  "mmap_ok mmap \<longleftrightarrow> (\<forall>sz. mmap sz \<noteq> Inl ArenaPanic) \<and> (\<forall>sz d. mmap sz = Inr d \<longrightarrow> length d = unat sz)"

definition regBase :: "Manager \<Rightarrow> nat \<Rightarrow> nat" where
  "regBase m i = (if i = 0 \<and> mg_filePath m \<noteq> [] then unat (persistReservedBytes (mg_size m)) else 0)"

definition liveBlocks :: "Handle set \<Rightarrow> nat \<Rightarrow> block set" where
  "liveBlocks H i = (\<lambda>h. blockOf (h_Offset h) (h_Size h)) ` {h \<in> H. unat (h_Region h) = i}"

definition region_ok :: "u64 \<Rightarrow> region \<Rightarrow> bool" where
  "region_ok sz r \<longleftrightarrow>
     length (rg_data r) = unat sz \<and> al_size (rg_alloc r) = ucast sz \<and>
     (case rg_meta r of None \<Rightarrow> False
      | Some ms \<Rightarrow> length ms = unat (ucast sz :: u32) div 8 \<and> (\<forall>v \<in> set ms. unat v < 65536))"

definition mgr_inv :: "Manager \<Rightarrow> Handle set \<Rightarrow> bool" where
  "mgr_inv m H \<longleftrightarrow>
     length (mg_regions m) \<le> 256 \<and> unat (mg_currentIdx m) < length (mg_regions m) \<and>
     (\<forall>r \<in> set (mg_regions m). region_ok (mg_size m) r) \<and>
     (\<forall>i < length (mg_regions m). alloc_inv (regBase m i) (rg_alloc (mg_regions m ! i)) (liveBlocks H i)) \<and>
     (\<forall>h \<in> H. unat (h_Region h) < length (mg_regions m) \<and> unat (h_Size h) \<le> 67108864) \<and>
     inj_on (\<lambda>h. (h_Region h, h_Offset h)) H"

section \<open>Well-formed managers\<close>

lemma region_okE:
  assumes "region_ok sz r"
  obtains ms where "rg_meta r = Some ms" "length ms = unat (ucast sz :: u32) div 8"
    "\<forall>v \<in> set ms. unat v < 65536" "length (rg_data r) = unat sz" "al_size (rg_alloc r) = ucast sz"
  using assms by (auto simp: region_ok_def split: option.splits)

lemma unat_ucast_le: "unat (ucast (w :: u64) :: u32) \<le> unat w"
  by (simp add: unsigned_ucast_eq take_bit_eq_mod)

lemma mgr_inv_region:
  assumes "mgr_inv m H" "i < length (mg_regions m)"
  shows "region_ok (mg_size m) (mg_regions m ! i)"
    and "alloc_inv (regBase m i) (rg_alloc (mg_regions m ! i)) (liveBlocks H i)"
  using assms by (auto simp: mgr_inv_def)

lemma makeMeta_ok:
  assumes "length d = unat sz"
  shows "length (makeMeta d) = unat (ucast sz :: u32) div 8" "\<forall>v \<in> set (makeMeta d). unat v < 65536"
proof -
  have "(of_nat (length d) :: u32) = ucast sz" using assms by simp
  then show "length (makeMeta d) = unat (ucast sz :: u32) div 8" by (simp add: makeMeta_def alignBytes_def)
  show "\<forall>v \<in> set (makeMeta d). unat v < 65536" by (simp add: makeMeta_def)
qed

lemma newRegion_ok:
  assumes "mmap_ok mmap" "newRegion mmap sz = Inr r"
  shows "region_ok sz (r\<lparr>rg_meta := Some (makeMeta (rg_data r))\<rparr>)" "rg_alloc r = alloc_Init (ucast sz)"
  using assms makeMeta_ok [of "rg_data r" sz]
  by (auto simp: newRegion_def mmap_ok_def region_ok_def alloc_Init_def split: sum.splits)

lemma liveBlocks_empty [simp]: "liveBlocks {} i = {}"
  by (simp add: liveBlocks_def)

lemma liveBlocks_insert:
  "liveBlocks (insert h H) i =
    (if unat (h_Region h) = i then insert (blockOf (h_Offset h) (h_Size h)) (liveBlocks H i) else liveBlocks H i)"
  by (auto simp: liveBlocks_def)

lemma NewManager_inv:
  assumes "mmap_ok mmap" "NewManager mmap sz p = Inr m"
  shows "mgr_inv m {}"
  using assms newRegion_ok [OF assms(1)] alloc_inv_Init
  by (auto simp: NewManager_def mgr_inv_def regBase_def split: sum.splits)

lemma persistReserved_le: "unat (persistReservedBytes sz) \<le> unat (ucast sz :: u32) \<or> 4294967296 \<le> unat sz"
proof -
  let ?ck0 = "sz div 8"
  let ?ck1 = "if ?ck0 > 1048576 then 1048576 else ?ck0 :: u64"
  let ?ck = "if ?ck1 < 4096 then 4096 else ?ck1 :: u64"
  have ck: "unat ?ck \<le> 1048576" by (auto simp: word_less_nat_alt word_le_nat_alt not_less split: if_splits)
  let ?res = "(4096 :: u64) + ?ck"
  let ?x = "if ?res > sz div 2 then sz div 2 else ?res"
  have "unat ?x \<le> unat sz div 2" by (auto simp: word_less_nat_alt not_less unat_div)
  moreover have "unat (persistReservedBytes sz) \<le> unat ?x"
    unfolding persistReservedBytes_def persistSuperblockBytes_def Let_def by (rule unat_ucast_le)
  ultimately have "unat (persistReservedBytes sz) \<le> unat sz" by linarith
  moreover have "unat (ucast sz :: u32) = unat sz" if "unat sz < 4294967296"
    using that by (simp add: unsigned_ucast_eq take_bit_nat_eq_self)
  ultimately show ?thesis by (cases "unat sz < 4294967296") auto
qed

lemma OpenFileManager_inv:
  assumes "mmapFile path sz create = Inr d" "length d = unat sz" "unat sz < 4294967296" "path \<noteq> []"
    "OpenFileManager mmapFile path sz create = Inr m"
  shows "mgr_inv m {}"
proof -
  have "unat (persistReservedBytes sz) \<le> unat (ucast sz :: u32)"
    using persistReserved_le [of sz] assms(3) by auto
  from alloc_inv_Skip [OF this] show ?thesis
    using assms makeMeta_ok [of d sz]
    by (auto simp: OpenFileManager_def mgr_inv_def regBase_def region_ok_def alloc_Skip_def alloc_Init_def
        split: if_splits)
qed

subsection \<open>Reading a live handle\<close>

lemma live_block:
  assumes inv: "mgr_inv m H" and h: "h \<in> H"
  shows "unat (h_Region h) < length (mg_regions m)"
    and "blockOf (h_Offset h) (h_Size h) \<in> liveBlocks H (unat (h_Region h))"
    and "placed (regBase m (unat (h_Region h))) (unat (al_offset (rg_alloc (mg_regions m ! unat (h_Region h)))))
           (blockOf (h_Offset h) (h_Size h))"
    and "unat (h_Offset h) + blockLen (h_Size h) \<le> unat (ucast (mg_size m) :: u32)"
    and "unat (h_Size h) \<le> blockLen (h_Size h)"
proof -
  show i: "unat (h_Region h) < length (mg_regions m)" using assms by (auto simp: mgr_inv_def)
  show b: "blockOf (h_Offset h) (h_Size h) \<in> liveBlocks H (unat (h_Region h))"
    using h by (auto simp: liveBlocks_def)
  note r = mgr_inv_region [OF inv i]
  show p: "placed (regBase m (unat (h_Region h))) (unat (al_offset (rg_alloc (mg_regions m ! unat (h_Region h)))))
           (blockOf (h_Offset h) (h_Size h))"
    using r(2) b by (auto simp: alloc_inv_def)
  have "al_size (rg_alloc (mg_regions m ! unat (h_Region h))) = ucast (mg_size m)"
    using r(1) by (auto elim: region_okE)
  then show "unat (h_Offset h) + blockLen (h_Size h) \<le> unat (ucast (mg_size m) :: u32)"
    using p r(2) by (auto simp: placed_def blockOf_def alloc_inv_def)
  show "unat (h_Size h) \<le> blockLen (h_Size h)"
    using assms blockLen_bounds(1) by (auto simp: mgr_inv_def)
qed

lemma unat_end: "unat (ucast (a :: u32) + ucast (b :: u32) :: u64) = unat a + unat b"
  using unat_u32_lt [of a] unat_u32_lt [of b] by (simp add: unat_word_ariths)

lemma View_live:
  assumes inv: "mgr_inv m H" and h: "h \<in> H"
  shows "View m h = Inr (slice (rg_data (mg_regions m ! unat (h_Region h))) (unat (h_Offset h))
           (unat (h_Offset h) + unat (h_Size h)))"
proof -
  note b = live_block [OF inv h]
  have d: "length (rg_data (mg_regions m ! unat (h_Region h))) = unat (mg_size m)"
    using mgr_inv_region(1) [OF inv b(1)] by (auto elim: region_okE)
  have "unat (h_Offset h) + blockLen (h_Size h) \<le> unat (mg_size m)"
    using b(4) unat_ucast_le [of "mg_size m"] by linarith
  moreover have "8 \<le> blockLen (h_Size h)" using b(3) by (simp add: placed_def blockOf_def)
  ultimately show ?thesis
    using b(1,5) d by (simp add: View_def unsafeView_def Let_def unat_end)
qed

lemma metaCell_live:
  assumes inv: "mgr_inv m H" and h: "h \<in> H"
  obtains ms where "rg_meta (mg_regions m ! unat (h_Region h)) = Some ms"
    "unat (h_Offset h) div 8 < length ms" "metaCell m h = Some (ms ! (unat (h_Offset h) div 8))"
    "unat (ms ! (unat (h_Offset h) div 8)) < 65536"
proof -
  note b = live_block [OF inv h]
  obtain ms where ms: "rg_meta (mg_regions m ! unat (h_Region h)) = Some ms"
    "length ms = unat (ucast (mg_size m) :: u32) div 8" "\<forall>v \<in> set ms. unat v < 65536"
    using mgr_inv_region(1) [OF inv b(1)] by (auto elim: region_okE)
  have "unat (h_Offset h) + 8 \<le> unat (ucast (mg_size m) :: u32)"
    using b(3,4) by (simp add: placed_def blockOf_def)
  then have idx: "unat (h_Offset h) div 8 < length ms" using ms(2) by linarith
  then show ?thesis using that [OF ms(1) idx] b(1) ms by (simp add: metaCell_def alignBytes_def)
qed

section \<open>Put\<close>

text \<open>The state after a successful \<open>putAt\<close>, in one step.\<close>

definition stored :: "Manager \<Rightarrow> nat \<Rightarrow> Allocator \<Rightarrow> u32 \<Rightarrow> bytes \<Rightarrow> u32 list \<Rightarrow> Manager" where
  "stored m i a off v ms = m\<lparr>mg_liveObjs := mg_liveObjs m + 1,
     mg_regions := (mg_regions m)[i := (mg_regions m ! i)\<lparr>rg_alloc := a,
       rg_data := copy_at (rg_data (mg_regions m ! i)) (unat off) v,
       rg_meta := Some (ms[unat off div 8 := 0])\<rparr>]\<rparr>"

lemma putAt_eq:
  assumes "i < length (mg_regions m)" "rg_meta (mg_regions m ! i) = Some ms" "unat off div 8 < length ms"
  shows "putAt (setAlloc m i a) i off n v =
    (Inr \<lparr>h_Offset = off, h_Size = n, h_Meta = 0, h_Region = of_nat i\<rparr>, stored m i a off (take (unat n) v) ms)"
  using assms by (simp add: putAt_def setAlloc_def ensureMetaLocked_def Let_def alignBytes_def stored_def)

lemma unat_of_nat_region: "i < 256 \<Longrightarrow> unat (of_nat i :: u8) = i"
  by (simp add: unat_of_nat)

text \<open>Two live blocks of one region start at different multiples of eight.\<close>

lemma apart_offsets:
  assumes "apart (blockOf o1 n1) (blockOf o2 n2)" "8 \<le> blockLen n1" "8 \<le> blockLen n2"
  shows "o1 \<noteq> o2"
  using assms by (auto simp: apart_def blockOf_def)

lemma div8_neq: "8 dvd a \<Longrightarrow> 8 dvd b \<Longrightarrow> a \<noteq> b \<Longrightarrow> a div 8 \<noteq> (b::nat) div 8"
  by (metis dvd_mult_div_cancel)

text \<open>One allocation in region \<open>i\<close> on behalf of \<open>Put v\<close>, and the handle it yields.\<close>

definition put_step ::
  "Manager \<Rightarrow> Handle set \<Rightarrow> nat \<Rightarrow> bytes \<Rightarrow> u32 \<Rightarrow> Allocator \<Rightarrow> u32 list \<Rightarrow> Handle \<Rightarrow> bool" where
  "put_step m H i v off a ms h \<longleftrightarrow>
     mgr_inv m H \<and> i < length (mg_regions m) \<and> length v \<le> 67108864 \<and>
     Alloc (rg_alloc (mg_regions m ! i)) (of_nat (length v)) = (Inr off, a) \<and>
     rg_meta (mg_regions m ! i) = Some ms \<and>
     h = \<lparr>h_Offset = off, h_Size = of_nat (length v), h_Meta = 0, h_Region = of_nat i\<rparr>"

lemma put_stepD:
  assumes "put_step m H i v off a ms h"
  shows "mgr_inv m H" "i < length (mg_regions m)" "unat (h_Size h) = length v" "h_Offset h = off"
    "unat (h_Region h) = i" "rg_meta (mg_regions m ! i) = Some ms" "unat (h_Size h) \<le> 67108864"
    "Alloc (rg_alloc (mg_regions m ! i)) (h_Size h) = (Inr off, a)"
  using assms by (auto simp: put_step_def unat_of_nat_u32 mgr_inv_def unat_of_nat_region)

lemma put_step_region:
  assumes p: "put_step m H i v off a ms h"
  shows "alloc_inv (regBase m i) a (insert (blockOf off (h_Size h)) (liveBlocks H i))"
    and "al_size a = ucast (mg_size m)" and "length (rg_data (mg_regions m ! i)) = unat (mg_size m)"
    and "unat off + length v \<le> unat (mg_size m)" and "unat off div 8 < length ms"
    and "length ms = unat (ucast (mg_size m) :: u32) div 8" and "\<forall>x \<in> set ms. unat x < 65536"
proof -
  note d = put_stepD [OF p]
  note reg = mgr_inv_region [OF d(1,2)]
  note al = Alloc_Inr [OF reg(2) d(7,8)]
  note n = blockLen_bounds [OF d(7)]
  have sz: "al_size (rg_alloc (mg_regions m ! i)) = ucast (mg_size m)"
    using reg(1) by (auto elim: region_okE)
  show "alloc_inv (regBase m i) a (insert (blockOf off (h_Size h)) (liveBlocks H i))" by (rule al(1))
  show "al_size a = ucast (mg_size m)" using al(4) sz by simp
  show "length (rg_data (mg_regions m ! i)) = unat (mg_size m)" using reg(1) by (auto elim: region_okE)
  show "unat off + length v \<le> unat (mg_size m)"
    using al(5) n(1) d(3) unat_ucast_le [of "mg_size m"] by (simp add: sz)
  show ms: "length ms = unat (ucast (mg_size m) :: u32) div 8" "\<forall>x \<in> set ms. unat x < 65536"
    using reg(1) d(6) by (auto elim!: region_okE)
  have "unat off + 8 \<le> unat (ucast (mg_size m) :: u32)" using al(5) n(2) by (simp add: sz)
  then show "unat off div 8 < length ms" unfolding ms(1) by linarith
qed

lemma put_step_live:
  assumes p: "put_step m H i v off a ms h" and x: "x \<in> H" "unat (h_Region x) = i"
  shows "apart (blockOf (h_Offset x) (h_Size x)) (blockOf off (h_Size h))"
    and "h_Offset x \<noteq> off" and "unat (h_Offset x) div 8 \<noteq> unat off div 8"
proof -
  note d = put_stepD [OF p]
  note al = Alloc_Inr [OF mgr_inv_region(2) [OF d(1,2)] d(7,8)]
  note b = live_block [OF d(1) x(1)]
  show ap: "apart (blockOf (h_Offset x) (h_Size x)) (blockOf off (h_Size h))"
    using al(3) x by (auto simp: liveBlocks_def)
  show ne: "h_Offset x \<noteq> off"
    using apart_offsets [OF ap] b(3) blockLen_bounds(2) [OF d(7)] by (simp add: placed_def blockOf_def)
  then have "unat (h_Offset x) \<noteq> unat off" using unsigned_word_eqI by blast
  then show "unat (h_Offset x) div 8 \<noteq> unat off div 8"
    using div8_neq [of "unat (h_Offset x)" "unat off"] b(3) al(7) by (simp add: placed_def blockOf_def)
qed

lemma put_step_fresh:
  assumes p: "put_step m H i v off a ms h" shows "h \<notin> H"
  using put_step_live(2) [OF p, of h] put_stepD(4,5) [OF p] by auto

lemma stored_simps:
  assumes "i < length (mg_regions m)"
  shows "length (mg_regions (stored m i a off v ms)) = length (mg_regions m)"
    and "j \<noteq> i \<Longrightarrow> mg_regions (stored m i a off v ms) ! j = mg_regions m ! j"
    and "mg_regions (stored m i a off v ms) ! i = (mg_regions m ! i)\<lparr>rg_alloc := a,
       rg_data := copy_at (rg_data (mg_regions m ! i)) (unat off) v,
       rg_meta := Some (ms[unat off div 8 := 0])\<rparr>"
    and "mg_size (stored m i a off v ms) = mg_size m"
    and "mg_currentIdx (stored m i a off v ms) = mg_currentIdx m"
    and "regBase (stored m i a off v ms) j = regBase m j"
  using assms by (simp_all add: stored_def regBase_def)

lemma put_step_region_ok:
  assumes p: "put_step m H i v off a ms h" and r: "r \<in> set (mg_regions (stored m i a off v ms))"
  shows "region_ok (mg_size m) r"
proof -
  note d = put_stepD [OF p] and q = put_step_region [OF p]
  note st = stored_simps [OF d(2), where a = a and off = off and v = v and ms = ms]
  obtain j where j: "j < length (mg_regions m)" "r = mg_regions (stored m i a off v ms) ! j"
    using r by (auto simp: in_set_conv_nth st(1))
  show ?thesis
  proof (cases "j = i")
    case True
    have "\<forall>x \<in> set (ms[unat off div 8 := 0]). unat x < 65536"
      using q(7) set_update_subset_insert [of ms "unat off div 8" 0] by auto
    then show ?thesis using j True q by (simp add: st(3) region_ok_def)
  next
    case False
    then show ?thesis using j mgr_inv_region(1) [OF d(1)] by (simp add: st(2))
  qed
qed

lemma put_step_inv:
  assumes p: "put_step m H i v off a ms h"
  shows "mgr_inv (stored m i a off v ms) (insert h H)"
proof -
  let ?m = "stored m i a off v ms"
  note d = put_stepD [OF p] and q = put_step_region [OF p]
  note st = stored_simps [OF d(2), where a = a and off = off and v = v and ms = ms]
  have "alloc_inv (regBase ?m j) (rg_alloc (mg_regions ?m ! j)) (liveBlocks (insert h H) j)"
    if "j < length (mg_regions m)" for j
    using that q(1) mgr_inv_region(2) [OF d(1), of j] d(4,5)
    by (cases "j = i") (simp_all add: st liveBlocks_insert)
  moreover have "inj_on (\<lambda>x. (h_Region x, h_Offset x)) (insert h H)"
  proof -
    have "(h_Region x, h_Offset x) \<noteq> (h_Region h, h_Offset h)" if "x \<in> H" for x
      using put_step_live(2) [OF p that] d(4,5) by auto
    then show ?thesis using d(1) put_step_fresh [OF p] unfolding mgr_inv_def by force
  qed
  ultimately show ?thesis
    using d put_step_region_ok [OF p] by (auto simp: mgr_inv_def st)
qed

lemma put_step_view:
  assumes p: "put_step m H i v off a ms h" shows "View (stored m i a off v ms) h = Inr v"
proof -
  note d = put_stepD [OF p] and q = put_step_region [OF p]
  have "unat off + length v \<le> length (rg_data (mg_regions m ! i))" using q(3,4) by simp
  then show ?thesis
    using View_live [OF put_step_inv [OF p] insertI1] slice_copy_at_same [of "unat off" v] d(3,4,5)
    by (simp add: stored_simps [OF d(2)])
qed

lemma put_step_view_other:
  assumes p: "put_step m H i v off a ms h" and x: "x \<in> H"
  shows "View (stored m i a off v ms) x = View m x"
proof -
  note d = put_stepD [OF p] and q = put_step_region [OF p]
  note vx = View_live [OF put_step_inv [OF p] insertI2 [OF x]] View_live [OF d(1) x]
  show ?thesis
  proof (cases "unat (h_Region x) = i")
    case False
    then show ?thesis using vx by (simp add: stored_simps [OF d(2)])
  next
    case True
    note b = live_block [OF d(1) x]
    have *: "unat off + length v \<le> length (rg_data (mg_regions m ! i))" using q(3,4) by simp
    have **: "unat (h_Offset x) + unat (h_Size x) \<le> length (rg_data (mg_regions m ! i))"
      using b(4,5) unat_ucast_le [of "mg_size m"] q(3) by linarith
    have "unat (h_Offset x) + unat (h_Size x) \<le> unat off \<or> unat off + length v \<le> unat (h_Offset x)"
      using put_step_live(1) [OF p x True] b(5) blockLen_bounds(1) [OF d(7)] d(3)
      by (auto simp: apart_def blockOf_def)
    then show ?thesis
      using vx slice_copy_at_other [OF * **] by (simp add: stored_simps [OF d(2)] True)
  qed
qed

lemma put_step_meta:
  assumes p: "put_step m H i v off a ms h"
  shows "metaCell (stored m i a off v ms) h = Some 0"
    and "x \<in> H \<Longrightarrow> metaCell (stored m i a off v ms) x = metaCell m x"
proof -
  note d = put_stepD [OF p] and q = put_step_region [OF p]
  show "metaCell (stored m i a off v ms) h = Some 0"
    using q(5) d by (simp add: metaCell_def stored_simps [OF d(2)] Let_def alignBytes_def)
  show "metaCell (stored m i a off v ms) x = metaCell m x" if "x \<in> H"
    using put_step_live(3) [OF p that] d
    by (cases "unat (h_Region x) = i") (simp_all add: metaCell_def stored_simps Let_def alignBytes_def)
qed

subsection \<open>The whole operation\<close>

definition frame :: "Manager \<Rightarrow> Manager \<Rightarrow> Handle set \<Rightarrow> bool" where
  "frame m m' H \<longleftrightarrow> (\<forall>x \<in> H. View m' x = View m x \<and> metaCell m' x = metaCell m x)"

lemma frame_refl [simp]: "frame m m H"
  by (simp add: frame_def)

lemma frame_trans: "frame m m1 H \<Longrightarrow> frame m1 m2 H \<Longrightarrow> frame m m2 H"
  by (simp add: frame_def)

definition put_post :: "Manager \<Rightarrow> Handle set \<Rightarrow> bytes \<Rightarrow> (arena_error + Handle) \<times> Manager \<Rightarrow> bool" where
  "put_post m H v res = (case res of
     (Inr h, m') \<Rightarrow> mgr_inv m' (insert h H) \<and> h \<notin> H \<and> View m' h = Inr v \<and> metaCell m' h = Some 0 \<and>
        unat (h_Size h) = length v \<and> h_Meta h = 0 \<and> frame m m' H
   | (Inl e, m') \<Rightarrow> mgr_inv m' H \<and> frame m m' H)"

lemma put_post_trans:
  "frame m m1 H \<Longrightarrow> put_post m1 H v res \<Longrightarrow> put_post m H v res"
  by (auto simp: put_post_def split: prod.splits sum.splits intro: frame_trans)

lemma put_step_post:
  assumes inv: "mgr_inv m H" and i: "i < length (mg_regions m)" and len: "length v \<le> 67108864"
    and al: "Alloc (rg_alloc (mg_regions m ! i)) (of_nat (length v)) = (Inr off, a)"
  shows "put_post m H v (putAt (setAlloc m i a) i off (of_nat (length v)) v)"
proof -
  obtain ms where ms: "rg_meta (mg_regions m ! i) = Some ms"
    using mgr_inv_region(1) [OF inv i] by (auto elim: region_okE)
  let ?h = "\<lparr>h_Offset = off, h_Size = of_nat (length v), h_Meta = 0, h_Region = of_nat i\<rparr>"
  have p: "put_step m H i v off a ms ?h" using assms ms by (simp add: put_step_def)
  have n: "unat (of_nat (length v) :: u32) = length v" using len by (simp add: unat_of_nat_u32)
  have eq: "putAt (setAlloc m i a) i off (of_nat (length v)) v = (Inr ?h, stored m i a off v ms)"
    using putAt_eq [OF i ms put_step_region(5) [OF p]] n by simp
  show ?thesis
    unfolding eq put_post_def frame_def
    using put_step_inv [OF p] put_step_fresh [OF p] put_step_view [OF p] put_step_meta [OF p]
      put_step_view_other [OF p] n by simp
qed

text \<open>Adding a fresh region, as \<open>putSlow\<close> does, changes nothing for the live handles.\<close>

lemma add_region:
  assumes inv: "mgr_inv m H" and ok: "mmap_ok mmap" and r: "newRegion mmap (mg_size m) = Inr r"
    and lim: "length (mg_regions m) < 256"
    and m1: "m1 = m\<lparr>mg_regions := mg_regions m @ [r\<lparr>rg_meta := Some (makeMeta (rg_data r))\<rparr>],
      mg_currentIdx := of_nat (length (mg_regions m))\<rparr>"
  shows "mgr_inv m1 H" "frame m m1 H"
proof -
  note nr = newRegion_ok [OF ok r]
  have lt: "unat (h_Region x) < length (mg_regions m)" if "x \<in> H" for x
    using inv that by (auto simp: mgr_inv_def)
  have pos: "0 < length (mg_regions m)" using inv by (auto simp: mgr_inv_def)
  have rb: "regBase m1 j = regBase m j" for j by (simp add: regBase_def m1)
  have "alloc_inv (regBase m1 j) (rg_alloc (mg_regions m1 ! j)) (liveBlocks H j)"
    if "j < Suc (length (mg_regions m))" for j
  proof (cases "j = length (mg_regions m)")
    case True
    then have "liveBlocks H j = {}" using lt by (fastforce simp: liveBlocks_def)
    moreover have "regBase m1 j = 0" using True pos by (simp add: regBase_def)
    ultimately show ?thesis using True nr(2) alloc_inv_Init by (simp add: m1)
  next
    case False
    then have j: "j < length (mg_regions m)" using that by simp
    then show ?thesis using mgr_inv_region(2) [OF inv j] unfolding rb by (simp add: m1 nth_append)
  qed
  moreover have "unat (mg_currentIdx m1) = length (mg_regions m)" using lim by (simp add: m1 unat_of_nat)
  ultimately show "mgr_inv m1 H"
    using inv nr(1) lim unfolding mgr_inv_def by (auto simp: m1)
  show "frame m m1 H"
    using lt by (fastforce simp: frame_def View_def metaCell_def m1 nth_append Let_def)
qed

lemma putSlow_post:
  assumes inv: "mgr_inv m H" and ok: "mmap_ok mmap" and len: "length v \<le> 67108864"
  shows "put_post m H v (putSlow mmap m v (of_nat (length v)))"
proof -
  let ?n = "of_nat (length v) :: u32" and ?i = "unat (mg_currentIdx m)"
  have i: "?i < length (mg_regions m)" using inv by (simp add: mgr_inv_def)
  obtain res a where al: "Alloc (rg_alloc (mg_regions m ! ?i)) ?n = (res, a)" by force
  show ?thesis
  proof (cases res)
    case (Inr off)
    then show ?thesis using put_step_post [OF inv i len] al by (simp add: putSlow_def Let_def)
  next
    case Inl
    have keep: "put_post m H v (Inl e, m)" for e using inv by (simp add: put_post_def)
    show ?thesis
    proof (cases "256 \<le> length (mg_regions m)")
      case True
      then show ?thesis using Inl al keep by (simp add: putSlow_def Let_def)
    next
      case False
      then have lim: "length (mg_regions m) < 256" by simp
      show ?thesis
      proof (cases "newRegion mmap (mg_size m)")
        case (Inl e)
        then show ?thesis using \<open>res = Inl _\<close> al keep lim by (simp add: putSlow_def Let_def)
      next
        case (Inr r)
        define m1 where "m1 = m\<lparr>mg_regions := mg_regions m @ [r\<lparr>rg_meta := Some (makeMeta (rg_data r))\<rparr>],
          mg_currentIdx := of_nat (length (mg_regions m))\<rparr>"
        note ar = add_region [OF inv ok Inr lim m1_def]
        obtain res1 a1 where al1: "Alloc (rg_alloc r) ?n = (res1, a1)" by force
        have l1: "length (mg_regions m) < length (mg_regions m1)"
          and r1: "rg_alloc (mg_regions m1 ! length (mg_regions m)) = rg_alloc r" by (simp_all add: m1_def)
        have "put_post m1 H v (case res1 of Inl e \<Rightarrow> (Inl e, m1)
           | Inr off \<Rightarrow> putAt (setAlloc m1 (length (mg_regions m)) a1) (length (mg_regions m)) off ?n v)"
          using put_step_post [OF ar(1) l1 len] al1 ar(1) by (cases res1) (simp_all add: r1 put_post_def)
        then show ?thesis
          using put_post_trans [OF ar(2)] \<open>res = Inl _\<close> al Inr lim al1
          by (cases res1) (simp_all add: putSlow_def Let_def m1_def)
      qed
    qed
  qed
qed

lemma Put_post:
  assumes inv: "mgr_inv m H" and ok: "mmap_ok mmap" and len: "length v < 4294967296"
  shows "put_post m H v (Put mmap m v)"
proof -
  let ?n = "of_nat (length v) :: u32" and ?i = "unat (mg_currentIdx m)"
  have i: "?i < length (mg_regions m)" using inv by (simp add: mgr_inv_def)
  have n: "?n > MaxObjectSize \<longleftrightarrow> 67108864 < length v"
    using len by (simp add: MaxObjectSize_def word_less_nat_alt unat_of_nat_u32)
  obtain res a where al: "Alloc (rg_alloc (mg_regions m ! ?i)) ?n = (res, a)" by force
  show ?thesis
  proof (cases "67108864 < length v")
    case True
    then show ?thesis using n inv by (simp add: Put_def put_post_def)
  next
    case False
    then have "length v \<le> 67108864" by simp
    then show ?thesis
      using n i al put_step_post [OF inv i, of v] putSlow_post [OF inv ok, of v]
      by (cases res) (simp_all add: Put_def Let_def not_le)
  qed
qed

section \<open>Free\<close>

lemma blockOf_inj_live:
  assumes inv: "mgr_inv m H" and h: "h \<in> H"
  shows "liveBlocks (H - {h}) (unat (h_Region h)) =
    liveBlocks H (unat (h_Region h)) - {blockOf (h_Offset h) (h_Size h)}"
proof -
  have inj: "inj_on (\<lambda>h. (h_Region h, h_Offset h)) H" using inv by (simp add: mgr_inv_def)
  have "x = h" if x: "x \<in> H" and r: "unat (h_Region x) = unat (h_Region h)"
    and b: "blockOf (h_Offset x) (h_Size x) = blockOf (h_Offset h) (h_Size h)" for x
  proof -
    have "h_Region x = h_Region h" using r unsigned_word_eqI by blast
    moreover have "h_Offset x = h_Offset h" using b unsigned_word_eqI by (auto simp: blockOf_def)
    ultimately show "x = h" using inj x h by (auto dest: inj_onD)
  qed
  then show ?thesis by (auto simp: liveBlocks_def image_iff)
qed

lemma setAlloc_simps:
  assumes "i < length (mg_regions m)"
  shows "length (mg_regions (setAlloc m i a)) = length (mg_regions m)"
    and "mg_regions (setAlloc m i a) ! j = (if j = i then (mg_regions m ! i)\<lparr>rg_alloc := a\<rparr> else mg_regions m ! j)"
    and "mg_size (setAlloc m i a) = mg_size m"
    and "regBase (setAlloc m i a) j = regBase m j"
    and "mg_currentIdx (setAlloc m i a) = mg_currentIdx m"
  using assms by (simp_all add: setAlloc_def regBase_def)

lemma frame_same:
  assumes "length (mg_regions m') = length (mg_regions m)"
    and "\<And>i. i < length (mg_regions m) \<Longrightarrow> rg_data (mg_regions m' ! i) = rg_data (mg_regions m ! i)"
  shows "View m' x = View m x"
  using assms by (simp add: View_def Let_def)

lemma Free_live:
  assumes inv: "mgr_inv m H" and h: "h \<in> H"
  shows "fst (Free m h) = Inr ()" and "mgr_inv (snd (Free m h)) (H - {h})"
    and "frame m (snd (Free m h)) H"
proof -
  let ?i = "unat (h_Region h)"
  let ?a = "alloc_Free (rg_alloc (mg_regions m ! ?i)) (h_Offset h) (h_Size h)"
  let ?m = "(setAlloc m ?i ?a)\<lparr>mg_liveObjs := mg_liveObjs m + NOT 0\<rparr>"
  note b = live_block [OF inv h]
  note st = setAlloc_simps [OF b(1), of ?a]
  have d: "length (rg_data (mg_regions m ! ?i)) = unat (mg_size m)"
    using mgr_inv_region(1) [OF inv b(1)] by (auto elim: region_okE)
  have "unat (h_Offset h) + unat (h_Size h) \<le> unat (mg_size m)"
    using b(4,5) unat_ucast_le [of "mg_size m"] by linarith
  then have eq: "Free m h = (Inr (), ?m)"
    using b(1) d by (simp add: Free_def Let_def unat_end)
  show "fst (Free m h) = Inr ()" by (simp add: eq)
  note al = alloc_inv_Free [OF mgr_inv_region(2) [OF inv b(1)] b(2)]
  have "alloc_inv (regBase m j) (rg_alloc (mg_regions ?m ! j)) (liveBlocks (H - {h}) j)"
    if j: "j < length (mg_regions m)" for j
  proof (cases "j = ?i")
    case True
    then show ?thesis using al(1) blockOf_inj_live [OF inv h] by (simp add: st)
  next
    case False
    then have "liveBlocks (H - {h}) j = liveBlocks H j" by (auto simp: liveBlocks_def)
    then show ?thesis using mgr_inv_region(2) [OF inv j] False by (simp add: st)
  qed
  moreover have "region_ok (mg_size m) r" if "r \<in> set (mg_regions ?m)" for r
  proof -
    obtain j where "j < length (mg_regions m)" "r = mg_regions ?m ! j"
      using \<open>r \<in> set (mg_regions ?m)\<close> by (auto simp: in_set_conv_nth st)
    then show ?thesis
      using mgr_inv_region(1) [OF inv] al(2) by (auto simp: st region_ok_def)
  qed
  moreover have "regBase ?m j = regBase m j" for j by (simp add: regBase_def setAlloc_def)
  ultimately show "mgr_inv (snd (Free m h)) (H - {h})"
    using inv unfolding eq mgr_inv_def by (auto simp: st inj_on_def)
  show "frame m (snd (Free m h)) H"
    unfolding eq frame_def by (auto simp: st View_def metaCell_def Let_def)
qed

section \<open>Metadata words\<close>

lemma unat_low16: "unat (ucast (c :: u32) :: u16) = unat c mod 65536"
  by (simp add: unsigned_ucast_eq take_bit_eq_mod)

lemma ucast16_32: "unat c < 65536 \<Longrightarrow> ucast (ucast (c :: u32) :: u16) = c"
  by (rule unsigned_word_eqI [where 'a = nat]) (simp only: unat_u32_of_u16 unat_low16 mod_less)

lemma ucast_low16: "ucast (ucast (w :: u16) :: u32) = w"
  by (rule bit_word_eqI) (simp add: bit_ucast_iff)

lemma and_3_mod: "unat ((w :: u16) AND 3) = unat w mod 4" "unat ((c :: u32) AND 3) = unat c mod 4"
proof -
  have "n AND 3 = n mod 4" for n :: nat using take_bit_eq_mask [of 2 n] by (simp add: take_bit_eq_mod mask_eq_exp_minus_1)
  then show "unat (w AND 3) = unat w mod 4" "unat (c AND 3) = unat c mod 4"
    by (simp_all add: unsigned_and_eq)
qed

lemma freq_succ: "((ucast (w :: u16) AND 3) + 1 :: u32) AND 3 = ucast ((w + 1) AND 3)"
proof (rule unsigned_word_eqI [where 'a = nat])
  have "unat (ucast w AND 3 :: u32) = unat w mod 4" by (simp only: and_3_mod unat_u32_of_u16)
  moreover have "unat w mod 4 < 4" by simp
  ultimately have "unat ((ucast w AND 3) + 1 :: u32) = unat w mod 4 + 1" by (simp only: unat_word_ariths) simp
  moreover have "unat (w + 1) mod 4 = (unat w mod 4 + 1) mod 4"
    by (simp add: unat_word_ariths mod_mod_cancel mod_Suc_eq)
  ultimately show "unat (((ucast w AND 3) + 1 :: u32) AND 3) = unat (ucast ((w + 1) AND 3) :: u32)"
    by (simp only: and_3_mod unat_u32_of_u16)
qed

lemma ucast_or16: "(ucast (a OR b :: u16) :: u32) = ucast a OR ucast b"
  by (rule bit_word_eqI) (simp add: bit_ucast_iff bit_or_iff)

lemma ucast_and16: "(ucast (a AND b :: u16) :: u32) = ucast a AND ucast b"
  by (rule bit_word_eqI) (simp add: bit_ucast_iff bit_and_iff)

lemma ucast_andnot16: "(ucast (a AND NOT b :: u16) :: u32) = ucast a AND NOT (ucast b)"
  by (rule bit_word_eqI) (auto simp: bit_ucast_iff bit_and_iff bit_not_iff dest: bit_imp_le_length)
lemma ucast16_inj: "(ucast (a :: u16) :: u32) = ucast b \<longleftrightarrow> a = b"
proof
  assume "(ucast a :: u32) = ucast b"
  then have "unat (ucast a :: u32) = unat (ucast b :: u32)" by simp
  then have "unat a = unat b" by (simp only: unat_u32_of_u16)
  then show "a = b" by (rule unsigned_word_eqI)
qed simp

lemma setCell_live:
  assumes inv: "mgr_inv m H" and h: "h \<in> H" and v: "unat v < 65536"
  shows "mgr_inv (setCell m h v) H" and "metaCell (setCell m h v) h = Some v"
    and "\<forall>x. View (setCell m h v) x = View m x"
    and "\<forall>x \<in> H - {h}. metaCell (setCell m h v) x = metaCell m x"
proof -
  let ?i = "unat (h_Region h)" and ?k = "unat (h_Offset h) div 8"
  note b = live_block [OF inv h]
  obtain ms where ms: "rg_meta (mg_regions m ! ?i) = Some ms" "?k < length ms"
    using metaCell_live [OF inv h] by metis
  let ?reg = "(mg_regions m ! ?i)\<lparr>rg_meta := Some (ms[?k := v])\<rparr>"
  let ?m = "m\<lparr>mg_regions := (mg_regions m)[?i := ?reg]\<rparr>"
  have eq: "setCell m h v = ?m" using ms by (simp add: setCell_def Let_def alignBytes_def)
  have "\<forall>x \<in> set (ms[?k := v]). unat x < 65536"
    using mgr_inv_region(1) [OF inv b(1)] ms v set_update_subset_insert [of ms ?k v]
    by (fastforce simp: region_ok_def)
  then have "region_ok (mg_size m) ?reg"
    using mgr_inv_region(1) [OF inv b(1)] ms by (auto simp: region_ok_def)
  then have rok: "\<forall>r \<in> set (mg_regions ?m). region_ok (mg_size m) r"
    using inv set_update_subset_insert [of "mg_regions m" ?i ?reg] by (auto simp: mgr_inv_def)
  have "regBase ?m j = regBase m j" for j by (simp add: regBase_def)
  moreover have "rg_alloc (mg_regions ?m ! j) = rg_alloc (mg_regions m ! j)"
    if "j < length (mg_regions m)" for j using that b(1) by (simp add: nth_list_update)
  ultimately show "mgr_inv (setCell m h v) H"
    using inv rok unfolding eq mgr_inv_def by simp
  show "metaCell (setCell m h v) h = Some v"
    unfolding eq using b(1) ms by (simp add: metaCell_def Let_def alignBytes_def)
  show "\<forall>x. View (setCell m h v) x = View m x"
    unfolding eq using b(1) by (auto simp: View_def Let_def nth_list_update)
  show "\<forall>x \<in> H - {h}. metaCell (setCell m h v) x = metaCell m x"
  proof
    fix x assume x: "x \<in> H - {h}"
    show "metaCell (setCell m h v) x = metaCell m x"
    proof (cases "h_Region x = h_Region h")
      case False
      then have "unat (h_Region x) \<noteq> ?i" using unsigned_word_eqI by blast
      then show ?thesis unfolding eq by (simp add: metaCell_def Let_def)
    next
      case True
      then have "h_Offset x \<noteq> h_Offset h" using inv h x by (auto simp: mgr_inv_def inj_on_def)
      then have "unat (h_Offset x) \<noteq> unat (h_Offset h)" using unsigned_word_eqI by blast
      then have "unat (h_Offset x) div 8 \<noteq> ?k"
        using live_block(3) [OF inv, of x] b(3) x div8_neq by (simp add: placed_def blockOf_def)
      then show ?thesis unfolding eq using True b(1) ms by (simp add: metaCell_def Let_def alignBytes_def)
    qed
  qed
qed

lemma unat_ucast16: "unat (ucast (w :: u16) :: u32) < 65536"
  using unat_u16_lt [of w] by simp

lemma cell_of_meta:
  assumes "mgr_inv m H" "h \<in> H"
  shows "metaCell m h = Some (ucast (GetMeta m h))"
proof -
  obtain c where c: "metaCell m h = Some c" "unat c < 65536" using metaCell_live [OF assms] by blast
  then show ?thesis by (simp only: GetMeta_def option.case ucast16_32)
qed

text \<open>Writing a 16-bit word to a live handle, in the terms of the exported getters.\<close>

definition meta_post :: "Manager \<Rightarrow> Handle set \<Rightarrow> Handle \<Rightarrow> u16 \<Rightarrow> Manager \<Rightarrow> bool" where
  "meta_post m H h w m' \<longleftrightarrow> mgr_inv m' H \<and> GetMeta m' h = w \<and> (\<forall>x. View m' x = View m x) \<and>
     (\<forall>x \<in> H - {h}. GetMeta m' x = GetMeta m x)"

lemma setCell_post:
  assumes "mgr_inv m H" "h \<in> H"
  shows "meta_post m H h w (setCell m h (ucast w))"
  using setCell_live [OF assms unat_ucast16 [of w]] by (simp add: meta_post_def GetMeta_def ucast_low16)

lemma meta_post_refl: "mgr_inv m H \<Longrightarrow> meta_post m H h (GetMeta m h) m"
  by (simp add: meta_post_def)

lemma freqMask_ucast: "freqMask = ucast (3 :: u16)"
  by (simp add: freqMask_def)

lemma ucast_freq: "ucast ((c :: u32) AND 3) = (ucast c AND 3 :: u16)"
  by (rule unsigned_word_eqI [where 'a = nat]) (simp add: and_3_mod unat_low16 mod_mod_cancel)

lemma GetFreq_meta: "GetFreq m h = GetMeta m h AND 3"
  by (simp add: GetFreq_def GetMeta_def freqMask_def ucast_freq split: option.splits)

lemma freq_succ16: "((w :: u16) AND 3) + 1 AND 3 = (w + 1) AND 3"
proof (rule unsigned_word_eqI [where 'a = nat])
  have "unat ((w AND 3) + 1) = (unat w mod 4 + 1) mod 65536" by (simp add: unat_word_ariths and_3_mod)
  moreover have "unat (w + 1) = (unat w + 1) mod 65536" by (simp add: unat_word_ariths)
  ultimately show "unat ((w AND 3) + 1 AND 3) = unat ((w + 1) AND 3)"
    by (simp only: and_3_mod) (simp add: mod_mod_cancel mod_Suc_eq)
qed

lemma IncFreq_live:
  assumes "mgr_inv m H" "h \<in> H"
  shows "fst (IncFreq m h) = (GetFreq m h + 1) AND 3"
    and "meta_post m H h ((GetMeta m h AND NOT 3) OR ((GetFreq m h + 1) AND 3)) (snd (IncFreq m h))"
proof -
  have 0: "(ucast (GetMeta m h) AND freqMask) + 1 AND freqMask = ucast ((GetMeta m h + 1) AND 3)"
    using freq_succ [of "GetMeta m h"] by (simp only: freqMask_def)
  have 1: "(ucast (GetMeta m h) AND NOT freqMask) OR ((ucast (GetMeta m h) AND freqMask) + 1 AND freqMask)
      = ucast ((GetMeta m h AND NOT 3) OR ((GetMeta m h + 1) AND 3))"
    by (simp only: ucast_or16 ucast_andnot16 freqMask_ucast 0 [unfolded freqMask_ucast])
  have 2: "(GetFreq m h + 1) AND 3 = (GetMeta m h + 1) AND 3"
    unfolding GetFreq_meta by (rule freq_succ16)
  show "fst (IncFreq m h) = (GetFreq m h + 1) AND 3"
    using cell_of_meta [OF assms] by (simp only: IncFreq_def Let_def option.case fst_conv 0 2 ucast_low16)
  have "snd (IncFreq m h) = setCell m h (ucast ((GetMeta m h AND NOT 3) OR ((GetFreq m h + 1) AND 3)))"
    using cell_of_meta [OF assms] by (simp only: IncFreq_def Let_def option.case snd_conv 1 2)
  then show "meta_post m H h ((GetMeta m h AND NOT 3) OR ((GetFreq m h + 1) AND 3)) (snd (IncFreq m h))"
    using setCell_post [OF assms] by metis
qed

lemma SetFreq_live:
  assumes "mgr_inv m H" "h \<in> H"
  shows "meta_post m H h ((GetMeta m h AND NOT 3) OR (f AND 3)) (SetFreq m h f)"
proof -
  have "(ucast (GetMeta m h) AND NOT freqMask) OR (ucast f AND freqMask) =
      ucast ((GetMeta m h AND NOT 3) OR (f AND 3))"
    unfolding freqMask_ucast ucast_or16 ucast_andnot16 by (simp only: ucast_and16)
  then have "SetFreq m h f = setCell m h (ucast ((GetMeta m h AND NOT 3) OR (f AND 3)))"
    using cell_of_meta [OF assms] by (simp only: SetFreq_def option.case)
  then show ?thesis using setCell_post [OF assms] by metis
qed

lemma SetMeta_live:
  assumes "mgr_inv m H" "h \<in> H" shows "meta_post m H h w (SetMeta m h w)"
  using cell_of_meta [OF assms] setCell_post [OF assms] by (simp add: SetMeta_def)

lemma CASMeta_live:
  assumes "mgr_inv m H" "h \<in> H"
  shows "fst (CASMeta m h old new) \<longleftrightarrow> GetMeta m h = old"
    and "meta_post m H h (if GetMeta m h = old then new else GetMeta m h) (snd (CASMeta m h old new))"
proof -
  show "fst (CASMeta m h old new) \<longleftrightarrow> GetMeta m h = old"
    "meta_post m H h (if GetMeta m h = old then new else GetMeta m h) (snd (CASMeta m h old new))"
    using cell_of_meta [OF assms] setCell_post [OF assms] meta_post_refl [OF assms(1)]
    by (simp_all add: CASMeta_def ucast16_inj)
qed

lemma casLoop16_live:
  assumes "mgr_inv m H" "h \<in> H"
  obtains m' where "casLoop16 m h f = Some m'" "meta_post m H h (f (GetMeta m h)) m'"
proof (cases "f (GetMeta m h) = GetMeta m h")
  case True
  then show ?thesis
    using that [of m] cell_of_meta [OF assms] meta_post_refl [OF assms(1), of h]
    by (simp only: casLoop16_def Let_def ucast_low16 option.case) simp
next
  case False
  then show ?thesis
    using that [of "setCell m h (ucast (f (GetMeta m h)))"] cell_of_meta [OF assms] setCell_post [OF assms]
    by (simp only: casLoop16_def Let_def ucast_low16 option.case) simp
qed

lemma merge_bits:
  "((w AND NOT k) OR (u AND k)) AND NOT k = (w AND NOT k :: u16)"
  "((w AND NOT k) OR (u AND k)) AND k = (u AND k :: u16)"
  by (rule bit_word_eqI; auto simp: bit_and_iff bit_or_iff bit_not_iff)+

section \<open>Properties\<close>

lemma mmap_ok_other: "mmap_ok mmapRegion_other"
  by (simp add: mmap_ok_def mmapRegion_other_def)

text \<open>A manager with one 64-byte region, the one the witnesses run on, and two states reached from it.\<close>

definition wm0 :: Manager where
  "wm0 = (case NewManager mmapRegion_other 64 False of Inr m \<Rightarrow> m)"

definition wm1 :: Manager where "wm1 = snd (Put mmapRegion_other wm0 [1, 2, 3])"

definition wh1 :: Handle where
  "wh1 = \<lparr>h_Offset = 0, h_Size = 3, h_Meta = 0, h_Region = 0\<rparr>"

lemma wm0_inv: "mgr_inv wm0 {}"
proof -
  have "NewManager mmapRegion_other 64 False = Inr wm0"
    by (simp add: wm0_def NewManager_def newRegion_def mmapRegion_other_def)
  then show ?thesis by (rule NewManager_inv [OF mmap_ok_other])
qed

lemma wm0_Put: "fst (Put mmapRegion_other wm0 [1, 2, 3]) = Inr wh1"
  by code_simp

lemma wm1_inv: "mgr_inv wm1 {wh1}"
  using Put_post [OF wm0_inv mmap_ok_other, of "[1, 2, 3]"] wm0_Put
  by (simp add: put_post_def wm1_def split: prod.splits)

text \<open>
  C17. A successful \<^verbatim>\<open>Manager.Put\<close> on a well-formed manager, whichever of the fast path, the slow path or
  the fresh region served it, returns a handle that was not live, that reads back exactly the value,
  whose length is recorded in the handle and whose metadata word is zero; every handle that was live
  still reads the same bytes and has the same metadata word, and the manager stays well formed with the
  new handle among the live ones.
\<close>

theorem Put_reads_back:
  assumes "mgr_inv m H" and "mmap_ok mmap" and "length v < 4294967296"
    and "Put mmap m v = (Inr h, m')"
  shows "View m' h = Inr v \<and> h \<notin> H \<and> mgr_inv m' (insert h H) \<and> metaCell m' h = Some 0 \<and>
    unat (h_Size h) = length v \<and>
    (\<forall>x \<in> H. View m' x = View m x \<and> metaCell m' x = metaCell m x)"
  using Put_post [OF assms(1-3)] assms(4) by (simp add: put_post_def frame_def)

theorem Put_reads_back_witness:
  "mgr_inv wm0 {} \<and> View (snd (Put mmapRegion_other wm0 [1, 2, 3])) wh1 = Inr [1, 2, 3]"
  using wm0_inv wm0_Put
    Put_reads_back [OF wm0_inv mmap_ok_other, of "[1, 2, 3]" wh1 "snd (Put mmapRegion_other wm0 [1, 2, 3])"]
  by (cases "Put mmapRegion_other wm0 [1, 2, 3]") simp

text \<open>
  C23. A failing \<^verbatim>\<open>Manager.Put\<close> (value too large, no region left, the system refused a mapping, the value
  does not fit a region) leaves every live handle readable with the same bytes and metadata, and the
  manager well formed for the same live handles.
\<close>

theorem Put_failure_keeps:
  assumes "mgr_inv m H" and "mmap_ok mmap" and "length v < 4294967296"
    and "Put mmap m v = (Inl e, m')"
  shows "mgr_inv m' H \<and> (\<forall>x \<in> H. View m' x = View m x \<and> metaCell m' x = metaCell m x)"
  using Put_post [OF assms(1-3)] assms(4) by (simp add: put_post_def frame_def)

theorem Put_failure_keeps_witness:
  "mgr_inv (snd (Put (\<lambda>_. Inl ErrMmap) wm1 (replicate 80 7))) {wh1} \<and>
   View (snd (Put (\<lambda>_. Inl ErrMmap) wm1 (replicate 80 7))) wh1 = View wm1 wh1"
proof -
  have "fst (Put (\<lambda>_. Inl ErrMmap) wm1 (replicate 80 7)) = Inl ErrMmap" by code_simp
  moreover have "mmap_ok (\<lambda>_. Inl ErrMmap)" by (simp add: mmap_ok_def)
  ultimately show ?thesis
    using Put_failure_keeps [OF wm1_inv, of "\<lambda>_. Inl ErrMmap" "replicate 80 7" ErrMmap]
    by (cases "Put (\<lambda>_. Inl ErrMmap) wm1 (replicate 80 7)") simp
qed

text \<open>
  C21. \<^verbatim>\<open>Manager.Free\<close> of a live handle succeeds and removes that handle, and only it, from the live set:
  the manager stays well formed for the others, and no byte and no metadata word they read changes.
\<close>

theorem Free_releases:
  assumes "mgr_inv m H" and "h \<in> H" and "Free m h = (r, m')"
  shows "r = Inr () \<and> mgr_inv m' (H - {h}) \<and>
    (\<forall>x \<in> H - {h}. View m' x = View m x \<and> metaCell m' x = metaCell m x)"
  using Free_live [OF assms(1,2)] assms(3) by (simp add: frame_def)

theorem Free_releases_witness: "fst (Free wm1 wh1) = Inr () \<and> mgr_inv (snd (Free wm1 wh1)) {}"
  using Free_releases [OF wm1_inv, of wh1 "fst (Free wm1 wh1)" "snd (Free wm1 wh1)"] by simp

text \<open>
  C27. On a live handle the two compare-and-swap loops of the metadata word return, and set
  (\<^verbatim>\<open>OrMetaBits\<close>) or clear (\<^verbatim>\<open>ClearMetaBits\<close>) exactly the given bits of that handle's word: every view and
  every other live handle's word are unchanged.
\<close>

theorem MetaBits_return:
  assumes "mgr_inv m H" and "h \<in> H"
  shows "(\<exists>m'. OrMetaBits m h bits = Some m' \<and> mgr_inv m' H \<and> GetMeta m' h = GetMeta m h OR bits \<and>
           (\<forall>x. View m' x = View m x) \<and> (\<forall>x \<in> H - {h}. GetMeta m' x = GetMeta m x)) \<and>
         (\<exists>m'. ClearMetaBits m h bits = Some m' \<and> mgr_inv m' H \<and> GetMeta m' h = GetMeta m h AND NOT bits \<and>
           (\<forall>x. View m' x = View m x) \<and> (\<forall>x \<in> H - {h}. GetMeta m' x = GetMeta m x))"
  unfolding OrMetaBits_def ClearMetaBits_def
  by (rule conjI; rule casLoop16_live [OF assms]) (auto simp: meta_post_def)

theorem MetaBits_return_witness:
  "\<exists>m'. OrMetaBits wm1 wh1 CompressedFlag = Some m' \<and> GetMeta m' wh1 = GetMeta wm1 wh1 OR CompressedFlag"
  using MetaBits_return [OF wm1_inv, of wh1 CompressedFlag] by auto

text \<open>
  \<^verbatim>\<open>Manager.IncFreq\<close> on a live handle adds one to the two-bit frequency modulo four (a frequency of three
  becomes zero) and keeps the other fourteen bits of the word, the queue tag and the compression and
  encryption flags among them; it changes no view and no other live handle's word.
\<close>

theorem IncFreq_mod4:
  assumes "mgr_inv m H" and "h \<in> H" and "IncFreq m h = (f, m')"
  shows "unat f = (unat (GetFreq m h) + 1) mod 4 \<and> GetFreq m' h = f \<and>
    GetMeta m' h AND NOT 3 = GetMeta m h AND NOT 3 \<and> mgr_inv m' H \<and>
    (\<forall>x. View m' x = View m x) \<and> (\<forall>x \<in> H - {h}. GetMeta m' x = GetMeta m x)"
proof -
  note i = IncFreq_live [OF assms(1,2)]
  have "GetFreq m h AND 3 = GetFreq m h" by (simp add: GetFreq_meta and.assoc)
  then have "unat (GetFreq m h) < 4" using and_3_mod(1) [of "GetFreq m h"] by simp
  then have "unat f = (unat (GetFreq m h) + 1) mod 4"
    using i(1) assms(3) by (simp add: and_3_mod unat_word_ariths)
  moreover have "GetMeta m' h AND NOT 3 = GetMeta m h AND NOT 3" "GetFreq m' h = f"
    using i assms(3) unfolding meta_post_def GetFreq_meta
    by (simp_all only: snd_conv fst_conv merge_bits)
  ultimately show ?thesis using i assms(3) by (simp add: meta_post_def)
qed

theorem IncFreq_mod4_witness: "unat (fst (IncFreq wm1 wh1)) = (unat (GetFreq wm1 wh1) + 1) mod 4"
  using IncFreq_mod4 [OF wm1_inv, of wh1 "fst (IncFreq wm1 wh1)" "snd (IncFreq wm1 wh1)"] by simp

end
