(* ===== verification/Linear_Probing.thy ===== *)
theory Linear_Probing
  imports Horreum_Prelude
begin

text \<open>
  Open addressing with linear probing and backward-shift deletion, the algorithm that
  \<^verbatim>\<open>internal/index/index.go\<close> (\<^verbatim>\<open>HashIndex\<close>) and \<^verbatim>\<open>internal/transport/transport.go\<close> (\<^verbatim>\<open>shardIndex\<close>) both
  implement over parallel arrays.  The two loops every operation of those types is made of are
  \<open>probe\<close> (the \<^verbatim>\<open>for\<close> of put, get, delete and add) and \<open>backshift\<close> (the \<^verbatim>\<open>for\<close> of deleteAt); they have
  no bound of their own in the source, so they return an option here.

  The theory of the algorithm is over a list of slots; the locale \<open>open_table\<close> is the interface through
  which a concrete table (its arrays, its mask) uses it.
\<close>

section \<open>The two loops\<close>

partial_function (option) probe :: "(nat \<Rightarrow> bool) \<Rightarrow> u64 \<Rightarrow> u64 \<Rightarrow> u64 option" where
  "probe hit msk i = (if hit (unat i) then Some i else probe hit msk ((i + 1) AND msk))"

declare probe.simps [code]

definition shifts :: "u64 \<Rightarrow> u64 \<Rightarrow> u64 \<Rightarrow> bool" where
  "shifts desired gap cur \<longleftrightarrow>
     (cur > gap \<and> (desired \<le> gap \<or> desired > cur)) \<or> (cur < gap \<and> (desired \<le> gap \<and> desired > cur))"

partial_function (option) backshift ::
  "('s \<Rightarrow> nat \<Rightarrow> u64 option) \<Rightarrow> ('s \<Rightarrow> nat \<Rightarrow> nat \<Rightarrow> 's) \<Rightarrow> u64 \<Rightarrow> 's \<Rightarrow> u64 \<Rightarrow> u64 \<Rightarrow> 's option" where
  "backshift hashAt move msk s gap cur =
    (case hashAt s (unat cur) of
       None \<Rightarrow> Some s
     | Some hsh \<Rightarrow>
         if shifts (hsh AND msk) gap cur
         then backshift hashAt move msk (move s (unat gap) (unat cur)) cur ((cur + 1) AND msk)
         else backshift hashAt move msk s gap ((cur + 1) AND msk))"

declare backshift.simps [code]

section \<open>Slots\<close>

type_synonym ('k, 'v) slots = "('k \<times> 'v) option list"

definition cdist :: "nat \<Rightarrow> nat \<Rightarrow> nat \<Rightarrow> nat" where
  "cdist n a b = (if a \<le> b then b - a else b + n - a)"

definition before :: "nat \<Rightarrow> nat \<Rightarrow> nat \<Rightarrow> nat \<Rightarrow> bool" where
  "before n h q p \<longleftrightarrow> cdist n h q < cdist n h p"

definition path_ok :: "('k \<Rightarrow> nat) \<Rightarrow> ('k, 'v) slots \<Rightarrow> bool" where
  "path_ok home t \<longleftrightarrow> (\<forall>p < length t. \<forall>k v. t ! p = Some (k, v) \<longrightarrow>
     (\<forall>q < length t. before (length t) (home k) q p \<longrightarrow> t ! q \<noteq> None))"

definition ukeys :: "('k, 'v) slots \<Rightarrow> bool" where
  "ukeys t \<longleftrightarrow> (\<forall>p < length t. \<forall>q < length t. \<forall>k v w. t ! p = Some (k, v) \<longrightarrow> t ! q = Some (k, w) \<longrightarrow> p = q)"

fun ents :: "('k, 'v) slots \<Rightarrow> ('k \<times> 'v) list" where
  "ents [] = []"
| "ents (None # t) = ents t"
| "ents (Some x # t) = x # ents t"

definition tab :: "('k, 'v) slots \<Rightarrow> 'k \<Rightarrow> 'v option" where
  "tab t = map_of (ents t)"

definition lp_wf :: "('k \<Rightarrow> nat) \<Rightarrow> ('k, 'v) slots \<Rightarrow> bool" where
  "lp_wf home t \<longleftrightarrow> path_ok home t \<and> ukeys t \<and> (\<forall>k. home k < length t)"

section \<open>Cyclic distances\<close>

lemma cdist_self [simp]: "cdist n a a = 0"
  by (simp add: cdist_def)

lemma cdist_lt: "a < n \<Longrightarrow> b < n \<Longrightarrow> cdist n a b < n"
  by (auto simp: cdist_def)

lemma cdist_0_iff: "a < n \<Longrightarrow> b < n \<Longrightarrow> cdist n a b = 0 \<longleftrightarrow> a = b"
  by (auto simp: cdist_def)

lemma cdist_inj: "a < n \<Longrightarrow> b < n \<Longrightarrow> c < n \<Longrightarrow> cdist n a b = cdist n a c \<longleftrightarrow> b = c"
  by (auto simp: cdist_def split: if_splits)

lemma cdist_mod: "a < n \<Longrightarrow> d < n \<Longrightarrow> cdist n a ((a + d) mod n) = d"
  by (cases "a + d < n") (auto simp: cdist_def mod_if)

lemma cdist_add: "a < n \<Longrightarrow> b < n \<Longrightarrow> (a + cdist n a b) mod n = b"
  by (auto simp: cdist_def)

lemma cdist_Suc:
  "a < n \<Longrightarrow> b < n \<Longrightarrow> cdist n a b + 1 < n \<Longrightarrow> cdist n a ((b + 1) mod n) = cdist n a b + 1"
  by (auto simp: cdist_def mod_if split: if_splits)

lemma cdist_rot:
  assumes "i < n" "h < n" "x < n"
  shows "cdist n h x = cdist n (cdist n i h) (cdist n i x)"
proof (cases "i \<le> h")
  case True
  then show ?thesis using assms by (cases "h \<le> x"; cases "i \<le> x") (auto simp: cdist_def)
next
  case False
  then show ?thesis using assms by (cases "h \<le> x"; cases "i \<le> x") (auto simp: cdist_def)
qed

lemma next_lt: "c < n \<Longrightarrow> (c + 1) mod n < (n :: nat)"
  by (rule mod_less_divisor) linarith

lemma shifts_nat:
  assumes "g < n" "c < n" "d < n" "g \<noteq> c"
  shows "(c > g \<and> (d \<le> g \<or> d > c)) \<or> (c < g \<and> (d \<le> g \<and> d > c)) \<longleftrightarrow> before n d g c"
proof (cases "d \<le> g")
  case True
  then show ?thesis using assms by (cases "d \<le> c") (auto simp: before_def cdist_def)
next
  case False
  then show ?thesis using assms by (cases "d \<le> c") (auto simp: before_def cdist_def)
qed

lemma shifts_iff:
  assumes "unat gap < n" "unat cur < n" "unat desired < n" "gap \<noteq> cur"
  shows "shifts desired gap cur \<longleftrightarrow> before n (unat desired) (unat gap) (unat cur)"
proof -
  have "unat gap \<noteq> unat cur" using assms(4) unsigned_word_eqI by blast
  from shifts_nat [OF assms(1-3) this] show ?thesis
    by (simp only: shifts_def word_less_nat_alt word_le_nat_alt)
qed

lemma unat_next:
  fixes i m :: u64
  assumes "unat m = 2 ^ k - 1" "k < 64"
  shows "unat ((i + 1) AND m) = (unat i + 1) mod 2 ^ k"
proof -
  have "(2 :: nat) ^ k dvd 2 ^ 64" using assms(2) by (intro le_imp_power_dvd) simp
  moreover have "unat (i + 1) = (unat i + 1) mod 2 ^ 64" by (simp add: unat_word_ariths)
  ultimately show ?thesis using and_mask_mod [OF assms(1)] by (simp add: mod_mod_cancel)
qed

section \<open>Contents\<close>

lemma path_okD:
  "path_ok home t \<Longrightarrow> p < length t \<Longrightarrow> t ! p = Some (k, v) \<Longrightarrow> q < length t \<Longrightarrow>
   before (length t) (home k) q p \<Longrightarrow> t ! q \<noteq> None"
  unfolding path_ok_def by blast

lemma set_ents: "x \<in> set (ents t) \<longleftrightarrow> (\<exists>p < length t. t ! p = Some x)"
proof -
  have "x \<in> set (ents t) \<longleftrightarrow> Some x \<in> set t" by (induction t rule: ents.induct) auto
  then show ?thesis by (auto simp: in_set_conv_nth)
qed

lemma tab_Some:
  assumes "ukeys t"
  shows "tab t k = Some v \<longleftrightarrow> (\<exists>p < length t. t ! p = Some (k, v))"
proof
  assume "tab t k = Some v"
  then show "\<exists>p < length t. t ! p = Some (k, v)"
    unfolding tab_def by (auto dest!: map_of_SomeD simp: set_ents)
next
  assume *: "\<exists>p < length t. t ! p = Some (k, v)"
  then have "(k, v) \<in> set (ents t)" by (simp add: set_ents)
  then have "map_of (ents t) k \<noteq> None" unfolding map_of_eq_None_iff by force
  then obtain w where w: "map_of (ents t) k = Some w" by blast
  then have "\<exists>q < length t. t ! q = Some (k, w)" by (auto dest!: map_of_SomeD simp: set_ents)
  then show "tab t k = Some v" using * assms w unfolding ukeys_def tab_def by fastforce
qed

lemma tab_None: "tab t k = None \<longleftrightarrow> (\<forall>p < length t. \<forall>v. t ! p \<noteq> Some (k, v))"
  unfolding tab_def map_of_eq_None_iff by (force simp: set_ents)

lemma tab_eqI:
  assumes "ukeys t" "ukeys t'" "\<And>k v. (\<exists>p < length t. t ! p = Some (k, v)) \<longleftrightarrow> (\<exists>p < length t'. t' ! p = Some (k, v))"
  shows "tab t = tab t'"
proof
  fix k show "tab t k = tab t' k"
    using assms tab_Some [OF assms(1), of k] tab_Some [OF assms(2), of k] by (metis not_None_eq)
qed

lemma length_ents_update:
  assumes "p < length t"
  shows "length (ents (t[p := x])) + (if t ! p = None then 0 else 1) = length (ents t) + (if x = None then 0 else 1)"
  using assms
proof (induction t arbitrary: p rule: ents.induct)
  case (2 t)
  show ?case
  proof (cases p)
    case 0
    then show ?thesis by (cases x) auto
  next
    case (Suc q)
    then show ?thesis using 2 by simp
  qed
next
  case (3 y t)
  show ?case
  proof (cases p)
    case 0
    then show ?thesis by (cases x) auto
  next
    case (Suc q)
    then show ?thesis using 3 by simp
  qed
qed simp

lemma nil_exists:
  assumes "length (ents t) < length t"
  obtains z where "z < length t" "t ! z = None"
proof -
  have "None \<in> set t" using assms
  proof (induction t rule: ents.induct)
    case (3 x t)
    then show ?case by simp
  qed simp_all
  then show thesis using that by (auto simp: in_set_conv_nth)
qed

lemma other_nil:
  assumes "length (ents t) + 1 < length t"
  obtains z where "z < length t" "t ! z = None" "z \<noteq> i"
proof (cases "i < length t")
  case True
  let ?t = "t[i := Some undefined]"
  have "length (ents ?t) < length ?t"
    using length_ents_update [OF True, of "Some undefined"] assms by (simp split: if_splits)
  then obtain z where "z < length ?t" "?t ! z = None" by (rule nil_exists)
  then show ?thesis using that [of z] True by (cases "z = i") auto
next
  case False
  then show ?thesis using nil_exists [of t] that assms by (metis add_lessD1)
qed

section \<open>Probing\<close>

lemma probe_returns:
  assumes m: "unat msk = 2 ^ k - 1" "k < 64"
    and hit: "hit ((unat i + d) mod 2 ^ k)" and miss: "\<forall>e < d. \<not> hit ((unat i + e) mod 2 ^ k)"
    and i: "unat i < 2 ^ k"
  shows "probe hit msk i = Some (of_nat ((unat i + d) mod 2 ^ k))"
  using hit miss i
proof (induction d arbitrary: i)
  case 0
  then show ?case by (simp add: probe.simps [of hit msk i])
next
  case (Suc d)
  let ?j = "(i + 1) AND msk"
  have j: "unat ?j = (unat i + 1) mod 2 ^ k" by (rule unat_next [OF m])
  have shift: "(unat ?j + e) mod 2 ^ k = (unat i + Suc e) mod 2 ^ k" for e
    unfolding j by (simp add: mod_simps)
  have "\<not> hit (unat i)" using Suc.prems(2,3) by (metis add_0_right mod_less zero_less_Suc)
  then have "probe hit msk i = probe hit msk ?j" by (simp add: probe.simps [of hit msk i])
  also have "\<dots> = Some (of_nat ((unat ?j + d) mod 2 ^ k))"
    using Suc.prems by (intro Suc.IH) (auto simp: shift, simp add: j)
  finally show ?case by (simp only: shift)
qed

text \<open>The loop stops only at a hit; with no hit on the cycle it never returns.\<close>

lemma probe_hit:
  assumes "probe hit msk i = Some p" shows "hit (unat p)"
  by (rule probe.raw_induct [where P = "\<lambda>hit msk i p. hit (unat p)", OF _ assms]) (auto split: if_splits)

lemma probe_range:
  assumes p: "probe hit msk i = Some p" and m: "unat msk = 2 ^ k - 1" "k < 64" and i: "unat i < 2 ^ k"
  shows "unat p < 2 ^ k"
proof -
  have "unat i < 2 ^ k \<longrightarrow> unat msk = 2 ^ k - 1 \<longrightarrow> unat p < 2 ^ k"
    by (rule probe.raw_induct [where P = "\<lambda>hit msk i p. unat i < 2 ^ k \<longrightarrow> unat msk = 2 ^ k - 1 \<longrightarrow> unat p < 2 ^ k", OF _ p])
      (use m(2) in \<open>auto simp: unat_next split: if_splits\<close>)
  then show ?thesis using m i by blast
qed

lemma probe_diverges:
  assumes m: "unat msk = 2 ^ k - 1" "k < 64" and i: "unat i < 2 ^ k" and none: "\<forall>p < 2 ^ k. \<not> hit p"
  shows "probe hit msk i = None"
proof (rule ccontr)
  assume "probe hit msk i \<noteq> None"
  then obtain p where p: "probe hit msk i = Some p" by blast
  then show False using probe_hit [OF p] probe_range [OF p m i] none by blast
qed

text \<open>Probing depends on the hits below the table's size only.\<close>

lemma probe_cong:
  assumes p: "probe hit msk i = Some p" and m: "unat msk = 2 ^ k - 1" "k < 64" and i: "unat i < 2 ^ k"
    and eq: "\<And>q. q < 2 ^ k \<Longrightarrow> hit' q = hit q"
  shows "probe hit' msk i = Some p"
proof -
  have "unat msk = 2 ^ k - 1 \<longrightarrow> unat i < 2 ^ k \<longrightarrow> (\<forall>q < 2 ^ k. hit' q = hit q) \<longrightarrow> probe hit' msk i = Some p"
  proof (rule probe.raw_induct [where P = "\<lambda>hit msk i p. unat msk = 2 ^ k - 1 \<longrightarrow> unat i < 2 ^ k \<longrightarrow>
        (\<forall>q < 2 ^ k. hit' q = hit q) \<longrightarrow> probe hit' msk i = Some p", OF _ p], intro impI)
    fix rec and hit :: "nat \<Rightarrow> bool" and msk i p :: u64
    assume IH: "\<And>hit msk i p. rec hit msk i = Some p \<Longrightarrow> unat msk = 2 ^ k - 1 \<longrightarrow> unat i < 2 ^ k \<longrightarrow>
        (\<forall>q < 2 ^ k. hit' q = hit q) \<longrightarrow> probe hit' msk i = Some p"
      and step: "(if hit (unat i) then Some i else rec hit msk ((i + 1) AND msk)) = Some p"
      and m1: "unat msk = 2 ^ k - 1" and i: "unat i < 2 ^ k" and eq: "\<forall>q < 2 ^ k. hit' q = hit q"
    have lt: "unat ((i + 1) AND msk) < 2 ^ k" using unat_next [OF m1 m(2)] by simp
    show "probe hit' msk i = Some p"
    proof (cases "hit (unat i)")
      case True
      then have "p = i" using step by simp
      then show ?thesis using True eq i by (simp add: probe.simps [of hit' msk i])
    next
      case False
      then show ?thesis
        using IH [of hit msk "(i + 1) AND msk" p] step m1 i eq lt by (simp add: probe.simps [of hit' msk i])
    qed
  qed
  then show ?thesis using m i eq by blast
qed

text \<open>What a probe for key \<open>k\<close> finds in a well-formed table with a free slot.\<close>

definition found :: "('k \<Rightarrow> nat) \<Rightarrow> ('k, 'v) slots \<Rightarrow> 'k \<Rightarrow> nat \<Rightarrow> bool" where
  "found home t k p \<longleftrightarrow> p < length t \<and>
     (case t ! p of None \<Rightarrow> tab t k = None \<and> (\<forall>q < length t. before (length t) (home k) q p \<longrightarrow> t ! q \<noteq> None)
      | Some (k', v) \<Rightarrow> k' = k \<and> tab t k = Some v)"

lemma found_unique:
  assumes "found home t k p" "t ! p \<noteq> None"
  obtains v where "t ! p = Some (k, v)" "tab t k = Some v"
  using assms by (auto simp: found_def split: option.splits prod.splits)

lemma probe_found:
  assumes wf: "lp_wf home t" and n: "length t = 2 ^ j" "j < 64" and m: "unat msk = 2 ^ j - 1"
    and z: "z < length t" "t ! z = None"
    and i: "unat i = home k" and hit: "\<And>p. p < length t \<Longrightarrow> hit p \<longleftrightarrow> (case t ! p of None \<Rightarrow> True | Some (k', v) \<Rightarrow> k' = k)"
  obtains p where "probe hit msk i = Some p" "unat p < length t" "found home t k (unat p)"
proof -
  let ?n = "length t" and ?h = "home k"
  have h: "?h < ?n" using wf by (simp add: lp_wf_def)
  define P where "P = (\<lambda>d. hit ((?h + d) mod ?n))"
  define d where "d = (LEAST d. P d)"
  have "P (cdist ?n ?h z)" using z hit by (simp add: P_def cdist_add [OF h])
  then have Pd: "P d" and dz: "d \<le> cdist ?n ?h z" unfolding d_def by (rule LeastI, rule Least_le)
  have mn: "\<not> P e" if "e < d" for e using that not_less_Least unfolding d_def by blast
  have dn: "d < ?n" using dz cdist_lt [OF h z(1)] by linarith
  let ?p = "(?h + d) mod ?n"
  have p: "?p < ?n" using h by (intro mod_less_divisor) linarith
  have cp: "cdist ?n ?h ?p = d" by (rule cdist_mod [OF h dn])
  have early: "\<not> hit q" if "q < ?n" "before ?n ?h q ?p" for q
    using mn [of "cdist ?n ?h q"] that cdist_add [OF h that(1)] cp by (simp add: before_def P_def)
  have pr: "probe hit msk i = Some (of_nat ?p)"
    using probe_returns [OF m n(2), of hit i d] Pd mn h i by (simp add: P_def n(1))
  have pm: "unat (of_nat ?p :: u64) = ?p"
  proof (rule unat_of_nat_u64)
    have "?n < 18446744073709551616" using power_strict_increasing [OF n(2), of "2 :: nat"] n(1) by simp
    then show "?p < 18446744073709551616" using p by linarith
  qed
  have "found home t k ?p"
  proof (cases "t ! ?p")
    case None
    have "t ! q \<noteq> Some (k, v)" if q: "q < ?n" for q v
    proof
      assume kv: "t ! q = Some (k, v)"
      then have "\<not> before ?n ?h ?p q" using wf q p None path_okD by (metis lp_wf_def)
      moreover have "q \<noteq> ?p" using kv None by auto
      ultimately have "before ?n ?h q ?p"
        using cdist_inj [OF h q p] by (auto simp: before_def)
      then show False using early [OF q] hit [OF q] kv by simp
    qed
    then have "tab t k = None" by (simp add: tab_None)
    moreover have "t ! q \<noteq> None" if "q < ?n" "before ?n ?h q ?p" for q
      using early [OF that] hit [OF that(1)] by (auto split: option.splits)
    ultimately show ?thesis using None p by (simp add: found_def)
  next
    case (Some x)
    have "hit ?p" using Pd by (simp only: P_def)
    moreover obtain k' v where x: "x = (k', v)" by (cases x)
    ultimately have "k' = k" using hit [OF p] unfolding Some by simp
    then have kv: "t ! ?p = Some (k, v)" using Some x by simp
    have uk: "ukeys t" using wf by (simp add: lp_wf_def)
    have "tab t k = Some v" unfolding tab_Some [OF uk] by (intro exI [of _ ?p] conjI p kv)
    then show ?thesis using p kv by (simp add: found_def)
  qed
  then show thesis using that pr pm p by metis
qed

section \<open>Insertion and update\<close>

lemma tab_write:
  assumes uk: "ukeys t" "ukeys (t[p := Some (k, v)])" and p: "p < length t"
    and own: "t ! p = None \<or> (\<exists>w. t ! p = Some (k, w))" and new: "\<And>q w. q < length t \<Longrightarrow> t ! q = Some (k, w) \<Longrightarrow> q = p"
  shows "tab (t[p := Some (k, v)]) = (tab t)(k \<mapsto> v)"
proof
  let ?t = "t[p := Some (k, v)]"
  fix k'
  show "tab ?t k' = ((tab t)(k \<mapsto> v)) k'"
  proof (cases "k' = k")
    case True
    have "tab ?t k = Some v" using tab_Some [OF uk(2), of k v] p by (auto intro!: exI [of _ p])
    then show ?thesis using True by simp
  next
    case False
    have "tab ?t k' = Some w \<longleftrightarrow> tab t k' = Some w" for w
    proof -
      have "?t ! q = Some (k', w) \<longleftrightarrow> t ! q = Some (k', w)" if "q < length t" for q
        using False own p that by (cases "q = p") auto
      then show ?thesis using tab_Some [OF uk(1), of k' w] tab_Some [OF uk(2), of k' w] by auto
    qed
    then show ?thesis using False by (cases "tab t k'"; cases "tab ?t k'") auto
  qed
qed

lemma lp_insert:
  assumes wf: "lp_wf home t" and f: "found home t k p" and e: "t ! p = None"
  shows "lp_wf home (t[p := Some (k, v)])" and "tab (t[p := Some (k, v)]) = (tab t)(k \<mapsto> v)"
    and "length (ents (t[p := Some (k, v)])) = length (ents t) + 1"
proof -
  let ?t = "t[p := Some (k, v)]"
  have p: "p < length t" and new: "\<forall>q < length t. \<forall>w. t ! q \<noteq> Some (k, w)"
    and pth: "\<forall>q < length t. before (length t) (home k) q p \<longrightarrow> t ! q \<noteq> None"
    using f e by (auto simp: found_def tab_None)
  have po: "path_ok home t" and uk: "ukeys t" using wf by (auto simp: lp_wf_def)
  have uk': "ukeys ?t" using uk new p unfolding ukeys_def by (auto simp: nth_list_update)
  have "path_ok home ?t" using po pth p unfolding path_ok_def by (auto simp: nth_list_update)
  then show "lp_wf home ?t" using uk' wf by (simp add: lp_wf_def)
  show "tab ?t = (tab t)(k \<mapsto> v)" using tab_write [OF uk uk' p] e new by blast
  show "length (ents ?t) = length (ents t) + 1" using length_ents_update [OF p, of "Some (k, v)"] e by simp
qed

lemma lp_update:
  assumes wf: "lp_wf home t" and p: "p < length t" and e: "t ! p = Some (k, w)"
  shows "lp_wf home (t[p := Some (k, v)])" and "tab (t[p := Some (k, v)]) = (tab t)(k \<mapsto> v)"
    and "length (ents (t[p := Some (k, v)])) = length (ents t)"
proof -
  let ?t = "t[p := Some (k, v)]"
  have po: "path_ok home t" and uk: "ukeys t" using wf by (auto simp: lp_wf_def)
  have uk': "ukeys ?t" using uk p e unfolding ukeys_def by (auto simp: nth_list_update)
  have "path_ok home ?t" using po p e unfolding path_ok_def by (auto simp: nth_list_update)
  then show "lp_wf home ?t" using uk' wf by (simp add: lp_wf_def)
  have other: "q = p" if "q < length t" "t ! q = Some (k, u)" for q u
    using uk p e that unfolding ukeys_def by blast
  show "tab ?t = (tab t)(k \<mapsto> v)" using tab_write [OF uk uk' p] e other by blast
  show "length (ents ?t) = length (ents t)" using length_ents_update [OF p, of "Some (k, v)"] e by simp
qed

section \<open>Backward-shift deletion\<close>

text \<open>
  The state of the shift loop after the entry at \<open>i\<close> was removed: \<open>g\<close> is the gap, \<open>c\<close> the cursor, \<open>z\<close> a slot
  that was free all along.  Every probe path is unbroken but for the gap, and the entries between gap
  and cursor do not need the gap.
\<close>

definition shift_inv :: "('k \<Rightarrow> nat) \<Rightarrow> nat \<Rightarrow> nat \<Rightarrow> ('k, 'v) slots \<Rightarrow> nat \<Rightarrow> nat \<Rightarrow> bool" where
  "shift_inv home i z t g c \<longleftrightarrow>
     i < length t \<and> g < length t \<and> c < length t \<and> z < length t \<and> t ! g = None \<and> t ! z = None \<and>
     cdist (length t) i g < cdist (length t) i c \<and> cdist (length t) i c \<le> cdist (length t) i z \<and>
     ukeys t \<and> (\<forall>k. home k < length t) \<and>
     (\<forall>p < length t. \<forall>k v. t ! p = Some (k, v) \<longrightarrow>
        (\<forall>q < length t. before (length t) (home k) q p \<longrightarrow> t ! q \<noteq> None \<or> q = g)) \<and>
     (\<forall>p < length t. \<forall>k v. t ! p = Some (k, v) \<longrightarrow> cdist (length t) i g < cdist (length t) i p \<longrightarrow>
        cdist (length t) i p < cdist (length t) i c \<longrightarrow> \<not> before (length t) (home k) g p)"

lemma cyc_before:
  assumes "i < n" "g < n" "c < n" "p < n" "h < n" "cdist n i g < cdist n i c"
    "cdist n i p < cdist n i g \<or> cdist n i c < cdist n i p" "before n h g p"
  shows "before n h c p"
proof -
  have base: "cdist n h' b < cdist n h' p'"
    if "a < b" "p' < a \<or> b < p'" "cdist n h' a < cdist n h' p'" "a < n" "b < n" "p' < n" "h' < n" for a b p' h'
    using that by (cases "h' \<le> a"; cases "h' \<le> b"; cases "h' \<le> p'") (auto simp: cdist_def)
  note rot = cdist_rot [OF assms(1,5,2)] cdist_rot [OF assms(1,5,3)] cdist_rot [OF assms(1,5,4)]
  show ?thesis
    using base [OF assms(6,7), of "cdist n i h"] assms(8) cdist_lt [OF assms(1)] assms(2-5)
    by (simp only: before_def rot)
qed

lemma shift_init:
  assumes wf: "lp_wf home t" and i: "i < length t" "t ! i \<noteq> None" and z: "z < length t" "t ! z = None"
  shows "shift_inv home i z (t[i := None]) i ((i + 1) mod length t)"
proof -
  have "z \<noteq> i" using i z by auto
  then have cz: "0 < cdist (length t) i z" "cdist (length t) i z < length t"
    using cdist_0_iff [OF i(1) z(1)] cdist_lt [OF i(1) z(1)] by auto
  then have c: "cdist (length t) i ((i + 1) mod length t) = 1"
    using cdist_mod [OF i(1), of 1] by simp
  have "ukeys (t[i := None])" using wf i(1) by (auto simp: lp_wf_def ukeys_def nth_list_update)
  moreover have "\<forall>p < length t. \<forall>k v. t[i := None] ! p = Some (k, v) \<longrightarrow>
      (\<forall>q < length t. before (length t) (home k) q p \<longrightarrow> t[i := None] ! q \<noteq> None \<or> q = i)"
    using wf i(1) by (auto simp: lp_wf_def path_ok_def nth_list_update)
  ultimately show ?thesis
    using wf i z cz c \<open>z \<noteq> i\<close> next_lt [OF i(1)] by (auto simp: shift_inv_def lp_wf_def)
qed

lemma shift_next:
  assumes "shift_inv home i z t g c" "t ! c \<noteq> None"
  shows "cdist (length t) i ((c + 1) mod length t) = cdist (length t) i c + 1"
    and "cdist (length t) i c < cdist (length t) i z" and "g \<noteq> c"
proof -
  have r: "i < length t" "c < length t" "z < length t" "cdist (length t) i c \<le> cdist (length t) i z" "t ! z = None"
    using assms(1) by (auto simp: shift_inv_def)
  have "z \<noteq> c" using assms(2) r by auto
  then show lt: "cdist (length t) i c < cdist (length t) i z"
    using r cdist_inj [OF r(1,2,3)] by linarith
  then show "cdist (length t) i ((c + 1) mod length t) = cdist (length t) i c + 1"
    using cdist_Suc [OF r(1,2)] cdist_lt [OF r(1,3)] by simp
  show "g \<noteq> c" using assms(1) by (auto simp: shift_inv_def)
qed

lemma shift_stay:
  assumes inv: "shift_inv home i z t g c" and e: "t ! c = Some (k, v)" and b: "\<not> before (length t) (home k) g c"
  shows "shift_inv home i z t g ((c + 1) mod length t)"
proof -
  have e': "t ! c \<noteq> None" using e by simp
  note n = shift_next [OF inv e']
  have r: "i < length t" "c < length t" using inv by (auto simp: shift_inv_def)
  have "\<not> before (length t) (home k') g p"
    if p: "p < length t" "t ! p = Some (k', v')" "cdist (length t) i g < cdist (length t) i p"
      "cdist (length t) i p < cdist (length t) i c + 1" for p k' v'
  proof (cases "p = c")
    case True
    then show ?thesis using e b p(2) by simp
  next
    case False
    then have "cdist (length t) i p < cdist (length t) i c" using p(4) cdist_inj [OF r(1) p(1) r(2)] by linarith
    then show ?thesis using inv p by (auto simp: shift_inv_def)
  qed
  then show ?thesis using inv n next_lt [OF r(2)] by (auto simp: shift_inv_def)
qed

lemma shift_move:
  assumes inv: "shift_inv home i z t g c" and e: "t ! c = Some (k, v)" and b: "before (length t) (home k) g c"
  shows "shift_inv home i z (t[g := t ! c, c := None]) c ((c + 1) mod length t)"
proof -
  let ?t = "t[g := t ! c, c := None]"
  have e': "t ! c \<noteq> None" using e by simp
  note n = shift_next [OF inv e']
  have r: "i < length t" "g < length t" "c < length t" "z < length t" "t ! g = None" "t ! z = None" "ukeys t"
    "\<forall>k. home k < length t"
    and pth: "\<And>p k v q. p < length t \<Longrightarrow> t ! p = Some (k, v) \<Longrightarrow> q < length t \<Longrightarrow>
      before (length t) (home k) q p \<Longrightarrow> t ! q \<noteq> None \<or> q = g"
    using inv by (auto simp: shift_inv_def)
  have "z \<noteq> g" using inv n(2) by (auto simp: shift_inv_def)
  then have zt: "?t ! z = None" using r by (simp add: nth_list_update)
  have uk: "ukeys ?t"
    using \<open>ukeys t\<close> e r n(3) unfolding ukeys_def by (auto simp: nth_list_update split: if_splits)
  have "?t ! q \<noteq> None \<or> q = c"
    if p: "p < length t" "?t ! p = Some (k', v')" and q: "q < length t" "before (length t) (home k') q p" for p k' v' q
  proof (cases "p = g")
    case True
    then have k': "k' = k" using p(2) e r n(3) by simp
    have "q \<noteq> g" using q(2) True by (auto simp: before_def)
    moreover have "before (length t) (home k) q c" using q(2) b True k' by (simp add: before_def)
    ultimately have "t ! q \<noteq> None" using pth [OF r(3) e q(1)] by blast
    then show ?thesis using \<open>q \<noteq> g\<close> r by (simp add: nth_list_update)
  next
    case False
    then have "t ! p = Some (k', v')" using p r by (cases "p = c") auto
    then have "t ! q \<noteq> None \<or> q = g" using pth p(1) q by blast
    then show ?thesis using r e n(3) by (auto simp: nth_list_update)
  qed
  then show ?thesis
    using r n zt uk next_lt [OF r(3)] by (auto simp: shift_inv_def)
qed

lemma shift_done:
  assumes inv: "shift_inv home i z t g c" and e: "t ! c = None"
  shows "lp_wf home t"
proof -
  have r: "i < length t" "g < length t" "c < length t" "t ! g = None" "\<forall>k. home k < length t" "ukeys t"
    "cdist (length t) i g < cdist (length t) i c"
    and pth: "\<And>p k v q. p < length t \<Longrightarrow> t ! p = Some (k, v) \<Longrightarrow> q < length t \<Longrightarrow>
      before (length t) (home k) q p \<Longrightarrow> t ! q \<noteq> None \<or> q = g"
    and mid: "\<And>p k v. p < length t \<Longrightarrow> t ! p = Some (k, v) \<Longrightarrow> cdist (length t) i g < cdist (length t) i p \<Longrightarrow>
        cdist (length t) i p < cdist (length t) i c \<Longrightarrow> \<not> before (length t) (home k) g p"
    using inv by (auto simp: shift_inv_def)
  have gc: "g \<noteq> c" using r by auto
  have "t ! q \<noteq> None"
    if p: "p < length t" "t ! p = Some (k, v)" and q: "q < length t" "before (length t) (home k) q p" for p k v q
  proof (rule ccontr)
    assume "\<not> t ! q \<noteq> None"
    then have gp: "before (length t) (home k) g p" using pth [OF p q] q(2) by blast
    have "p \<noteq> g" "p \<noteq> c" using p e r by auto
    then have "cdist (length t) i p < cdist (length t) i g \<or> cdist (length t) i c < cdist (length t) i p"
      using mid [OF p] gp cdist_inj [OF r(1) p(1) r(2)] cdist_inj [OF r(1) p(1) r(3)]
      by (meson linorder_neqE_nat)
    then have "before (length t) (home k) c p"
      using cyc_before [OF r(1,2,3) p(1) _ r(7) _ gp] r(5) by blast
    then show False using pth [OF p r(3)] e gc by blast
  qed
  then show ?thesis using r by (auto simp: lp_wf_def path_ok_def)
qed

text \<open>
  Contents are only moved: the same entries, the same number of them, and what ends up below \<open>i\<close> came
  from below \<open>i\<close>.
\<close>

definition moved :: "nat \<Rightarrow> ('k, 'v) slots \<Rightarrow> ('k, 'v) slots \<Rightarrow> bool" where
  "moved i t t' \<longleftrightarrow> length t' = length t \<and> length (ents t') = length (ents t) \<and>
     (\<forall>x. (\<exists>p < length t. t' ! p = Some x) \<longleftrightarrow> (\<exists>p < length t. t ! p = Some x)) \<and>
     (\<forall>p < i. \<forall>x. t' ! p = Some x \<longrightarrow> (\<exists>q < i. t ! q = Some x))"

lemma moved_refl: "moved i t t"
  by (auto simp: moved_def)

lemma moved_trans: "moved i t t1 \<Longrightarrow> moved i t1 t2 \<Longrightarrow> moved i t t2"
  by (simp add: moved_def) blast

lemma moved_step:
  assumes inv: "shift_inv home i z t g c" and e: "t ! c = Some (k, v)"
  shows "moved i t (t[g := t ! c, c := None])"
proof -
  let ?t = "t[g := t ! c, c := None]"
  have r: "i < length t" "g < length t" "c < length t" "t ! g = None" "cdist (length t) i g < cdist (length t) i c"
    using inv by (auto simp: shift_inv_def)
  then have gc: "g \<noteq> c" by auto
  have "length (ents ?t) = length (ents t)"
    using length_ents_update [OF r(2), of "t ! c"] length_ents_update [of c "t[g := t ! c]" None] r gc e by simp
  moreover have "(\<exists>p < length t. ?t ! p = Some x) \<longleftrightarrow> (\<exists>p < length t. t ! p = Some x)" for x
  proof
    assume "\<exists>p < length t. ?t ! p = Some x"
    then show "\<exists>p < length t. t ! p = Some x" using r by (auto simp: nth_list_update split: if_splits)
  next
    assume "\<exists>p < length t. t ! p = Some x"
    then obtain p where p: "p < length t" "t ! p = Some x" by blast
    then have "?t ! (if p = c then g else p) = Some x" using r gc by (auto simp: nth_list_update)
    then show "\<exists>p < length t. ?t ! p = Some x" using p r by (intro exI [of _ "if p = c then g else p"]) simp
  qed
  moreover have "\<exists>q < i. t ! q = Some x" if p: "p < i" "?t ! p = Some x" for p x
  proof (cases "p = g")
    case True
    have "c < i" using r p(1) True by (auto simp: cdist_def split: if_splits)
    then show ?thesis using p True r gc by auto
  next
    case False
    then have "t ! p = Some x" using p r by (cases "p = c") auto
    then show ?thesis using p(1) by blast
  qed
  ultimately show ?thesis unfolding moved_def by simp
qed

lemma tab_moved:
  assumes "moved i t t'" "ukeys t" "ukeys t'" shows "tab t' = tab t"
  using assms by (intro tab_eqI) (auto simp: moved_def)

lemma tab_clear:
  assumes uk: "ukeys t" and i: "i < length t" "t ! i = Some (k, v)"
  shows "ukeys (t[i := None])" and "tab (t[i := None]) = (tab t)(k := None)"
proof -
  let ?t = "t[i := None]"
  have only: "q = i" if "q < length t" "t ! q = Some (k, w)" for q w
    using uk i that unfolding ukeys_def by blast
  show uk': "ukeys ?t" using uk i(1) by (auto simp: ukeys_def nth_list_update)
  show "tab ?t = (tab t)(k := None)"
  proof
    fix k'
    show "tab ?t k' = ((tab t)(k := None)) k'"
    proof (cases "k' = k")
      case True
      have "?t ! q \<noteq> Some (k, w)" if "q < length t" for q w
        using only [OF that, of w] that i by (cases "q = i") auto
      then show ?thesis using True by (simp add: tab_None)
    next
      case False
      have "?t ! q = Some (k', w) \<longleftrightarrow> t ! q = Some (k', w)" if "q < length t" for q w
        using False that i by (cases "q = i") auto
      then have "tab ?t k' = Some w \<longleftrightarrow> tab t k' = Some w" for w
        using tab_Some [OF uk, of k' w] tab_Some [OF uk', of k' w] by auto
      then show ?thesis using False by (cases "tab t k'"; cases "tab ?t k'") auto
    qed
  qed
qed

section \<open>The interface of a concrete table\<close>

text \<open>
  A concrete table is read as slots by \<open>slots\<close>, for shapes that satisfy \<open>good\<close>; \<open>rest\<close> is what the loops leave
  alone.  \<open>hashAt\<close> is the test and the hash the shift loop reads at an index, \<open>move\<close> its assignment block.
\<close>

locale open_table =
  fixes slots :: "'s \<Rightarrow> ('k, 'v) slots" and good :: "'s \<Rightarrow> bool" and rest :: "'s \<Rightarrow> 'r"
    and hash :: "'k \<Rightarrow> u64"
    and hashAt :: "'s \<Rightarrow> nat \<Rightarrow> u64 option" and move :: "'s \<Rightarrow> nat \<Rightarrow> nat \<Rightarrow> 's"
    and clear :: "'s \<Rightarrow> nat \<Rightarrow> 's"
  assumes hashAt: "good s \<Longrightarrow> i < length (slots s) \<Longrightarrow> hashAt s i = map_option (\<lambda>x. hash (fst x)) (slots s ! i)"
    and move_slots: "good s \<Longrightarrow> g < length (slots s) \<Longrightarrow> c < length (slots s) \<Longrightarrow> g \<noteq> c \<Longrightarrow> slots s ! c \<noteq> None \<Longrightarrow>
        slots (move s g c) = (slots s)[g := slots s ! c, c := None] \<and> good (move s g c) \<and> rest (move s g c) = rest s"
    and clear_slots: "good s \<Longrightarrow> g < length (slots s) \<Longrightarrow>
        slots (clear s g) = (slots s)[g := None] \<and> good (clear s g) \<and> rest (clear s g) = rest s"
begin

lemma backshift_returns:
  assumes inv: "shift_inv (\<lambda>k. unat (hash k AND msk)) i z (slots s) (unat g) (unat c)" and good: "good s"
    and n: "length (slots s) = 2 ^ j" "j < 64" and m: "unat msk = 2 ^ j - 1"
  shows "\<exists>s'. backshift hashAt move msk s g c = Some s' \<and> good s' \<and> rest s' = rest s \<and>
    lp_wf (\<lambda>k. unat (hash k AND msk)) (slots s') \<and> moved i (slots s) (slots s')"
  using inv good n(1)
proof (induction "cdist (length (slots s)) i z - cdist (length (slots s)) i (unat c)" arbitrary: s g c rule: less_induct)
  case less
  let ?h = "\<lambda>k. unat (hash k AND msk)" and ?n = "length (slots s)" and ?c = "(c + 1) AND msk"
  have r: "unat g < ?n" "unat c < ?n" "\<forall>k. ?h k < ?n" using less.prems(1) by (auto simp: shift_inv_def)
  have nx: "unat ?c = (unat c + 1) mod ?n" using unat_next [OF m n(2)] less.prems(3) by simp
  show ?case
  proof (cases "slots s ! unat c")
    case None
    then have "backshift hashAt move msk s g c = Some s"
      using hashAt [OF less.prems(2) r(2)] by (simp add: backshift.simps)
    then show ?thesis using shift_done [OF less.prems(1) None] less.prems(2) moved_refl by blast
  next
    case (Some x)
    obtain k v where kv: "slots s ! unat c = Some (k, v)" using Some by (cases x) simp
    then have ne: "slots s ! unat c \<noteq> None" by simp
    note nxt = shift_next [OF less.prems(1) ne]
    have gc: "g \<noteq> c" using nxt(3) by auto
    have sh: "shifts (hash k AND msk) g c \<longleftrightarrow> before ?n (?h k) (unat g) (unat c)"
      using shifts_iff [OF r(1,2) _ gc] r(3) by blast
    have unf: "backshift hashAt move msk s g c =
        (if shifts (hash k AND msk) g c then backshift hashAt move msk (move s (unat g) (unat c)) c ?c
         else backshift hashAt move msk s g ?c)"
      using hashAt [OF less.prems(2) r(2)] kv by (simp add: backshift.simps [of hashAt move msk s g c])
    have dec: "cdist ?n i z - cdist ?n i (unat ?c) < cdist ?n i z - cdist ?n i (unat c)"
      using nxt(1,2) nx by simp
    show ?thesis
    proof (cases "shifts (hash k AND msk) g c")
      case True
      let ?s = "move s (unat g) (unat c)"
      note mv = move_slots [OF less.prems(2) r(1,2) nxt(3) ne]
      have inv': "shift_inv ?h i z (slots ?s) (unat c) (unat ?c)"
        using shift_move [OF less.prems(1) kv] True sh mv nx by simp
      have len: "length (slots ?s) = ?n" using mv by simp
      obtain s' where s': "backshift hashAt move msk ?s c ?c = Some s'" "good s'" "rest s' = rest ?s"
        "lp_wf ?h (slots s')" "moved i (slots ?s) (slots s')"
        using less.hyps [OF _ inv'] dec len mv less.prems(3) by auto
      moreover have "moved i (slots s) (slots s')"
        using moved_step [OF less.prems(1) kv] mv moved_trans [OF _ s'(5)] by simp
      ultimately show ?thesis using unf True mv by simp
    next
      case False
      then have "shift_inv ?h i z (slots s) (unat g) (unat ?c)"
        using shift_stay [OF less.prems(1) kv] sh nx by simp
      from less.hyps [OF dec this less.prems(2,3)] show ?thesis using unf False by simp
    qed
  qed
qed

lemma delete_returns:
  assumes wf: "lp_wf (\<lambda>k. unat (hash k AND msk)) (slots s)" and good: "good s"
    and n: "length (slots s) = 2 ^ j" "j < 64" and m: "unat msk = 2 ^ j - 1"
    and z: "z < length (slots s)" "slots s ! z = None"
    and i: "unat i < length (slots s)" "slots s ! unat i = Some (k, v)"
  shows "\<exists>s'. backshift hashAt move msk (clear s (unat i)) i ((i + 1) AND msk) = Some s' \<and> good s' \<and>
    rest s' = rest s \<and> lp_wf (\<lambda>k. unat (hash k AND msk)) (slots s') \<and>
    length (slots s') = length (slots s) \<and> length (ents (slots s')) + 1 = length (ents (slots s)) \<and>
    tab (slots s') = (tab (slots s))(k := None) \<and>
    (\<forall>p < unat i. \<forall>x. slots s' ! p = Some x \<longrightarrow> (\<exists>q < unat i. slots s ! q = Some x))"
proof -
  let ?h = "\<lambda>k. unat (hash k AND msk)" and ?s = "clear s (unat i)" and ?c = "(i + 1) AND msk"
  note cl = clear_slots [OF good i(1)]
  have uk: "ukeys (slots s)" using wf by (simp add: lp_wf_def)
  note tc = tab_clear [OF uk i]
  have "unat ?c = (unat i + 1) mod length (slots s)" using unat_next [OF m n(2)] n(1) by simp
  then have inv: "shift_inv ?h (unat i) z (slots ?s) (unat i) (unat ?c)"
    using shift_init [OF wf i(1) _ z] i(2) cl by simp
  have len: "length (slots ?s) = 2 ^ j" using cl n by simp
  from backshift_returns [OF inv _ len n(2) m] cl obtain s' where
    s': "backshift hashAt move msk ?s i ?c = Some s'" "good s'" "rest s' = rest s" "lp_wf ?h (slots s')"
      "moved (unat i) (slots ?s) (slots s')" by auto
  have "tab (slots s') = (tab (slots s))(k := None)"
    using tab_moved [OF s'(5)] tc cl s'(4) by (simp add: lp_wf_def)
  moreover have "length (ents (slots s')) + 1 = length (ents (slots s))"
    using length_ents_update [OF i(1), of None] i(2) s'(5) cl by (simp add: moved_def)
  moreover have "\<exists>q < unat i. slots s ! q = Some x" if "p < unat i" "slots s' ! p = Some x" for p x
  proof -
    obtain q where q: "q < unat i" "slots ?s ! q = Some x" using s'(5) \<open>p < unat i\<close> \<open>slots s' ! p = Some x\<close>
      unfolding moved_def by blast
    then show ?thesis using cl by (intro exI [of _ q]) simp
  qed
  moreover have "length (slots s') = length (slots s)" using s'(5) cl by (simp add: moved_def)
  ultimately show ?thesis using s' by blast
qed

end

section \<open>Two representations of one table\<close>

text \<open>A shift loop on one representation simulates the loop on another whose steps match.\<close>

lemma backshift_sim:
  assumes run: "backshift hashB moveB msk t g c = Some t'" and R: "R s t"
    and m: "unat msk = 2 ^ k - 1" "k < 64" and g: "unat g < 2 ^ k" and c: "unat c < 2 ^ k"
    and hash: "\<And>s t i. R s t \<Longrightarrow> i < 2 ^ k \<Longrightarrow> hashA s i = hashB t i"
    and move: "\<And>s t i j. R s t \<Longrightarrow> i < 2 ^ k \<Longrightarrow> j < 2 ^ k \<Longrightarrow> hashB t j \<noteq> None \<Longrightarrow> R (moveA s i j) (moveB t i j)"
  shows "\<exists>s'. backshift hashA moveA msk s g c = Some s' \<and> R s' t'"
proof -
  let ?P = "\<lambda>t g c t'. \<forall>s. R s t \<longrightarrow> unat g < 2 ^ k \<longrightarrow> unat c < 2 ^ k \<longrightarrow>
     (\<exists>s'. backshift hashA moveA msk s g c = Some s' \<and> R s' t')"
  have "hB = hashB \<longrightarrow> mB = moveB \<longrightarrow> mk = msk \<longrightarrow> ?P t g c t'" if "backshift hB mB mk t g c = Some t'" for hB mB mk
  proof (rule backshift.raw_induct [where P = "\<lambda>hB mB mk t g c t'. hB = hashB \<longrightarrow> mB = moveB \<longrightarrow> mk = msk \<longrightarrow> ?P t g c t'", OF _ that])
    fix rec hB mB mk t g c t'
    assume IH: "\<And>hB mB mk t g c t'. rec hB mB mk t g c = Some t' \<Longrightarrow>
        hB = hashB \<longrightarrow> mB = moveB \<longrightarrow> mk = msk \<longrightarrow> ?P t g c t'"
      and step: "(case hB t (unat c) of None \<Rightarrow> Some t | Some hsh \<Rightarrow>
         if shifts (hsh AND mk) g c then rec hB mB mk (mB t (unat g) (unat c)) c ((c + 1) AND mk)
         else rec hB mB mk t g ((c + 1) AND mk)) = Some t'"
    have lt: "unat ((c + 1) AND msk) < 2 ^ k" for c using unat_next [OF m] by simp
    show "hB = hashB \<longrightarrow> mB = moveB \<longrightarrow> mk = msk \<longrightarrow> ?P t g c t'"
    proof (intro impI allI)
      fix s assume e: "hB = hashB" "mB = moveB" "mk = msk" and R: "R s t" and g: "unat g < 2 ^ k" and c: "unat c < 2 ^ k"
      note h = hash [OF R c]
      show "\<exists>s'. backshift hashA moveA msk s g c = Some s' \<and> R s' t'"
      proof (cases "hashB t (unat c)")
        case None
        then show ?thesis using step R h e by (simp add: backshift.simps [of hashA _ _ s g c])
      next
        case (Some hsh)
        show ?thesis
        proof (cases "shifts (hsh AND msk) g c")
          case True
          have "R (moveA s (unat g) (unat c)) (moveB t (unat g) (unat c))" using move [OF R g c] Some by simp
          then show ?thesis
            using IH [of hashB moveB msk "moveB t (unat g) (unat c)" c "(c + 1) AND msk" t'] step Some True e c lt h
            by (simp add: backshift.simps [of hashA _ _ s g c])
        next
          case False
          then show ?thesis
            using IH [of hashB moveB msk t g "(c + 1) AND msk" t'] step Some e R g lt h
            by (simp add: backshift.simps [of hashA _ _ s g c])
        qed
      qed
    qed
  qed
  then show ?thesis using run R g c by blast
qed

section \<open>The interface of a key-value table\<close>

text \<open>
  What the callers of an index rely on: an insertion and a deletion that return and act on a map from
  keys to values, as long as there is room to grow.  \<open>kv_run\<close> is a history of such calls.
\<close>

datatype ('k, 'v) kv_op = KPut 'k 'v | KDel 'k

fun kv_step :: "('k, 'v) kv_op \<Rightarrow> ('k \<Rightarrow> 'v option) \<Rightarrow> ('k \<Rightarrow> 'v option)" where
  "kv_step (KPut k v) m = m(k \<mapsto> v)"
| "kv_step (KDel k) m = m(k := None)"

fun kv_run :: "('s \<Rightarrow> 'k \<Rightarrow> 'v \<Rightarrow> 's option) \<Rightarrow> ('s \<Rightarrow> 'k \<Rightarrow> 's option) \<Rightarrow> ('k, 'v) kv_op list \<Rightarrow> 's \<Rightarrow> 's option" where
  "kv_run ins del [] s = Some s"
| "kv_run ins del (KPut k v # ops) s = (case ins s k v of None \<Rightarrow> None | Some s' \<Rightarrow> kv_run ins del ops s')"
| "kv_run ins del (KDel k # ops) s = (case del s k of None \<Rightarrow> None | Some s' \<Rightarrow> kv_run ins del ops s')"

locale kv_table =
  fixes inv :: "'s \<Rightarrow> bool" and room :: "'s \<Rightarrow> bool" and lookup :: "'s \<Rightarrow> 'k \<Rightarrow> 'v option"
    and ins :: "'s \<Rightarrow> 'k \<Rightarrow> 'v \<Rightarrow> 's option" and del :: "'s \<Rightarrow> 'k \<Rightarrow> 's option"
  assumes ins: "inv s \<Longrightarrow> room s \<Longrightarrow> \<exists>s'. ins s k v = Some s' \<and> inv s' \<and> lookup s' = (lookup s)(k \<mapsto> v)"
    and del: "inv s \<Longrightarrow> \<exists>s'. del s k = Some s' \<and> inv s' \<and> lookup s' = (lookup s)(k := None)"
begin

lemma run_refines:
  assumes "inv s"
  shows "(\<exists>s'. kv_run ins del ops s = Some s' \<and> inv s' \<and> lookup s' = fold kv_step ops (lookup s)) \<or>
    (\<exists>n s'. kv_run ins del (take n ops) s = Some s' \<and> \<not> room s')"
  using assms
proof (induction ops arbitrary: s)
  case (Cons a ops)
  show ?case
  proof (cases "room s")
    case False
    then show ?thesis by (intro disjI2 exI [of _ 0] exI [of _ s]) simp
  next
    case True
    obtain s1 where s1: "inv s1" "lookup s1 = kv_step a (lookup s)" "\<And>os. kv_run ins del (a # os) s = kv_run ins del os s1"
    proof (cases a)
      case (KPut k v)
      then show thesis using ins [OF Cons.prems True, of k v] that by auto
    next
      case (KDel k)
      then show thesis using del [OF Cons.prems, of k] that by auto
    qed
    from Cons.IH [OF s1(1)] show ?thesis
    proof
      assume "\<exists>n s'. kv_run ins del (take n ops) s1 = Some s' \<and> \<not> room s'"
      then obtain n s' where "kv_run ins del (take n ops) s1 = Some s'" "\<not> room s'" by blast
      then show ?thesis using s1(3) by (intro disjI2 exI [of _ "Suc n"] exI [of _ s']) simp
    qed (use s1 in simp)
  qed
qed simp

end

end
