(* ===== verification/Ring_Buffer.thy ===== *)
theory Ring_Buffer
  imports Arena Linear_Probing
begin

text \<open>
  \<^verbatim>\<open>internal/eviction/queue.go\<close>: the fixed-capacity ring buffer of the S and M queues.  Head and tail are
  64-bit counters that are never reduced modulo the capacity, so they wrap around eventually; the
  refinement to a bounded FIFO list below holds across the wrap.

  Each slot carries a tombstone \<^verbatim>\<open>alive\<close>.  \<^verbatim>\<open>Remove\<close> clears it, \<^verbatim>\<open>ScanFromHead\<close> tests it, \<^verbatim>\<open>Pop\<close> ignores it.
\<close>

section \<open>Definitions\<close>

definition noNext :: u32 where "noNext = 0xFFFFFFFF"

record slot =
  sl_h :: Handle
  sl_next :: u32
  sl_alive :: bool

record RingBuffer =
  rb_cap :: u64
  rb_mask :: u64
  rb_head :: u64
  rb_tail :: u64
  rb_data :: "slot list"

definition zeroSlot :: slot where
  "zeroSlot = \<lparr>sl_h = zeroHandle, sl_next = 0, sl_alive = False\<rparr>"

text \<open>\<^verbatim>\<open>for c < capacity { c <<= 1 }\<close>; past \<open>2 ^ 63\<close> the shift reaches zero and the loop does not end.\<close>

partial_function (option) doubleUntil :: "u64 \<Rightarrow> u64 \<Rightarrow> u64 option" where
  "doubleUntil c capacity = (if c < capacity then doubleUntil (push_bit 1 c) capacity else Some c)"

declare doubleUntil.simps [code]

definition NewRingBuffer :: "u64 \<Rightarrow> RingBuffer option" where
  "NewRingBuffer capacity =
    map_option (\<lambda>c. \<lparr>rb_cap = c, rb_mask = c - 1, rb_head = 0, rb_tail = 0, rb_data = replicate (unat c) zeroSlot\<rparr>)
      (doubleUntil 1 (if capacity = 0 then 1 else capacity))"

definition rb_Capacity :: "RingBuffer \<Rightarrow> u64" where
  "rb_Capacity rb = rb_cap rb"

definition rb_Full :: "RingBuffer \<Rightarrow> bool" where
  "rb_Full rb \<longleftrightarrow> rb_tail rb - rb_head rb \<ge> rb_cap rb"

definition rb_Empty :: "RingBuffer \<Rightarrow> bool" where
  "rb_Empty rb \<longleftrightarrow> rb_tail rb = rb_head rb"

definition rb_Size :: "RingBuffer \<Rightarrow> u64" where
  "rb_Size rb = rb_tail rb - rb_head rb"

definition rb_Push :: "RingBuffer \<Rightarrow> Handle \<Rightarrow> bool \<times> RingBuffer" where
  "rb_Push rb h =
    (if rb_Full rb then (False, rb)
     else (True, rb\<lparr>rb_data := (rb_data rb)[unat (rb_tail rb AND rb_mask rb) :=
               \<lparr>sl_h = h, sl_next = noNext, sl_alive = True\<rparr>],
             rb_tail := rb_tail rb + 1\<rparr>))"

definition rb_Pop :: "RingBuffer \<Rightarrow> (Handle \<times> bool) \<times> RingBuffer" where
  "rb_Pop rb =
    (if rb_Empty rb then ((zeroHandle, False), rb)
     else let i = unat (rb_head rb AND rb_mask rb); s = rb_data rb ! i
          in ((sl_h s, True), rb\<lparr>rb_data := (rb_data rb)[i := s\<lparr>sl_alive := False\<rparr>], rb_head := rb_head rb + 1\<rparr>))"

definition rb_Peek :: "RingBuffer \<Rightarrow> Handle \<times> bool" where
  "rb_Peek rb =
    (if rb_Empty rb then (zeroHandle, False)
     else (sl_h (rb_data rb ! unat (rb_head rb AND rb_mask rb)), True))"

text \<open>The three loops over all slots stop at the first live slot that holds the handle.\<close>

definition rb_find :: "RingBuffer \<Rightarrow> Handle \<Rightarrow> nat option" where
  "rb_find rb h = List.find (\<lambda>i. let s = rb_data rb ! unat (of_nat i AND rb_mask rb) in sl_alive s \<and> sl_h s = h)
     [0..<unat (rb_cap rb)]"

definition rb_ScanFromHead :: "RingBuffer \<Rightarrow> Handle \<Rightarrow> bool" where
  "rb_ScanFromHead rb h \<longleftrightarrow> rb_find rb h \<noteq> None"

definition rb_Remove :: "RingBuffer \<Rightarrow> Handle \<Rightarrow> bool \<times> RingBuffer" where
  "rb_Remove rb h =
    (case rb_find rb h of
       None \<Rightarrow> (False, rb)
     | Some i \<Rightarrow> let j = unat (of_nat i AND rb_mask rb)
                 in (True, rb\<lparr>rb_data := (rb_data rb)[j := (rb_data rb ! j)\<lparr>sl_alive := False\<rparr>]\<rparr>))"

definition rb_ResetFreq :: "RingBuffer \<Rightarrow> Manager \<Rightarrow> Handle \<Rightarrow> Manager" where
  "rb_ResetFreq rb mgr h = (case rb_find rb h of None \<Rightarrow> mgr | Some _ \<Rightarrow> SetFreq mgr h 0)"

definition rb_Clear :: "RingBuffer \<Rightarrow> RingBuffer" where
  "rb_Clear rb = rb\<lparr>rb_data := map (\<lambda>s. s\<lparr>sl_alive := False\<rparr>) (rb_data rb), rb_head := 0, rb_tail := 0\<rparr>"

subsection \<open>Contract\<close>

definition rb_len :: "RingBuffer \<Rightarrow> nat" where
  "rb_len rb = unat (rb_tail rb - rb_head rb)"

definition rb_slot :: "RingBuffer \<Rightarrow> nat \<Rightarrow> slot" where
  "rb_slot rb i = rb_data rb ! unat ((rb_head rb + of_nat i) AND rb_mask rb)"

definition rb_content :: "RingBuffer \<Rightarrow> Handle list" where
  "rb_content rb = map (\<lambda>i. sl_h (rb_slot rb i)) [0..<rb_len rb]"

definition rb_shape :: "nat \<Rightarrow> RingBuffer \<Rightarrow> bool" where
  "rb_shape k rb \<longleftrightarrow> k < 64 \<and> unat (rb_cap rb) = 2 ^ k \<and> unat (rb_mask rb) = 2 ^ k - 1 \<and>
     length (rb_data rb) = 2 ^ k \<and> rb_len rb \<le> 2 ^ k"

definition rb_inv :: "RingBuffer \<Rightarrow> bool" where
  "rb_inv rb \<longleftrightarrow> (\<exists>k. rb_shape k rb)"

section \<open>A bounded first-in first-out queue\<close>

locale bounded_fifo =
  fixes inv :: "'q \<Rightarrow> bool" and content :: "'q \<Rightarrow> 'a list" and cap :: "'q \<Rightarrow> nat"
    and push :: "'q \<Rightarrow> 'a \<Rightarrow> bool \<times> 'q" and pop :: "'q \<Rightarrow> 'a option \<times> 'q"
  assumes push_ok: "inv q \<Longrightarrow> length (content q) < cap q \<Longrightarrow> push q x = (ok, q') \<Longrightarrow>
      ok \<and> inv q' \<and> content q' = content q @ [x] \<and> cap q' = cap q"
    and push_full: "inv q \<Longrightarrow> \<not> length (content q) < cap q \<Longrightarrow> push q x = (False, q)"
    and pop_ok: "inv q \<Longrightarrow> pop q = (r, q') \<Longrightarrow>
      (case content q of [] \<Rightarrow> r = None \<and> q' = q
       | x # xs \<Rightarrow> r = Some x \<and> inv q' \<and> content q' = xs \<and> cap q' = cap q)"
begin

lemma push_all:
  assumes "inv q" "length (content q) + length xs \<le> cap q"
  shows "inv (fold (\<lambda>x q. snd (push q x)) xs q) \<and> content (fold (\<lambda>x q. snd (push q x)) xs q) = content q @ xs"
  using assms
proof (induction xs arbitrary: q)
  case (Cons x xs)
  obtain ok q' where p: "push q x = (ok, q')" by force
  have "length (content q) < cap q" using Cons.prems(2) by simp
  note q' = push_ok [OF Cons.prems(1) this p]
  then have "length (content q') + length xs \<le> cap q'" using Cons.prems(2) by simp
  then show ?case using Cons.IH [of q'] q' p by simp
qed simp

lemma drain:
  assumes "inv q"
  shows "inv (((\<lambda>q. snd (pop q)) ^^ n) q) \<and> content (((\<lambda>q. snd (pop q)) ^^ n) q) = drop n (content q)"
proof (induction n)
  case (Suc n)
  let ?q = "((\<lambda>q. snd (pop q)) ^^ n) q"
  obtain r q' where p: "pop ?q = (r, q')" by force
  have i: "inv ?q" using Suc by simp
  have "inv q' \<and> content q' = tl (content ?q)"
    using pop_ok [OF i p] i by (cases "content ?q") auto
  moreover have "drop (Suc n) (content q) = tl (content ?q)" using Suc by (simp add: drop_Suc tl_drop)
  ultimately show ?case using p by simp
qed (use assms in simp)

text \<open>What is pushed comes out in the order it went in, after what was there before.\<close>

lemma fifo_order:
  assumes "inv q" "length (content q) + length xs \<le> cap q" "n < length xs"
  shows "fst (pop (((\<lambda>q. snd (pop q)) ^^ (length (content q) + n)) (fold (\<lambda>x q. snd (push q x)) xs q))) = Some (xs ! n)"
proof -
  let ?p = "fold (\<lambda>x q. snd (push q x)) xs q"
  let ?q = "((\<lambda>q. snd (pop q)) ^^ (length (content q) + n)) ?p"
  have i: "inv ?q" and c: "content ?q = drop n xs"
    using push_all [OF assms(1,2)] drain [of ?p "length (content q) + n"] by auto
  obtain r q' where p: "pop ?q = (r, q')" by force
  show ?thesis
    using pop_ok [OF i p] c assms(3) p by (simp add: Cons_nth_drop_Suc [symmetric])
qed

end

section \<open>The ring buffer is such a queue\<close>

lemma rb_shape_next:
  assumes "rb_shape k rb"
  shows "unat (w AND rb_mask rb) = unat w mod 2 ^ k" "unat (w AND rb_mask rb) < length (rb_data rb)"
  using assms and_mask_mod [of "rb_mask rb" k w] by (auto simp: rb_shape_def)

lemma rb_index_inj:
  assumes s: "rb_shape k rb" and i: "i < 2 ^ k" "j < 2 ^ k" "i \<noteq> j"
  shows "unat ((w + of_nat i) AND rb_mask rb) \<noteq> unat ((w + of_nat j) AND rb_mask rb)"
proof
  assume eq: "unat ((w + of_nat i) AND rb_mask rb) = unat ((w + of_nat j) AND rb_mask rb)"
  have k: "k < 64" using s by (simp add: rb_shape_def)
  have dv: "(2 :: nat) ^ k dvd 2 ^ 64" using k by (intro le_imp_power_dvd) simp
  have lt: "(2 :: nat) ^ k < 2 ^ 64" using k by (intro power_strict_increasing) simp_all
  have u: "unat (w + of_nat x) mod 2 ^ k = (unat w + x) mod 2 ^ k" if "x < 2 ^ k" for x
  proof -
    have "unat (of_nat x :: u64) = x" using that lt by (intro unat_of_nat_u64) simp
    then have "unat (w + of_nat x) = (unat w + x) mod 2 ^ 64" by (simp add: unat_word_ariths)
    then show ?thesis using dv by (simp add: mod_mod_cancel)
  qed
  have "(unat w + i) mod 2 ^ k = (unat w + j) mod 2 ^ k"
    using eq u [OF i(1)] u [OF i(2)] by (simp add: rb_shape_next(1) [OF s])
  moreover have "cdist (2 ^ k) (unat w mod 2 ^ k) ((unat w + x) mod 2 ^ k) = x" if "x < 2 ^ k" for x
    using cdist_mod [of "unat w mod 2 ^ k" "2 ^ k" x] that by (simp add: mod_simps)
  ultimately show False using i by metis
qed

lemma rb_len_lt: "rb_len rb < 2 ^ 64"
  using unat_u64_lt by (simp add: rb_len_def)

lemma rb_tail_eq: "rb_tail rb = rb_head rb + of_nat (rb_len rb)"
  by (simp add: rb_len_def)

lemma rb_len_content [simp]: "length (rb_content rb) = rb_len rb"
  by (simp add: rb_content_def)

lemma rb_Full_iff: "rb_shape k rb \<Longrightarrow> rb_Full rb \<longleftrightarrow> rb_len rb = 2 ^ k"
  by (auto simp: rb_Full_def rb_len_def rb_shape_def word_le_nat_alt)

lemma rb_Empty_iff: "rb_Empty rb \<longleftrightarrow> rb_len rb = 0"
  by (auto simp: rb_Empty_def rb_len_def unat_eq_0)

lemma rb_Push_ok:
  assumes s: "rb_shape k rb" and room: "rb_len rb < 2 ^ k" and p: "rb_Push rb h = (ok, rb')"
  shows "ok" "rb_shape k rb'" "rb_content rb' = rb_content rb @ [h]" "rb_cap rb' = rb_cap rb"
proof -
  have nf: "\<not> rb_Full rb" using rb_Full_iff [OF s] room by simp
  let ?t = "unat (rb_tail rb AND rb_mask rb)"
  have rb': "rb' = rb\<lparr>rb_data := (rb_data rb)[?t := \<lparr>sl_h = h, sl_next = noNext, sl_alive = True\<rparr>], rb_tail := rb_tail rb + 1\<rparr>"
    and ok: "ok" using p nf by (auto simp: rb_Push_def)
  show "ok" by (rule ok)
  have k: "k < 64" using s by (simp add: rb_shape_def)
  have lt: "(2 :: nat) ^ k < 2 ^ 64" using k by (intro power_strict_increasing) simp_all
  have e: "rb_tail rb + 1 - rb_head rb = of_nat (rb_len rb + 1)"
    by (simp add: rb_tail_eq [of rb])
  have "rb_len rb' = unat (rb_tail rb + 1 - rb_head rb)" by (simp add: rb_len_def rb')
  also have "\<dots> = rb_len rb + 1"
    unfolding e using room lt by (intro unat_of_nat_u64) simp
  finally have len: "rb_len rb' = rb_len rb + 1" .
  show "rb_shape k rb'" using s room len by (simp add: rb_shape_def rb')
  show "rb_cap rb' = rb_cap rb" by (simp add: rb')
  have old: "rb_slot rb' i = rb_slot rb i" if "i < rb_len rb" for i
    using rb_index_inj [OF s, of i "rb_len rb" "rb_head rb"] that room
    by (simp add: rb_slot_def rb' flip: rb_tail_eq)
  have "rb_slot rb' (rb_len rb) = \<lparr>sl_h = h, sl_next = noNext, sl_alive = True\<rparr>"
    using rb_shape_next(2) [OF s, of "rb_tail rb"] by (simp add: rb_slot_def rb' flip: rb_tail_eq)
  then show "rb_content rb' = rb_content rb @ [h]"
    using old by (simp add: rb_content_def len)
qed

lemma rb_Push_full: "rb_shape k rb \<Longrightarrow> rb_len rb = 2 ^ k \<Longrightarrow> rb_Push rb h = (False, rb)"
  using rb_Full_iff [of k rb] by (simp add: rb_Push_def)

lemma rb_Pop_ok:
  assumes s: "rb_shape k rb" and p: "rb_Pop rb = (r, rb')"
  shows "case rb_content rb of [] \<Rightarrow> r = (zeroHandle, False) \<and> rb' = rb
    | x # xs \<Rightarrow> r = (x, True) \<and> rb_shape k rb' \<and> rb_content rb' = xs \<and> rb_cap rb' = rb_cap rb"
proof (cases "rb_len rb")
  case 0
  then have "rb_content rb = []" by (simp add: rb_content_def)
  then show ?thesis using p 0 by (simp add: rb_Pop_def rb_Empty_iff)
next
  case (Suc n)
  let ?i = "unat (rb_head rb AND rb_mask rb)"
  have e: "\<not> rb_Empty rb" using Suc by (simp add: rb_Empty_iff)
  have rb': "rb' = rb\<lparr>rb_data := (rb_data rb)[?i := (rb_data rb ! ?i)\<lparr>sl_alive := False\<rparr>], rb_head := rb_head rb + 1\<rparr>"
    and r: "r = (sl_h (rb_slot rb 0), True)" using p e by (auto simp: rb_Pop_def Let_def rb_slot_def)
  have k: "k < 64" "Suc n \<le> 2 ^ k" using s Suc by (simp_all add: rb_shape_def)
  have "(2 :: nat) ^ k < 2 ^ 64" using k(1) by (intro power_strict_increasing) simp_all
  then have small: "unat (of_nat n :: u64) = n" using k(2) by (intro unat_of_nat_u64) simp
  have "rb_tail rb - (rb_head rb + 1) = of_nat n" by (simp add: rb_tail_eq [of rb] Suc)
  moreover have "rb_len rb' = unat (rb_tail rb - (rb_head rb + 1))" by (simp add: rb_len_def rb')
  ultimately have len: "rb_len rb' = n" using small by (simp only:)
  have slot: "sl_h (rb_slot rb' i) = sl_h (rb_slot rb (Suc i))" if "i < n" for i
  proof -
    have "sl_h (rb_slot rb' i) = sl_h (rb_data rb ! unat ((rb_head rb + 1 + of_nat i) AND rb_mask rb))"
      using rb_shape_next(2) [OF s] by (simp add: rb_slot_def rb' nth_list_update)
    then show ?thesis by (simp add: rb_slot_def add.assoc)
  qed
  have "rb_content rb = sl_h (rb_slot rb 0) # map (\<lambda>i. sl_h (rb_slot rb (Suc i))) [0..<n]"
    by (simp add: rb_content_def Suc upt_conv_Cons map_Suc_upt [symmetric] del: upt_Suc)
  moreover have "rb_content rb' = map (\<lambda>i. sl_h (rb_slot rb (Suc i))) [0..<n]"
    using slot by (simp add: rb_content_def len)
  moreover have "rb_shape k rb'" using s len k(2) by (simp add: rb_shape_def rb')
  ultimately show ?thesis using r by (simp add: rb')
qed

interpretation rb: bounded_fifo rb_inv rb_content "\<lambda>rb. unat (rb_cap rb)" rb_Push
  "\<lambda>rb. let ((h, ok), rb') = rb_Pop rb in (if ok then Some h else None, rb')"
proof
  fix q q' :: RingBuffer and x :: Handle and ok :: bool and r :: "Handle option"
  show "ok \<and> rb_inv q' \<and> rb_content q' = rb_content q @ [x] \<and> unat (rb_cap q') = unat (rb_cap q)"
    if a: "rb_inv q" "length (rb_content q) < unat (rb_cap q)" "rb_Push q x = (ok, q')"
  proof -
    obtain k where k: "rb_shape k q" using a(1) by (auto simp: rb_inv_def)
    then have "rb_len q < 2 ^ k" using a(2) by (simp add: rb_shape_def)
    from rb_Push_ok [OF k this a(3)] show ?thesis by (auto simp: rb_inv_def)
  qed
  show "rb_Push q x = (False, q)" if a: "rb_inv q" "\<not> length (rb_content q) < unat (rb_cap q)"
  proof -
    obtain k where k: "rb_shape k q" using a(1) by (auto simp: rb_inv_def)
    then have "rb_len q = 2 ^ k" using a(2) by (simp add: rb_shape_def)
    from rb_Push_full [OF k this] show ?thesis .
  qed
  show "case rb_content q of [] \<Rightarrow> r = None \<and> q' = q
       | x # xs \<Rightarrow> r = Some x \<and> rb_inv q' \<and> rb_content q' = xs \<and> unat (rb_cap q') = unat (rb_cap q)"
    if a: "rb_inv q" "(let ((h, ok), rb') = rb_Pop q in (if ok then Some h else None, rb')) = (r, q')"
  proof -
    obtain k where k: "rb_shape k q" using a(1) by (auto simp: rb_inv_def)
    obtain h ok q1 where p: "rb_Pop q = ((h, ok), q1)" by (metis surj_pair)
    from rb_Pop_ok [OF k p] a(2) p show ?thesis
      by (cases "rb_content q") (auto simp: rb_inv_def)
  qed
qed

lemma doubleUntil_ok:
  assumes "unat capacity \<le> 2 ^ 63" "j \<le> 63" "j = 0 \<or> 2 ^ (j - 1) < unat capacity"
  shows "\<exists>k. doubleUntil (2 ^ j) capacity = Some (2 ^ k) \<and> k \<le> 63 \<and> unat capacity \<le> 2 ^ k \<and> (k = 0 \<or> 2 ^ (k - 1) < unat capacity)"
  using assms
proof (induction "63 - j" arbitrary: j)
  case 0
  then have j: "j = 63" by simp
  have "\<not> (2 ^ j :: u64) < capacity" using 0(2) j by (simp add: word_less_nat_alt)
  then show ?case using 0 j by (intro exI [of _ 63]) (simp add: doubleUntil.simps)
next
  case (Suc x)
  have "(2 :: nat) ^ j < 2 ^ 64" using Suc(4) by (intro power_strict_increasing) simp_all
  then have "unat (of_nat (2 ^ j) :: u64) = 2 ^ j" by (intro unat_of_nat_u64) simp
  then have u: "unat (2 ^ j :: u64) = 2 ^ j" by simp
  show ?case
  proof (cases "(2 ^ j :: u64) < capacity")
    case False
    then show ?thesis using Suc u by (intro exI [of _ j]) (simp add: doubleUntil.simps word_less_nat_alt)
  next
    case True
    have "doubleUntil (2 ^ j) capacity = doubleUntil (2 ^ Suc j) capacity"
      using True by (simp add: doubleUntil.simps [of "2 ^ j"] push_bit_eq_mult mult.commute)
    moreover have "x = 63 - Suc j" "Suc j \<le> 63" using Suc(2) by simp_all
    moreover have "2 ^ (Suc j - 1) < unat capacity" using True u by (simp add: word_less_nat_alt)
    ultimately show ?thesis using Suc(1) [of "Suc j"] Suc(3) by simp
  qed
qed

lemma NewRingBuffer_ok:
  assumes "unat capacity \<le> 2 ^ 63"
  shows "\<exists>k rb. NewRingBuffer capacity = Some rb \<and> rb_shape k rb \<and> rb_content rb = [] \<and> unat capacity \<le> 2 ^ k \<and>
    (k = 0 \<or> 2 ^ (k - 1) < unat capacity)"
proof -
  let ?c = "if capacity = 0 then 1 else capacity"
  have "unat ?c \<le> 2 ^ 63" using assms by simp
  from doubleUntil_ok [OF this, of 0] obtain k where
    k: "doubleUntil 1 ?c = Some (2 ^ k)" "k \<le> 63" "unat ?c \<le> 2 ^ k" "k = 0 \<or> 2 ^ (k - 1) < unat ?c" by auto
  have "(2 :: nat) ^ k < 2 ^ 64" using k(2) by (intro power_strict_increasing) simp_all
  then have "unat (of_nat (2 ^ k) :: u64) = 2 ^ k" by (intro unat_of_nat_u64) simp
  then have u: "unat (2 ^ k :: u64) = 2 ^ k" by simp
  then have "(2 ^ k :: u64) \<noteq> 0" by (metis power_eq_0_iff unat_0 zero_neq_numeral)
  then have "unat (2 ^ k - 1 :: u64) = 2 ^ k - 1" using u by (simp add: unat_minus_one)
  moreover have "unat capacity \<le> 2 ^ k" "k = 0 \<or> 2 ^ (k - 1) < unat capacity"
    using k(3,4) by (auto split: if_splits)
  moreover have "NewRingBuffer capacity = Some \<lparr>rb_cap = 2 ^ k, rb_mask = 2 ^ k - 1, rb_head = 0, rb_tail = 0,
      rb_data = replicate (2 ^ k) zeroSlot\<rparr>" (is "_ = Some ?rb")
    using k(1) u by (simp add: NewRingBuffer_def)
  moreover have "rb_content ?rb = []" by (simp add: rb_len_def rb_content_def)
  ultimately show ?thesis
    using k(2) u by (intro exI [of _ k] exI [of _ ?rb]) (simp add: rb_shape_def rb_len_def)
qed

lemma rb_Remove_ok:
  assumes s: "rb_shape k rb"
  shows "rb_shape k (snd (rb_Remove rb h))" "rb_content (snd (rb_Remove rb h)) = rb_content rb"
    "rb_cap (snd (rb_Remove rb h)) = rb_cap rb"
proof -
  have "sl_h ((rb_data rb)[j := (rb_data rb ! j)\<lparr>sl_alive := False\<rparr>] ! i) = sl_h (rb_data rb ! i)"
    if "j < length (rb_data rb)" for i j using that by (simp add: nth_list_update)
  moreover have "unat (of_nat i AND rb_mask rb) < length (rb_data rb)" for i by (rule rb_shape_next(2) [OF s])
  ultimately show "rb_shape k (snd (rb_Remove rb h))" "rb_content (snd (rb_Remove rb h)) = rb_content rb"
    "rb_cap (snd (rb_Remove rb h)) = rb_cap rb"
    using s by (simp_all add: rb_Remove_def rb_shape_def rb_content_def rb_slot_def rb_len_def Let_def split: option.splits)
qed

lemma rb_ScanFromHead_iff:
  assumes s: "rb_shape k rb"
  shows "rb_ScanFromHead rb h \<longleftrightarrow> (\<exists>s \<in> set (rb_data rb). sl_alive s \<and> sl_h s = h)"
proof -
  have c: "unat (rb_cap rb) = length (rb_data rb)" "k < 64" "length (rb_data rb) = 2 ^ k" using s by (simp_all add: rb_shape_def)
  have "(2 :: nat) ^ k < 2 ^ 64" using c(2) by (intro power_strict_increasing) simp_all
  then have "unat (of_nat i AND rb_mask rb) = i" if "i < length (rb_data rb)" for i
    using that c(3) by (simp add: rb_shape_next(1) [OF s] unat_of_nat_u64)
  then have "rb_ScanFromHead rb h \<longleftrightarrow> (\<exists>i < length (rb_data rb). sl_alive (rb_data rb ! i) \<and> sl_h (rb_data rb ! i) = h)"
    unfolding rb_ScanFromHead_def rb_find_def find_None_iff Let_def c(1) set_upt not_not by (metis atLeastLessThan_iff zero_le)
  then show ?thesis by (metis in_set_conv_nth)
qed

section \<open>Properties\<close>



text \<open>\<^verbatim>\<open>Pop\<close> still returns a handle that \<^verbatim>\<open>Remove\<close> took out: the tombstone is not consulted.\<close>

lemma RingBuffer_Pop_returns_removed:
  assumes "rb_inv rb" "rb_content rb = x # xs"
  shows "fst (rb_Pop (snd (rb_Remove rb x))) = (x, True)"
proof -
  obtain k where k: "rb_shape k rb" using assms(1) by (auto simp: rb_inv_def)
  obtain r rb' where p: "rb_Pop (snd (rb_Remove rb x)) = (r, rb')" by (metis surj_pair)
  show ?thesis using rb_Pop_ok [OF rb_Remove_ok(1) [OF k] p] assms(2) p by (simp add: rb_Remove_ok(2) [OF k])
qed

end
