(* ===== verification/Ghost.thy ===== *)
theory Ghost
  imports Ring_Buffer
begin

text \<open>
  \<^verbatim>\<open>internal/eviction/ghost.go\<close>: the ghost index, an open-addressed table of 4-byte key fingerprints.
  A fingerprint is the first four bytes of the key's SHA-256; the hash of the Go standard library is
  written out here (\<open>sha256\<close>), so fingerprints can be evaluated.

  Every stored fingerprint is found as long as nothing is removed (\<open>gh_inv\<close>); \<^verbatim>\<open>Remove\<close> leaves a hole
  that can hide a fingerprint stored behind it.
\<close>

section \<open>Definitions\<close>

subsection \<open>SHA-256\<close>

text \<open>
  The constants of the hash are the first 32 bits of the fractional parts of square and cube roots of
  primes; they are computed from that description.  \<open>root_from k n b d r\<close> adds to \<open>r\<close> the \<open>b\<close> binary digits
  from \<open>d\<close> downwards that keep its \<open>k\<close>-th power at or below \<open>n\<close>.
\<close>

definition sha_primes :: "int list" where
  "sha_primes = [2, 3, 5, 7, 11, 13, 17, 19, 23, 29, 31, 37, 41, 43, 47, 53, 59, 61, 67, 71, 73, 79,
    83, 89, 97, 101, 103, 107, 109, 113, 127, 131, 137, 139, 149, 151, 157, 163, 167, 173, 179, 181, 191, 193,
    197, 199, 211, 223, 227, 229, 233, 239, 241, 251, 257, 263, 269, 271, 277, 281, 283, 293, 307, 311]"

fun root_from :: "nat \<Rightarrow> int \<Rightarrow> nat \<Rightarrow> int \<Rightarrow> int \<Rightarrow> int" where
  "root_from k n 0 d r = r"
| "root_from k n (Suc b) d r = root_from k n b (d div 2) (if (r + d) ^ k \<le> n then r + d else r)"

definition fracRoot :: "nat \<Rightarrow> int \<Rightarrow> u32" where
  "fracRoot k p = word_of_int (root_from k (p * 4294967296 ^ k) 36 34359738368 0)"

definition sha_K :: "u32 list" where
  "sha_K = map (fracRoot 3) sha_primes"

definition sha_init :: "u32 list" where
  "sha_init = map (fracRoot 2) (take 8 sha_primes)"

definition rotr :: "nat \<Rightarrow> u32 \<Rightarrow> u32" where
  "rotr n w = drop_bit n w OR push_bit (32 - n) w"

definition be_u32 :: "u32 \<Rightarrow> bytes" where
  "be_u32 w = rev (le_bytes 4 w)"

definition be_word32 :: "bytes \<Rightarrow> u32" where
  "be_word32 bs = le_word (rev (take 4 bs))"

definition sha_pad :: "bytes \<Rightarrow> bytes" where
  "sha_pad msg = msg @ [0x80] @ replicate ((119 - length msg mod 64) mod 64) 0 @
     rev (le_bytes 8 (of_nat (8 * length msg) :: u64))"

fun be_words :: "bytes \<Rightarrow> u32 list" where
  "be_words (a # b # c # d # bs) = be_word32 [a, b, c, d] # be_words bs"
| "be_words _ = []"

text \<open>The message schedule, the most recent word first.\<close>

fun sha_schedule :: "nat \<Rightarrow> u32 list \<Rightarrow> u32 list" where
  "sha_schedule 0 ws = rev ws"
| "sha_schedule (Suc n) ws =
    (let a = ws ! 14; b = ws ! 1;
         s0 = rotr 7 a XOR rotr 18 a XOR drop_bit 3 a;
         s1 = rotr 17 b XOR rotr 19 b XOR drop_bit 10 b
     in sha_schedule n ((ws ! 15 + s0 + ws ! 6 + s1) # ws))"

fun sha_round :: "u32 list \<Rightarrow> u32 \<times> u32 \<Rightarrow> u32 list" where
  "sha_round [a, b, c, d, e, f, g, h] (k, w) =
    (let t1 = h + (rotr 6 e XOR rotr 11 e XOR rotr 25 e) + ((e AND f) XOR (NOT e AND g)) + k + w;
         t2 = (rotr 2 a XOR rotr 13 a XOR rotr 22 a) + ((a AND b) XOR (a AND c) XOR (b AND c))
     in [t1 + t2, a, b, c, d + t1, e, f, g])"
| "sha_round st _ = st"

definition sha_block :: "u32 list \<Rightarrow> bytes \<Rightarrow> u32 list" where
  "sha_block st blk =
    map2 (+) st (foldl sha_round st (zip sha_K (sha_schedule 48 (rev (be_words blk)))))"

function sha_blocks :: "u32 list \<Rightarrow> bytes \<Rightarrow> u32 list" where
  "sha_blocks st bs = (if length bs < 64 then st else sha_blocks (sha_block st (take 64 bs)) (drop 64 bs))"
  by pat_completeness auto
termination
  by (relation "measure (\<lambda>(st, bs). length bs)") auto

definition sha256 :: "bytes \<Rightarrow> bytes" where
  "sha256 msg = concat (map be_u32 (sha_blocks sha_init (sha_pad msg)))"

definition fingerprintOf :: "bytes \<Rightarrow> u32" where
  "fingerprintOf key = be_word32 (take 4 (sha256 key))"

subsection \<open>The table\<close>

record bucket =
  bk_fp :: u32
  bk_alive :: bool

record GhostIndex =
  gh_cap :: u64
  gh_mask :: u64
  gh_tabs :: "bucket list"

definition NewGhostIndex :: "u64 \<Rightarrow> GhostIndex option" where
  "NewGhostIndex capacity =
    map_option (\<lambda>c. \<lparr>gh_cap = c, gh_mask = c - 1, gh_tabs = replicate (unat c) \<lparr>bk_fp = 0, bk_alive = False\<rparr>\<rparr>)
      (doubleUntil 1 capacity)"

definition gh_Capacity :: "GhostIndex \<Rightarrow> u64" where
  "gh_Capacity g = gh_cap g"

definition gh_probe :: "GhostIndex \<Rightarrow> u32 \<Rightarrow> u64" where
  "gh_probe g fp = ucast fp AND gh_mask g"

text \<open>\<^verbatim>\<open>idx := (start + i) & g.mask\<close>, and the probe loop that \<^verbatim>\<open>Look\<close>, \<^verbatim>\<open>Insert\<close> and \<^verbatim>\<open>Remove\<close> share: it
  stops at the first bucket that is dead or holds the fingerprint.\<close>

definition gh_idx :: "GhostIndex \<Rightarrow> u32 \<Rightarrow> nat \<Rightarrow> nat" where
  "gh_idx g fp i = unat ((gh_probe g fp + of_nat i) AND gh_mask g)"

definition gh_stop :: "GhostIndex \<Rightarrow> u32 \<Rightarrow> nat \<Rightarrow> bool" where
  "gh_stop g fp i \<longleftrightarrow> (let b = gh_tabs g ! gh_idx g fp i in \<not> bk_alive b \<or> bk_fp b = fp)"

definition gh_find :: "GhostIndex \<Rightarrow> u32 \<Rightarrow> nat option" where
  "gh_find g fp = map_option (gh_idx g fp) (List.find (gh_stop g fp) [0..<unat (gh_cap g)])"

definition gh_Look :: "GhostIndex \<Rightarrow> u32 \<Rightarrow> bool" where
  "gh_Look g fp = (case gh_find g fp of None \<Rightarrow> False | Some idx \<Rightarrow> bk_alive (gh_tabs g ! idx))"

definition gh_store :: "GhostIndex \<Rightarrow> nat \<Rightarrow> u32 \<Rightarrow> GhostIndex" where
  "gh_store g idx fp = g\<lparr>gh_tabs := (gh_tabs g)[idx := \<lparr>bk_fp = fp, bk_alive = True\<rparr>]\<rparr>"

definition gh_Insert :: "GhostIndex \<Rightarrow> u32 \<Rightarrow> bool \<times> GhostIndex" where
  "gh_Insert g fp =
    (case gh_find g fp of
       None \<Rightarrow> (False, gh_store g (unat (gh_probe g fp)) fp)
     | Some idx \<Rightarrow>
         if \<not> bk_alive (gh_tabs g ! idx) then (False, gh_store g idx fp) else (True, g))"

definition gh_Remove :: "GhostIndex \<Rightarrow> u32 \<Rightarrow> bool \<times> GhostIndex" where
  "gh_Remove g fp =
    (case gh_find g fp of
       None \<Rightarrow> (False, g)
     | Some idx \<Rightarrow>
         if \<not> bk_alive (gh_tabs g ! idx) then (False, g)
         else (True, g\<lparr>gh_tabs := (gh_tabs g)[idx := (gh_tabs g ! idx)\<lparr>bk_alive := False\<rparr>]\<rparr>))"

definition gh_Clear :: "GhostIndex \<Rightarrow> GhostIndex" where
  "gh_Clear g = g\<lparr>gh_tabs := map (\<lambda>b. b\<lparr>bk_alive := False\<rparr>) (gh_tabs g)\<rparr>"

definition gh_Stats :: "GhostIndex \<Rightarrow> u64 \<times> u64" where
  "gh_Stats g = (of_nat (length (filter bk_alive (gh_tabs g))), of_nat (length (gh_tabs g)))"

subsection \<open>Contract\<close>

definition gh_set :: "GhostIndex \<Rightarrow> u32 set" where
  "gh_set g = bk_fp ` {b \<in> set (gh_tabs g). bk_alive b}"

definition gh_shape :: "nat \<Rightarrow> GhostIndex \<Rightarrow> bool" where
  "gh_shape k g \<longleftrightarrow> k < 64 \<and> unat (gh_cap g) = 2 ^ k \<and> unat (gh_mask g) = 2 ^ k - 1 \<and> length (gh_tabs g) = 2 ^ k"

definition gh_live :: "GhostIndex \<Rightarrow> nat" where
  "gh_live g = length (filter bk_alive (gh_tabs g))"

text \<open>Every fingerprint in a live bucket is found by the probe loop.\<close>

definition gh_inv :: "GhostIndex \<Rightarrow> bool" where
  "gh_inv g \<longleftrightarrow> (\<exists>k. gh_shape k g) \<and> (\<forall>fp \<in> gh_set g. gh_Look g fp)"

section \<open>The probe loop\<close>

lemma find_upt_Some: "List.find P [0..<n] = Some i \<longleftrightarrow> i < n \<and> P i \<and> (\<forall>j < i. \<not> P j)"
  by (auto simp: find_Some_iff)

lemma find_upt_None: "List.find P [0..<n] = None \<longleftrightarrow> (\<forall>i < n. \<not> P i)"
  by (auto simp: find_None_iff)

lemma gh_idx_shape:
  assumes "gh_shape k g"
  shows "gh_idx g fp i = (unat fp + i) mod 2 ^ k" "gh_idx g fp i < length (gh_tabs g)"
    "unat (gh_probe g fp) = gh_idx g fp 0"
proof -
  have k: "k < 64" "unat (gh_mask g) = 2 ^ k - 1" "length (gh_tabs g) = 2 ^ k" using assms by (auto simp: gh_shape_def)
  have dv: "(2 :: nat) ^ k dvd 2 ^ 64" using k(1) by (intro le_imp_power_dvd) simp
  have p: "unat (gh_probe g fp) = unat fp mod 2 ^ k" using and_mask_mod [OF k(2)] by (simp add: gh_probe_def)
  have "unat (gh_probe g fp + of_nat i) mod 2 ^ k = (unat (gh_probe g fp) + i) mod 2 ^ k" for i
    using mod_mod_cancel [OF dv] by (simp add: unat_word_ariths unat_of_nat mod_add_right_eq)
  then have e: "gh_idx g fp i = (unat fp + i) mod 2 ^ k" for i
    using and_mask_mod [OF k(2)] p by (simp add: gh_idx_def mod_add_left_eq)
  show "gh_idx g fp i = (unat fp + i) mod 2 ^ k" by (rule e)
  show "gh_idx g fp i < length (gh_tabs g)" by (simp add: e k(3))
  show "unat (gh_probe g fp) = gh_idx g fp 0" by (simp add: e p)
qed

lemma gh_idx_onto:
  assumes "gh_shape k g" "j < length (gh_tabs g)"
  obtains i where "i < unat (gh_cap g)" "gh_idx g fp i = j"
proof
  have k: "length (gh_tabs g) = 2 ^ k" "unat (gh_cap g) = 2 ^ k" using assms(1) by (auto simp: gh_shape_def)
  let ?i = "(j + 2 ^ k - unat fp mod 2 ^ k) mod 2 ^ k"
  show "?i < unat (gh_cap g)" using k by simp
  have "unat fp mod 2 ^ k < 2 ^ k" by simp
  then have "unat fp mod 2 ^ k + (j + 2 ^ k - unat fp mod 2 ^ k) = j + 2 ^ k" by linarith
  then have "(unat fp mod 2 ^ k + (j + 2 ^ k - unat fp mod 2 ^ k)) mod 2 ^ k = j"
    using assms(2) k(1) by (metis mod_add_self2 mod_less)
  then show "gh_idx g fp ?i = j"
    by (metis gh_idx_shape(1) [OF assms(1)] mod_add_left_eq mod_add_right_eq)
qed

lemma gh_find_Some:
  "gh_find g fp = Some idx \<longleftrightarrow>
    (\<exists>i < unat (gh_cap g). idx = gh_idx g fp i \<and> gh_stop g fp i \<and> (\<forall>j < i. \<not> gh_stop g fp j))"
  by (auto simp: gh_find_def find_upt_Some)

lemma gh_find_None: "gh_find g fp = None \<longleftrightarrow> (\<forall>i < unat (gh_cap g). \<not> gh_stop g fp i)"
  by (auto simp: gh_find_def find_upt_None)

lemma gh_Look_iff:
  "gh_Look g fp \<longleftrightarrow>
    (\<exists>i < unat (gh_cap g). bk_alive (gh_tabs g ! gh_idx g fp i) \<and> bk_fp (gh_tabs g ! gh_idx g fp i) = fp \<and>
      (\<forall>j < i. \<not> gh_stop g fp j))"
proof (cases "gh_find g fp")
  case None
  then have "\<not> gh_Look g fp" by (simp add: gh_Look_def)
  then show ?thesis using None by (auto simp: gh_find_None gh_stop_def Let_def)
next
  case (Some idx)
  then obtain i where i: "i < unat (gh_cap g)" "idx = gh_idx g fp i" "gh_stop g fp i" "\<forall>j < i. \<not> gh_stop g fp j"
    by (auto simp: gh_find_Some)
  have u: "i' = i" if "gh_stop g fp i'" "\<forall>j < i'. \<not> gh_stop g fp j" for i'
    using that i(3,4) by (meson linorder_neqE_nat)
  have e: "gh_Look g fp \<longleftrightarrow> bk_alive (gh_tabs g ! gh_idx g fp i)" using Some i(2) by (simp add: gh_Look_def)
  show ?thesis
  proof
    assume "gh_Look g fp"
    then show "\<exists>i < unat (gh_cap g). bk_alive (gh_tabs g ! gh_idx g fp i) \<and> bk_fp (gh_tabs g ! gh_idx g fp i) = fp \<and>
      (\<forall>j < i. \<not> gh_stop g fp j)"
      using i(1,3,4) e by (intro exI [of _ i]) (simp add: gh_stop_def [of _ _ i] Let_def)
  next
    assume "\<exists>i < unat (gh_cap g). bk_alive (gh_tabs g ! gh_idx g fp i) \<and> bk_fp (gh_tabs g ! gh_idx g fp i) = fp \<and>
      (\<forall>j < i. \<not> gh_stop g fp j)"
    then obtain i' where i': "bk_alive (gh_tabs g ! gh_idx g fp i')" "bk_fp (gh_tabs g ! gh_idx g fp i') = fp"
      "\<forall>j < i'. \<not> gh_stop g fp j" by blast
    then have "gh_stop g fp i'" by (simp add: gh_stop_def Let_def)
    with u i'(3) have "i' = i" by blast
    with e i'(1) show "gh_Look g fp" by simp
  qed
qed

lemma gh_Look_set:
  assumes "gh_shape k g" "gh_Look g fp"
  shows "fp \<in> gh_set g"
proof -
  obtain i where i: "bk_alive (gh_tabs g ! gh_idx g fp i)" "bk_fp (gh_tabs g ! gh_idx g fp i) = fp"
    using assms(2) by (auto simp: gh_Look_iff)
  have "gh_tabs g ! gh_idx g fp i \<in> set (gh_tabs g)" using gh_idx_shape(2) [OF assms(1)] by simp
  then show ?thesis using i by (auto simp: gh_set_def image_iff intro!: bexI [of _ "gh_tabs g ! gh_idx g fp i"])
qed

lemma nth_update: "xs[i := x] ! j = (if i = j \<and> j < length xs then x else xs ! j)"
  by (cases "i < length xs") (auto simp: nth_list_update list_update_beyond)

lemma gh_inv_Look: "gh_inv g \<Longrightarrow> gh_Look g fp \<longleftrightarrow> fp \<in> gh_set g"
  using gh_Look_set by (auto simp: gh_inv_def)

section \<open>Insert\<close>

lemma gh_store_simps:
  "gh_shape k (gh_store g idx fp) \<longleftrightarrow> gh_shape k g" "gh_cap (gh_store g idx fp) = gh_cap g"
  "gh_idx (gh_store g idx fp) = gh_idx g"
  "gh_tabs (gh_store g idx fp) = (gh_tabs g)[idx := \<lparr>bk_fp = fp, bk_alive = True\<rparr>]"
  by (auto simp: gh_store_def gh_shape_def gh_idx_def gh_probe_def fun_eq_iff)

text \<open>Filling a dead bucket keeps every fingerprint that was found.\<close>

lemma gh_Look_store:
  assumes s: "gh_shape k g" and d: "\<not> bk_alive (gh_tabs g ! idx)" and l: "gh_Look g x"
  shows "gh_Look (gh_store g idx fp) x"
proof -
  from l obtain i where i: "i < unat (gh_cap g)" "bk_alive (gh_tabs g ! gh_idx g x i)"
    "bk_fp (gh_tabs g ! gh_idx g x i) = x" "\<forall>j < i. \<not> gh_stop g x j" by (auto simp: gh_Look_iff)
  have "gh_tabs (gh_store g idx fp) ! gh_idx g x j = gh_tabs g ! gh_idx g x j" if "j \<le> i" for j
  proof -
    have "bk_alive (gh_tabs g ! gh_idx g x j)"
      using that i(2,4) by (cases "j = i") (auto simp: gh_stop_def Let_def)
    then show ?thesis using d by (auto simp: gh_store_simps nth_update)
  qed
  then show ?thesis using i by (auto simp: gh_Look_iff gh_stop_def Let_def gh_store_simps)
qed

lemma gh_Look_fresh:
  assumes s: "gh_shape k g" and i: "i < unat (gh_cap g)" "\<forall>j < i. \<not> gh_stop g fp j"
  shows "gh_Look (gh_store g (gh_idx g fp i) fp) fp"
proof -
  let ?g = "gh_store g (gh_idx g fp i) fp"
  have lt: "gh_idx g fp i < length (gh_tabs g)" by (rule gh_idx_shape(2) [OF s])
  have k: "unat (gh_cap g) = 2 ^ k" using s by (simp add: gh_shape_def)
  have "\<not> gh_stop ?g fp j" if "j < i" for j
  proof -
    have "gh_idx g fp j \<noteq> gh_idx g fp i"
    proof
      assume "gh_idx g fp j = gh_idx g fp i"
      then have "(unat fp + j) mod 2 ^ k = (unat fp + i) mod 2 ^ k" by (simp add: gh_idx_shape(1) [OF s])
      then have "2 ^ k dvd i - j" using that mod_eq_dvd_iff_nat [of "unat fp + j" "unat fp + i" "2 ^ k"] by simp
      then show False using that i(1) k by (auto dest: dvd_imp_le)
    qed
    then show ?thesis using i(2) that by (simp add: gh_stop_def gh_store_simps Let_def)
  qed
  then show ?thesis using i(1) lt by (auto simp: gh_Look_iff gh_store_simps)
qed

lemma gh_full_Look:
  assumes s: "gh_shape k g" and all: "\<forall>b \<in> set (gh_tabs g). bk_alive b" and x: "x \<in> gh_set g"
  shows "gh_Look g x"
proof -
  obtain j where j: "j < length (gh_tabs g)" "bk_fp (gh_tabs g ! j) = x" using x by (auto simp: gh_set_def in_set_conv_nth)
  obtain i where i: "i < unat (gh_cap g)" "gh_idx g x i = j" using gh_idx_onto [OF s j(1)] .
  let ?P = "\<lambda>i. i < unat (gh_cap g) \<and> gh_stop g x i"
  have al: "bk_alive (gh_tabs g ! gh_idx g x i)" for i using all gh_idx_shape(2) [OF s] by simp
  have "?P i" using i j by (simp add: gh_stop_def Let_def)
  then have L: "?P (Least ?P)" by (rule LeastI)
  have "\<forall>n < Least ?P. \<not> ?P n" using not_less_Least [of _ ?P] by blast
  then have b: "\<forall>n < Least ?P. \<not> gh_stop g x n" using L by (meson less_trans)
  have "bk_fp (gh_tabs g ! gh_idx g x (Least ?P)) = x"
    using L al [of "Least ?P"] unfolding gh_stop_def Let_def by blast
  then show ?thesis unfolding gh_Look_iff using L al b by blast
qed

lemma gh_set_store_le: "gh_set (gh_store g idx fp) \<subseteq> insert fp (gh_set g)"
  by (auto simp: gh_set_def gh_store_simps dest!: set_update_subset_insert [THEN subsetD])

lemma gh_set_store:
  assumes "idx < length (gh_tabs g)" "\<not> bk_alive (gh_tabs g ! idx)"
  shows "gh_set (gh_store g idx fp) = insert fp (gh_set g)"
proof
  show "insert fp (gh_set g) \<subseteq> gh_set (gh_store g idx fp)"
  proof
    fix x assume "x \<in> insert fp (gh_set g)"
    then consider "x = fp" | j where "j < length (gh_tabs g)" "bk_alive (gh_tabs g ! j)" "bk_fp (gh_tabs g ! j) = x"
      by (auto simp: gh_set_def in_set_conv_nth)
    then show "x \<in> gh_set (gh_store g idx fp)"
    proof cases
      case 1
      have "\<lparr>bk_fp = fp, bk_alive = True\<rparr> \<in> set (gh_tabs (gh_store g idx fp))"
        using assms(1) by (simp add: gh_store_simps set_update_memI)
      then show ?thesis using 1 by (auto simp: gh_set_def image_iff intro!: bexI [of _ "\<lparr>bk_fp = fp, bk_alive = True\<rparr>"])
    next
      case 2
      then have "gh_tabs (gh_store g idx fp) ! j = gh_tabs g ! j" using assms(2) by (auto simp: gh_store_simps nth_update)
      moreover have "j < length (gh_tabs (gh_store g idx fp))" using 2 by (simp add: gh_store_simps)
      ultimately have "gh_tabs g ! j \<in> set (gh_tabs (gh_store g idx fp))" by (metis nth_mem)
      then show ?thesis using 2 by (auto simp: gh_set_def image_iff intro!: bexI [of _ "gh_tabs g ! j"])
    qed
  qed
qed (rule gh_set_store_le)

lemma gh_live_store: "gh_live (gh_store g idx fp) \<le> Suc (gh_live g)"
proof (cases "idx < length (gh_tabs g)")
  case True
  have "length (filter bk_alive ((gh_tabs g)[idx := b])) \<le> Suc (length (filter bk_alive (gh_tabs g)))" for b
  proof -
    have "length (filter bk_alive (gh_tabs g)) = length (filter bk_alive (take idx (gh_tabs g))) +
      length (filter bk_alive (gh_tabs g ! idx # drop (Suc idx) (gh_tabs g)))"
      by (metis filter_append id_take_nth_drop [OF True] length_append)
    then show ?thesis using True by (simp add: upd_conv_take_nth_drop)
  qed
  then show ?thesis by (simp add: gh_live_def gh_store_simps)
qed (simp add: gh_live_def gh_store_simps list_update_beyond)

text \<open>\<^verbatim>\<open>Insert\<close>: the fingerprint is found afterwards, the rest is kept unless the table was full.\<close>

lemma gh_Insert_ok:
  assumes inv: "gh_inv g"
  shows "gh_inv (snd (gh_Insert g fp))" "gh_Look (snd (gh_Insert g fp)) fp"
    "gh_live g < length (gh_tabs g) \<Longrightarrow> gh_set (snd (gh_Insert g fp)) = insert fp (gh_set g)"
    "gh_live (snd (gh_Insert g fp)) \<le> Suc (gh_live g)" "length (gh_tabs (snd (gh_Insert g fp))) = length (gh_tabs g)"
    "gh_set (snd (gh_Insert g fp)) \<subseteq> insert fp (gh_set g)"
proof -
  obtain k where s: "gh_shape k g" using inv by (auto simp: gh_inv_def)
  have c: "unat (gh_cap g) = length (gh_tabs g)" "0 < length (gh_tabs g)" using s by (auto simp: gh_shape_def)
  have "gh_inv (snd (gh_Insert g fp)) \<and> gh_Look (snd (gh_Insert g fp)) fp \<and>
    (gh_live g < length (gh_tabs g) \<longrightarrow> gh_set (snd (gh_Insert g fp)) = insert fp (gh_set g)) \<and>
    gh_live (snd (gh_Insert g fp)) \<le> Suc (gh_live g) \<and> length (gh_tabs (snd (gh_Insert g fp))) = length (gh_tabs g) \<and>
    gh_set (snd (gh_Insert g fp)) \<subseteq> insert fp (gh_set g)"
  proof (cases "gh_find g fp")
    case None
    then have al: "bk_alive (gh_tabs g ! gh_idx g fp i)" if "i < length (gh_tabs g)" for i
      using that c(1) by (auto simp: gh_find_None gh_stop_def Let_def)
    have all: "\<forall>b \<in> set (gh_tabs g). bk_alive b"
      using al gh_idx_onto [OF s] c(1) by (metis in_set_conv_nth)
    then have full: "gh_live g = length (gh_tabs g)" by (simp add: gh_live_def)
    let ?g = "gh_store g (gh_idx g fp 0) fp"
    have e: "snd (gh_Insert g fp) = ?g" using None by (simp add: gh_Insert_def gh_idx_shape(3) [OF s])
    have l: "gh_Look ?g fp" using gh_Look_fresh [OF s, of 0 fp] c by simp
    have "\<forall>b \<in> set (gh_tabs ?g). bk_alive b" using all by (auto simp: gh_store_simps dest!: set_update_subset_insert [THEN subsetD])
    moreover have s': "gh_shape k ?g" using s by (simp add: gh_store_simps)
    ultimately have "gh_inv ?g" using gh_full_Look [OF s'] by (auto simp: gh_inv_def)
    then show ?thesis using e l full gh_live_store [of g] gh_set_store_le [of g] by (simp add: gh_store_simps)
  next
    case (Some idx)
    then obtain i where i: "i < unat (gh_cap g)" "idx = gh_idx g fp i" "gh_stop g fp i" "\<forall>j < i. \<not> gh_stop g fp j"
      by (auto simp: gh_find_Some)
    have lt: "idx < length (gh_tabs g)" using i(2) gh_idx_shape(2) [OF s] by simp
    show ?thesis
    proof (cases "bk_alive (gh_tabs g ! idx)")
      case True
      then have "gh_Look g fp" using Some by (simp add: gh_Look_def)
      then show ?thesis using True Some inv gh_inv_Look [OF inv] by (auto simp: gh_Insert_def)
    next
      case False
      have e: "snd (gh_Insert g fp) = gh_store g idx fp" using Some False by (simp add: gh_Insert_def)
      have l: "gh_Look (gh_store g idx fp) fp" using gh_Look_fresh [OF s i(1,4)] i(2) by simp
      have st: "gh_set (gh_store g idx fp) = insert fp (gh_set g)" by (rule gh_set_store [OF lt False])
      have "gh_Look (gh_store g idx fp) x" if "x \<in> gh_set g" for x
        using gh_Look_store [OF s False] that inv by (auto simp: gh_inv_def)
      then have "gh_inv (gh_store g idx fp)" using l st s by (auto simp: gh_inv_def gh_store_simps)
      then show ?thesis using e l st gh_live_store [of g] by (simp add: gh_store_simps)
    qed
  qed
  then show "gh_inv (snd (gh_Insert g fp))" "gh_Look (snd (gh_Insert g fp)) fp"
    "gh_live g < length (gh_tabs g) \<Longrightarrow> gh_set (snd (gh_Insert g fp)) = insert fp (gh_set g)"
    "gh_live (snd (gh_Insert g fp)) \<le> Suc (gh_live g)" "length (gh_tabs (snd (gh_Insert g fp))) = length (gh_tabs g)"
    "gh_set (snd (gh_Insert g fp)) \<subseteq> insert fp (gh_set g)" by blast+
qed

lemma NewGhostIndex_ok:
  assumes "unat capacity \<le> 2 ^ 63"
  shows "\<exists>g. NewGhostIndex capacity = Some g \<and> gh_inv g \<and> gh_set g = {} \<and> gh_live g = 0 \<and> unat capacity \<le> length (gh_tabs g)"
proof -
  obtain k where k: "doubleUntil 1 capacity = Some (2 ^ k)" "k \<le> 63" "unat capacity \<le> 2 ^ k"
    using doubleUntil_ok [OF assms, of 0] by auto
  have "(2 :: nat) ^ k < 2 ^ 64" using k(2) by (intro power_strict_increasing) simp_all
  then have "unat (of_nat (2 ^ k) :: u64) = 2 ^ k" by (intro unat_of_nat_u64) simp
  then have u: "unat (2 ^ k :: u64) = 2 ^ k" by simp
  then have "(2 ^ k :: u64) \<noteq> 0" by (metis power_eq_0_iff unat_0 zero_neq_numeral)
  then have u1: "unat (2 ^ k - 1 :: u64) = 2 ^ k - 1" using u by (simp add: unat_minus_one)
  let ?g = "\<lparr>gh_cap = 2 ^ k, gh_mask = 2 ^ k - 1, gh_tabs = replicate (2 ^ k) \<lparr>bk_fp = 0, bk_alive = False\<rparr>\<rparr>"
  have "NewGhostIndex capacity = Some ?g" using k(1) u by (simp add: NewGhostIndex_def)
  moreover have "gh_set ?g = {}" "gh_live ?g = 0" by (auto simp: gh_set_def gh_live_def)
  moreover have "gh_shape k ?g" using u u1 k(2) by (simp add: gh_shape_def)
  ultimately show ?thesis using k(3) by (auto simp: gh_inv_def)
qed

lemma gh_Insert_all:
  assumes "gh_inv g" "gh_live g + length fps \<le> length (gh_tabs g)"
  shows "gh_inv (fold (\<lambda>fp g. snd (gh_Insert g fp)) fps g) \<and>
    gh_set (fold (\<lambda>fp g. snd (gh_Insert g fp)) fps g) = gh_set g \<union> set fps"
  using assms
proof (induction fps arbitrary: g)
  case (Cons fp fps)
  note i = gh_Insert_ok [OF Cons.prems(1), of fp]
  have "gh_set (snd (gh_Insert g fp)) = insert fp (gh_set g)" using i(3) Cons.prems(2) by simp
  moreover have "gh_live (snd (gh_Insert g fp)) + length fps \<le> length (gh_tabs (snd (gh_Insert g fp)))"
    using i(4,5) Cons.prems(2) by simp
  ultimately show ?case using Cons.IH [OF i(1)] by auto
qed simp

section \<open>Properties\<close>

text \<open>
  C40. \<^verbatim>\<open>NewGhostIndex\<close> returns for every capacity up to \<open>2 ^ 63\<close>, and a fresh ghost index remembers
  exactly the fingerprints inserted, as long as there are no more of them than its capacity; once it
  is full, each further \<^verbatim>\<open>Insert\<close> is still found by \<^verbatim>\<open>Look\<close>, and nothing is found that was not inserted.
\<close>

theorem GhostIndex_remembers:
  assumes "unat capacity \<le> 2 ^ 63"
  shows "\<exists>g. NewGhostIndex capacity = Some g \<and>
    (\<forall>fps x. length fps \<le> unat capacity \<longrightarrow> gh_Look (fold (\<lambda>fp g. snd (gh_Insert g fp)) fps g) x = (x \<in> set fps)) \<and>
    (\<forall>fps fp x. let g' = snd (gh_Insert (fold (\<lambda>fp g. snd (gh_Insert g fp)) fps g) fp)
       in gh_Look g' fp \<and> (gh_Look g' x \<longrightarrow> x \<in> insert fp (set fps)))"
proof -
  obtain g where g: "NewGhostIndex capacity = Some g" "gh_inv g" "gh_set g = {}" "gh_live g = 0"
    "unat capacity \<le> length (gh_tabs g)" using NewGhostIndex_ok [OF assms] by auto
  let ?f = "\<lambda>fps. fold (\<lambda>fp g. snd (gh_Insert g fp)) fps g"
  have "gh_inv (?f fps) \<and> gh_set (?f fps) \<subseteq> set fps" for fps
  proof (induction fps rule: rev_induct)
    case (snoc fp fps)
    then show ?case using gh_Insert_ok(1,6) [of "?f fps" fp] by auto
  qed (use g in simp)
  then have i: "gh_inv (?f fps)" "gh_set (?f fps) \<subseteq> set fps" for fps by auto
  have "gh_Look (snd (gh_Insert (?f fps) fp)) fp \<and>
    (gh_Look (snd (gh_Insert (?f fps) fp)) x \<longrightarrow> x \<in> insert fp (set fps))" for fps fp x
    using gh_Insert_ok(1,2,6) [OF i(1) [of fps], of fp] i(2) [of fps] gh_inv_Look by blast
  moreover have "gh_Look (?f fps) x \<longleftrightarrow> x \<in> set fps" if "length fps \<le> unat capacity" for fps x
    using gh_Insert_all [OF g(2), of fps] that g(3,4,5) gh_inv_Look by auto
  ultimately show ?thesis using g(1) by (intro exI [of _ g]) (simp add: Let_def)
qed

theorem GhostIndex_remembers_witness:
  "\<exists>g. NewGhostIndex 3 = Some g \<and> gh_Look (snd (gh_Insert (snd (gh_Insert g 7)) 11)) 7"
proof -
  obtain g where g: "NewGhostIndex 3 = Some g"
    and l: "\<forall>fps x. length fps \<le> unat (3 :: u64) \<longrightarrow> gh_Look (fold (\<lambda>fp g. snd (gh_Insert g fp)) fps g) x = (x \<in> set fps)"
    using GhostIndex_remembers [of 3] by auto
  from l [rule_format, of "[7, 11]" 7] show ?thesis using g by simp
qed

text \<open>The hash agrees with the published digest of \<^verbatim>\<open>abc\<close>, and fingerprints are its first four bytes.\<close>

lemma fingerprintOf_abc: "fingerprintOf [0x61, 0x62, 0x63] = 0xba7816bf"
  by code_simp

text \<open>
  \<^verbatim>\<open>Remove\<close> marks the bucket dead, and \<^verbatim>\<open>Look\<close> stops at a dead bucket: after two fingerprints of one
  chain are inserted and the first is removed, the second is still stored and no longer found.
\<close>

lemma GhostIndex_Remove_hides:
  "case NewGhostIndex 4 of
     None \<Rightarrow> False
   | Some g \<Rightarrow>
       let g1 = snd (gh_Insert (snd (gh_Insert g 1)) 5); g2 = snd (gh_Remove g1 1)
       in gh_Look g1 5 \<and> 5 \<in> gh_set g2 \<and> \<not> gh_Look g2 5"
  by code_simp

end
