(* ===== verification/Arena_Range.thy ===== *)
theory Arena_Range
  imports Arena
begin

text \<open>
  What the arena still guarantees when its clients free a block twice or keep using a freed handle,
  as the eviction policy and the cache shard do: \<open>mgr_rng\<close> says that every region and free list is
  within bounds, \<open>hgood\<close> that a handle lies inside its region.  Both survive every operation on handles
  that are in range, so a call still returns and a value just stored still reads back.
\<close>

section \<open>Definitions\<close>

definition alloc_rng :: "Allocator \<Rightarrow> bool" where
  "alloc_rng a \<longleftrightarrow> length (al_fl a) = numSizeClasses \<and> unat (al_offset a) \<le> unat (al_size a) \<and>
     (\<forall>c < 11. \<forall>off \<in> set (al_fl a ! c). 8 dvd unat off \<and> unat off + unat (classSize c) \<le> unat (al_size a))"

definition mgr_rng :: "Manager \<Rightarrow> bool" where
  "mgr_rng m \<longleftrightarrow> length (mg_regions m) \<le> 256 \<and> unat (mg_currentIdx m) < length (mg_regions m) \<and>
     (\<forall>r \<in> set (mg_regions m). region_ok (mg_size m) r \<and> alloc_rng (rg_alloc r))"

definition hgood :: "Manager \<Rightarrow> Handle \<Rightarrow> bool" where
  "hgood m h \<longleftrightarrow> unat (h_Region h) < length (mg_regions m) \<and> 8 dvd unat (h_Offset h) \<and>
     unat (h_Size h) \<le> 67108864 \<and> unat (h_Offset h) + blockLen (h_Size h) \<le> unat (ucast (mg_size m) :: u32)"

text \<open>Everything a later reader of old handles sees, but the frequency and queue bits.\<close>

definition flags :: "Manager \<Rightarrow> Handle \<Rightarrow> u16" where
  "flags m h = GetMeta m h AND NOT 15"

definition quiet :: "Manager \<Rightarrow> Manager \<Rightarrow> bool" where
  "quiet m m' \<longleftrightarrow> mgr_rng m' \<and> mg_size m' = mg_size m \<and> length (mg_regions m') = length (mg_regions m) \<and>
     (\<forall>h. View m' h = View m h) \<and> (\<forall>h. flags m' h = flags m h)"

section \<open>Quiet operations\<close>

lemma quiet_refl: "mgr_rng m \<Longrightarrow> quiet m m"
  by (simp add: quiet_def)

lemma quiet_trans: "quiet m m1 \<Longrightarrow> quiet m1 m2 \<Longrightarrow> quiet m m2"
  by (simp add: quiet_def)

lemma quiet_hgood: "quiet m m' \<Longrightarrow> hgood m' h = hgood m h"
  by (simp add: quiet_def hgood_def)

lemma quiet_rng: "quiet m m' \<Longrightarrow> mgr_rng m'"
  by (simp add: quiet_def)

lemma mgr_rng_region: "mgr_rng m \<Longrightarrow> i < length (mg_regions m) \<Longrightarrow>
   region_ok (mg_size m) (mg_regions m ! i) \<and> alloc_rng (rg_alloc (mg_regions m ! i))"
  by (simp add: mgr_rng_def)

lemma metaCell_small:
  assumes "mgr_rng m" "metaCell m h = Some c"
  shows "unat c < 65536"
proof -
  let ?r = "mg_regions m ! unat (h_Region h)"
  have i: "unat (h_Region h) < length (mg_regions m)" using assms(2) by (auto simp: metaCell_def split: if_splits)
  obtain ms where ms: "rg_meta ?r = Some ms" "\<forall>v \<in> set ms. unat v < 65536"
    using mgr_rng_region [OF assms(1) i] by (auto elim: region_okE)
  then have "c \<in> set ms" using assms(2) by (auto simp: metaCell_def Let_def split: if_splits)
  then show ?thesis using ms(2) by blast
qed

text \<open>Writing one metadata word.\<close>

definition same_cell :: "Handle \<Rightarrow> Handle \<Rightarrow> bool" where
  "same_cell x h \<longleftrightarrow> unat (h_Region x) = unat (h_Region h) \<and> unat (h_Offset x) div 8 = unat (h_Offset h) div 8"

lemma metaCell_same: "same_cell x h \<Longrightarrow> metaCell m x = metaCell m h"
  unfolding same_cell_def metaCell_def alignBytes_def Let_def by (auto split: option.splits)

lemma metaCell_setCell:
  assumes "metaCell m h = Some c"
  shows "metaCell (setCell m h v) x = (if same_cell x h then Some v else metaCell m x)"
  using assms
  by (cases "unat (h_Region x) = unat (h_Region h)")
    (auto simp: metaCell_def setCell_def Let_def alignBytes_def nth_list_update same_cell_def split: option.splits if_splits)

definition same_data :: "Manager \<Rightarrow> Manager \<Rightarrow> bool" where
  "same_data m m' \<longleftrightarrow> mgr_rng m' \<and> mg_size m' = mg_size m \<and> length (mg_regions m') = length (mg_regions m) \<and>
     (\<forall>h. View m' h = View m h)"

lemma same_data_refl: "mgr_rng m \<Longrightarrow> same_data m m"
  by (simp add: same_data_def)

lemma same_data_trans: "same_data m m1 \<Longrightarrow> same_data m1 m2 \<Longrightarrow> same_data m m2"
  by (simp add: same_data_def)

lemma same_data_hgood: "same_data m m' \<Longrightarrow> hgood m' h = hgood m h"
  by (simp add: same_data_def hgood_def)

lemma quiet_same_data: "quiet m m' \<longleftrightarrow> same_data m m' \<and> (\<forall>h. flags m' h = flags m h)"
  by (auto simp: quiet_def same_data_def)

lemma setCell_same_data:
  assumes rng: "mgr_rng m" and c: "metaCell m h = Some c" and v: "unat v < 65536"
  shows "same_data m (setCell m h v)"
proof -
  let ?i = "unat (h_Region h)"
  have i: "?i < length (mg_regions m)" using c by (auto simp: metaCell_def split: if_splits)
  obtain ms where ms: "rg_meta (mg_regions m ! ?i) = Some ms" using mgr_rng_region [OF rng i] by (auto elim: region_okE)
  have e: "setCell m h v = m\<lparr>mg_regions := (mg_regions m)[?i := (mg_regions m ! ?i)\<lparr>rg_meta := Some (ms[unat (h_Offset h) div 8 := v])\<rparr>]\<rparr>"
    using ms by (simp add: setCell_def Let_def alignBytes_def)
  have "region_ok (mg_size m) ((mg_regions m ! ?i)\<lparr>rg_meta := Some (ms[j := v])\<rparr>)" for j
    using mgr_rng_region [OF rng i] ms v
    by (auto simp: region_ok_def dest!: set_update_subset_insert [THEN subsetD])
  moreover have "alloc_rng (rg_alloc (mg_regions m ! ?i))" using mgr_rng_region [OF rng i] by simp
  ultimately have "mgr_rng (setCell m h v)"
    using rng by (auto simp: e mgr_rng_def dest!: set_update_subset_insert [THEN subsetD])
  moreover have "View (setCell m h v) x = View m x" for x
    using i by (cases "unat (h_Region x) = ?i") (auto simp: View_def e Let_def)
  ultimately show ?thesis by (simp add: same_data_def e)
qed

lemma GetMeta_setCell:
  assumes "metaCell m h = Some c"
  shows "GetMeta (setCell m h v) x = (if same_cell x h then ucast v else GetMeta m x)"
  using metaCell_setCell [OF assms, of v x] by (simp add: GetMeta_def)

lemma setCell_quiet:
  assumes rng: "mgr_rng m" and c: "metaCell m h = Some c"
    and keep: "w AND NOT 15 = ucast c AND NOT 15"
  shows "quiet m (setCell m h (ucast (w :: u16)))"
proof -
  have "flags (setCell m h (ucast w)) x = flags m x" for x
    using GetMeta_setCell [OF c, of "ucast w" x] keep metaCell_same [of x h m] c
    by (cases "same_cell x h") (simp_all add: flags_def GetMeta_def ucast_low16)
  then show ?thesis using setCell_same_data [OF rng c unat_ucast16] by (simp add: quiet_same_data)
qed

lemma metaCell_GetMeta: "mgr_rng m \<Longrightarrow> metaCell m h = Some c \<Longrightarrow> c = ucast (GetMeta m h)"
  using metaCell_small [of m h c] ucast16_32 [of c] by (simp add: GetMeta_def)

text \<open>Bits that lie within a mask do not show outside it.\<close>

lemma within_mask:
  fixes w j k :: u16
  assumes "j AND NOT k = 0"
  shows "((w AND NOT j) OR (u AND j)) AND NOT k = w AND NOT k" "(w OR j) AND NOT k = w AND NOT k"
    "(w AND NOT j) AND NOT k = w AND NOT k"
proof -
  have "bit k n" if "bit j n" for n
    using arg_cong [OF assms, of "\<lambda>w. bit w n"] that bit_imp_le_length [OF that] by (simp add: bit_and_iff bit_not_iff)
  then show "((w AND NOT j) OR (u AND j)) AND NOT k = w AND NOT k" "(w OR j) AND NOT k = w AND NOT k"
    "(w AND NOT j) AND NOT k = w AND NOT k"
    by (auto intro!: bit_word_eqI simp: bit_and_iff bit_or_iff bit_not_iff)
qed

lemma freq_within: "(3 :: u16) AND NOT 15 = 0" and tag_within: "QueueTagMask AND NOT 15 = 0"
  "QueueTagS AND NOT 15 = 0" "QueueTagM AND NOT 15 = 0"
  by (simp_all add: QueueTagMask_def QueueTagS_def QueueTagM_def)

lemma SetFreq_quiet:
  assumes rng: "mgr_rng m"
  shows "quiet m (SetFreq m h f)"
proof (cases "metaCell m h")
  case None
  then show ?thesis using quiet_refl [OF rng] by (simp add: SetFreq_def)
next
  case (Some c)
  note cm = metaCell_GetMeta [OF rng Some]
  have "(ucast (GetMeta m h) AND NOT freqMask) OR (ucast f AND freqMask) =
      ucast ((GetMeta m h AND NOT 3) OR (f AND 3))"
    unfolding freqMask_ucast ucast_or16 ucast_andnot16 by (simp only: ucast_and16)
  then have e: "SetFreq m h f = setCell m h (ucast ((GetMeta m h AND NOT 3) OR (f AND 3)))"
    using Some cm by (simp only: SetFreq_def option.case)
  have "((GetMeta m h AND NOT 3) OR (f AND 3)) AND NOT 15 = ucast c AND NOT 15"
    unfolding within_mask(1) [OF freq_within] cm ucast_low16 ..
  from setCell_quiet [OF rng Some this] show ?thesis by (simp only: e)
qed

lemma IncFreq_quiet:
  assumes rng: "mgr_rng m"
  shows "quiet m (snd (IncFreq m h))"
proof (cases "metaCell m h")
  case None
  then show ?thesis using quiet_refl [OF rng] by (simp add: IncFreq_def)
next
  case (Some c)
  note cm = metaCell_GetMeta [OF rng Some]
  have 0: "(ucast (GetMeta m h) AND freqMask) + 1 AND freqMask = ucast ((GetMeta m h + 1) AND 3)"
    using freq_succ [of "GetMeta m h"] by (simp only: freqMask_def)
  have 1: "(ucast (GetMeta m h) AND NOT freqMask) OR ((ucast (GetMeta m h) AND freqMask) + 1 AND freqMask)
      = ucast ((GetMeta m h AND NOT 3) OR ((GetMeta m h + 1) AND 3))"
    by (simp only: ucast_or16 ucast_andnot16 freqMask_ucast 0 [unfolded freqMask_ucast])
  have e: "snd (IncFreq m h) = setCell m h (ucast ((GetMeta m h AND NOT 3) OR ((GetMeta m h + 1) AND 3)))"
    using Some cm by (simp only: IncFreq_def Let_def option.case snd_conv 1)
  have "((GetMeta m h AND NOT 3) OR ((GetMeta m h + 1) AND 3)) AND NOT 15 = ucast c AND NOT 15"
    unfolding within_mask(1) [OF freq_within] cm ucast_low16 ..
  from setCell_quiet [OF rng Some this] show ?thesis by (simp only: e)
qed

lemma casLoop16_rng:
  assumes rng: "mgr_rng m"
  obtains m' where "casLoop16 m h f = Some m'" "same_data m m'"
    "metaCell m h \<noteq> None \<Longrightarrow> GetMeta m' h = f (GetMeta m h)"
    "(\<And>w. f w AND NOT 15 = w AND NOT 15) \<Longrightarrow> quiet m m'"
proof (cases "metaCell m h")
  case None
  then show ?thesis using that [of m] quiet_refl [OF rng] same_data_refl [OF rng] by (simp add: casLoop16_def)
next
  case (Some c)
  note cm = metaCell_GetMeta [OF rng Some]
  show ?thesis
  proof (cases "f (GetMeta m h) = GetMeta m h")
    case True
    then have "casLoop16 m h f = Some m" using Some cm by (simp only: casLoop16_def Let_def ucast_low16 option.case) simp
    then show ?thesis using that [of m] True quiet_refl [OF rng] same_data_refl [OF rng] by simp
  next
    case False
    let ?m = "setCell m h (ucast (f (GetMeta m h)))"
    have "casLoop16 m h f = Some ?m"
      using False Some cm by (simp only: casLoop16_def Let_def ucast_low16 option.case) simp
    moreover have "same_data m ?m" by (rule setCell_same_data [OF rng Some unat_ucast16])
    moreover have "GetMeta ?m h = f (GetMeta m h)"
      using GetMeta_setCell [OF Some, of _ h] by (simp add: same_cell_def ucast_low16)
    moreover have "quiet m ?m" if "\<And>w. f w AND NOT 15 = w AND NOT 15"
      by (rule setCell_quiet [OF rng Some]) (simp only: that cm ucast_low16)
    ultimately show ?thesis using that by blast
  qed
qed

lemma OrTag_quiet:
  assumes "mgr_rng m" "t = QueueTagS \<or> t = QueueTagM"
  obtains m' where "OrMetaBits m h t = Some m'" "quiet m m'"
proof -
  have "t AND NOT 15 = 0" using assms(2) tag_within by auto
  then have "(w OR t) AND NOT 15 = w AND NOT 15" for w by (rule within_mask(2))
  with casLoop16_rng [OF assms(1), of h "\<lambda>current. current OR t"] that show ?thesis unfolding OrMetaBits_def by metis
qed

lemma ClearTag_quiet:
  assumes "mgr_rng m"
  obtains m' where "ClearMetaBits m h QueueTagMask = Some m'" "quiet m m'"
  using casLoop16_rng [OF assms, of h "\<lambda>current. current AND NOT QueueTagMask"] that within_mask(3) [OF tag_within(1)]
  unfolding ClearMetaBits_def by metis

section \<open>Free\<close>

lemma hgood_end:
  assumes "mgr_rng m" "hgood m h"
  shows "unat (h_Offset h) + unat (h_Size h) \<le> length (rg_data (mg_regions m ! unat (h_Region h)))"
    "unat (h_Offset h) < length (rg_data (mg_regions m ! unat (h_Region h)))"
proof -
  have i: "unat (h_Region h) < length (mg_regions m)" and s: "unat (h_Size h) \<le> 67108864"
    and e: "unat (h_Offset h) + blockLen (h_Size h) \<le> unat (ucast (mg_size m) :: u32)"
    using assms(2) by (auto simp: hgood_def)
  have "length (rg_data (mg_regions m ! unat (h_Region h))) = unat (mg_size m)"
    using mgr_rng_region [OF assms(1) i] by (auto elim: region_okE)
  then show "unat (h_Offset h) + unat (h_Size h) \<le> length (rg_data (mg_regions m ! unat (h_Region h)))"
    "unat (h_Offset h) < length (rg_data (mg_regions m ! unat (h_Region h)))"
    using e blockLen_bounds(1,2) [OF s] unat_ucast_le [of "mg_size m"] by linarith+
qed

lemma alloc_Free_rng:
  assumes "alloc_rng a" "8 dvd unat off" "unat off + blockLen n \<le> unat (al_size a)"
  shows "alloc_rng (alloc_Free a off n)" "al_size (alloc_Free a off n) = al_size a"
  using assms blockLen_class [of n]
  by (auto simp: alloc_rng_def alloc_Free_def Let_def nth_list_update not_le)

lemma Free_quiet:
  assumes rng: "mgr_rng m" and h: "hgood m h"
  shows "fst (Free m h) = Inr ()" "quiet m (snd (Free m h))"
proof -
  let ?i = "unat (h_Region h)" and ?r = "mg_regions m ! unat (h_Region h)"
  have i: "?i < length (mg_regions m)" using h by (simp add: hgood_def)
  note reg = mgr_rng_region [OF rng i] and e = hgood_end [OF rng h]
  have f: "Free m h = (Inr (), (setAlloc m ?i (alloc_Free (rg_alloc ?r) (h_Offset h) (h_Size h)))
      \<lparr>mg_liveObjs := mg_liveObjs m + NOT 0\<rparr>)"
    using i e(1) by (simp add: Free_def Let_def unat_end)
  then show "fst (Free m h) = Inr ()" by simp
  have sz: "al_size (rg_alloc ?r) = ucast (mg_size m)" using reg by (auto elim: region_okE)
  have a: "alloc_rng (alloc_Free (rg_alloc ?r) (h_Offset h) (h_Size h))"
    "al_size (alloc_Free (rg_alloc ?r) (h_Offset h) (h_Size h)) = al_size (rg_alloc ?r)"
    using alloc_Free_rng [of "rg_alloc ?r" "h_Offset h" "h_Size h"] reg h by (auto simp: hgood_def sz)
  have "region_ok (mg_size m) (?r\<lparr>rg_alloc := alloc_Free (rg_alloc ?r) (h_Offset h) (h_Size h)\<rparr>)"
    using reg a(2) by (simp add: region_ok_def)
  then have "mgr_rng (snd (Free m h))"
    using rng a(1) by (auto simp: f mgr_rng_def setAlloc_def dest!: set_update_subset_insert [THEN subsetD])
  moreover have "View (snd (Free m h)) x = View m x" "GetMeta (snd (Free m h)) x = GetMeta m x" for x
    using i by (cases "unat (h_Region x) = ?i";
        simp add: View_def GetMeta_def metaCell_def f setAlloc_def Let_def)+
  ultimately show "quiet m (snd (Free m h))" by (simp add: quiet_def flags_def f setAlloc_def)
qed

section \<open>Put\<close>

lemma Alloc_rng:
  assumes a: "alloc_rng a" and n: "unat n \<le> 67108864" and r: "Alloc a n = (Inr off, a')"
  shows "alloc_rng a'" "al_size a' = al_size a" "8 dvd unat off" "unat off + blockLen n \<le> unat (al_size a)"
proof -
  define k where "k = (if n = 0 then 1 else n)"
  have k: "k \<noteq> 0" "unat k \<le> 67108864" using n by (auto simp: k_def)
  have len: "blockLen n = unat (allocSize k)" by (simp add: blockLen_def k_def)
  have "alloc_rng a' \<and> al_size a' = al_size a \<and> 8 dvd unat off \<and> unat off + blockLen n \<le> unat (al_size a)"
  proof (cases "sizeClass k < 11 \<and> al_fl a ! sizeClass k \<noteq> []")
    case True
    then have off: "off = hd (al_fl a ! sizeClass k)"
      and a': "a' = a\<lparr>al_fl := (al_fl a)[sizeClass k := tl (al_fl a ! sizeClass k)]\<rparr>"
      using r by (auto simp: Alloc_def Let_def k_def split: if_splits)
    have "off \<in> set (al_fl a ! sizeClass k)" using True by (simp add: off)
    moreover have "set (tl (al_fl a ! sizeClass k)) \<subseteq> set (al_fl a ! sizeClass k)" by (meson list.set_sel(2) subsetI True)
    ultimately show ?thesis using a True len
      by (auto simp: alloc_rng_def a' nth_list_update allocSize_small)
  next
    case False
    let ?al = "(al_offset a + 8 - 1) AND NOT 7" and ?a0 = "a\<lparr>al_fl := replicate 12 []\<rparr>"
    have "Alloc a n = (if ?al + ucast (allocSize k) > ucast (al_size a) then (Inl ErrArenaFull, a)
        else (Inr (ucast ?al), a\<lparr>al_offset := ?al + ucast (allocSize k)\<rparr>))"
      unfolding Alloc_def Let_def k_def [symmetric] using False by auto
    with r have fits: "\<not> ?al + ucast (allocSize k) > ucast (al_size a)"
      and off: "off = ucast ?al" and a': "a' = a\<lparr>al_offset := ?al + ucast (allocSize k)\<rparr>"
      by (auto split: if_splits)
    have fb: "free_blocks ?a0 = []" by (auto simp: free_blocks_def class_blocks_def)
    then have inv: "alloc_inv 0 ?a0 {}" using a by (simp add: alloc_inv_def alloc_rng_def)
    have fits0: "\<not> (al_offset ?a0 + 8 - 1 AND NOT 7) + ucast (allocSize k) > ucast (al_size ?a0)" using fits by simp
    note bump = alloc_inv_bump [OF inv k refl fits0 refl]
    have "unat (al_offset a') \<le> unat (al_size a')" using bump(1) by (simp add: alloc_inv_def a')
    moreover have "placed 0 (unat (al_offset a')) (unat ?al, unat (allocSize k))" using bump(1) by (simp add: alloc_inv_def a')
    ultimately show ?thesis using a bump(4) len by (simp add: a' alloc_rng_def off placed_def)
  qed
  then show "alloc_rng a'" "al_size a' = al_size a" "8 dvd unat off" "unat off + blockLen n \<le> unat (al_size a)" by auto
qed

definition put_rng :: "Manager \<Rightarrow> bytes \<Rightarrow> (arena_error + Handle) \<times> Manager \<Rightarrow> bool" where
  "put_rng m v res \<longleftrightarrow> (case res of (r, m') \<Rightarrow>
     mgr_rng m' \<and> (\<forall>x. hgood m x \<longrightarrow> hgood m' x) \<and>
     (case r of
        Inr h \<Rightarrow> hgood m' h \<and> View m' h = Inr v \<and> metaCell m' h = Some 0
      | Inl e \<Rightarrow> e \<noteq> ArenaPanic \<and> (\<forall>x. hgood m x \<longrightarrow> View m' x = View m x \<and> GetMeta m' x = GetMeta m x)))"

lemma stored_rng:
  assumes rng: "mgr_rng m" and i: "i < length (mg_regions m)" and len: "length v \<le> 67108864"
    and al: "Alloc (rg_alloc (mg_regions m ! i)) (of_nat (length v)) = (Inr off, a)"
  shows "put_rng m v (putAt (setAlloc m i a) i off (of_nat (length v)) v)"
proof -
  let ?n = "of_nat (length v) :: u32"
  have n: "unat ?n = length v" "unat ?n \<le> 67108864" using len by (simp_all add: unat_of_nat_u32)
  note reg = mgr_rng_region [OF rng i]
  then obtain ms where ms: "rg_meta (mg_regions m ! i) = Some ms" "length ms = unat (ucast (mg_size m) :: u32) div 8"
    "\<forall>v \<in> set ms. unat v < 65536" "length (rg_data (mg_regions m ! i)) = unat (mg_size m)"
    "al_size (rg_alloc (mg_regions m ! i)) = ucast (mg_size m)" by (auto elim: region_okE)
  note ar = Alloc_rng [OF conjunct2 [OF reg] n(2) al]
  have fit: "unat off + blockLen ?n \<le> unat (ucast (mg_size m) :: u32)" using ar(4) ms(5) by simp
  have idx: "unat off div 8 < length ms" using fit blockLen_bounds(2) [OF n(2)] ms(2) by linarith
  have room: "unat off + length v \<le> length (rg_data (mg_regions m ! i))" "unat off < length (rg_data (mg_regions m ! i))"
    using fit blockLen_bounds(1,2) [OF n(2)] n(1) ms(4) unat_ucast_le [of "mg_size m"] by linarith+
  let ?m = "stored m i a off v ms" and ?h = "\<lparr>h_Offset = off, h_Size = ?n, h_Meta = 0, h_Region = of_nat i\<rparr>"
  have p: "putAt (setAlloc m i a) i off ?n v = (Inr ?h, ?m)" using putAt_eq [OF i ms(1) idx] n(1) by simp
  note st = stored_simps [OF i, where a = a and off = off and v = v and ms = ms]
  have i8: "unat (of_nat i :: u8) = i" using i rng by (intro unat_of_nat_region) (simp add: mgr_rng_def)
  let ?r = "(mg_regions m ! i)\<lparr>rg_alloc := a, rg_data := copy_at (rg_data (mg_regions m ! i)) (unat off) v,
     rg_meta := Some (ms[unat off div 8 := 0])\<rparr>"
  have "\<forall>x \<in> set (ms[unat off div 8 := 0]). unat x < 65536"
    using ms(3) set_update_subset_insert [of ms "unat off div 8" 0] by auto
  then have "region_ok (mg_size m) ?r" using ms ar(2) room by (simp add: region_ok_def)
  then have rng': "mgr_rng ?m"
    using rng ar(1) by (auto simp: stored_def mgr_rng_def dest!: set_update_subset_insert [THEN subsetD])
  moreover have "hgood ?m ?h" using i i8 ar(3) fit n(2) by (simp add: hgood_def st)
  moreover have "View ?m ?h = Inr v"
    using i i8 room n(1) slice_copy_at_same [OF room(1)]
    by (simp add: View_def st Let_def unat_end unsafeView_def)
  moreover have "metaCell ?m ?h = Some 0" using i i8 idx by (simp add: metaCell_def st Let_def alignBytes_def)
  moreover have "hgood ?m x" if "hgood m x" for x using that by (simp add: hgood_def st)
  ultimately show ?thesis by (simp add: p put_rng_def)
qed

lemma add_region_rng:
  assumes rng: "mgr_rng m" and ok: "mmap_ok mmap" and r: "newRegion mmap (mg_size m) = Inr r"
    and lim: "length (mg_regions m) < 256"
    and m1: "m1 = m\<lparr>mg_regions := mg_regions m @ [r\<lparr>rg_meta := Some (makeMeta (rg_data r))\<rparr>],
      mg_currentIdx := of_nat (length (mg_regions m))\<rparr>"
  shows "mgr_rng m1" "\<forall>x. hgood m x \<longrightarrow> hgood m1 x \<and> View m1 x = View m x \<and> GetMeta m1 x = GetMeta m x"
proof -
  note nr = newRegion_ok [OF ok r]
  have "alloc_rng (rg_alloc r)" using nr(2) by (auto simp: alloc_rng_def alloc_Init_def)
  moreover have "unat (mg_currentIdx m1) = length (mg_regions m)" using lim by (simp add: m1 unat_of_nat)
  ultimately show "mgr_rng m1" using rng nr(1) lim unfolding mgr_rng_def by (auto simp: m1)
  show "\<forall>x. hgood m x \<longrightarrow> hgood m1 x \<and> View m1 x = View m x \<and> GetMeta m1 x = GetMeta m x"
    by (auto simp: hgood_def View_def GetMeta_def metaCell_def m1 nth_append Let_def)
qed

lemma put_rng_trans:
  assumes "\<forall>x. hgood m x \<longrightarrow> hgood m1 x \<and> View m1 x = View m x \<and> GetMeta m1 x = GetMeta m x" "put_rng m1 v res"
  shows "put_rng m v res"
  using assms by (auto simp: put_rng_def split: prod.splits sum.splits)

lemma put_rng_fail: "mgr_rng m \<Longrightarrow> e \<noteq> ArenaPanic \<Longrightarrow> put_rng m v (Inl e, m)"
  by (simp add: put_rng_def)

lemma Alloc_error: "Alloc a n = (Inl e, a') \<Longrightarrow> e \<noteq> ArenaPanic"
  by (auto simp: Alloc_def Let_def split: if_splits)

lemma newRegion_error: "mmap_ok mmap \<Longrightarrow> newRegion mmap sz = Inl e \<Longrightarrow> e \<noteq> ArenaPanic"
  by (auto simp: newRegion_def mmap_ok_def split: sum.splits)

lemma putSlow_rng:
  assumes rng: "mgr_rng m" and ok: "mmap_ok mmap" and len: "length v \<le> 67108864"
  shows "put_rng m v (putSlow mmap m v (of_nat (length v)))"
proof -
  let ?n = "of_nat (length v) :: u32" and ?i = "unat (mg_currentIdx m)"
  have i: "?i < length (mg_regions m)" using rng by (simp add: mgr_rng_def)
  obtain res a where al: "Alloc (rg_alloc (mg_regions m ! ?i)) ?n = (res, a)" by force
  note fail = put_rng_fail [OF rng, where v = v]
  show ?thesis
  proof (cases res)
    case (Inr off)
    then show ?thesis using stored_rng [OF rng i len] al by (simp add: putSlow_def Let_def)
  next
    case Inl
    consider "256 \<le> length (mg_regions m)" | e where "length (mg_regions m) < 256" "newRegion mmap (mg_size m) = Inl e"
      | r where "length (mg_regions m) < 256" "newRegion mmap (mg_size m) = Inr r"
      by (cases "newRegion mmap (mg_size m)") fastforce+
    then show ?thesis
    proof cases
      case 3
      define m1 where "m1 = m\<lparr>mg_regions := mg_regions m @ [r\<lparr>rg_meta := Some (makeMeta (rg_data r))\<rparr>],
          mg_currentIdx := of_nat (length (mg_regions m))\<rparr>"
      note ar = add_region_rng [OF rng ok 3(2,1) m1_def]
      obtain res1 a1 where al1: "Alloc (rg_alloc r) ?n = (res1, a1)" by force
      have l1: "length (mg_regions m) < length (mg_regions m1)"
        and r1: "rg_alloc (mg_regions m1 ! length (mg_regions m)) = rg_alloc r" by (simp_all add: m1_def)
      have "put_rng m1 v (case res1 of Inl e \<Rightarrow> (Inl e, m1)
           | Inr off \<Rightarrow> putAt (setAlloc m1 (length (mg_regions m)) a1) (length (mg_regions m)) off ?n v)"
        using stored_rng [OF ar(1) l1 len] al1 put_rng_fail [OF ar(1) Alloc_error] by (cases res1) (simp_all add: r1)
      then show ?thesis
        using put_rng_trans [OF ar(2)] Inl al 3 al1 by (cases res1) (simp_all add: putSlow_def Let_def m1_def)
    qed (use Inl al fail newRegion_error [OF ok] in \<open>simp_all add: putSlow_def Let_def\<close>)
  qed
qed

lemma Put_rng:
  assumes rng: "mgr_rng m" and ok: "mmap_ok mmap" and len: "length v < 4294967296"
  shows "put_rng m v (Put mmap m v)"
proof -
  let ?n = "of_nat (length v) :: u32" and ?i = "unat (mg_currentIdx m)"
  have i: "?i < length (mg_regions m)" using rng by (simp add: mgr_rng_def)
  have n: "?n > MaxObjectSize \<longleftrightarrow> 67108864 < length v"
    using len by (simp add: MaxObjectSize_def word_less_nat_alt unat_of_nat_u32)
  obtain res a where al: "Alloc (rg_alloc (mg_regions m ! ?i)) ?n = (res, a)" by force
  show ?thesis
  proof (cases "67108864 < length v")
    case True
    then show ?thesis using n put_rng_fail [OF rng] by (simp add: Put_def)
  next
    case False
    then have "length v \<le> 67108864" by simp
    then show ?thesis
      using n i al stored_rng [OF rng i, of v] putSlow_rng [OF rng ok, of v]
      by (cases res) (simp_all add: Put_def Let_def not_le)
  qed
qed

text \<open>A well-formed manager is in range, and so are its live handles.\<close>

lemma mgr_inv_rng:
  assumes inv: "mgr_inv m H"
  shows "mgr_rng m" "h \<in> H \<Longrightarrow> hgood m h"
proof -
  have "alloc_rng (rg_alloc r)" if r: "r \<in> set (mg_regions m)" for r
  proof -
    obtain i where i: "i < length (mg_regions m)" "r = mg_regions m ! i" using r by (auto simp: in_set_conv_nth)
    have a: "alloc_inv (regBase m i) (rg_alloc r) (liveBlocks H i)" using mgr_inv_region(2) [OF inv i(1)] i(2) by simp
    have "(unat off, unat (classSize c)) \<in> set (free_blocks (rg_alloc r))"
      if "c < 11" "off \<in> set (al_fl (rg_alloc r) ! c)" for c off
      using that by (auto simp: free_blocks_def class_blocks_def)
    then have "placed (regBase m i) (unat (al_offset (rg_alloc r))) (unat off, unat (classSize c))"
      if "c < 11" "off \<in> set (al_fl (rg_alloc r) ! c)" for c off
      using that a by (auto simp: alloc_inv_def)
    then show ?thesis using a by (fastforce simp: alloc_rng_def alloc_inv_def placed_def)
  qed
  then show "mgr_rng m" using inv by (simp add: mgr_rng_def mgr_inv_def)
  show "hgood m h" if h: "h \<in> H"
    using live_block [OF inv h] inv h by (auto simp: hgood_def placed_def blockOf_def mgr_inv_def)
qed

end
