(* ===== verification/S3_Fifo.thy ===== *)
theory S3_Fifo
  imports Ghost Arena_Range "HOL-Library.Monad_Syntax"
begin

text \<open>
  \<^verbatim>\<open>internal/eviction/s3fifo.go\<close>: the S3-FIFO policy over a small queue S, a main queue M and the ghost
  index.  The policy shares the arena manager with its owner, so every operation takes the manager and
  returns it; the mutex makes \<^verbatim>\<open>Add\<close>, \<^verbatim>\<open>Delete\<close> and \<^verbatim>\<open>Remove\<close> single steps.  Operations return an
  \<open>option\<close> because of the compare-and-swap loops on metadata words; they return in every manager that is
  in range.

  The lemmas account for every handle: nothing is lost from the queues but what \<^verbatim>\<open>Add\<close> reports as
  evicted, and a handle that \<^verbatim>\<open>Add\<close> could not enqueue is left out of both queues.
\<close>

section \<open>Definitions\<close>

definition smallPct :: u64 where "smallPct = 10"

record Eviction =
  ev_sq :: RingBuffer
  ev_mq :: RingBuffer
  ev_gh :: GhostIndex

datatype ev_panic = CapacityZero

definition ev_New :: "u64 \<Rightarrow> (ev_panic + Eviction) option" where
  "ev_New capacity =
    (if capacity = 0 then Some (Inl CapacityZero)
     else
       let s0 = capacity * smallPct div 100; sCap = (if s0 = 0 then 1 else s0);
           m0 = capacity - sCap; mCap = (if m0 = 0 then 1 else m0)
       in do {
         sq \<leftarrow> NewRingBuffer sCap;
         mq \<leftarrow> NewRingBuffer mCap;
         gh \<leftarrow> NewGhostIndex mCap;
         Some (Inr \<lparr>ev_sq = sq, ev_mq = mq, ev_gh = gh\<rparr>)
       })"

definition ev_Capacity :: "Eviction \<Rightarrow> u64" where
  "ev_Capacity e = rb_Capacity (ev_sq e) + rb_Capacity (ev_mq e)"

definition ev_SCapacity :: "Eviction \<Rightarrow> u64" where
  "ev_SCapacity e = rb_Capacity (ev_sq e)"

definition ev_MCapacity :: "Eviction \<Rightarrow> u64" where
  "ev_MCapacity e = rb_Capacity (ev_mq e)"

definition evictM :: "Eviction \<Rightarrow> Manager \<Rightarrow> (Handle list \<times> Eviction \<times> Manager) option" where
  "evictM e mgr =
    (case rb_Pop (ev_mq e) of ((h, ok), mq) \<Rightarrow>
       if \<not> ok then Some ([], e\<lparr>ev_mq := mq\<rparr>, mgr)
       else
         let freq = GetFreq mgr h
         in if freq \<ge> 1
            then Some ([], e\<lparr>ev_mq := snd (rb_Push mq h)\<rparr>, SetFreq mgr h (freq - 1))
            else do {
              mgr1 \<leftarrow> ClearMetaBits mgr h QueueTagMask;
              Some ([h], e\<lparr>ev_mq := mq\<rparr>, mgr1)
            })"

text \<open>The two lines after a successful push: frequency zero, queue tag set.\<close>

definition tagPushed :: "Manager \<Rightarrow> Handle \<Rightarrow> u16 \<Rightarrow> Manager option" where
  "tagPushed mgr h tag = OrMetaBits (SetFreq mgr h 0) h tag"

definition evictS :: "Eviction \<Rightarrow> Manager \<Rightarrow> bytes \<Rightarrow> (Handle list \<times> Eviction \<times> Manager) option" where
  "evictS e mgr key =
    (case rb_Pop (ev_sq e) of ((h, ok), sq) \<Rightarrow>
       let e0 = e\<lparr>ev_sq := sq\<rparr> in
       if \<not> ok then Some ([], e0, mgr)
       else if GetFreq mgr h \<ge> 2
       then do {
         mgr1 \<leftarrow> ClearMetaBits mgr h QueueTagMask;
         case rb_Push (ev_mq e0) h of (pushed, mq1) \<Rightarrow>
           if \<not> pushed
           then do {
             (evicted, e1, mgr2) \<leftarrow> evictM (e0\<lparr>ev_mq := mq1\<rparr>) mgr1;
             case rb_Push (ev_mq e1) h of (pushed2, mq2) \<Rightarrow>
               if \<not> pushed2 then Some (evicted @ [h], e1\<lparr>ev_mq := mq2\<rparr>, SetFreq mgr2 h 0)
               else do {
                 mgr3 \<leftarrow> tagPushed mgr2 h QueueTagM;
                 Some (evicted, e1\<lparr>ev_mq := mq2\<rparr>, mgr3)
               }
           }
           else do {
             mgr2 \<leftarrow> tagPushed mgr1 h QueueTagM;
             Some ([], e0\<lparr>ev_mq := mq1\<rparr>, mgr2)
           }
       }
       else Some ([h], e0\<lparr>ev_gh := snd (gh_Insert (ev_gh e0) (fingerprintOf key))\<rparr>, mgr))"

definition ev_Add :: "Eviction \<Rightarrow> Manager \<Rightarrow> bytes \<Rightarrow> Handle \<Rightarrow> (Handle list \<times> Eviction \<times> Manager) option" where
  "ev_Add e mgr key h =
    (if gh_Look (ev_gh e) (fingerprintOf key)
     then case rb_Push (ev_mq e) h of (pushed, mq) \<Rightarrow>
       if \<not> pushed then evictM (e\<lparr>ev_mq := mq\<rparr>) mgr
       else do {
         mgr1 \<leftarrow> tagPushed mgr h QueueTagM;
         Some ([], e\<lparr>ev_mq := mq\<rparr>, mgr1)
       }
     else case rb_Push (ev_sq e) h of (pushed, sq) \<Rightarrow>
       if \<not> pushed then evictS (e\<lparr>ev_sq := sq\<rparr>) mgr key
       else do {
         mgr1 \<leftarrow> tagPushed mgr h QueueTagS;
         Some ([], e\<lparr>ev_sq := sq\<rparr>, mgr1)
       })"

definition touchQueue :: "RingBuffer \<Rightarrow> Manager \<Rightarrow> Handle \<Rightarrow> Manager" where
  "touchQueue q mgr h = (if rb_ScanFromHead q h then snd (IncFreq mgr h) else mgr)"

definition ev_Touch :: "Eviction \<Rightarrow> Manager \<Rightarrow> Handle \<Rightarrow> Manager" where
  "ev_Touch e mgr h =
    (let tag = GetMeta mgr h AND QueueTagMask
     in if tag = QueueTagS then touchQueue (ev_sq e) mgr h
        else if tag = QueueTagM then touchQueue (ev_mq e) mgr h
        else mgr)"

definition ev_Delete :: "Eviction \<Rightarrow> Manager \<Rightarrow> bytes \<Rightarrow> Handle \<Rightarrow> (Eviction \<times> Manager) option" where
  "ev_Delete e mgr key h =
    (case rb_Remove (ev_sq e) h of (hit, sq) \<Rightarrow>
       if hit then do {
         mgr1 \<leftarrow> ClearMetaBits mgr h QueueTagMask;
         Some (e\<lparr>ev_sq := sq, ev_gh := snd (gh_Remove (ev_gh e) (fingerprintOf key))\<rparr>, mgr1)
       }
       else case rb_Remove (ev_mq e) h of (hit2, mq) \<Rightarrow>
         if hit2 then do {
           mgr1 \<leftarrow> ClearMetaBits mgr h QueueTagMask;
           Some (e\<lparr>ev_mq := mq\<rparr>, mgr1)
         }
         else Some (e, mgr))"

definition ev_Remove :: "Eviction \<Rightarrow> Manager \<Rightarrow> Handle \<Rightarrow> (Eviction \<times> Manager) option" where
  "ev_Remove e mgr h =
    (case rb_Remove (ev_sq e) h of (hit, sq) \<Rightarrow>
       if hit then do {
         mgr1 \<leftarrow> ClearMetaBits mgr h QueueTagMask;
         Some (e\<lparr>ev_sq := sq\<rparr>, mgr1)
       }
       else case rb_Remove (ev_mq e) h of (hit2, mq) \<Rightarrow>
         if hit2 then do {
           mgr1 \<leftarrow> ClearMetaBits mgr h QueueTagMask;
           Some (e\<lparr>ev_mq := mq\<rparr>, mgr1)
         }
         else Some (e, mgr))"

definition ev_Stats :: "Eviction \<Rightarrow> u64 \<times> u64 \<times> u64" where
  "ev_Stats e = (rb_Size (ev_sq e), rb_Size (ev_mq e), fst (gh_Stats (ev_gh e)))"

subsection \<open>Contract\<close>

definition ev_inv :: "Eviction \<Rightarrow> bool" where
  "ev_inv e \<longleftrightarrow> rb_inv (ev_sq e) \<and> rb_inv (ev_mq e)"

text \<open>All handles the queues hold, with multiplicity.\<close>

definition ev_handles :: "Eviction \<Rightarrow> Handle multiset" where
  "ev_handles e = mset (rb_content (ev_sq e)) + mset (rb_content (ev_mq e))"

text \<open>What every call of the policy keeps: queue sizes, queue invariants, and the bytes and flags behind
  every handle.\<close>

definition ev_step :: "Eviction \<Rightarrow> Manager \<Rightarrow> Eviction \<Rightarrow> Manager \<Rightarrow> bool" where
  "ev_step e mgr e' mgr' \<longleftrightarrow> ev_inv e' \<and> quiet mgr mgr' \<and>
     ev_SCapacity e' = ev_SCapacity e \<and> ev_MCapacity e' = ev_MCapacity e"

section \<open>The queue operations in one step each\<close>

lemma rb_Push_cases:
  assumes "rb_inv q" "rb_Push q h = (ok, q')"
  shows "rb_inv q'" "rb_cap q' = rb_cap q" "ok \<longleftrightarrow> length (rb_content q) < unat (rb_cap q)"
    "ok \<Longrightarrow> rb_content q' = rb_content q @ [h]" "\<not> ok \<Longrightarrow> q' = q"
proof -
  have "rb_inv q' \<and> rb_cap q' = rb_cap q \<and> (ok \<longleftrightarrow> length (rb_content q) < unat (rb_cap q)) \<and>
    (ok \<longrightarrow> rb_content q' = rb_content q @ [h]) \<and> (\<not> ok \<longrightarrow> q' = q)"
    using rb.push_ok [OF assms(1) _ assms(2)] rb.push_full [OF assms(1), of h] assms
    by (cases "length (rb_content q) < unat (rb_cap q)") (auto dest: unsigned_word_eqI)
  then show "rb_inv q'" "rb_cap q' = rb_cap q" "ok \<longleftrightarrow> length (rb_content q) < unat (rb_cap q)"
    "ok \<Longrightarrow> rb_content q' = rb_content q @ [h]" "\<not> ok \<Longrightarrow> q' = q" by auto
qed

lemma rb_Pop_cases:
  assumes "rb_inv q" "rb_Pop q = ((h, ok), q')"
  shows "rb_inv q'" "rb_cap q' = rb_cap q" "ok \<Longrightarrow> rb_content q = h # rb_content q'"
    "\<not> ok \<Longrightarrow> rb_content q = [] \<and> q' = q"
proof -
  obtain k where k: "rb_shape k q" using assms(1) by (auto simp: rb_inv_def)
  have "rb_inv q' \<and> rb_cap q' = rb_cap q \<and> (ok \<longrightarrow> rb_content q = h # rb_content q') \<and> (\<not> ok \<longrightarrow> rb_content q = [] \<and> q' = q)"
    using rb_Pop_ok [OF k assms(2)] assms(1) by (auto simp: rb_inv_def split: list.splits)
  then show "rb_inv q'" "rb_cap q' = rb_cap q" "ok \<Longrightarrow> rb_content q = h # rb_content q'"
    "\<not> ok \<Longrightarrow> rb_content q = [] \<and> q' = q" by auto
qed

lemma rb_Remove_cases:
  assumes "rb_inv q" "rb_Remove q h = (ok, q')"
  shows "rb_inv q'" "rb_cap q' = rb_cap q" "rb_content q' = rb_content q"
  using assms rb_Remove_ok [of _ q h] by (auto simp: rb_inv_def)

lemma rb_room: "rb_inv q \<Longrightarrow> length (rb_content q) \<le> unat (rb_cap q)"
  by (auto simp: rb_inv_def rb_shape_def)

lemma rb_cap_pos: "rb_inv q \<Longrightarrow> 0 < unat (rb_cap q)"
  by (auto simp: rb_inv_def rb_shape_def)

lemma tagPushed_quiet:
  assumes "mgr_rng m" "t = QueueTagS \<or> t = QueueTagM"
  obtains m' where "tagPushed m h t = Some m'" "quiet m m'"
proof -
  have q: "quiet m (SetFreq m h 0)" by (rule SetFreq_quiet [OF assms(1)])
  obtain m' where "OrMetaBits (SetFreq m h 0) h t = Some m'" "quiet (SetFreq m h 0) m'"
    using OrTag_quiet [OF quiet_rng [OF q] assms(2)] .
  then show ?thesis using that quiet_trans [OF q] by (simp add: tagPushed_def)
qed

lemma ev_step_refl: "ev_inv e \<Longrightarrow> mgr_rng m \<Longrightarrow> ev_step e m e m"
  by (simp add: ev_step_def quiet_refl)

lemma ev_step_rng: "ev_step e m e' m' \<Longrightarrow> mgr_rng m'"
  by (auto simp: ev_step_def intro: quiet_rng)

section \<open>Evictions\<close>

lemma evictM_ok:
  assumes inv: "ev_inv e" and rng: "mgr_rng m"
  obtains out e' m' where "evictM e m = Some (out, e', m')" "ev_step e m e' m'"
    "ev_handles e = ev_handles e' + mset out" "ev_sq e' = ev_sq e"
proof -
  obtain h ok q where p: "rb_Pop (ev_mq e) = ((h, ok), q)" by (metis surj_pair)
  have sq: "rb_inv (ev_sq e)" and mq: "rb_inv (ev_mq e)" using inv by (auto simp: ev_inv_def)
  note pop = rb_Pop_cases [OF mq p]
  show ?thesis
  proof (cases ok)
    case False
    then show ?thesis using that [of "[]" e m] p pop(4) ev_step_refl [OF inv rng] by (simp add: evictM_def)
  next
    case ok: True
    note c = pop(3) [OF ok]
    show ?thesis
    proof (cases "GetFreq m h \<ge> 1")
      case True
      obtain b q2 where push: "rb_Push q h = (b, q2)" by (metis surj_pair)
      note pu = rb_Push_cases [OF pop(1) push]
      have b: "b" using rb_room [OF mq] c pop(2) pu(3) by simp
      let ?e = "e\<lparr>ev_mq := q2\<rparr>" and ?m = "SetFreq m h (GetFreq m h - 1)"
      have "ev_step e m ?e ?m"
        using sq pu(1,2) pop(2) SetFreq_quiet [OF rng]
        by (simp add: ev_step_def ev_inv_def ev_SCapacity_def ev_MCapacity_def rb_Capacity_def)
      moreover have "ev_handles e = ev_handles ?e" using c pu(4) [OF b] by (simp add: ev_handles_def)
      ultimately show ?thesis using that [of "[]" ?e ?m] p ok push True by (simp add: evictM_def)
    next
      case False
      obtain m' where m': "ClearMetaBits m h QueueTagMask = Some m'" "quiet m m'" using ClearTag_quiet [OF rng] .
      let ?e = "e\<lparr>ev_mq := q\<rparr>"
      have "ev_step e m ?e m'"
        using sq pop(1,2) m'(2) by (simp add: ev_step_def ev_inv_def ev_SCapacity_def ev_MCapacity_def rb_Capacity_def)
      moreover have "ev_handles e = ev_handles ?e + mset [h]" using c by (simp add: ev_handles_def)
      ultimately show ?thesis using that [of "[h]" ?e m'] p ok m'(1) False by (simp add: evictM_def)
    qed
  qed
qed

text \<open>Moving a handle that S gave up into M, with the second attempt after an eviction from M.\<close>

lemma evictS_ok:
  assumes inv: "ev_inv e" and rng: "mgr_rng m"
  obtains out e' m' where "evictS e m key = Some (out, e', m')" "ev_step e m e' m'"
    "ev_handles e = ev_handles e' + mset out"
proof -
  obtain h ok q where p: "rb_Pop (ev_sq e) = ((h, ok), q)" by (metis surj_pair)
  have sq: "rb_inv (ev_sq e)" and mq: "rb_inv (ev_mq e)" using inv by (auto simp: ev_inv_def)
  note pop = rb_Pop_cases [OF sq p]
  let ?e0 = "e\<lparr>ev_sq := q\<rparr>"
  have e0: "ev_step e m' ?e0 m'" if "mgr_rng m'" for m'
    using mq pop(1,2) quiet_refl [OF that]
    by (simp add: ev_step_def ev_inv_def ev_SCapacity_def ev_MCapacity_def rb_Capacity_def)
  consider "\<not> ok" | "ok" "\<not> GetFreq m h \<ge> 2" | "ok" "GetFreq m h \<ge> 2" by blast
  then show ?thesis
  proof cases
    case 1
    then show ?thesis using that [of "[]" e m] p pop(4) ev_step_refl [OF inv rng] by (simp add: evictS_def)
  next
    case 2
    let ?e = "?e0\<lparr>ev_gh := snd (gh_Insert (ev_gh e) (fingerprintOf key))\<rparr>"
    have "ev_step e m ?e m" using e0 [OF rng] by (simp add: ev_step_def ev_inv_def ev_SCapacity_def ev_MCapacity_def)
    moreover have "ev_handles e = ev_handles ?e + mset [h]" using pop(3) [OF 2(1)] by (simp add: ev_handles_def)
    ultimately show ?thesis using that [of "[h]" ?e m] p 2 by (simp add: evictS_def)
  next
    case 3
    obtain m1 where m1: "ClearMetaBits m h QueueTagMask = Some m1" "quiet m m1" using ClearTag_quiet [OF rng] .
    note rng1 = quiet_rng [OF m1(2)]
    have hs: "ev_handles e = ev_handles ?e0 + {#h#}" using pop(3) [OF 3(1)] by (simp add: ev_handles_def)
    obtain b q1 where push: "rb_Push (ev_mq e) h = (b, q1)" by (metis surj_pair)
    note pu = rb_Push_cases [OF mq push]
    show ?thesis
    proof (cases b)
      case True
      obtain m2 where m2: "tagPushed m1 h QueueTagM = Some m2" "quiet m1 m2" using tagPushed_quiet [OF rng1] by blast
      let ?e = "?e0\<lparr>ev_mq := q1\<rparr>"
      have "ev_step e m ?e m2"
        using pop(1,2) pu(1,2) quiet_trans [OF m1(2) m2(2)]
        by (simp add: ev_step_def ev_inv_def ev_SCapacity_def ev_MCapacity_def rb_Capacity_def)
      moreover have "ev_handles e = ev_handles ?e + mset []" using hs pu(4) [OF True] by (simp add: ev_handles_def)
      ultimately show ?thesis using that [of "[]" ?e m2] p 3 m1(1) m2(1) push True by (simp add: evictS_def)
    next
      case False
      have "ev_inv ?e0" using e0 [OF rng] by (simp add: ev_step_def)
      from evictM_ok [OF this rng1] obtain out e1 m2 where
        m2: "evictM ?e0 m1 = Some (out, e1, m2)" "ev_step ?e0 m1 e1 m2" "ev_handles ?e0 = ev_handles e1 + mset out" by metis
      note rng2 = ev_step_rng [OF m2(2)]
      have q1: "?e0\<lparr>ev_mq := q1\<rparr> = ?e0" using pu(5) [OF False] by simp
      obtain b2 q2 where push2: "rb_Push (ev_mq e1) h = (b2, q2)" by (metis surj_pair)
      have mq1: "rb_inv (ev_mq e1)" "rb_inv (ev_sq e1)" using m2(2) by (auto simp: ev_step_def ev_inv_def)
      note pu2 = rb_Push_cases [OF mq1(1) push2]
      let ?e = "e1\<lparr>ev_mq := q2\<rparr>"
      have st: "ev_step e m ?e m3" if "quiet m2 m3" for m3
        using m2(2) e0 [OF rng] mq1(2) pu2(1,2) quiet_trans [OF m1(2) quiet_trans [of m1 m2 m3]] that
        by (auto simp: ev_step_def ev_inv_def ev_SCapacity_def ev_MCapacity_def rb_Capacity_def)
      show ?thesis
      proof (cases b2)
        case True
        obtain m3 where m3: "tagPushed m2 h QueueTagM = Some m3" "quiet m2 m3" using tagPushed_quiet [OF rng2] by blast
        have "ev_handles e = ev_handles ?e + mset out" using hs m2(3) pu2(4) [OF True] by (simp add: ev_handles_def)
        then show ?thesis using that [of out ?e m3] st [OF m3(2)] p 3 m1(1) m2(1) m3(1) push push2 False True q1
          by (simp add: evictS_def)
      next
        case nb2: False
        have "ev_handles e = ev_handles ?e + mset (out @ [h])"
          using hs m2(3) pu2(5) [OF nb2] by (simp add: ev_handles_def)
        then show ?thesis
          using that [of "out @ [h]" ?e "SetFreq m2 h 0"] st [OF SetFreq_quiet [OF rng2]] p 3 m1(1) m2(1) push push2 False nb2 q1
          by (simp add: evictS_def)
      qed
    qed
  qed
qed

section \<open>The operations of the policy\<close>

definition ev_target :: "Eviction \<Rightarrow> bytes \<Rightarrow> RingBuffer" where
  "ev_target e key = (if gh_Look (ev_gh e) (fingerprintOf key) then ev_mq e else ev_sq e)"

lemma ev_Add_ok:
  assumes inv: "ev_inv e" and rng: "mgr_rng m"
  obtains out e' m' where "ev_Add e m key h = Some (out, e', m')" "ev_step e m e' m'"
    "if rb_Full (ev_target e key) then ev_handles e = ev_handles e' + mset out
     else out = [] \<and> ev_handles e' = ev_handles e + {#h#}"
proof -
  have sq: "rb_inv (ev_sq e)" and mq: "rb_inv (ev_mq e)" using inv by (auto simp: ev_inv_def)
  have full: "rb_Full q \<longleftrightarrow> \<not> length (rb_content q) < unat (rb_cap q)" if "rb_inv q" for q
  proof -
    obtain k where k: "rb_shape k q" using \<open>rb_inv q\<close> by (auto simp: rb_inv_def)
    then have "unat (rb_cap q) = 2 ^ k" "rb_len q \<le> 2 ^ k" by (auto simp: rb_shape_def)
    then show ?thesis using rb_Full_iff [OF k] by auto
  qed
  define tag where "tag = (if gh_Look (ev_gh e) (fingerprintOf key) then QueueTagM else QueueTagS)"
  have "tag = QueueTagS \<or> tag = QueueTagM" by (simp add: tag_def)
  then obtain m1 where m1: "tagPushed m h tag = Some m1" "quiet m m1" using tagPushed_quiet [OF rng] by metis
  obtain b1 q1 where p1: "rb_Push (ev_mq e) h = (b1, q1)" by (metis surj_pair)
  obtain b2 q2 where p2: "rb_Push (ev_sq e) h = (b2, q2)" by (metis surj_pair)
  note pu1 = rb_Push_cases [OF mq p1] and pu2 = rb_Push_cases [OF sq p2]
  note sm = full [OF sq] full [OF mq] ev_target_def tag_def ev_Add_def
  consider "gh_Look (ev_gh e) (fingerprintOf key)" "b1" | "gh_Look (ev_gh e) (fingerprintOf key)" "\<not> b1"
    | "\<not> gh_Look (ev_gh e) (fingerprintOf key)" "b2" | "\<not> gh_Look (ev_gh e) (fingerprintOf key)" "\<not> b2" by blast
  then show ?thesis
  proof cases
    case 1
    have "ev_step e m (e\<lparr>ev_mq := q1\<rparr>) m1"
      using sq pu1(1,2) m1(2) by (simp add: ev_step_def ev_inv_def ev_SCapacity_def ev_MCapacity_def rb_Capacity_def)
    then show ?thesis
      using that [of "[]" "e\<lparr>ev_mq := q1\<rparr>" m1] 1 pu1(3) pu1(4) [OF 1(2)] p1 m1(1) by (simp add: sm ev_handles_def)
  next
    case 2
    have "e\<lparr>ev_mq := q1\<rparr> = e" using pu1(5) [OF 2(2)] by simp
    moreover obtain out e' m' where "evictM e m = Some (out, e', m')" "ev_step e m e' m'" "ev_handles e = ev_handles e' + mset out"
      using evictM_ok [OF inv rng] by metis
    ultimately show ?thesis using that [of out e' m'] 2 pu1(3) p1 by (simp add: sm)
  next
    case 3
    have "ev_step e m (e\<lparr>ev_sq := q2\<rparr>) m1"
      using mq pu2(1,2) m1(2) by (simp add: ev_step_def ev_inv_def ev_SCapacity_def ev_MCapacity_def rb_Capacity_def)
    then show ?thesis
      using that [of "[]" "e\<lparr>ev_sq := q2\<rparr>" m1] 3 pu2(3) pu2(4) [OF 3(2)] p2 m1(1) by (simp add: sm ev_handles_def)
  next
    case 4
    have "e\<lparr>ev_sq := q2\<rparr> = e" using pu2(5) [OF 4(2)] by simp
    moreover obtain out e' m' where "evictS e m key = Some (out, e', m')" "ev_step e m e' m'" "ev_handles e = ev_handles e' + mset out"
      using evictS_ok [OF inv rng] by metis
    ultimately show ?thesis using that [of out e' m'] 4 pu2(3) p2 by (simp add: sm)
  qed
qed

lemma ev_Touch_quiet: "mgr_rng m \<Longrightarrow> quiet m (ev_Touch e m h)"
  by (simp add: ev_Touch_def touchQueue_def Let_def quiet_refl IncFreq_quiet)

lemma ev_Delete_ok:
  assumes inv: "ev_inv e" and rng: "mgr_rng m"
  obtains e' m' where "ev_Delete e m key h = Some (e', m')" "ev_step e m e' m'" "ev_handles e' = ev_handles e"
proof -
  have sq: "rb_inv (ev_sq e)" and mq: "rb_inv (ev_mq e)" using inv by (auto simp: ev_inv_def)
  obtain m1 where m1: "ClearMetaBits m h QueueTagMask = Some m1" "quiet m m1" using ClearTag_quiet [OF rng] .
  obtain b1 q1 where p1: "rb_Remove (ev_sq e) h = (b1, q1)" by (metis surj_pair)
  obtain b2 q2 where p2: "rb_Remove (ev_mq e) h = (b2, q2)" by (metis surj_pair)
  note r1 = rb_Remove_cases [OF sq p1] and r2 = rb_Remove_cases [OF mq p2]
  show ?thesis
    using that [of "e\<lparr>ev_sq := q1, ev_gh := snd (gh_Remove (ev_gh e) (fingerprintOf key))\<rparr>" m1]
      that [of "e\<lparr>ev_mq := q2\<rparr>" m1] that [of e m] m1 p1 p2 r1 r2 sq mq quiet_refl [OF rng]
    by (cases b1; cases b2)
      (simp_all add: ev_Delete_def ev_step_def ev_inv_def ev_SCapacity_def ev_MCapacity_def rb_Capacity_def ev_handles_def)
qed

lemma ev_Remove_ok:
  assumes inv: "ev_inv e" and rng: "mgr_rng m"
  obtains e' m' where "ev_Remove e m h = Some (e', m')" "ev_step e m e' m'" "ev_handles e' = ev_handles e"
proof -
  have sq: "rb_inv (ev_sq e)" and mq: "rb_inv (ev_mq e)" using inv by (auto simp: ev_inv_def)
  obtain m1 where m1: "ClearMetaBits m h QueueTagMask = Some m1" "quiet m m1" using ClearTag_quiet [OF rng] .
  obtain b1 q1 where p1: "rb_Remove (ev_sq e) h = (b1, q1)" by (metis surj_pair)
  obtain b2 q2 where p2: "rb_Remove (ev_mq e) h = (b2, q2)" by (metis surj_pair)
  note r1 = rb_Remove_cases [OF sq p1] and r2 = rb_Remove_cases [OF mq p2]
  show ?thesis
    using that [of "e\<lparr>ev_sq := q1\<rparr>" m1] that [of "e\<lparr>ev_mq := q2\<rparr>" m1] that [of e m] m1 p1 p2 r1 r2 sq mq quiet_refl [OF rng]
    by (cases b1; cases b2)
      (simp_all add: ev_Remove_def ev_step_def ev_inv_def ev_SCapacity_def ev_MCapacity_def rb_Capacity_def ev_handles_def)
qed

text \<open>A fresh policy: empty queues, an empty ghost index, and room in S for a tenth of the capacity.\<close>

lemma ev_New_ok:
  assumes "capacity \<noteq> 0" "unat capacity \<le> 2 ^ 60"
  obtains e where "ev_New capacity = Some (Inr e)" "ev_inv e" "ev_handles e = {#}" "gh_inv (ev_gh e)" "gh_set (ev_gh e) = {}"
    "unat capacity div 10 \<le> unat (ev_SCapacity e)" "unat capacity \<le> unat (ev_SCapacity e) + unat (ev_MCapacity e)"
proof -
  define s0 where "s0 = capacity * smallPct div 100"
  define sCap where "sCap = (if s0 = 0 then 1 else s0)"
  define m0 where "m0 = capacity - sCap"
  define mCap where "mCap = (if m0 = 0 then 1 else m0)"
  have "unat (capacity * smallPct) = unat capacity * 10"
    using assms(2) by (simp add: smallPct_def unat_word_ariths)
  then have s0: "unat s0 = unat capacity div 10" by (simp add: s0_def unat_div)
  have cpos: "0 < unat capacity" using assms(1) by (simp add: unat_gt_0)
  have s: "unat sCap \<le> unat capacity" "unat capacity div 10 \<le> unat sCap"
    using s0 cpos by (auto simp: sCap_def unat_eq_0 [symmetric])
  have "unat m0 = unat capacity - unat sCap"
    unfolding m0_def using s(1) by (simp add: unat_sub word_le_nat_alt)
  then have mm: "unat mCap \<le> 2 ^ 63" "unat capacity \<le> unat sCap + unat mCap"
    using s(1) assms(2) by (auto simp: mCap_def unat_eq_0 [symmetric])
  have rb: "\<exists>rb. NewRingBuffer c = Some rb \<and> rb_inv rb \<and> rb_content rb = [] \<and> unat c \<le> unat (rb_cap rb)"
    if c: "unat c \<le> 2 ^ 63" for c
  proof -
    obtain k rb where *: "NewRingBuffer c = Some rb" "rb_shape k rb" "rb_content rb = []" "unat c \<le> 2 ^ k"
      using NewRingBuffer_ok [OF c] by metis
    moreover have "unat (rb_cap rb) = 2 ^ k" using *(2) by (simp add: rb_shape_def)
    ultimately show ?thesis by (auto simp: rb_inv_def)
  qed
  have "unat sCap \<le> 2 ^ 63" using s(1) assms(2) by simp
  from rb [OF this] obtain sq where sq: "NewRingBuffer sCap = Some sq" "rb_inv sq" "rb_content sq = []"
    "unat sCap \<le> unat (rb_cap sq)" by blast
  from rb [OF mm(1)] obtain mq where mq: "NewRingBuffer mCap = Some mq" "rb_inv mq" "rb_content mq = []"
    "unat mCap \<le> unat (rb_cap mq)" by blast
  from NewGhostIndex_ok [OF mm(1)] obtain g where g: "NewGhostIndex mCap = Some g" "gh_inv g" "gh_set g = {}" by auto
  have "ev_New capacity = do { sq \<leftarrow> NewRingBuffer sCap; mq \<leftarrow> NewRingBuffer mCap; gh \<leftarrow> NewGhostIndex mCap;
      Some (Inr \<lparr>ev_sq = sq, ev_mq = mq, ev_gh = gh\<rparr>) }"
    unfolding ev_New_def Let_def mCap_def m0_def sCap_def s0_def using assms(1) by (simp only: if_False)
  then have "ev_New capacity = Some (Inr \<lparr>ev_sq = sq, ev_mq = mq, ev_gh = g\<rparr>)" using sq(1) mq(1) g(1) by simp
  then show ?thesis
    using that [of "\<lparr>ev_sq = sq, ev_mq = mq, ev_gh = g\<rparr>"] sq mq g s mm
    by (simp add: ev_inv_def ev_handles_def ev_SCapacity_def ev_MCapacity_def rb_Capacity_def)
qed

section \<open>Frequencies run out\<close>

lemma GetFreq_SetFreq:
  assumes rng: "mgr_rng m" and c: "metaCell m h \<noteq> None"
  shows "GetFreq (SetFreq m h f) x = (if same_cell x h then f AND 3 else GetFreq m x)"
proof -
  obtain c where c: "metaCell m h = Some c" using assms(2) by blast
  note cm = metaCell_GetMeta [OF rng c]
  have "(ucast (GetMeta m h) AND NOT freqMask) OR (ucast f AND freqMask) =
      ucast ((GetMeta m h AND NOT 3) OR (f AND 3))"
    unfolding freqMask_ucast ucast_or16 ucast_andnot16 by (simp only: ucast_and16)
  then have e: "SetFreq m h f = setCell m h (ucast ((GetMeta m h AND NOT 3) OR (f AND 3)))"
    using c cm by (simp only: SetFreq_def option.case)
  show ?thesis
    unfolding GetFreq_meta e GetMeta_setCell [OF c] by (simp only: if_distrib [of "\<lambda>w. w AND 3"] ucast_low16 merge_bits)
qed

lemma GetFreq_lt: "unat (GetFreq m h) < 4"
  unfolding GetFreq_meta by (simp add: and_3_mod)

definition freqSum :: "Manager \<Rightarrow> Handle list \<Rightarrow> nat" where
  "freqSum m hs = sum_list (map (\<lambda>h. unat (GetFreq m h)) hs)"

lemma freqSum_le: "freqSum m hs \<le> 3 * length hs"
proof (induction hs)
  case (Cons h hs)
  then show ?case using GetFreq_lt [of m h] by (simp add: freqSum_def)
qed (simp add: freqSum_def)

lemma freqSum_decr:
  assumes rng: "mgr_rng m" and f: "GetFreq m h \<ge> 1" and h: "h \<in> set hs"
  shows "freqSum (SetFreq m h (GetFreq m h - 1)) hs < freqSum m hs"
proof -
  let ?m = "SetFreq m h (GetFreq m h - 1)"
  have c: "metaCell m h \<noteq> None" using f by (cases "metaCell m h") (auto simp: GetFreq_def)
  have pos: "1 \<le> unat (GetFreq m h)" using f by (simp add: word_le_nat_alt)
  then have u: "unat (GetFreq m h - 1) = unat (GetFreq m h) - 1" by (simp add: unat_sub word_le_nat_alt)
  have "unat ((GetFreq m h - 1) AND 3) = unat (GetFreq m h) - 1"
    using GetFreq_lt [of m h] u by (simp add: and_3_mod)
  then have g: "unat (GetFreq ?m x) = (if same_cell x h then unat (GetFreq m h) - 1 else unat (GetFreq m x))" for x
    using GetFreq_SetFreq [OF rng c] by simp
  have same: "GetFreq m x = GetFreq m h" if "same_cell x h" for x using metaCell_same [OF that, of m] by (simp add: GetFreq_def)
  have le: "unat (GetFreq ?m x) \<le> unat (GetFreq m x)" for x using g [of x] same [of x] by auto
  have lt: "unat (GetFreq ?m h) < unat (GetFreq m h)" using g [of h] pos by (simp add: same_cell_def)
  show ?thesis
    using h
  proof (induction hs)
    case (Cons x hs)
    have rest: "freqSum ?m hs \<le> freqSum m hs" unfolding freqSum_def using le by (intro sum_list_mono) simp
    show ?case
    proof (cases "h \<in> set hs")
      case True
      then show ?thesis using Cons.IH le [of x] by (simp add: freqSum_def)
    next
      case False
      then show ?thesis using Cons.prems lt rest by (simp add: freqSum_def)
    qed
  qed simp
qed

text \<open>Consecutive calls of \<^verbatim>\<open>evictM\<close> until one of them reports a handle.\<close>

fun evictM_until :: "nat \<Rightarrow> Eviction \<Rightarrow> Manager \<Rightarrow> (Handle list \<times> Eviction \<times> Manager) option" where
  "evictM_until 0 e m = None"
| "evictM_until (Suc n) e m =
    (case evictM e m of
       None \<Rightarrow> None
     | Some (out, e', m') \<Rightarrow> if out \<noteq> [] then Some (out, e', m') else evictM_until n e' m')"

lemma evictM_progress:
  assumes "ev_inv e" "mgr_rng m" "rb_content (ev_mq e) \<noteq> []" "freqSum m (rb_content (ev_mq e)) < n"
  shows "\<exists>h e' m'. evictM_until n e m = Some ([h], e', m') \<and> h \<in> set (rb_content (ev_mq e))"
  using assms
proof (induction n arbitrary: e m)
  case (Suc n)
  obtain h ok q where p: "rb_Pop (ev_mq e) = ((h, ok), q)" by (metis surj_pair)
  have mq: "rb_inv (ev_mq e)" using Suc.prems(1) by (auto simp: ev_inv_def)
  note pop = rb_Pop_cases [OF mq p]
  have ok: ok using pop(4) Suc.prems(3) by blast
  note c = pop(3) [OF ok]
  show ?case
  proof (cases "GetFreq m h \<ge> 1")
    case True
    obtain b q2 where push: "rb_Push q h = (b, q2)" by (metis surj_pair)
    note pu = rb_Push_cases [OF pop(1) push]
    have b: "b" using rb_room [OF mq] c pop(2) pu(3) by simp
    let ?e = "e\<lparr>ev_mq := q2\<rparr>" and ?m = "SetFreq m h (GetFreq m h - 1)"
    have run: "evictM e m = Some ([], ?e, ?m)" using p ok push True by (simp add: evictM_def)
    obtain out e' m' where s: "evictM e m = Some (out, e', m')" "ev_step e m e' m'" using evictM_ok [OF Suc.prems(1,2)] .
    have inv: "ev_inv ?e" "mgr_rng ?m" using s run ev_step_rng by (auto simp: ev_step_def)
    have c2: "rb_content (ev_mq ?e) = rb_content q @ [h]" using pu(4) [OF b] by simp
    have "freqSum ?m (h # rb_content q) < freqSum m (h # rb_content q)"
      by (rule freqSum_decr [OF Suc.prems(2) True]) simp
    then have "freqSum ?m (rb_content (ev_mq ?e)) < n" using Suc.prems(4) c c2 by (simp add: freqSum_def)
    from Suc.IH [OF inv _ this] show ?thesis using run c c2 by auto
  next
    case False
    obtain m' where "ClearMetaBits m h QueueTagMask = Some m'" using ClearTag_quiet [OF Suc.prems(2)] by metis
    then show ?thesis using p ok False c by (simp add: evictM_def)
  qed
qed simp

section \<open>Properties\<close>



text \<open>
  C34. The main queue never stays stuck: among \<open>3 n + 1\<close> consecutive overflow calls \<^verbatim>\<open>evictM\<close> on a main
  queue of \<open>n > 0\<close> handles, one evicts a handle of that queue, because every call that reinserts a
  handle takes one from a frequency that is at most three.
\<close>

theorem S3FIFO_evictM_progress:
  assumes "ev_inv e" "mgr_rng m" "rb_content (ev_mq e) \<noteq> []"
  shows "\<exists>h e' m'. evictM_until (3 * length (rb_content (ev_mq e)) + 1) e m = Some ([h], e', m') \<and>
    h \<in> set (rb_content (ev_mq e))"
proof -
  have "freqSum m (rb_content (ev_mq e)) < 3 * length (rb_content (ev_mq e)) + 1"
    using freqSum_le [of m "rb_content (ev_mq e)"] by (simp only: less_Suc_eq_le Suc_eq_plus1 [symmetric])
  then show ?thesis by (rule evictM_progress [OF assms])
qed

theorem S3FIFO_evictM_progress_witness:
  "\<exists>e. rb_content (ev_mq e) = [wh1] \<and> (\<exists>h e' m'. evictM_until 4 e wm1 = Some ([h], e', m') \<and> h = wh1)"
proof -
  obtain e where e: "ev_inv e" "ev_handles e = {#}" using ev_New_ok [of 10] by auto
  obtain b q where p: "rb_Push (ev_mq e) wh1 = (b, q)" by (metis surj_pair)
  have mq: "rb_inv (ev_mq e)" using e(1) by (simp add: ev_inv_def)
  have c: "rb_content (ev_mq e) = []" using e(2) by (simp add: ev_handles_def)
  have b: "b" using rb_Push_cases(3) [OF mq p] c rb_cap_pos [OF mq] by simp
  let ?e = "e\<lparr>ev_mq := q\<rparr>"
  have q: "rb_content (ev_mq ?e) = [wh1]" using rb_Push_cases(4) [OF mq p b] c by simp
  have "ev_inv ?e" using e(1) rb_Push_cases(1) [OF mq p] by (simp add: ev_inv_def)
  from S3FIFO_evictM_progress [OF this mgr_inv_rng(1) [OF wm1_inv]] q
  have "\<exists>h e' m'. evictM_until (3 * length [wh1] + 1) ?e wm1 = Some ([h], e', m') \<and> h \<in> set [wh1]"
    by (metis list.discI)
  then show ?thesis using q by (intro exI [of _ ?e]) (auto simp: eval_nat_numeral simp del: evictM_until.simps)
qed

end
