(* ===== verification/Shard_Index.thy ===== *)
theory Shard_Index
  imports Linear_Probing Arena "HOL-Library.Monad_Syntax"
begin

text \<open>
  \<^verbatim>\<open>shardIndex\<close> of \<^verbatim>\<open>internal/transport/transport.go\<close>: the key-to-handle table of one shard, over three
  parallel arrays.  A key slot is \<open>None\<close> where the source has a nil slice; \<^verbatim>\<open>put\<close> stores a copy made with
  \<^verbatim>\<open>make\<close>, which is never nil, so a stored key is \<open>Some\<close> of its bytes.

  The abstraction \<open>si_map\<close> reads the arrays as a finite map from keys to (handle, expiry); the theorems say
  that under the invariant every operation returns and acts on that map as its name says.
\<close>

section \<open>Definitions\<close>

record shardIndex =
  si_keys :: "bytes option list"
  si_handles :: "Handle list"
  si_expiresAt :: "u32 list"
  si_count :: int
  si_mask :: u64
  si_scanCursor :: u64

definition hashKey :: "bytes \<Rightarrow> u64" where
  "hashKey key = foldl (\<lambda>h b. (h XOR ucast b) * 1099511628211) 14695981039346656037 key"

definition makeIndex :: "nat \<Rightarrow> u64 \<Rightarrow> shardIndex" where
  "makeIndex n msk = \<lparr>si_keys = replicate n None, si_handles = replicate n zeroHandle,
     si_expiresAt = replicate n 0, si_count = 0, si_mask = msk, si_scanCursor = 0\<rparr>"

definition newShardIndex :: shardIndex where
  "newShardIndex = makeIndex 64 63"

text \<open>The two exits of the probe loops: a nil key, or the key itself.\<close>

definition si_hit :: "shardIndex \<Rightarrow> bytes \<Rightarrow> nat \<Rightarrow> bool" where
  "si_hit s key i \<longleftrightarrow> (case si_keys s ! i of None \<Rightarrow> True | Some k \<Rightarrow> bytesEq k key)"

definition si_probe :: "shardIndex \<Rightarrow> bytes \<Rightarrow> u64 option" where
  "si_probe s key = probe (si_hit s key) (si_mask s) (hashKey key AND si_mask s)"

definition si_insert :: "shardIndex \<Rightarrow> bytes \<Rightarrow> Handle \<Rightarrow> u32 \<Rightarrow> ((Handle \<times> bool) \<times> shardIndex) option" where
  "si_insert s key h expires = do {
     w \<leftarrow> si_probe s key;
     let i = unat w;
     case si_keys s ! i of
       None \<Rightarrow> Some ((zeroHandle, False),
         s\<lparr>si_keys := (si_keys s)[i := Some key], si_handles := (si_handles s)[i := h],
           si_expiresAt := (si_expiresAt s)[i := expires], si_count := si_count s + 1\<rparr>)
     | Some _ \<Rightarrow> Some ((si_handles s ! i, True),
         s\<lparr>si_handles := (si_handles s)[i := h], si_expiresAt := (si_expiresAt s)[i := expires]\<rparr>) }"

text \<open>
  \<^verbatim>\<open>put\<close> and \<^verbatim>\<open>grow\<close> call each other: \<open>si_growWith\<close> takes the \<^verbatim>\<open>put\<close> it calls, and \<open>si_putN\<close> counts how deep the
  calls may nest.  Two levels are enough: the \<^verbatim>\<open>put\<close> inside \<^verbatim>\<open>grow\<close> works on a table twice the size and
  never grows again (lemma \<open>si_grow_ok\<close>).
\<close>

fun si_rehash ::
  "(shardIndex \<Rightarrow> bytes \<Rightarrow> Handle \<Rightarrow> u32 \<Rightarrow> ((Handle \<times> bool) \<times> shardIndex) option) \<Rightarrow>
   shardIndex \<Rightarrow> shardIndex \<Rightarrow> nat list \<Rightarrow> shardIndex option" where
  "si_rehash putf old s [] = Some s"
| "si_rehash putf old s (i # is) =
    (case si_keys old ! i of
       None \<Rightarrow> si_rehash putf old s is
     | Some k \<Rightarrow> do {
         (_, s') \<leftarrow> putf s k (si_handles old ! i) (si_expiresAt old ! i);
         si_rehash putf old s' is })"

definition si_growWith ::
  "(shardIndex \<Rightarrow> bytes \<Rightarrow> Handle \<Rightarrow> u32 \<Rightarrow> ((Handle \<times> bool) \<times> shardIndex) option) \<Rightarrow>
   shardIndex \<Rightarrow> shardIndex option" where
  "si_growWith putf s =
    (let nc = of_nat (length (si_keys s)) * 2 :: u64
     in si_rehash putf s (makeIndex (unat nc) (nc - 1)) [0..<length (si_keys s)])"

fun si_putN :: "nat \<Rightarrow> shardIndex \<Rightarrow> bytes \<Rightarrow> Handle \<Rightarrow> u32 \<Rightarrow> ((Handle \<times> bool) \<times> shardIndex) option" where
  "si_putN 0 s key h expires = None"
| "si_putN (Suc d) s key h expires = do {
     s1 \<leftarrow> if si_count s * 4 \<ge> int (length (si_keys s)) * 3 then si_growWith (si_putN d) s else Some s;
     si_insert s1 key h expires }"

definition si_put :: "shardIndex \<Rightarrow> bytes \<Rightarrow> Handle \<Rightarrow> u32 \<Rightarrow> ((Handle \<times> bool) \<times> shardIndex) option" where
  "si_put = si_putN 2"

definition si_get :: "shardIndex \<Rightarrow> bytes \<Rightarrow> u32 \<Rightarrow> (Handle \<times> bool \<times> u32) option" where
  "si_get s key now =
    (if si_count s = 0 then Some (zeroHandle, False, 0)
     else do {
       w \<leftarrow> si_probe s key;
       let i = unat w;
       case si_keys s ! i of
         None \<Rightarrow> Some (zeroHandle, False, 0)
       | Some _ \<Rightarrow>
           if si_expiresAt s ! i \<noteq> 0 \<and> now \<ge> si_expiresAt s ! i then Some (zeroHandle, False, 0)
           else Some (si_handles s ! i, True, si_expiresAt s ! i) })"

definition si_clear :: "shardIndex \<Rightarrow> nat \<Rightarrow> shardIndex" where
  "si_clear s i = s\<lparr>si_keys := (si_keys s)[i := None], si_handles := (si_handles s)[i := zeroHandle],
     si_expiresAt := (si_expiresAt s)[i := 0]\<rparr>"

definition si_move :: "shardIndex \<Rightarrow> nat \<Rightarrow> nat \<Rightarrow> shardIndex" where
  "si_move s gap cur = si_clear (s\<lparr>si_keys := (si_keys s)[gap := si_keys s ! cur],
     si_handles := (si_handles s)[gap := si_handles s ! cur],
     si_expiresAt := (si_expiresAt s)[gap := si_expiresAt s ! cur]\<rparr>) cur"

definition si_hashAt :: "shardIndex \<Rightarrow> nat \<Rightarrow> u64 option" where
  "si_hashAt s i = map_option hashKey (si_keys s ! i)"

definition si_deleteAt :: "shardIndex \<Rightarrow> u64 \<Rightarrow> shardIndex option" where
  "si_deleteAt s i =
    backshift si_hashAt si_move (si_mask s) ((si_clear s (unat i))\<lparr>si_count := si_count s - 1\<rparr>)
      i ((i + 1) AND si_mask s)"

definition si_delete :: "shardIndex \<Rightarrow> bytes \<Rightarrow> ((Handle \<times> bool) \<times> shardIndex) option" where
  "si_delete s key =
    (if si_count s = 0 then Some ((zeroHandle, False), s)
     else do {
       i \<leftarrow> si_probe s key;
       case si_keys s ! unat i of
         None \<Rightarrow> Some ((zeroHandle, False), s)
       | Some _ \<Rightarrow> do { s' \<leftarrow> si_deleteAt s i; Some ((si_handles s ! unat i, True), s') } })"

definition expired :: "u32 \<Rightarrow> u32 \<Rightarrow> bool" where
  "expired now e \<longleftrightarrow> e \<noteq> 0 \<and> now \<ge> e"

fun si_expireLoop :: "nat \<Rightarrow> u32 \<Rightarrow> shardIndex \<Rightarrow> Handle list \<Rightarrow> (Handle list \<times> shardIndex) option" where
  "si_expireLoop 0 now s freed = Some (freed, s)"
| "si_expireLoop (Suc n) now s freed =
    (let idx = si_scanCursor s; s1 = s\<lparr>si_scanCursor := (idx + 1) AND si_mask s\<rparr> in
     case si_keys s1 ! unat idx of
       None \<Rightarrow> si_expireLoop n now s1 freed
     | Some _ \<Rightarrow>
         if expired now (si_expiresAt s1 ! unat idx)
         then do { s2 \<leftarrow> si_deleteAt s1 idx; si_expireLoop n now s2 (freed @ [si_handles s1 ! unat idx]) }
         else si_expireLoop n now s1 freed)"

definition si_DeleteExpired :: "shardIndex \<Rightarrow> u32 \<Rightarrow> int \<Rightarrow> (Handle list \<times> shardIndex) option" where
  "si_DeleteExpired s now limit =
    (if si_count s = 0 \<or> limit \<le> 0 then Some ([], s) else si_expireLoop (nat limit) now s [])"

text \<open>What \<^verbatim>\<open>scanPrefix\<close> collects: the slots below the table's end, one index at a time.\<close>

definition si_wanted :: "shardIndex \<Rightarrow> bytes \<Rightarrow> u32 \<Rightarrow> nat \<Rightarrow> bytes option" where
  "si_wanted s prefix now i =
    (case si_keys s ! i of
       None \<Rightarrow> None
     | Some k \<Rightarrow>
         if si_expiresAt s ! i = 0 \<or> now < si_expiresAt s ! i
         then if length prefix = 0 \<or> bytesHasPrefix k prefix then Some k else None
         else None)"

function si_scanLoop :: "shardIndex \<Rightarrow> bytes \<Rightarrow> int \<Rightarrow> u32 \<Rightarrow> nat \<Rightarrow> bytes list \<Rightarrow> bytes list \<times> u64" where
  "si_scanLoop s prefix limit now idx results =
    (if idx < length (si_keys s)
     then case si_wanted s prefix now idx of
       None \<Rightarrow> si_scanLoop s prefix limit now (idx + 1) results
     | Some k \<Rightarrow>
         if int (length (results @ [k])) \<ge> limit
         then (results @ [k], if idx + 1 \<ge> length (si_keys s) then 0 else of_nat (idx + 1))
         else si_scanLoop s prefix limit now (idx + 1) (results @ [k])
     else (results, 0))"
  by auto
termination by (relation "measure (\<lambda>(s, _, _, _, idx, _). length (si_keys s) - idx)") auto

declare si_scanLoop.simps [simp del]

definition si_scanPrefix :: "shardIndex \<Rightarrow> bytes \<Rightarrow> u64 \<Rightarrow> int \<Rightarrow> u32 \<Rightarrow> bytes list \<times> u64" where
  "si_scanPrefix s prefix cursor limit now =
    (if si_count s = 0 \<or> limit \<le> 0 then ([], 0)
     else if unat cursor \<ge> length (si_keys s) then ([], 0)
     else si_scanLoop s prefix limit now (unat cursor) [])"

partial_function (option) si_prefixLoop ::
  "bytes \<Rightarrow> nat \<Rightarrow> shardIndex \<Rightarrow> nat \<Rightarrow> Handle list \<Rightarrow> bytes list \<Rightarrow> ((Handle list \<times> bytes list) \<times> shardIndex) option" where
  "si_prefixLoop prefix cp s idx freed deletedKeys =
    (if idx < cp
     then case si_keys s ! idx of
       None \<Rightarrow> si_prefixLoop prefix cp s (idx + 1) freed deletedKeys
     | Some k \<Rightarrow>
         if length prefix = 0 \<or> bytesHasPrefix k prefix
         then do {
           s' \<leftarrow> si_deleteAt s (of_nat idx);
           si_prefixLoop prefix cp s' idx (freed @ [si_handles s ! idx]) (deletedKeys @ [k]) }
         else si_prefixLoop prefix cp s (idx + 1) freed deletedKeys
     else Some ((freed, deletedKeys), s))"

declare si_prefixLoop.simps [code]

definition si_deletePrefix :: "shardIndex \<Rightarrow> bytes \<Rightarrow> ((Handle list \<times> bytes list) \<times> shardIndex) option" where
  "si_deletePrefix s prefix =
    (if si_count s = 0 then Some (([], []), s)
     else si_prefixLoop prefix (length (si_keys s)) s 0 [] [])"

subsection \<open>Contract\<close>

definition si_slots :: "shardIndex \<Rightarrow> (bytes, Handle \<times> u32) slots" where
  "si_slots s = map (\<lambda>i. map_option (\<lambda>k. (k, si_handles s ! i, si_expiresAt s ! i)) (si_keys s ! i))
     [0..<length (si_keys s)]"

definition si_map :: "shardIndex \<Rightarrow> bytes \<Rightarrow> (Handle \<times> u32) option" where
  "si_map s = tab (si_slots s)"

definition si_shape :: "shardIndex \<Rightarrow> bool" where
  "si_shape s \<longleftrightarrow> length (si_handles s) = length (si_keys s) \<and> length (si_expiresAt s) = length (si_keys s)"

definition si_home :: "u64 \<Rightarrow> bytes \<Rightarrow> nat" where
  "si_home msk k = unat (hashKey k AND msk)"

text \<open>
  The invariant: a power-of-two size, equal array lengths, the slots a well-formed probing table that
  is at most three quarters full.
\<close>

definition si_table :: "nat \<Rightarrow> shardIndex \<Rightarrow> bool" where
  "si_table j s \<longleftrightarrow> 2 \<le> j \<and> j < 63 \<and> length (si_keys s) = 2 ^ j \<and> unat (si_mask s) = 2 ^ j - 1 \<and> si_shape s \<and>
     lp_wf (si_home (si_mask s)) (si_slots s) \<and> si_count s = int (length (ents (si_slots s))) \<and>
     unat (si_scanCursor s) < 2 ^ j"

definition si_inv :: "shardIndex \<Rightarrow> bool" where
  "si_inv s \<longleftrightarrow> (\<exists>j. si_table j s) \<and> 4 * si_count s \<le> 3 * int (length (si_keys s))"

section \<open>Slots of the arrays\<close>

lemma length_si_slots [simp]: "length (si_slots s) = length (si_keys s)"
  by (simp add: si_slots_def)

lemma nth_si_slots:
  "i < length (si_keys s) \<Longrightarrow>
   si_slots s ! i = map_option (\<lambda>k. (k, si_handles s ! i, si_expiresAt s ! i)) (si_keys s ! i)"
  by (simp add: si_slots_def)

lemma si_slots_clear:
  assumes "si_shape s" "g < length (si_keys s)"
  shows "si_slots (si_clear s g) = (si_slots s)[g := None]"
  using assms by (intro nth_equalityI) (auto simp: nth_si_slots si_clear_def nth_list_update si_shape_def)

lemma si_slots_move:
  assumes "si_shape s" "g < length (si_keys s)" "c < length (si_keys s)" "g \<noteq> c"
  shows "si_slots (si_move s g c) = (si_slots s)[g := si_slots s ! c, c := None]"
  using assms
  by (intro nth_equalityI) (auto simp: nth_si_slots si_move_def si_clear_def nth_list_update si_shape_def)

lemma si_slots_insert:
  assumes "si_shape s" "i < length (si_keys s)"
  shows "si_slots (s\<lparr>si_keys := (si_keys s)[i := Some key], si_handles := (si_handles s)[i := h],
           si_expiresAt := (si_expiresAt s)[i := e], si_count := c\<rparr>) = (si_slots s)[i := Some (key, h, e)]"
  using assms by (intro nth_equalityI) (auto simp: nth_si_slots nth_list_update si_shape_def)

lemma si_slots_update:
  assumes "si_shape s" "i < length (si_keys s)" "si_keys s ! i = Some key"
  shows "si_slots (s\<lparr>si_handles := (si_handles s)[i := h], si_expiresAt := (si_expiresAt s)[i := e]\<rparr>)
    = (si_slots s)[i := Some (key, h, e)]"
  using assms by (intro nth_equalityI) (auto simp: nth_si_slots nth_list_update si_shape_def)

lemma si_slots_simps [simp]:
  "si_slots (s\<lparr>si_count := c\<rparr>) = si_slots s" "si_slots (s\<lparr>si_scanCursor := w\<rparr>) = si_slots s"
  by (simp_all add: si_slots_def)

interpretation si: open_table si_slots si_shape "\<lambda>s. (si_count s, si_mask s, si_scanCursor s)" hashKey
  si_hashAt si_move si_clear
proof
  fix s :: shardIndex and i g c :: nat
  show "si_hashAt s i = map_option (\<lambda>x. hashKey (fst x)) (si_slots s ! i)"
    if "si_shape s" "i < length (si_slots s)"
    using that by (simp add: si_hashAt_def nth_si_slots option.map_comp comp_def)
  show "si_slots (si_move s g c) = (si_slots s)[g := si_slots s ! c, c := None] \<and> si_shape (si_move s g c) \<and>
      (si_count (si_move s g c), si_mask (si_move s g c), si_scanCursor (si_move s g c)) =
      (si_count s, si_mask s, si_scanCursor s)"
    if "si_shape s" "g < length (si_slots s)" "c < length (si_slots s)" "g \<noteq> c" "si_slots s ! c \<noteq> None"
    using that si_slots_move [of s g c] by (simp add: si_shape_def si_move_def si_clear_def)
  show "si_slots (si_clear s g) = (si_slots s)[g := None] \<and> si_shape (si_clear s g) \<and>
      (si_count (si_clear s g), si_mask (si_clear s g), si_scanCursor (si_clear s g)) =
      (si_count s, si_mask s, si_scanCursor s)"
    if "si_shape s" "g < length (si_slots s)"
    using that si_slots_clear [of s g] by (simp add: si_shape_def si_clear_def)
qed

section \<open>Probing\<close>

lemma si_tableD:
  assumes "si_table j s"
  shows "length (si_keys s) = 2 ^ j" "unat (si_mask s) = 2 ^ j - 1" "j < 64" "si_shape s"
    "lp_wf (si_home (si_mask s)) (si_slots s)" "si_count s = int (length (ents (si_slots s)))"
  using assms by (auto simp: si_table_def)

lemma si_probe_found:
  assumes t: "si_table j s" and free: "length (ents (si_slots s)) < length (si_keys s)"
  obtains i where "si_probe s key = Some i" "unat i < length (si_keys s)"
    "found (si_home (si_mask s)) (si_slots s) key (unat i)"
proof -
  note d = si_tableD [OF t]
  obtain z where z: "z < length (si_slots s)" "si_slots s ! z = None"
    using free by (auto intro: nil_exists [of "si_slots s"])
  have hit: "si_hit s key p \<longleftrightarrow> (case si_slots s ! p of None \<Rightarrow> True | Some (k', v) \<Rightarrow> k' = key)"
    if "p < length (si_slots s)" for p
    using that by (simp add: si_hit_def nth_si_slots split: option.splits)
  have len: "length (si_slots s) = 2 ^ j" using d(1) by simp
  have start: "unat (hashKey key AND si_mask s) = si_home (si_mask s) key" by (simp add: si_home_def)
  from probe_found [OF d(5) len d(3,2) z start hit] that show thesis
    unfolding si_probe_def by auto
qed

lemma si_found_key:
  assumes "found home (si_slots s) key i" "si_keys s ! i = Some k"
  shows "k = key" "si_map s key = Some (si_handles s ! i, si_expiresAt s ! i)"
  using assms by (auto simp: found_def nth_si_slots si_map_def)

lemma si_found_nil:
  assumes "found home (si_slots s) key i" "si_keys s ! i = None"
  shows "si_map s key = None" "si_slots s ! i = None"
  using assms by (auto simp: found_def nth_si_slots si_map_def)

section \<open>Insertion, growth, lookup, deletion\<close>

definition si_old :: "shardIndex \<Rightarrow> bytes \<Rightarrow> Handle \<times> bool" where
  "si_old s key = (case si_map s key of None \<Rightarrow> (zeroHandle, False) | Some (h, _) \<Rightarrow> (h, True))"

lemma si_insert_ok:
  assumes t: "si_table j s" and free: "length (ents (si_slots s)) < length (si_keys s)"
  shows "\<exists>s'. si_insert s key h e = Some (si_old s key, s') \<and> si_table j s' \<and>
    si_map s' = (si_map s)(key \<mapsto> (h, e)) \<and> si_count s' \<le> si_count s + 1"
proof -
  note d = si_tableD [OF t]
  obtain w where w: "si_probe s key = Some w" "unat w < length (si_keys s)"
    "found (si_home (si_mask s)) (si_slots s) key (unat w)"
    using si_probe_found [OF t free] by blast
  let ?i = "unat w"
  have sc: "unat (si_scanCursor s) < 2 ^ j" "2 \<le> j" "j < 63" using t by (auto simp: si_table_def)
  show ?thesis
  proof (cases "si_keys s ! ?i")
    case None
    let ?s = "s\<lparr>si_keys := (si_keys s)[?i := Some key], si_handles := (si_handles s)[?i := h],
           si_expiresAt := (si_expiresAt s)[?i := e], si_count := si_count s + 1\<rparr>"
    note nil = si_found_nil [OF w(3) None] and sl = si_slots_insert [OF d(4) w(2)]
    note ins = lp_insert [OF d(5) w(3) nil(2), of "(h, e)"]
    have "si_insert s key h e = Some (si_old s key, ?s)"
      using w None nil(1) by (simp add: si_insert_def si_old_def Let_def)
    moreover have "si_table j ?s" "si_map ?s = (si_map s)(key \<mapsto> (h, e))"
      using ins d sc unfolding si_table_def si_map_def sl by (simp_all add: si_shape_def)
    ultimately show ?thesis by auto
  next
    case (Some k)
    let ?s = "s\<lparr>si_handles := (si_handles s)[?i := h], si_expiresAt := (si_expiresAt s)[?i := e]\<rparr>"
    note fk = si_found_key [OF w(3) Some]
    have e0: "si_slots s ! ?i = Some (key, si_handles s ! ?i, si_expiresAt s ! ?i)"
      using Some fk(1) w(2) by (simp add: nth_si_slots)
    note sl = si_slots_update [OF d(4) w(2) Some [unfolded fk(1)]]
    have w2: "?i < length (si_slots s)" using w(2) by simp
    note up = lp_update [OF d(5) w2 e0, of "(h, e)"]
    have "si_insert s key h e = Some (si_old s key, ?s)"
      using w Some fk(2) by (simp add: si_insert_def si_old_def Let_def)
    moreover have "si_table j ?s" "si_map ?s = (si_map s)(key \<mapsto> (h, e))"
      using up d sc unfolding si_table_def si_map_def sl by (simp_all add: si_shape_def)
    ultimately show ?thesis by auto
  qed
qed

lemma ents_replicate [simp]: "ents (replicate n None) = []"
  by (induction n) auto

lemma si_slots_make: "si_slots (makeIndex n msk) = replicate n None"
  by (intro nth_equalityI) (auto simp: nth_si_slots makeIndex_def)

lemma si_table_make:
  assumes "2 \<le> j" "j < 63" "unat msk = 2 ^ j - 1"
  shows "si_table j (makeIndex (2 ^ j) msk)" "si_map (makeIndex (2 ^ j) msk) = Map.empty"
proof -
  have "si_home msk k < 2 ^ j" for k
    using and_mask_mod [OF assms(3)] by (simp add: si_home_def)
  then have "lp_wf (si_home msk) (replicate (2 ^ j) None :: (bytes, Handle \<times> u32) slots)"
    by (simp add: lp_wf_def path_ok_def ukeys_def)
  then show "si_table j (makeIndex (2 ^ j) msk)"
    using assms unfolding si_table_def si_slots_make by (simp add: makeIndex_def si_shape_def)
  show "si_map (makeIndex (2 ^ j) msk) = Map.empty"
    unfolding si_map_def si_slots_make by (auto simp: tab_def)
qed

declare si_putN.simps [simp del]

text \<open>Rehashing some of the old slots into a table with room for them never grows that table.\<close>

lemma si_rehash_ok:
  assumes "si_table j s" "\<forall>i \<in> set is. i < length (si_keys old)"
    and "4 * (si_count s + int (length is)) < 3 * int (length (si_keys s)) + 4"
    and "distinct is" and "ukeys (si_slots old)"
  shows "\<exists>s'. si_rehash (si_putN (Suc d)) old s is = Some s' \<and> si_table j s' \<and>
    si_count s' \<le> si_count s + int (length is) \<and>
    (\<forall>k v. si_map s' k = Some v \<longleftrightarrow> (\<exists>i \<in> set is. si_slots old ! i = Some (k, v)) \<or>
       (si_map s k = Some v \<and> (\<forall>i \<in> set is. \<forall>w. si_slots old ! i \<noteq> Some (k, w))))"
  using assms
proof (induction "is" arbitrary: s)
  case Nil
  then show ?case by simp
next
  case (Cons i "is")
  have i: "i < length (si_keys old)" using Cons.prems(2) by simp
  have len: "length (si_keys s) = 2 ^ j" using Cons.prems(1) by (simp add: si_table_def)
  have cnt: "si_count s = int (length (ents (si_slots s)))" using Cons.prems(1) by (simp add: si_table_def)
  have tl: "\<forall>i \<in> set is. i < length (si_keys old)" and dis: "distinct is" using Cons.prems(2,4) by simp_all
  show ?case
  proof (cases "si_keys old ! i")
    case None
    have nil: "si_slots old ! i = None" using None i by (simp add: nth_si_slots)
    have room: "4 * (si_count s + int (length is)) < 3 * int (length (si_keys s)) + 4"
      using Cons.prems(3) by simp
    obtain s' where s': "si_rehash (si_putN (Suc d)) old s is = Some s'" "si_table j s'"
      "si_count s' \<le> si_count s + int (length is)"
      "\<forall>k v. si_map s' k = Some v \<longleftrightarrow> (\<exists>i \<in> set is. si_slots old ! i = Some (k, v)) \<or>
         (si_map s k = Some v \<and> (\<forall>i \<in> set is. \<forall>w. si_slots old ! i \<noteq> Some (k, w)))"
      using Cons.IH [OF Cons.prems(1) tl room dis Cons.prems(5)] by blast
    then show ?thesis using None nil by (intro exI [of _ s']) simp
  next
    case (Some k)
    let ?v = "(si_handles old ! i, si_expiresAt old ! i)"
    have si: "si_slots old ! i = Some (k, ?v)" using Some i by (simp add: nth_si_slots)
    have nog: "\<not> si_count s * 4 \<ge> int (length (si_keys s)) * 3" using Cons.prems(3) by simp
    then have free: "length (ents (si_slots s)) < length (si_keys s)" using cnt by simp
    obtain s1 where s1: "si_insert s k (si_handles old ! i) (si_expiresAt old ! i) = Some (si_old s k, s1)"
      "si_table j s1" "si_map s1 = (si_map s)(k \<mapsto> ?v)" "si_count s1 \<le> si_count s + 1"
      using si_insert_ok [OF Cons.prems(1) free] by blast
    have len1: "length (si_keys s1) = length (si_keys s)" using s1(2) len by (simp add: si_table_def)
    have room: "4 * (si_count s1 + int (length is)) < 3 * int (length (si_keys s1)) + 4"
      using Cons.prems(3) s1(4) len1 by simp
    obtain s2 where s2: "si_rehash (si_putN (Suc d)) old s1 is = Some s2" "si_table j s2"
      "si_count s2 \<le> si_count s1 + int (length is)"
      "\<forall>k v. si_map s2 k = Some v \<longleftrightarrow> (\<exists>i \<in> set is. si_slots old ! i = Some (k, v)) \<or>
         (si_map s1 k = Some v \<and> (\<forall>i \<in> set is. \<forall>w. si_slots old ! i \<noteq> Some (k, w)))"
      using Cons.IH [OF s1(2) tl room dis Cons.prems(5)] by blast
    have uniq: "si_slots old ! i' \<noteq> Some (k, w)" if "i' \<in> set is" for i' w
    proof
      assume "si_slots old ! i' = Some (k, w)"
      then have "i' = i" using Cons.prems(2,5) si i that unfolding ukeys_def by (metis length_si_slots list.set_intros(2))
      then show False using Cons.prems(4) that by simp
    qed
    have "si_map s2 k' = Some v \<longleftrightarrow> (\<exists>i' \<in> set (i # is). si_slots old ! i' = Some (k', v)) \<or>
       (si_map s k' = Some v \<and> (\<forall>i' \<in> set (i # is). \<forall>w. si_slots old ! i' \<noteq> Some (k', w)))" for k' v
    proof (cases "k' = k")
      case True
      then show ?thesis using s2(4) [rule_format, of k v] s1(3) si uniq by auto
    next
      case False
      then show ?thesis using s2(4) [rule_format, of k' v] s1(3) si by auto
    qed
    moreover have "si_putN (Suc d) s k (si_handles old ! i) (si_expiresAt old ! i) = Some (si_old s k, s1)"
      using s1(1) nog by (simp add: si_putN.simps)
    then have "si_rehash (si_putN (Suc d)) old s (i # is) = Some s2" using Some s2(1) by simp
    moreover have "si_count s2 \<le> si_count s + int (length (i # is))" using s2(3) s1(4) by simp
    ultimately show ?thesis using s2(2) by blast
  qed
qed

lemma grow_size:
  assumes "n = 2 ^ j" "j < 62"
  shows "unat (of_nat n * 2 :: u64) = 2 ^ Suc j" "unat (of_nat n * 2 - 1 :: u64) = 2 ^ Suc j - 1"
proof -
  have "(2 :: nat) ^ j < 2 ^ 62" using assms(2) by (intro power_strict_increasing) simp_all
  then have n: "n < 4611686018427387904" using assms(1) by simp
  then have "unat (of_nat n :: u64) = n" by (intro unat_of_nat_u64) linarith
  then show nc: "unat (of_nat n * 2 :: u64) = 2 ^ Suc j" using n assms(1) by (simp add: unat_word_ariths)
  then have "(of_nat n * 2 :: u64) \<noteq> 0" by auto
  then show "unat (of_nat n * 2 - 1 :: u64) = 2 ^ Suc j - 1" using nc by (simp add: unat_minus_one)
qed

lemma si_grow_ok:
  assumes t: "si_table j s" and j: "j < 62" and c: "si_count s \<le> int (length (si_keys s))"
  shows "\<exists>s'. si_growWith (si_putN (Suc d)) s = Some s' \<and> si_table (Suc j) s' \<and> si_map s' = si_map s \<and>
    si_count s' \<le> int (length (si_keys s))"
proof -
  note dd = si_tableD [OF t]
  let ?n = "length (si_keys s)" and ?nc = "of_nat (length (si_keys s)) * 2 :: u64"
  note nc = grow_size(1) [OF dd(1) j] and msk = grow_size(2) [OF dd(1) j]
  let ?s0 = "makeIndex (unat ?nc) (?nc - 1)"
  have j2: "2 \<le> Suc j" "Suc j < 63" using t j by (auto simp: si_table_def)
  note mk = si_table_make [OF j2 msk]
  have s0: "si_table (Suc j) ?s0" "si_map ?s0 = Map.empty" "si_count ?s0 = 0"
    "length (si_keys ?s0) = 2 * ?n"
    using mk nc dd(1) by (simp_all add: makeIndex_def)
  have uk: "ukeys (si_slots s)" using dd(5) by (simp add: lp_wf_def)
  have room: "4 * (si_count ?s0 + int (length [0..<?n])) < 3 * int (length (si_keys ?s0)) + 4"
    using s0(3,4) by simp
  obtain s' where s': "si_rehash (si_putN (Suc d)) s ?s0 [0..<?n] = Some s'" "si_table (Suc j) s'"
    "si_count s' \<le> si_count ?s0 + int (length [0..<?n])"
    "\<forall>k v. si_map s' k = Some v \<longleftrightarrow> (\<exists>i \<in> set [0..<?n]. si_slots s ! i = Some (k, v)) \<or>
       (si_map ?s0 k = Some v \<and> (\<forall>i \<in> set [0..<?n]. \<forall>w. si_slots s ! i \<noteq> Some (k, w)))"
    using si_rehash_ok [OF s0(1) _ room _ uk] by force
  have "si_map s' k = Some v \<longleftrightarrow> (\<exists>i < ?n. si_slots s ! i = Some (k, v))" for k v
    using s'(4) [rule_format, of k v] s0(2) by auto
  then have "si_map s' k = Some v \<longleftrightarrow> si_map s k = Some v" for k v
    using tab_Some [OF uk, of k v] by (simp add: si_map_def)
  then have "si_map s' = si_map s" by (intro ext) (metis not_None_eq)
  then show ?thesis using s' s0(3) by (auto simp: si_growWith_def Let_def)
qed

text \<open>Fewer than \<open>2 ^ 62\<close> slots, so that the size can double once more: no slice of the program is that long.\<close>

definition si_room :: "shardIndex \<Rightarrow> bool" where
  "si_room s \<longleftrightarrow> length (si_keys s) < 4611686018427387904"

lemma si_invD:
  assumes "si_inv s"
  obtains j where "si_table j s" "2 \<le> j" "4 * si_count s \<le> 3 * int (length (si_keys s))"
    "length (ents (si_slots s)) < length (si_keys s)"
proof -
  obtain j where j: "si_table j s" "4 * si_count s \<le> 3 * int (length (si_keys s))"
    using assms by (auto simp: si_inv_def)
  have k: "0 < length (si_keys s)" "si_count s = int (length (ents (si_slots s)))" "2 \<le> j"
    using j(1) by (simp_all add: si_table_def)
  then have "length (ents (si_slots s)) < length (si_keys s)" using j(2) by linarith
  then show thesis using that j k(3) by blast
qed

lemma si_put_ok:
  assumes inv: "si_inv s" and room: "si_room s"
  shows "\<exists>s'. si_put s key h e = Some (si_old s key, s') \<and> si_inv s' \<and> si_map s' = (si_map s)(key \<mapsto> (h, e))"
proof -
  obtain j where j: "si_table j s" "2 \<le> j" "4 * si_count s \<le> 3 * int (length (si_keys s))"
    "length (ents (si_slots s)) < length (si_keys s)" using inv by (rule si_invD)
  have n: "length (si_keys s) = 2 ^ j" "si_count s = int (length (ents (si_slots s)))"
    using j(1) by (simp_all add: si_table_def)
  have four: "(2 :: int) ^ j = 4 * 2 ^ (j - 2)" using j(2) by (auto simp: le_iff_add power_add)
  have finish: "\<exists>s'. si_insert s1 key h e = Some (si_old s key, s') \<and> si_inv s' \<and> si_map s' = (si_map s)(key \<mapsto> (h, e))"
    if t1: "si_table k s1" "si_map s1 = si_map s" and c1: "4 * (si_count s1 + 1) \<le> 3 * int (length (si_keys s1))" for k s1
  proof -
    have "si_count s1 = int (length (ents (si_slots s1)))" using t1(1) by (simp add: si_table_def)
    moreover have "4 * (c + 1) \<le> 3 * n \<Longrightarrow> 0 \<le> c \<Longrightarrow> c < n" for c n :: int by simp
    ultimately have "int (length (ents (si_slots s1))) < int (length (si_keys s1))" using c1 by simp
    then have "length (ents (si_slots s1)) < length (si_keys s1)" by simp
    then obtain s' where s': "si_insert s1 key h e = Some (si_old s1 key, s')" "si_table k s'"
      "si_map s' = (si_map s1)(key \<mapsto> (h, e))" "si_count s' \<le> si_count s1 + 1"
      using si_insert_ok [OF t1(1)] by blast
    moreover have "length (si_keys s') = length (si_keys s1)" using s'(2) t1(1) by (simp add: si_table_def)
    ultimately show ?thesis using t1(2) c1 by (auto simp: si_inv_def si_old_def)
  qed
  show ?thesis
  proof (cases "si_count s * 4 \<ge> int (length (si_keys s)) * 3")
    case False
    have "4 * (si_count s + 1) \<le> 3 * int (length (si_keys s))" using False four n(1) by simp
    from finish [OF j(1) refl this] show ?thesis using False by (simp add: si_put_def numeral_2_eq_2 si_putN.simps)
  next
    case True
    have "(2 :: nat) ^ j < 2 ^ 62" using room n(1) by (simp add: si_room_def)
    then have j62: "j < 62" by (simp only: power_strict_increasing_iff)
    have le: "si_count s \<le> int (length (si_keys s))" using j(4) n(2) by simp
    obtain s1 where s1: "si_growWith (si_putN (Suc 0)) s = Some s1" "si_table (Suc j) s1" "si_map s1 = si_map s"
      "si_count s1 \<le> int (length (si_keys s))"
      using si_grow_ok [OF j(1) j62 le] by blast
    have len: "length (si_keys s1) = 2 * length (si_keys s)" using s1(2) n(1) by (simp add: si_table_def)
    define y :: int where "y = 2 ^ (j - 2)"
    have "1 \<le> y" "int (length (si_keys s)) = 4 * y" using four n(1) by (simp_all add: y_def)
    then have "4 * (si_count s1 + 1) \<le> 3 * int (length (si_keys s1))" using s1(4) len by simp
    from finish [OF s1(2,3) this] show ?thesis
      using True s1(1) by (simp add: si_put_def numeral_2_eq_2 si_putN.simps)
  qed
qed

text \<open>One put at most doubles the table.\<close>

lemma si_insert_size: "si_insert s key h e = Some (r, s') \<Longrightarrow> length (si_keys s') = length (si_keys s)"
  by (auto simp: si_insert_def Let_def bind_eq_Some_conv split: option.splits)

lemma si_put_size:
  assumes inv: "si_inv s" and room: "si_room s" and put: "si_put s key h e = Some (r, s')"
  shows "length (si_keys s') \<le> 2 * length (si_keys s)"
proof (cases "si_count s * 4 \<ge> int (length (si_keys s)) * 3")
  case False
  then have "si_insert s key h e = Some (r, s')" using put by (simp add: si_put_def numeral_2_eq_2 si_putN.simps)
  then show ?thesis using si_insert_size by fastforce
next
  case True
  obtain j where j: "si_table j s" "length (ents (si_slots s)) < length (si_keys s)" using inv by (rule si_invD)
  have n: "length (si_keys s) = 2 ^ j" "si_count s = int (length (ents (si_slots s)))"
    using j(1) by (simp_all add: si_table_def)
  have "(2 :: nat) ^ j < 2 ^ 62" using room n(1) by (simp add: si_room_def)
  then have j62: "j < 62" by (simp only: power_strict_increasing_iff)
  have le: "si_count s \<le> int (length (si_keys s))" using j(2) n(2) by simp
  obtain s1 where s1: "si_growWith (si_putN (Suc 0)) s = Some s1" "si_table (Suc j) s1"
    using si_grow_ok [OF j(1) j62 le] by blast
  have len: "length (si_keys s1) = 2 * length (si_keys s)" using s1(2) n(1) by (simp add: si_table_def)
  have "si_insert s1 key h e = Some (r, s')" using put True s1(1) by (simp add: si_put_def numeral_2_eq_2 si_putN.simps)
  then show ?thesis using si_insert_size len by fastforce
qed

lemma si_map_empty:
  assumes "si_table j s" "si_count s = 0" shows "si_map s = Map.empty"
  using assms by (simp add: si_table_def si_map_def tab_def)

lemma si_get_ok:
  assumes inv: "si_inv s"
  shows "si_get s key now = Some (case si_map s key of None \<Rightarrow> (zeroHandle, False, 0)
    | Some (h, e) \<Rightarrow> if expired now e then (zeroHandle, False, 0) else (h, True, e))"
proof -
  obtain j where j: "si_table j s" "length (ents (si_slots s)) < length (si_keys s)" using inv by (rule si_invD)
  show ?thesis
  proof (cases "si_count s = 0")
    case True
    then show ?thesis using si_map_empty [OF j(1)] by (simp add: si_get_def)
  next
    case False
    obtain w where w: "si_probe s key = Some w" "found (si_home (si_mask s)) (si_slots s) key (unat w)"
      using si_probe_found [OF j] by metis
    show ?thesis
    proof (cases "si_keys s ! unat w")
      case None
      then show ?thesis using False w si_found_nil [OF w(2)] by (simp add: si_get_def)
    next
      case (Some k)
      then show ?thesis using False w si_found_key [OF w(2) Some] by (simp add: si_get_def expired_def Let_def)
    qed
  qed
qed

lemma si_deleteAt_ok:
  assumes inv: "si_inv s" and i: "unat i < length (si_keys s)" "si_keys s ! unat i = Some k"
  shows "\<exists>s'. si_deleteAt s i = Some s' \<and> si_inv s' \<and> si_map s' = (si_map s)(k := None) \<and>
    length (si_keys s') = length (si_keys s) \<and> si_count s' = si_count s - 1 \<and> si_scanCursor s' = si_scanCursor s \<and>
    (\<forall>p < unat i. \<forall>k v. si_slots s' ! p = Some (k, v) \<longrightarrow> (\<exists>q < unat i. si_slots s ! q = Some (k, v)))"
proof -
  obtain j where j: "si_table j s" "4 * si_count s \<le> 3 * int (length (si_keys s))"
    "length (ents (si_slots s)) < length (si_keys s)" using inv by (rule si_invD)
  note d = si_tableD [OF j(1)]
  let ?s = "s\<lparr>si_count := si_count s - 1\<rparr>"
  obtain z where z: "z < length (si_slots ?s)" "si_slots ?s ! z = None"
    using j(3) by (auto intro: nil_exists [of "si_slots s"])
  have wf: "lp_wf (\<lambda>k. unat (hashKey k AND si_mask s)) (si_slots ?s)"
    using d(5) by (simp add: si_home_def [abs_def])
  have e: "unat i < length (si_slots ?s)" "si_slots ?s ! unat i = Some (k, si_handles s ! unat i, si_expiresAt s ! unat i)"
    using i by (simp_all add: nth_si_slots)
  have sh: "si_shape ?s" and len: "length (si_slots ?s) = 2 ^ j" using d by (simp_all add: si_shape_def)
  have cl: "si_clear ?s (unat i) = (si_clear s (unat i))\<lparr>si_count := si_count s - 1\<rparr>" by (simp add: si_clear_def)
  obtain s' where s': "si_deleteAt s i = Some s'" "si_shape s'"
    "(si_count s', si_mask s', si_scanCursor s') = (si_count s - 1, si_mask s, si_scanCursor s)"
    "lp_wf (si_home (si_mask s)) (si_slots s')"
    "length (si_slots s') = length (si_slots s)" "length (ents (si_slots s')) + 1 = length (ents (si_slots s))"
    "tab (si_slots s') = (tab (si_slots s))(k := None)"
    "\<forall>p < unat i. \<forall>x. si_slots s' ! p = Some x \<longrightarrow> (\<exists>q < unat i. si_slots s ! q = Some x)"
    using si.delete_returns [OF wf sh len d(3,2) z e] by (auto simp: si_deleteAt_def cl si_home_def [abs_def])
  have "si_table j s'" using s' j(1) by (auto simp: si_table_def)
  then have "si_inv s'" using s' j(2) by (auto simp: si_inv_def)
  then show ?thesis using s' by (auto simp: si_map_def)
qed

lemma si_delete_ok:
  assumes inv: "si_inv s"
  shows "\<exists>s'. si_delete s key = Some (si_old s key, s') \<and> si_inv s' \<and> si_map s' = (si_map s)(key := None)"
proof -
  obtain j where j: "si_table j s" "length (ents (si_slots s)) < length (si_keys s)" using inv by (rule si_invD)
  show ?thesis
  proof (cases "si_count s = 0")
    case True
    then show ?thesis using si_map_empty [OF j(1)] inv by (simp add: si_delete_def si_old_def)
  next
    case False
    obtain w where w: "si_probe s key = Some w" "unat w < length (si_keys s)"
      "found (si_home (si_mask s)) (si_slots s) key (unat w)"
      using si_probe_found [OF j] by metis
    show ?thesis
    proof (cases "si_keys s ! unat w")
      case None
      then show ?thesis
        using False w si_found_nil [OF w(3) None] inv by (simp add: si_delete_def si_old_def fun_upd_idem)
    next
      case (Some k)
      note fk = si_found_key [OF w(3) Some]
      obtain s' where "si_deleteAt s w = Some s'" "si_inv s'" "si_map s' = (si_map s)(key := None)"
        using si_deleteAt_ok [OF inv w(2) Some] fk(1) by blast
      then show ?thesis using False w Some fk by (simp add: si_delete_def si_old_def)
    qed
  qed
qed

section \<open>Expiry, prefix scans, prefix deletion\<close>

lemma si_inv_cursor:
  assumes "si_inv s"
  shows "unat (si_scanCursor s) < length (si_keys s)" "si_inv (s\<lparr>si_scanCursor := (si_scanCursor s + 1) AND si_mask s\<rparr>)"
proof -
  obtain j where j: "si_table j s" using assms by (auto simp: si_inv_def)
  note d = si_tableD [OF j]
  show "unat (si_scanCursor s) < length (si_keys s)" using j by (simp add: si_table_def)
  have "unat ((si_scanCursor s + 1) AND si_mask s) < 2 ^ j" using unat_next [OF d(2,3)] by simp
  then show "si_inv (s\<lparr>si_scanCursor := (si_scanCursor s + 1) AND si_mask s\<rparr>)"
    using assms j by (auto simp: si_inv_def si_table_def si_shape_def)
qed

lemma si_map_at:
  assumes "si_inv s" "i < length (si_keys s)" "si_keys s ! i = Some k"
  shows "si_map s k = Some (si_handles s ! i, si_expiresAt s ! i)"
proof -
  have uk: "ukeys (si_slots s)" using assms(1) by (auto simp: si_inv_def si_table_def lp_wf_def)
  have "si_slots s ! i = Some (k, si_handles s ! i, si_expiresAt s ! i)" using assms by (simp add: nth_si_slots)
  then show ?thesis unfolding si_map_def tab_Some [OF uk] using assms(2) by (intro exI [of _ i]) simp
qed

text \<open>Removing the keys \<open>ks\<close>, whose handles are returned in the same order.\<close>

definition removes :: "shardIndex \<Rightarrow> bytes list \<Rightarrow> Handle list \<Rightarrow> shardIndex \<Rightarrow> bool" where
  "removes s ks hs s' \<longleftrightarrow> distinct ks \<and> map (\<lambda>k. map_option fst (si_map s k)) ks = map Some hs \<and>
     si_map s' = si_map s |` (- set ks) \<and> si_inv s'"

lemma removes_Nil: "si_inv s \<Longrightarrow> removes s [] [] s"
  by (simp add: removes_def restrict_map_def)

lemma removes_Cons:
  assumes "si_map s k = Some (h, e)" "si_map s1 = (si_map s)(k := None)" "removes s1 ks hs s'"
  shows "removes s (k # ks) (h # hs) s'"
proof -
  have k: "k \<notin> set ks"
  proof
    assume "k \<in> set ks"
    then have "map_option fst (si_map s1 k) \<in> set (map Some hs)"
      using assms(3) unfolding removes_def by (metis (no_types, lifting) image_eqI image_set)
    then show False using assms(2) by auto
  qed
  have "map (\<lambda>k. map_option fst (si_map s k)) ks = map (\<lambda>k. map_option fst (si_map s1 k)) ks"
    using k assms(2) by (intro map_cong) auto
  then have "map (\<lambda>k. map_option fst (si_map s k)) ks = map Some hs" using assms(3) by (simp only: removes_def)
  moreover have "si_map s1 |` (- set ks) = si_map s |` (- set (k # ks))"
    using assms(2) by (auto simp: restrict_map_def fun_eq_iff)
  ultimately show ?thesis using assms(1,3) k by (simp add: removes_def)
qed

lemma si_expireLoop_ok:
  assumes "si_inv s"
  shows "\<exists>ks hs s'. si_expireLoop n now s freed = Some (freed @ hs, s') \<and> removes s ks hs s' \<and>
    (\<forall>k \<in> set ks. \<exists>h e. si_map s k = Some (h, e) \<and> expired now e)"
  using assms
proof (induction n arbitrary: s freed)
  case 0
  then show ?case using removes_Nil by (intro exI [of _ "[]"] exI [of _ s]) simp
next
  case (Suc n)
  let ?i = "unat (si_scanCursor s)" and ?s = "s\<lparr>si_scanCursor := (si_scanCursor s + 1) AND si_mask s\<rparr>"
  note c = si_inv_cursor [OF Suc.prems]
  have m: "si_map ?s = si_map s" by (simp add: si_map_def)
  have skip: ?case if "si_expireLoop (Suc n) now s freed = si_expireLoop n now ?s freed"
    using Suc.IH [OF c(2), of freed] that m by (simp add: removes_def)
  show ?case
  proof (cases "si_keys s ! ?i")
    case None
    then show ?thesis by (intro skip) (simp add: Let_def)
  next
    case (Some k)
    show ?thesis
    proof (cases "expired now (si_expiresAt s ! ?i)")
      case False
      then show ?thesis using Some by (intro skip) (simp add: Let_def)
    next
      case True
      note at = si_map_at [OF Suc.prems c(1) Some]
      obtain s2 where s2: "si_deleteAt ?s (si_scanCursor s) = Some s2" "si_inv s2" "si_map s2 = (si_map s)(k := None)"
        using si_deleteAt_ok [OF c(2), of "si_scanCursor s" k] c(1) Some m by auto
      obtain ks hs s' where r: "si_expireLoop n now s2 (freed @ [si_handles s ! ?i]) = Some ((freed @ [si_handles s ! ?i]) @ hs, s')"
        "removes s2 ks hs s'" "\<forall>k \<in> set ks. \<exists>h e. si_map s2 k = Some (h, e) \<and> expired now e"
        using Suc.IH [OF s2(2)] by blast
      have "si_expireLoop (Suc n) now s freed = Some (freed @ (si_handles s ! ?i # hs), s')"
        using Some True s2(1) r(1) by (simp add: Let_def)
      moreover have "removes s (k # ks) (si_handles s ! ?i # hs) s'"
        by (rule removes_Cons [OF at s2(3) r(2)])
      moreover have "\<forall>k \<in> set (k # ks). \<exists>h e. si_map s k = Some (h, e) \<and> expired now e"
        using r(3) at True s2(3) by (auto split: if_splits)
      ultimately show ?thesis by blast
    qed
  qed
qed

lemma si_prefixLoop_ok:
  assumes "si_inv s" "cp = length (si_keys s)" "idx \<le> cp"
    and "\<forall>p < idx. \<forall>k. si_keys s ! p = Some k \<longrightarrow> \<not> bytesHasPrefix k prefix"
  shows "\<exists>ks hs s'. si_prefixLoop prefix cp s idx freed dk = Some ((freed @ hs, dk @ ks), s') \<and> removes s ks hs s' \<and>
    (\<forall>k \<in> set ks. bytesHasPrefix k prefix) \<and> (\<forall>k. si_map s' k \<noteq> None \<longrightarrow> \<not> bytesHasPrefix k prefix)"
  using assms
proof (induction "nat (si_count s) + (cp - idx)" arbitrary: s idx freed dk rule: less_induct)
  case less
  have cnt: "si_count s = int (length (ents (si_slots s)))" and uk: "ukeys (si_slots s)"
    using less.prems(1) by (auto simp: si_inv_def si_table_def lp_wf_def)
  show ?case
  proof (cases "idx < cp")
    case False
    have "\<not> bytesHasPrefix k prefix" if "si_map s k \<noteq> None" for k
      using that less.prems False unfolding si_map_def by (auto simp: tab_None nth_si_slots)
    then show ?thesis
      using False removes_Nil [OF less.prems(1)]
      by (intro exI [of _ "[]"] exI [of _ s]) (simp add: si_prefixLoop.simps)
  next
    case True
    have skip: ?thesis if eq: "si_prefixLoop prefix cp s idx freed dk = si_prefixLoop prefix cp s (idx + 1) freed dk"
      and no: "\<forall>k. si_keys s ! idx = Some k \<longrightarrow> \<not> bytesHasPrefix k prefix"
      unfolding eq using less.prems no True by (intro less.hyps) (auto simp: less_Suc_eq)
    show ?thesis
    proof (cases "si_keys s ! idx")
      case None
      then show ?thesis using True by (intro skip) (simp_all add: si_prefixLoop.simps [of _ _ _ idx])
    next
      case (Some k)
      show ?thesis
      proof (cases "bytesHasPrefix k prefix")
        case False
        then have "prefix \<noteq> []" by auto
        then show ?thesis using True Some False by (intro skip) (simp_all add: si_prefixLoop.simps [of _ _ _ idx])
      next
        case pre: True
        have "idx < length (si_keys s)" using True less.prems(2) by simp
        note at = si_map_at [OF less.prems(1) this Some]
        have "length (si_keys s) < 18446744073709551616"
        proof -
          obtain j where "si_table j s" using less.prems(1) by (auto simp: si_inv_def)
          then have "length (si_keys s) = 2 ^ j" "j < 64" by (auto simp: si_table_def)
          then show ?thesis using power_strict_increasing [of j 64 "2 :: nat"] by simp
        qed
        then have w: "unat (of_nat idx :: u64) = idx"
          using True less.prems(2) by (intro unat_of_nat_u64) linarith
        obtain s2 where s2: "si_deleteAt s (of_nat idx) = Some s2" "si_inv s2" "si_map s2 = (si_map s)(k := None)"
          "length (si_keys s2) = length (si_keys s)" "si_count s2 = si_count s - 1"
          "\<forall>p < idx. \<forall>k v. si_slots s2 ! p = Some (k, v) \<longrightarrow> (\<exists>q < idx. si_slots s ! q = Some (k, v))"
          using si_deleteAt_ok [OF less.prems(1), of "of_nat idx" k] w True less.prems(2) Some by auto
        have low: "\<forall>p < idx. \<forall>k. si_keys s2 ! p = Some k \<longrightarrow> \<not> bytesHasPrefix k prefix"
        proof (intro allI impI)
          fix p k' assume p: "p < idx" "si_keys s2 ! p = Some k'"
          then have "\<exists>v. si_slots s2 ! p = Some (k', v)" using s2(4) True less.prems(2) by (simp add: nth_si_slots)
          then obtain q v where q: "q < idx" "si_slots s ! q = Some (k', v)" using s2(6) p(1) by blast
          then have "si_keys s ! q = Some k'" using True less.prems(2) by (auto simp: nth_si_slots)
          then show "\<not> bytesHasPrefix k' prefix" using less.prems(4) q(1) by blast
        qed
        have "0 < si_count s"
          using s2(5) s2(2) by (auto simp: si_inv_def si_table_def)
        then have dec: "nat (si_count s2) + (cp - idx) < nat (si_count s) + (cp - idx)" using s2(5) by simp
        obtain ks hs s' where r: "si_prefixLoop prefix cp s2 idx (freed @ [si_handles s ! idx]) (dk @ [k]) =
            Some (((freed @ [si_handles s ! idx]) @ hs, (dk @ [k]) @ ks), s')" "removes s2 ks hs s'"
          "\<forall>k \<in> set ks. bytesHasPrefix k prefix" "\<forall>k. si_map s' k \<noteq> None \<longrightarrow> \<not> bytesHasPrefix k prefix"
          using less.hyps [OF dec s2(2) _ less.prems(3) low] s2(4) less.prems(2) by metis
        have "si_prefixLoop prefix cp s idx freed dk = Some ((freed @ (si_handles s ! idx # hs), dk @ (k # ks)), s')"
          using True Some pre s2(1) r(1) by (simp add: si_prefixLoop.simps [of _ _ s])
        moreover have "removes s (k # ks) (si_handles s ! idx # hs) s'" by (rule removes_Cons [OF at s2(3) r(2)])
        ultimately show ?thesis using r(3,4) pre by (metis set_ConsD)
      qed
    qed
  qed
qed

text \<open>The keys a scan from slot \<open>idx\<close> is to report, in slot order.\<close>

definition si_matching :: "shardIndex \<Rightarrow> bytes \<Rightarrow> u32 \<Rightarrow> nat \<Rightarrow> bytes list" where
  "si_matching s prefix now idx = List.map_filter (si_wanted s prefix now) [idx..<length (si_keys s)]"

lemma si_matching_simps:
  "length (si_keys s) \<le> idx \<Longrightarrow> si_matching s prefix now idx = []"
  "idx < length (si_keys s) \<Longrightarrow> si_matching s prefix now idx =
    (case si_wanted s prefix now idx of None \<Rightarrow> [] | Some k \<Rightarrow> [k]) @ si_matching s prefix now (idx + 1)"
  by (simp_all add: si_matching_def upt_conv_Cons map_filter_simps split: option.splits)

lemma si_scanLoop_ok:
  assumes "length (si_keys s) < 18446744073709551616" "si_scanLoop s prefix limit now idx res = (ks, nx)"
  shows "ks @ (if nx = 0 then [] else si_matching s prefix now (unat nx)) = res @ si_matching s prefix now idx \<and>
    (nx \<noteq> 0 \<longrightarrow> idx < unat nx \<and> unat nx < length (si_keys s))"
  using assms
proof (induction s prefix limit now idx res arbitrary: ks nx rule: si_scanLoop.induct)
  case (1 s prefix limit now idx res)
  note small = "1.prems"(1) and run = "1.prems"(2)
  show ?case
  proof (cases "idx < length (si_keys s)")
    case False
    then show ?thesis using run by (simp add: si_scanLoop.simps [of s] si_matching_simps)
  next
    case True
    show ?thesis
    proof (cases "si_wanted s prefix now idx")
      case None
      then show ?thesis
        using "1.IH"(1) [OF True None, of ks nx] small run True
        by (auto simp: si_scanLoop.simps [of s _ _ _ idx] si_matching_simps(2) [of idx])
    next
      case (Some k)
      show ?thesis
      proof (cases "int (length (res @ [k])) \<ge> limit")
        case lim: True
        show ?thesis
        proof (cases "idx + 1 \<ge> length (si_keys s)")
          case e: True
          then show ?thesis
            using run True Some lim by (simp add: si_scanLoop.simps [of s _ _ _ idx] si_matching_simps)
        next
          case False
          then have "unat (of_nat (idx + 1) :: u64) = idx + 1" using small by (intro unat_of_nat_u64) linarith
          moreover from this have "(of_nat (idx + 1) :: u64) \<noteq> 0" by (metis Suc_eq_plus1 nat.distinct(1) unat_0)
          moreover have "ks = res @ [k]" "nx = of_nat (idx + 1)"
            using run True Some lim False by (simp_all add: si_scanLoop.simps [of s _ _ _ idx])
          ultimately show ?thesis using True Some False by (simp add: si_matching_simps(2) [of idx])
        qed
      next
        case False
        then show ?thesis
          using "1.IH"(2) [OF True Some False, of ks nx] small run True Some
          by (auto simp: si_scanLoop.simps [of s _ _ _ idx] si_matching_simps(2) [of idx])
      qed
    qed
  qed
qed

lemma si_inv_small: "si_inv s \<Longrightarrow> length (si_keys s) < 18446744073709551616"
proof -
  assume "si_inv s"
  then obtain j where "length (si_keys s) = 2 ^ j" "j < 64" by (auto simp: si_inv_def si_table_def)
  then show ?thesis using power_strict_increasing [of j 64 "2 :: nat"] by simp
qed

lemma si_matching_all:
  assumes inv: "si_inv s"
  shows "distinct (si_matching s prefix now 0)"
    and "set (si_matching s prefix now 0) =
      {k. \<exists>h e. si_map s k = Some (h, e) \<and> \<not> expired now e \<and> bytesHasPrefix k prefix}"
proof -
  have uk: "ukeys (si_slots s)" using inv by (auto simp: si_inv_def si_table_def lp_wf_def)
  have want: "si_wanted s prefix now i = Some k \<longleftrightarrow>
      (\<exists>h e. si_slots s ! i = Some (k, h, e) \<and> \<not> expired now e \<and> bytesHasPrefix k prefix)"
    if "i < length (si_keys s)" for i k
    using that by (auto simp: si_wanted_def nth_si_slots expired_def not_le split: option.splits)
  have inj: "i = i'" if "i < length (si_keys s)" "i' < length (si_keys s)"
    "si_wanted s prefix now i = Some k" "si_wanted s prefix now i' = Some k" for i i' k
    using that want [of i k] want [of i' k] uk unfolding ukeys_def by (metis length_si_slots)
  have "distinct (List.map_filter (si_wanted s prefix now) is)" if "distinct is" "set is \<subseteq> {0..<length (si_keys s)}" for "is"
    using that
  proof (induction "is")
    case (Cons i "is")
    show ?case
    proof (cases "si_wanted s prefix now i")
      case None
      then show ?thesis using Cons by simp
    next
      case (Some k)
      have "k \<notin> set (List.map_filter (si_wanted s prefix now) is)"
      proof
        assume "k \<in> set (List.map_filter (si_wanted s prefix now) is)"
        then obtain i' where "i' \<in> set is" "si_wanted s prefix now i' = Some k" by (auto simp: set_map_filter')
        then show False using inj [of i i' k] Some Cons.prems by auto
      qed
      then show ?thesis using Cons Some by simp
    qed
  qed (simp add: map_filter_simps)
  then show "distinct (si_matching s prefix now 0)" by (simp add: si_matching_def)
  show "set (si_matching s prefix now 0) =
      {k. \<exists>h e. si_map s k = Some (h, e) \<and> \<not> expired now e \<and> bytesHasPrefix k prefix}"
    (is "?L = ?R")
  proof (intro set_eqI)
    fix k
    have "k \<in> ?L \<longleftrightarrow> (\<exists>i < length (si_keys s). si_wanted s prefix now i = Some k)"
      by (auto simp: si_matching_def set_map_filter')
    also have "\<dots> \<longleftrightarrow> k \<in> ?R"
      unfolding si_map_def tab_Some [OF uk] mem_Collect_eq length_si_slots using want by blast
    finally show "k \<in> ?L \<longleftrightarrow> k \<in> ?R" .
  qed
qed

section \<open>Properties\<close>

interpretation si_kv: kv_table si_inv si_room si_map
  "\<lambda>s k v. map_option snd (si_put s k (fst v) (snd v))" "\<lambda>s k. map_option snd (si_delete s k)"
proof
  fix s :: shardIndex and k :: bytes and v :: "Handle \<times> u32"
  show "\<exists>s'. map_option snd (si_put s k (fst v) (snd v)) = Some s' \<and> si_inv s' \<and> si_map s' = (si_map s)(k \<mapsto> v)"
    if "si_inv s" "si_room s"
    using si_put_ok [OF that, of k "fst v" "snd v"] by auto
  show "\<exists>s'. map_option snd (si_delete s k) = Some s' \<and> si_inv s' \<and> si_map s' = (si_map s)(k := None)" if "si_inv s"
    using si_delete_ok [OF that, of k] by auto
qed

lemma newShardIndex_inv: "si_inv newShardIndex" "si_map newShardIndex = Map.empty" "si_room newShardIndex"
proof -
  have "si_table 6 (makeIndex (2 ^ 6) 63)" "si_map (makeIndex (2 ^ 6) 63) = Map.empty"
    by (rule si_table_make; simp)+
  then show "si_inv newShardIndex" "si_map newShardIndex = Map.empty" "si_room newShardIndex"
    by (auto simp: si_inv_def newShardIndex_def makeIndex_def si_room_def)
qed

text \<open>A table with one key, for the witnesses.\<close>

definition wsi :: shardIndex where
  "wsi = (case si_put newShardIndex [1, 2] wh1 7 of Some (_, s) \<Rightarrow> s | None \<Rightarrow> newShardIndex)"

lemma wsi_inv: "si_inv wsi" "si_map wsi = [[1, 2] \<mapsto> (wh1, 7)]"
proof -
  obtain s' where "si_put newShardIndex [1, 2] wh1 7 = Some (si_old newShardIndex [1, 2], s')" "si_inv s'"
    "si_map s' = [[1, 2] \<mapsto> (wh1, 7)]"
    using si_put_ok [OF newShardIndex_inv(1,3), of "[1, 2]" wh1 7] newShardIndex_inv(2) by auto
  then show "si_inv wsi" "si_map wsi = [[1, 2] \<mapsto> (wh1, 7)]" by (auto simp: wsi_def)
qed

text \<open>
  \<^verbatim>\<open>shardIndex.put\<close> always returns (its probe loop and the rehash of \<^verbatim>\<open>grow\<close> end), keeps the table
  well formed, changes the map of the table exactly at the key, and reports the handle it replaced.
\<close>

theorem shardIndex_put_updates:
  assumes "si_inv s" and "si_room s"
  shows "\<exists>s'. si_put s key h e = Some
      (case si_map s key of None \<Rightarrow> (zeroHandle, False) | Some (old, _) \<Rightarrow> (old, True), s') \<and>
    si_inv s' \<and> si_map s' = (si_map s)(key \<mapsto> (h, e))"
  using si_put_ok [OF assms] by (simp add: si_old_def)

theorem shardIndex_put_updates_witness:
  "\<exists>s'. si_put newShardIndex [1, 2] wh1 7 = Some ((zeroHandle, False), s') \<and> si_map s' = [[1, 2] \<mapsto> (wh1, 7)]"
  using shardIndex_put_updates [OF newShardIndex_inv(1,3), of "[1, 2]" wh1 7] newShardIndex_inv(2) by auto

text \<open>
  \<^verbatim>\<open>shardIndex.get\<close> always returns, and returns the handle and expiry stored for the key unless there
  is none or it has expired at \<^verbatim>\<open>now\<close>.
\<close>

theorem shardIndex_get_lookup:
  assumes "si_inv s"
  shows "si_get s key now = Some (case si_map s key of None \<Rightarrow> (zeroHandle, False, 0)
    | Some (h, e) \<Rightarrow> if e \<noteq> 0 \<and> now \<ge> e then (zeroHandle, False, 0) else (h, True, e))"
  using si_get_ok [OF assms, of key now] by (simp only: expired_def)

theorem shardIndex_get_lookup_witness:
  "si_get wsi [1, 2] 5 = Some (wh1, True, 7) \<and> si_get wsi [1, 2] 8 = Some (zeroHandle, False, 0)"
  using shardIndex_get_lookup [OF wsi_inv(1), of "[1, 2]" 5] shardIndex_get_lookup [OF wsi_inv(1), of "[1, 2]" 8]
    wsi_inv(2) by simp

text \<open>
  C18. \<^verbatim>\<open>shardIndex.delete\<close> with its backward shift always returns, removes exactly the key from the map
  of the table, and leaves every remaining key reachable by its probe path.
\<close>

theorem shardIndex_delete_removes:
  assumes "si_inv s"
  shows "\<exists>s'. si_delete s key = Some
      (case si_map s key of None \<Rightarrow> (zeroHandle, False) | Some (old, _) \<Rightarrow> (old, True), s') \<and>
    si_inv s' \<and> si_map s' = (si_map s)(key := None)"
  using si_delete_ok [OF assms] by (simp add: si_old_def)

theorem shardIndex_delete_removes_witness:
  "\<exists>s'. si_delete wsi [1, 2] = Some ((wh1, True), s') \<and> si_map s' = Map.empty"
  using shardIndex_delete_removes [OF wsi_inv(1), of "[1, 2]"] wsi_inv(2) by auto

text \<open>
  Any history of puts and deletes on a fresh \<^verbatim>\<open>shardIndex\<close> returns and leaves the table with
  exactly the map that the same history builds, unless a table of \<open>2 ^ 62\<close> slots was reached on the way.
\<close>

theorem shardIndex_history_refines_map:
  fixes ops :: "(bytes, Handle \<times> u32) kv_op list"
  shows "(\<exists>s'. kv_run (\<lambda>s k v. map_option snd (si_put s k (fst v) (snd v))) (\<lambda>s k. map_option snd (si_delete s k))
      ops newShardIndex = Some s' \<and> si_inv s' \<and> si_map s' = fold kv_step ops Map.empty) \<or>
    (\<exists>n s'. kv_run (\<lambda>s k v. map_option snd (si_put s k (fst v) (snd v))) (\<lambda>s k. map_option snd (si_delete s k))
      (take n ops) newShardIndex = Some s' \<and> 2 ^ 62 \<le> length (si_keys s'))"
  using si_kv.run_refines [OF newShardIndex_inv(1), of ops] newShardIndex_inv(2) by (simp add: si_room_def not_less)

text \<open>
  C22. \<^verbatim>\<open>shardIndex.DeleteExpired\<close> returns; the keys it removes had all expired at \<^verbatim>\<open>now\<close>, every other key
  keeps its entry, and the handles it returns are those of the removed keys, one each.
\<close>

theorem shardIndex_DeleteExpired_only_expired:
  assumes "si_inv s"
  shows "\<exists>ks freed s'. si_DeleteExpired s now limit = Some (freed, s') \<and> si_inv s' \<and> distinct ks \<and>
    si_map s' = si_map s |` (- set ks) \<and> map (\<lambda>k. map_option fst (si_map s k)) ks = map Some freed \<and>
    (\<forall>k \<in> set ks. \<exists>h e. si_map s k = Some (h, e) \<and> e \<noteq> 0 \<and> now \<ge> e)"
proof (cases "si_count s = 0 \<or> limit \<le> 0")
  case True
  then show ?thesis
    using assms by (intro exI [of _ "[]"] exI [of _ s]) (simp add: si_DeleteExpired_def restrict_map_def)
next
  case False
  obtain ks hs s' where "si_expireLoop (nat limit) now s [] = Some ([] @ hs, s')" "removes s ks hs s'"
    "\<forall>k \<in> set ks. \<exists>h e. si_map s k = Some (h, e) \<and> expired now e"
    using si_expireLoop_ok [OF assms] by blast
  then show ?thesis using False unfolding si_DeleteExpired_def removes_def expired_def by auto
qed

theorem shardIndex_DeleteExpired_only_expired_witness:
  "\<exists>freed s'. si_DeleteExpired wsi 3 64 = Some (freed, s') \<and> si_inv s' \<and> si_map s' [1, 2] = Some (wh1, 7)"
proof -
  obtain ks freed s' where r: "si_DeleteExpired wsi 3 64 = Some (freed, s')" "si_inv s'"
    "si_map s' = si_map wsi |` (- set ks)" "\<forall>k \<in> set ks. \<exists>h e. si_map wsi k = Some (h, e) \<and> e \<noteq> 0 \<and> 3 \<ge> e"
    using shardIndex_DeleteExpired_only_expired [OF wsi_inv(1), of 3 64] by blast
  then have "[1, 2] \<notin> set ks" using wsi_inv(2) by auto
  then show ?thesis using r wsi_inv(2) by (auto simp: restrict_map_def)
qed

text \<open>
  \<^verbatim>\<open>shardIndex.deletePrefix\<close> returns (although its loop does not advance after a deletion) and removes
  exactly the keys that start with the prefix, including those a backward shift moved while it ran; it
  returns each removed key once, with its handle.
\<close>

theorem shardIndex_deletePrefix_exact:
  assumes "si_inv s"
  shows "\<exists>freed ks s'. si_deletePrefix s prefix = Some ((freed, ks), s') \<and> si_inv s' \<and> distinct ks \<and>
    set ks = {k. si_map s k \<noteq> None \<and> bytesHasPrefix k prefix} \<and>
    map (\<lambda>k. map_option fst (si_map s k)) ks = map Some freed \<and>
    si_map s' = si_map s |` {k. \<not> bytesHasPrefix k prefix}"
proof (cases "si_count s = 0")
  case True
  obtain j where "si_table j s" using assms by (auto simp: si_inv_def)
  then show ?thesis
    using True assms si_map_empty [of j s] by (simp add: si_deletePrefix_def restrict_map_def)
next
  case False
  obtain ks hs s' where r: "si_prefixLoop prefix (length (si_keys s)) s 0 [] [] = Some (([] @ hs, [] @ ks), s')"
    "removes s ks hs s'" "\<forall>k \<in> set ks. bytesHasPrefix k prefix"
    "\<forall>k. si_map s' k \<noteq> None \<longrightarrow> \<not> bytesHasPrefix k prefix"
    using si_prefixLoop_ok [OF assms refl, of 0 prefix "[]" "[]"] by auto
  have keys: "k \<in> set ks \<longleftrightarrow> si_map s k \<noteq> None \<and> bytesHasPrefix k prefix" for k
  proof
    assume k: "k \<in> set ks"
    then have "map_option fst (si_map s k) \<in> set (map Some hs)"
      using r(2) unfolding removes_def by (metis (no_types, lifting) image_eqI image_set)
    then show "si_map s k \<noteq> None \<and> bytesHasPrefix k prefix" using r(3) k by auto
  next
    assume "si_map s k \<noteq> None \<and> bytesHasPrefix k prefix"
    then show "k \<in> set ks" using r(2) r(4) unfolding removes_def by (metis ComplI restrict_in)
  qed
  then have "si_map s |` (- set ks) = si_map s |` {k. \<not> bytesHasPrefix k prefix}"
    by (intro ext) (force simp: restrict_map_def)
  moreover have "si_deletePrefix s prefix = Some ((hs, ks), s')" using False r(1) by (simp add: si_deletePrefix_def)
  moreover have "set ks = {k. si_map s k \<noteq> None \<and> bytesHasPrefix k prefix}" using keys by blast
  ultimately show ?thesis using r(2) by (intro exI [of _ hs] exI [of _ ks] exI [of _ s']) (simp add: removes_def)
qed

theorem shardIndex_deletePrefix_exact_witness:
  "\<exists>freed ks s'. si_deletePrefix wsi [1] = Some ((freed, ks), s') \<and> set ks = {[1, 2]}"
proof -
  have "{k. si_map wsi k \<noteq> None \<and> bytesHasPrefix k [1]} = {[1, 2]}"
    using wsi_inv(2) by (auto simp: bytesHasPrefix_iff split: if_splits)
  then show ?thesis using shardIndex_deletePrefix_exact [OF wsi_inv(1), of "[1]"] by metis
qed

text \<open>
  A scan that follows the returned cursor until it is zero again, as a client does; the table does not
  change meanwhile.
\<close>

inductive scan_run :: "shardIndex \<Rightarrow> bytes \<Rightarrow> int \<Rightarrow> u32 \<Rightarrow> u64 \<Rightarrow> bytes list \<Rightarrow> bool" for s prefix limit now where
  last: "si_scanPrefix s prefix cursor limit now = (ks, 0) \<Longrightarrow> scan_run s prefix limit now cursor ks"
| more: "si_scanPrefix s prefix cursor limit now = (ks, nx) \<Longrightarrow> nx \<noteq> 0 \<Longrightarrow> scan_run s prefix limit now nx ks' \<Longrightarrow>
    scan_run s prefix limit now cursor (ks @ ks')"

lemma scan_run_matching:
  assumes "scan_run s prefix limit now cursor ks" "si_inv s" "0 < limit" "si_count s \<noteq> 0"
    "unat cursor < length (si_keys s)"
  shows "ks = si_matching s prefix now (unat cursor)"
  using assms
proof (induction rule: scan_run.induct)
  case (last cursor ks)
  then show ?case
    using si_scanLoop_ok [OF si_inv_small [OF last(2)], of prefix limit now "unat cursor" "[]" ks 0]
    by (simp add: si_scanPrefix_def)
next
  case (more cursor ks nx ks')
  then show ?case
    using si_scanLoop_ok [OF si_inv_small [OF more(5)], of prefix limit now "unat cursor" "[]" ks nx]
    by (simp add: si_scanPrefix_def)
qed

lemma scan_run_exists:
  assumes "si_inv s"
  shows "\<exists>ks. scan_run s prefix limit now cursor ks"
proof (induction "length (si_keys s) - unat cursor" arbitrary: cursor rule: less_induct)
  case less
  obtain ks nx where r: "si_scanPrefix s prefix cursor limit now = (ks, nx)" by force
  show ?case
  proof (cases "nx = 0")
    case True
    then show ?thesis using r scan_run.last by blast
  next
    case False
    then have "unat cursor < unat nx" "unat nx < length (si_keys s)"
      using r si_scanLoop_ok [OF si_inv_small [OF assms], of prefix limit now "unat cursor" "[]" ks nx]
      by (auto simp: si_scanPrefix_def split: if_splits)
    then have "\<exists>ks'. scan_run s prefix limit now nx ks'" by (intro less) simp
    then show ?thesis using r False scan_run.more by blast
  qed
qed

text \<open>
  A client that follows the cursors of \<^verbatim>\<open>shardIndex.scanPrefix\<close> from zero reaches the end, and has then
  seen every live key with the prefix exactly once and nothing else, whatever the page size.
\<close>

theorem shardIndex_scan_complete:
  assumes "si_inv s" and "0 < limit"
  shows "(\<exists>ks. scan_run s prefix limit now 0 ks) \<and>
    (\<forall>ks. scan_run s prefix limit now 0 ks \<longrightarrow> distinct ks \<and>
       set ks = {k. \<exists>h e. si_map s k = Some (h, e) \<and> \<not> expired now e \<and> bytesHasPrefix k prefix})"
proof -
  have "distinct ks \<and> set ks = {k. \<exists>h e. si_map s k = Some (h, e) \<and> \<not> expired now e \<and> bytesHasPrefix k prefix}"
    if run: "scan_run s prefix limit now 0 ks" for ks
  proof (cases "si_count s = 0")
    case True
    have "ks = []" using run True by (auto simp: si_scanPrefix_def elim: scan_run.cases)
    moreover obtain j where "si_table j s" using assms(1) by (auto simp: si_inv_def)
    ultimately show ?thesis using si_map_empty [of j s] True by simp
  next
    case False
    have "0 < length (si_keys s)" using assms(1) by (auto simp: si_inv_def si_table_def)
    then show ?thesis
      using scan_run_matching [OF run assms False] si_matching_all [OF assms(1)] by simp
  qed
  then show ?thesis using scan_run_exists [OF assms(1)] by blast
qed

theorem shardIndex_scan_complete_witness: "\<exists>ks. scan_run wsi [] 10 0 0 ks \<and> set ks = {[1, 2]}"
proof -
  have "{k. \<exists>h e. si_map wsi k = Some (h, e) \<and> \<not> expired 0 e \<and> bytesHasPrefix k []} = {[1, 2]}"
    using wsi_inv(2) by (auto simp: expired_def split: if_splits)
  then show ?thesis using shardIndex_scan_complete [OF wsi_inv(1), of 10 "[]" 0] by auto
qed

end
