(* ===== verification/Ds.thy ===== *)
theory Ds
  imports Horreum_Prelude "HOL-Library.AList"
begin

text \<open>
  \<^verbatim>\<open>internal/ds\<close>: lists, sets and hashes packed into one byte payload each, a 32-bit count followed by
  length-prefixed records.  The loops over records are the generic \<open>rec_collect\<close> and \<open>rec_find\<close> over the
  record parser of the format; a loop that meets a record cut short stops.  The bytes not yet parsed are
  a list, offsets are kept where the code uses them.

  The contract of each format is a relation between payloads and the lists, sets and maps they stand for.
  The operations implement it, with two exceptions stated as lemmas: \<^verbatim>\<open>RPush\<close> on an empty payload slices
  past the capacity of its buffer and panics (\<open>None\<close>), and \<^verbatim>\<open>HDel\<close> leaves the value bytes of the deleted
  field behind.
\<close>

section \<open>Definitions\<close>

subsection \<open>Record loops\<close>

type_synonym 'r rec_parser = "bytes \<Rightarrow> ('r \<times> bytes) option"

fun rec_collect :: "'r rec_parser \<Rightarrow> nat \<Rightarrow> bytes \<Rightarrow> 'r list" where
  "rec_collect p 0 bs = []"
| "rec_collect p (Suc n) bs = (case p bs of None \<Rightarrow> [] | Some (r, bs') \<Rightarrow> r # rec_collect p n bs')"

text \<open>The first record that satisfies \<open>P\<close>, with the offsets where it starts and ends.\<close>

fun rec_find :: "'r rec_parser \<Rightarrow> ('r \<Rightarrow> bool) \<Rightarrow> nat \<Rightarrow> bytes \<Rightarrow> nat \<Rightarrow> (nat \<times> nat \<times> 'r) option" where
  "rec_find p P 0 bs off = None"
| "rec_find p P (Suc n) bs off =
    (case p bs of
       None \<Rightarrow> None
     | Some (r, bs') \<Rightarrow>
         let fin = off + (length bs - length bs')
         in if P r then Some (off, fin, r) else rec_find p P n bs' fin)"

definition hdrCount :: "bytes \<Rightarrow> u32" where
  "hdrCount raw = get_u32 (take 4 raw)"

subsection \<open>Lists\<close>

definition l_rec :: "bytes rec_parser" where
  "l_rec bs =
    (if length bs < 4 then None
     else let n = unat (get_u32 (take 4 bs))
          in if length bs < 4 + n then None else Some (slice bs 4 (4 + n), drop (4 + n) bs))"

definition LLen :: "bytes \<Rightarrow> u32" where
  "LLen raw = (if length raw < 4 then 0 else hdrCount raw)"

definition LPush :: "bytes \<Rightarrow> bytes \<Rightarrow> bytes" where
  "LPush raw elem =
    (let count = (if length raw \<ge> 4 then hdrCount raw else 0);
         body = (if length raw \<ge> 4 then drop 4 raw else [])
     in put_u32 (count + 1) @ put_u32 (of_nat (length elem)) @ elem @ body)"

text \<open>
  \<^verbatim>\<open>newBuf := make([]byte, len(raw)+4+len(elem))\<close> has exactly that capacity, so the reslice
  \<^verbatim>\<open>newBuf[:4+4+len(elem)]\<close> of the short case is out of range.
\<close>

definition RPush :: "bytes \<Rightarrow> bytes \<Rightarrow> bytes option" where
  "RPush raw elem =
    (if length raw \<ge> 4
     then Some (put_u32 (hdrCount raw + 1) @ drop 4 raw @ put_u32 (of_nat (length elem)) @ elem)
     else if 4 + 4 + length elem \<le> length raw + 4 + length elem
     then Some (put_u32 1 @ put_u32 (of_nat (length elem)) @ elem)
     else None)"

definition LPop :: "bytes \<Rightarrow> bytes \<times> bytes \<times> bool" where
  "LPop raw =
    (if length raw < 8 \<or> hdrCount raw = 0 then (raw, [], False)
     else let firstLen = unat (get_u32 (slice raw 4 8))
          in if 8 + firstLen > length raw then (raw, [], False)
             else let popped = slice raw 8 (8 + firstLen)
                  in if hdrCount raw = 1 then ([], popped, True)
                     else (put_u32 (hdrCount raw - 1) @ drop (8 + firstLen) raw, popped, True))"

fun l_last :: "nat \<Rightarrow> bytes \<Rightarrow> nat \<Rightarrow> (nat \<times> bytes) option" where
  "l_last 0 bs off = None"
| "l_last (Suc n) bs off =
    (case l_rec bs of
       None \<Rightarrow> None
     | Some (x, bs') \<Rightarrow> if n = 0 then Some (off, x) else l_last n bs' (off + 4 + length x))"

definition RPop :: "bytes \<Rightarrow> bytes \<times> bytes \<times> bool" where
  "RPop raw =
    (if length raw < 8 \<or> hdrCount raw = 0 then (raw, [], False)
     else case l_last (unat (hdrCount raw)) (drop 4 raw) 4 of
            None \<Rightarrow> (raw, [], False)
          | Some (lastStartOff, popped) \<Rightarrow>
              if hdrCount raw = 1 then ([], popped, True)
              else (put_u32 (hdrCount raw - 1) @ slice raw 4 lastStartOff, popped, True))"

subsection \<open>Sets\<close>

definition s_rec :: "bytes rec_parser" where
  "s_rec bs =
    (if length bs < 2 then None
     else let n = unat (get_u16 (take 2 bs))
          in if length bs < 2 + n then None else Some (slice bs 2 (2 + n), drop (2 + n) bs))"

definition s_find :: "bytes \<Rightarrow> bytes \<Rightarrow> (nat \<times> nat \<times> bytes) option" where
  "s_find raw member = rec_find s_rec (\<lambda>m. m = member) (unat (hdrCount raw)) (drop 4 raw) 4"

definition SAdd :: "bytes \<Rightarrow> bytes \<Rightarrow> bytes \<times> bool" where
  "SAdd raw member =
    (if length raw < 4 then (put_u32 1 @ put_u16 (of_nat (length member)) @ member, True)
     else case s_find raw member of
            Some _ \<Rightarrow> (raw, False)
          | None \<Rightarrow> (put_u32 (hdrCount raw + 1) @ drop 4 raw @ put_u16 (of_nat (length member)) @ member, True))"

definition SRem :: "bytes \<Rightarrow> bytes \<Rightarrow> bytes \<times> bool" where
  "SRem raw member =
    (if length raw < 4 then (raw, False)
     else case s_find raw member of
            None \<Rightarrow> (raw, False)
          | Some (startMemOff, endMemOff, _) \<Rightarrow>
              if hdrCount raw = 1 then ([], True)
              else (put_u32 (hdrCount raw - 1) @ slice raw 4 startMemOff @ drop endMemOff raw, True))"

definition SIsMember :: "bytes \<Rightarrow> bytes \<Rightarrow> bool" where
  "SIsMember raw member = (if length raw < 4 then False else s_find raw member \<noteq> None)"

definition SMembers :: "bytes \<Rightarrow> bytes list" where
  "SMembers raw = (if length raw < 4 then [] else rec_collect s_rec (unat (hdrCount raw)) (drop 4 raw))"

subsection \<open>Hashes\<close>

definition h_rec :: "(bytes \<times> bytes) rec_parser" where
  "h_rec bs =
    (case s_rec bs of
       None \<Rightarrow> None
     | Some (f, bs') \<Rightarrow> (case l_rec bs' of None \<Rightarrow> None | Some (v, rest) \<Rightarrow> Some ((f, v), rest)))"

definition h_find :: "bytes \<Rightarrow> bytes \<Rightarrow> (nat \<times> nat \<times> bytes \<times> bytes) option" where
  "h_find raw field = rec_find h_rec (\<lambda>(f, v). f = field) (unat (hdrCount raw)) (drop 4 raw) 4"

definition h_entry :: "bytes \<Rightarrow> bytes \<Rightarrow> bytes" where
  "h_entry field val = put_u16 (of_nat (length field)) @ field @ put_u32 (of_nat (length val)) @ val"

text \<open>The value of a record that ends at \<open>fin\<close> starts at \<open>vOff = fin - vlen\<close>.\<close>

definition HSet :: "bytes \<Rightarrow> bytes \<Rightarrow> bytes \<Rightarrow> bytes \<times> bool" where
  "HSet raw field val =
    (if length raw < 4 then (put_u32 1 @ h_entry field val, True)
     else case h_find raw field of
            Some (_, fin, (_, v)) \<Rightarrow>
              let vOff = fin - length v
              in if length v = length val then (copy_at raw vOff val, False)
                 else (take (vOff - 4) raw @ put_u32 (of_nat (length val)) @ val @ drop fin raw, False)
          | None \<Rightarrow> (put_u32 (hdrCount raw + 1) @ drop 4 raw @ h_entry field val, True))"

definition HGet :: "bytes \<Rightarrow> bytes \<Rightarrow> bytes option" where
  "HGet raw field =
    (if length raw < 4 then None
     else case h_find raw field of None \<Rightarrow> None | Some (_, _, (_, v)) \<Rightarrow> Some v)"

definition HDel :: "bytes \<Rightarrow> bytes \<Rightarrow> bytes \<times> bool" where
  "HDel raw field =
    (if length raw < 4 then (raw, False)
     else case h_find raw field of
            None \<Rightarrow> (raw, False)
          | Some (startFieldOff, fin, (_, v)) \<Rightarrow>
              let endValOff = fin - length v
              in if hdrCount raw = 1 then ([], True)
                 else (put_u32 (hdrCount raw - 1) @ slice raw 4 startFieldOff @ drop endValOff raw, True))"

definition HGetAll :: "bytes \<Rightarrow> bytes list \<times> bytes list" where
  "HGetAll raw =
    (if length raw < 4 then ([], [])
     else let rs = rec_collect h_rec (unat (hdrCount raw)) (drop 4 raw) in (map fst rs, map snd rs))"

subsection \<open>Contract\<close>

definition payload :: "('r \<Rightarrow> bytes) \<Rightarrow> 'r list \<Rightarrow> bytes" where
  "payload enc rs = put_u32 (of_nat (length rs)) @ concat (map enc rs)"

text \<open>A payload stands for the records it encodes; no payload at all stands for no records.\<close>

definition reps :: "('r \<Rightarrow> bytes) \<Rightarrow> ('r \<Rightarrow> bool) \<Rightarrow> bytes \<Rightarrow> 'r list \<Rightarrow> bool" where
  "reps enc fits raw rs \<longleftrightarrow> (raw = payload enc rs \<or> raw = [] \<and> rs = []) \<and> (\<forall>r \<in> set rs. fits r) \<and> length rs < 4294967295"

definition l_enc :: "bytes \<Rightarrow> bytes" where "l_enc x = put_u32 (of_nat (length x)) @ x"
definition l_fits :: "bytes \<Rightarrow> bool" where "l_fits x \<longleftrightarrow> length x < 4294967296"
definition s_enc :: "bytes \<Rightarrow> bytes" where "s_enc x = put_u16 (of_nat (length x)) @ x"
definition s_fits :: "bytes \<Rightarrow> bool" where "s_fits x \<longleftrightarrow> length x < 65536"
definition h_enc :: "bytes \<times> bytes \<Rightarrow> bytes" where "h_enc r = h_entry (fst r) (snd r)"
definition h_fits :: "bytes \<times> bytes \<Rightarrow> bool" where "h_fits r \<longleftrightarrow> s_fits (fst r) \<and> l_fits (snd r)"

section \<open>A record format and its loops\<close>

locale record_format =
  fixes parse :: "'r rec_parser" and enc :: "'r \<Rightarrow> bytes" and fits :: "'r \<Rightarrow> bool"
  assumes parse_enc: "fits r \<Longrightarrow> parse (enc r @ rest) = Some (r, rest)"
begin

lemma collect_enc: "\<forall>r \<in> set rs. fits r \<Longrightarrow> rec_collect parse (length rs) (concat (map enc rs) @ rest) = rs"
  by (induction rs) (auto simp: parse_enc)

lemma find_hit:
  assumes "\<forall>x \<in> set xs. fits x \<and> \<not> P x" "fits r" "P r" "length xs < n"
  shows "rec_find parse P n (concat (map enc xs) @ enc r @ rest) off =
    Some (off + length (concat (map enc xs)), off + length (concat (map enc xs)) + length (enc r), r)"
  using assms
proof (induction xs arbitrary: n off)
  case Nil
  then show ?case by (cases n) (auto simp: parse_enc)
next
  case (Cons x xs)
  then show ?case by (cases n) (auto simp: parse_enc)
qed

lemma find_miss: "\<forall>x \<in> set xs. fits x \<and> \<not> P x \<Longrightarrow> rec_find parse P (length xs) (concat (map enc xs) @ rest) off = None"
  by (induction xs arbitrary: off) (auto simp: parse_enc)

text \<open>The two loops on a whole payload.\<close>

lemma payload_collect:
  assumes "\<forall>r \<in> set rs. fits r" "length rs < 4294967296"
  shows "rec_collect parse (unat (hdrCount (payload enc rs))) (drop 4 (payload enc rs)) = rs"
  using collect_enc [OF assms(1), of "[]"] assms(2) by (simp add: payload_def hdrCount_def unat_of_nat_u32)

lemma payload_find:
  assumes "\<forall>r \<in> set rs. fits r" "length rs < 4294967296"
  shows "rec_find parse P (unat (hdrCount (payload enc rs))) (drop 4 (payload enc rs)) 4 =
    (case dropWhile (\<lambda>r. \<not> P r) rs of
       [] \<Rightarrow> None
     | r # _ \<Rightarrow> let off = 4 + length (concat (map enc (takeWhile (\<lambda>r. \<not> P r) rs))) in Some (off, off + length (enc r), r))"
proof -
  have c: "unat (hdrCount (payload enc rs)) = length rs" "drop 4 (payload enc rs) = concat (map enc rs)"
    using assms(2) by (simp_all add: payload_def hdrCount_def unat_of_nat_u32)
  let ?xs = "takeWhile (\<lambda>r. \<not> P r) rs"
  have xs: "\<forall>x \<in> set ?xs. fits x \<and> \<not> P x" using assms(1) by (auto dest: set_takeWhileD)
  show ?thesis
  proof (cases "dropWhile (\<lambda>r. \<not> P r) rs")
    case Nil
    then have "?xs = rs" by (metis append_Nil2 takeWhile_dropWhile_id)
    then have "\<forall>x \<in> set rs. fits x \<and> \<not> P x" using xs by (simp only:)
    from find_miss [OF this, of "[]" 4] show ?thesis unfolding c Nil by simp
  next
    case (Cons r ys)
    then have rs: "rs = ?xs @ r # ys" by (metis takeWhile_dropWhile_id)
    have "P r" using Cons by (metis (no_types, lifting) hd_dropWhile list.discI list.sel(1))
    moreover have "fits r" using assms(1) rs by (metis in_set_conv_decomp)
    moreover have "length ?xs < length rs" by (subst (2) rs) simp
    moreover have "concat (map enc rs) = concat (map enc ?xs) @ enc r @ concat (map enc ys)" by (subst rs) simp
    ultimately show ?thesis using find_hit [OF xs, of r "length rs" "concat (map enc ys)" 4] Cons by (simp add: c Let_def)
  qed
qed

end

lemma l_rec_enc: "l_fits x \<Longrightarrow> l_rec (l_enc x @ rest) = Some (x, rest)"
  by (simp add: l_rec_def l_enc_def l_fits_def unat_of_nat_u32 slice_def)

lemma s_rec_enc: "s_fits x \<Longrightarrow> s_rec (s_enc x @ rest) = Some (x, rest)"
  by (simp add: s_rec_def s_enc_def s_fits_def unat_of_nat_u16 slice_def)

lemma h_enc_split: "h_enc (f, v) = s_enc f @ l_enc v"
  by (simp add: h_enc_def h_entry_def s_enc_def l_enc_def)

interpretation l_fmt: record_format l_rec l_enc l_fits
  by unfold_locales (rule l_rec_enc)

interpretation s_fmt: record_format s_rec s_enc s_fits
  by unfold_locales (rule s_rec_enc)

interpretation h_fmt: record_format h_rec h_enc h_fits
proof
  fix r :: "bytes \<times> bytes" and rest :: bytes assume "h_fits r"
  then show "h_rec (h_enc r @ rest) = Some (r, rest)"
    by (cases r) (simp add: h_rec_def h_enc_split h_fits_def s_rec_enc l_rec_enc)
qed

section \<open>Payloads\<close>

lemma payload_simps [simp]:
  "take 4 (payload enc rs) = put_u32 (of_nat (length rs))" "drop 4 (payload enc rs) = concat (map enc rs)"
  "4 \<le> length (payload enc rs)" "\<not> length (payload enc rs) < 4" "payload enc rs \<noteq> []"
  by (simp_all add: payload_def) (metis append_is_Nil_conv length_0_conv length_put(2) zero_neq_numeral)

lemma hdrCount_payload [simp]: "hdrCount (payload enc rs) = of_nat (length rs)"
  by (simp add: hdrCount_def)

lemma of_nat_u32_eq_iff: "m < 4294967296 \<Longrightarrow> n < 4294967296 \<Longrightarrow> (of_nat m :: u32) = of_nat n \<longleftrightarrow> m = n"
  by (metis unat_of_nat_u32)

lemma count_one: "length rs < 4294967296 \<Longrightarrow> (of_nat (length rs) :: u32) = 1 \<longleftrightarrow> length rs = 1"
  using of_nat_u32_eq_iff [of "length rs" 1] by simp

lemma count_zero: "length rs < 4294967296 \<Longrightarrow> (of_nat (length rs) :: u32) = 0 \<longleftrightarrow> rs = []"
  using of_nat_u32_eq_iff [of "length rs" 0] by simp

lemma repsE:
  assumes "reps enc fits raw rs"
  obtains "raw = []" "rs = []" | "raw = payload enc rs" "\<forall>r \<in> set rs. fits r" "length rs < 4294967295" "length rs < 4294967296"
  using assms by (auto simp: reps_def)

lemma length_l_enc [simp]: "length (l_enc x) = 4 + length x"
  by (simp add: l_enc_def)

lemma length_s_enc [simp]: "length (s_enc x) = 2 + length x"
  by (simp add: s_enc_def)

section \<open>Properties\<close>

lemma LPush_rep:
  assumes "reps l_enc l_fits raw xs" "l_fits e" "length xs < 4294967294"
  shows "reps l_enc l_fits (LPush raw e) (e # xs)"
  using assms(1)
proof (cases rule: repsE)
  case 1
  then show ?thesis using assms(2) by (simp add: reps_def LPush_def payload_def l_enc_def)
next
  case 2
  have "LPush (payload l_enc xs) e = payload l_enc (e # xs)"
    by (simp add: LPush_def payload_def [of l_enc "e # xs"] l_enc_def ac_simps)
  then show ?thesis using 2 assms(2,3) by (simp add: reps_def)
qed

lemma RPush_rep:
  assumes "reps l_enc l_fits raw xs" "l_fits e" "length xs < 4294967294" "raw \<noteq> []"
  shows "\<exists>raw'. RPush raw e = Some raw' \<and> reps l_enc l_fits raw' (xs @ [e])"
  using assms(1)
proof (cases rule: repsE)
  case 2
  have "RPush (payload l_enc xs) e = Some (payload l_enc (xs @ [e]))"
    by (simp add: RPush_def payload_def [of l_enc "xs @ [e]"] l_enc_def ac_simps)
  then show ?thesis using 2 assms(2,3) by (simp add: reps_def)
qed (use assms(4) in simp)

lemma payload_Cons_length: "8 \<le> length (payload l_enc (x # xs))"
  by (simp add: payload_def l_enc_def)

lemma LPop_rep:
  assumes "reps l_enc l_fits raw (x # xs)"
  shows "\<exists>raw'. LPop raw = (raw', x, True) \<and> reps l_enc l_fits raw' xs \<and> (raw' = [] \<longleftrightarrow> xs = [])"
  using assms
proof (cases rule: repsE)
  case 2
  have x: "unat (of_nat (length x) :: u32) = length x" using 2(2) by (simp add: l_fits_def unat_of_nat_u32)
  have s: "slice raw 4 8 = put_u32 (of_nat (length x))" "slice raw 8 (8 + length x) = x" "drop (8 + length x) raw = concat (map l_enc xs)"
    "8 + length x \<le> length raw"
    by (simp_all add: 2(1) payload_def l_enc_def slice_def)
  have c: "hdrCount raw = 1 \<longleftrightarrow> xs = []" "hdrCount raw \<noteq> 0"
    using count_one [of "x # xs"] count_zero [of "x # xs"] 2(1,4) by (auto simp del: of_nat_Suc)
  have "LPop raw = (if xs = [] then [] else payload l_enc xs, x, True)"
    using x s c payload_Cons_length [of x xs] 2(1)
    by (simp add: LPop_def Let_def payload_def [of l_enc xs])
  then show ?thesis using 2(2,3) by (auto simp: reps_def)
qed simp

lemma l_last_enc:
  assumes "\<forall>x \<in> set xs. l_fits x" "l_fits y"
  shows "l_last (Suc (length xs)) (concat (map l_enc xs) @ l_enc y) off = Some (off + length (concat (map l_enc xs)), y)"
  using assms(1)
proof (induction xs arbitrary: off)
  case Nil
  then show ?case using l_rec_enc [OF assms(2), of "[]"] by simp
qed (auto simp: l_rec_enc)

lemma RPop_rep:
  assumes "reps l_enc l_fits raw (xs @ [x])"
  shows "\<exists>raw'. RPop raw = (raw', x, True) \<and> reps l_enc l_fits raw' xs \<and> (raw' = [] \<longleftrightarrow> xs = [])"
  using assms
proof (cases rule: repsE)
  case 2
  let ?off = "4 + length (concat (map l_enc xs))"
  have l: "l_last (unat (hdrCount raw)) (drop 4 raw) 4 = Some (?off, x)"
    using l_last_enc [of xs x 4] 2 by (simp add: unat_of_nat_u32 del: of_nat_Suc)
  have s: "slice raw 4 ?off = concat (map l_enc xs)" by (simp add: 2(1) slice_def)
  have c: "hdrCount raw = 1 \<longleftrightarrow> xs = []" "hdrCount raw \<noteq> 0"
    using count_one [of "xs @ [x]"] count_zero [of "xs @ [x]"] 2(1,4) by (auto simp del: of_nat_Suc)
  have "8 \<le> length raw" by (simp add: 2(1) payload_def)
  then have "RPop raw = (if xs = [] then [] else payload l_enc xs, x, True)"
    using l s c 2(1) by (simp add: RPop_def payload_def [of l_enc xs])
  then show ?thesis using 2(2,3) by (auto simp: reps_def)
qed simp

lemma Pop_empty: "reps l_enc l_fits raw [] \<Longrightarrow> LPop raw = (raw, [], False) \<and> RPop raw = (raw, [], False)"
  by (auto simp: reps_def LPop_def RPop_def)

lemma LLen_rep: "reps l_enc l_fits raw xs \<Longrightarrow> unat (LLen raw) = length xs"
  by (erule repsE) (simp_all add: LLen_def unat_of_nat_u32)



text \<open>\<^verbatim>\<open>RPush\<close> onto a list that does not exist yet always panics.\<close>

lemma RPush_new_list_panics: "length raw < 4 \<Longrightarrow> RPush raw e = None"
  by (simp add: RPush_def)

lemma dropWhile_eq: "dropWhile (\<lambda>m. m \<noteq> x) xs = (if x \<in> set xs then x # tl (dropWhile (\<lambda>m. m \<noteq> x) xs) else [])"
  by (induction xs) auto

lemma split_at:
  assumes "x \<in> set xs" "distinct xs"
  shows "takeWhile (\<lambda>m. m \<noteq> x) xs @ tl (dropWhile (\<lambda>m. m \<noteq> x) xs) = removeAll x xs"
  using assms by (induction xs) (auto intro: removeAll_id [symmetric])

text \<open>The payload around the record a loop stopped at.\<close>

lemma payload_around:
  assumes "rs = xs @ r # ys"
  shows "slice (payload enc rs) 4 (4 + length (concat (map enc xs))) = concat (map enc xs)"
    "drop (4 + length (concat (map enc xs)) + length (enc r)) (payload enc rs) = concat (map enc ys)"
    "take (4 + length (concat (map enc xs))) (payload enc rs) = put_u32 (of_nat (length rs)) @ concat (map enc xs)"
  using assms by (simp_all add: payload_def slice_def)

lemma s_find_payload:
  assumes "\<forall>m \<in> set ms. s_fits m" "length ms < 4294967296"
  shows "s_find (payload s_enc ms) m =
    (if m \<in> set ms then let off = 4 + length (concat (map s_enc (takeWhile (\<lambda>x. x \<noteq> m) ms)))
       in Some (off, off + length (s_enc m), m) else None)"
  unfolding s_find_def s_fmt.payload_find [OF assms] by (subst dropWhile_eq) simp

lemma reps_empty_set: "reps enc fits raw rs \<Longrightarrow> length raw < 4 \<Longrightarrow> raw = [] \<and> rs = []"
  by (auto simp: reps_def)

lemma SAdd_rep:
  assumes "reps s_enc s_fits raw ms" "s_fits m" "length ms < 4294967294"
  shows "snd (SAdd raw m) \<longleftrightarrow> m \<notin> set ms" "reps s_enc s_fits (fst (SAdd raw m)) (if m \<in> set ms then ms else ms @ [m])"
  using assms(1)
proof (atomize (full), cases rule: repsE)
  case 1
  then show "(snd (SAdd raw m) = (m \<notin> set ms)) \<and> reps s_enc s_fits (fst (SAdd raw m)) (if m \<in> set ms then ms else ms @ [m])"
    using assms(2) by (simp add: SAdd_def reps_def payload_def s_enc_def)
next
  case 2
  have "put_u32 (of_nat (length ms) + 1) @ concat (map s_enc ms) @ put_u16 (of_nat (length m)) @ m = payload s_enc (ms @ [m])"
    by (simp add: payload_def s_enc_def ac_simps)
  then show "(snd (SAdd raw m) = (m \<notin> set ms)) \<and> reps s_enc s_fits (fst (SAdd raw m)) (if m \<in> set ms then ms else ms @ [m])"
    using 2 assms by (simp add: SAdd_def s_find_payload Let_def reps_def)
qed

lemma SRem_rep:
  assumes "reps s_enc s_fits raw ms" "distinct ms"
  shows "(snd (SRem raw m) \<longleftrightarrow> m \<in> set ms) \<and> reps s_enc s_fits (fst (SRem raw m)) (removeAll m ms) \<and>
    (m \<in> set ms \<longrightarrow> (fst (SRem raw m) = [] \<longleftrightarrow> removeAll m ms = []))"
  using assms(1)
proof (cases rule: repsE)
  case 1
  then show ?thesis by (simp add: SRem_def reps_def)
next
  case 2
  show ?thesis
  proof (cases "m \<in> set ms")
    case False
    then show ?thesis using 2 assms(1) by (simp add: SRem_def s_find_payload)
  next
    case True
    let ?xs = "takeWhile (\<lambda>x. x \<noteq> m) ms" and ?ys = "tl (dropWhile (\<lambda>x. x \<noteq> m) ms)"
    have ms: "ms = ?xs @ m # ?ys" using True dropWhile_eq [of m ms] by (metis takeWhile_dropWhile_id)
    have rm: "removeAll m ms = ?xs @ ?ys" using split_at [OF True assms(2)] by simp
    have len: "length ms = Suc (length (removeAll m ms))" unfolding rm by (subst ms) simp
    have c: "hdrCount raw = 1 \<longleftrightarrow> removeAll m ms = []" using count_one [OF 2(4)] 2(1) len by simp
    have p: "put_u32 (of_nat (length ms) - 1) @ concat (map s_enc ?xs) @ concat (map s_enc ?ys) = payload s_enc (removeAll m ms)"
      by (simp add: payload_def len) (simp add: rm)
    note a = payload_around [OF ms, of s_enc]
    have "SRem raw m = (if removeAll m ms = [] then [] else payload s_enc (removeAll m ms), True)"
      using True 2 c p a by (simp add: SRem_def s_find_payload Let_def del: removeAll.simps)
    moreover have "\<forall>x \<in> set (removeAll m ms). s_fits x" "length (removeAll m ms) < 4294967295" using 2(2,3) len by auto
    ultimately show ?thesis using True by (auto simp: reps_def)
  qed
qed

text \<open>
  C37. A set payload is a set: on a payload that encodes the distinct members \<open>ms\<close>, \<^verbatim>\<open>SIsMember\<close> and
  \<^verbatim>\<open>SMembers\<close> read it, \<^verbatim>\<open>SAdd\<close> adds a member exactly when it is new and says so, and \<^verbatim>\<open>SRem\<close> removes
  exactly that member and says whether it was there, leaving an empty payload after the last one.
\<close>

theorem set_payload_set:
  assumes "reps s_enc s_fits raw ms" "distinct ms" "s_fits m" "length ms < 4294967294"
  shows "SMembers raw = ms \<and> (SIsMember raw m \<longleftrightarrow> m \<in> set ms) \<and>
    (snd (SAdd raw m) \<longleftrightarrow> m \<notin> set ms) \<and> reps s_enc s_fits (fst (SAdd raw m)) (if m \<in> set ms then ms else ms @ [m]) \<and>
    (snd (SRem raw m) \<longleftrightarrow> m \<in> set ms) \<and> reps s_enc s_fits (fst (SRem raw m)) (removeAll m ms) \<and>
    (m \<in> set ms \<longrightarrow> (fst (SRem raw m) = [] \<longleftrightarrow> removeAll m ms = []))"
proof -
  have "SMembers raw = ms \<and> (SIsMember raw m \<longleftrightarrow> m \<in> set ms)"
    using assms(1)
  proof (cases rule: repsE)
    case 2
    then show ?thesis
      using s_fmt.payload_collect [OF 2(2,4)] by (simp add: SMembers_def SIsMember_def s_find_payload Let_def)
  qed (simp add: SMembers_def SIsMember_def)
  then show ?thesis using SAdd_rep [OF assms(1,3,4)] SRem_rep [OF assms(1,2), of m] by simp
qed

theorem set_payload_set_witness:
  "SMembers (payload s_enc [[1], [2]]) = [[1], [2]] \<and> snd (SRem (payload s_enc [[1], [2]]) [2])"
  using set_payload_set [of "payload s_enc [[1], [2]]" "[[1], [2]]" "[2]"] by (simp add: reps_def s_fits_def)

lemma field_split:
  "dropWhile (\<lambda>r. \<not> (case r of (f, v) \<Rightarrow> f = x)) kvs =
    (case map_of kvs x of None \<Rightarrow> [] | Some v \<Rightarrow> (x, v) # tl (dropWhile (\<lambda>r. \<not> (case r of (f, v) \<Rightarrow> f = x)) kvs))"
  by (induction kvs) (auto split: option.splits)

lemma update_split:
  assumes "\<forall>r \<in> set xs. fst r \<noteq> f"
  shows "AList.update f val (xs @ (f, v) # ys) = xs @ (f, val) # ys"
  using assms by (induction xs) (auto split: prod.splits)

lemma update_append: "f \<notin> fst ` set kvs \<Longrightarrow> AList.update f val kvs = kvs @ [(f, val)]"
  by (induction kvs) auto

lemma h_find_payload:
  assumes "\<forall>r \<in> set kvs. h_fits r" "length kvs < 4294967296"
  shows "h_find (payload h_enc kvs) f =
    (case map_of kvs f of
       None \<Rightarrow> None
     | Some v \<Rightarrow> let off = 4 + length (concat (map h_enc (takeWhile (\<lambda>r. \<not> (case r of (g, v) \<Rightarrow> g = f)) kvs)))
                in Some (off, off + length (h_enc (f, v)), (f, v)))"
  unfolding h_find_def h_fmt.payload_find [OF assms] by (subst field_split) (simp split: option.splits)

lemma HSet_rep:
  assumes r: "reps h_enc h_fits raw kvs" and fv: "h_fits (f, val)" and len: "length kvs < 4294967294"
  shows "reps h_enc h_fits (fst (HSet raw f val)) (AList.update f val kvs) \<and> (snd (HSet raw f val) \<longleftrightarrow> map_of kvs f = None)"
  using r
proof (cases rule: repsE)
  case 1
  then show ?thesis using fv by (simp add: HSet_def reps_def payload_def h_enc_def)
next
  case 2
  note find = h_find_payload [OF 2(2,4), of f]
  show ?thesis
  proof (cases "map_of kvs f")
    case None
    then have "AList.update f val kvs = kvs @ [(f, val)]" by (simp add: update_append map_of_eq_None_iff)
    moreover have "put_u32 (of_nat (length kvs) + 1) @ concat (map h_enc kvs) @ h_entry f val = payload h_enc (kvs @ [(f, val)])"
      by (simp add: payload_def h_enc_def ac_simps)
    ultimately show ?thesis using None find 2 fv len by (simp add: HSet_def reps_def)
  next
    case (Some v)
    let ?P = "\<lambda>r. \<not> (case r of (g, v) \<Rightarrow> g = f)"
    let ?xs = "takeWhile ?P kvs" and ?ys = "tl (dropWhile ?P kvs)"
    have kvs: "kvs = ?xs @ (f, v) # ?ys" using Some field_split [of f kvs] by (metis (no_types, lifting) option.simps(5) takeWhile_dropWhile_id)
    have "\<forall>r \<in> set ?xs. fst r \<noteq> f" by (auto dest: set_takeWhileD)
    then have up: "AList.update f val kvs = ?xs @ (f, val) # ?ys" by (subst kvs) (rule update_split)
    let ?pre = "put_u32 (of_nat (length kvs)) @ concat (map h_enc ?xs) @ s_enc f" and ?post = "concat (map h_enc ?ys)"
    have raw: "raw = ?pre @ put_u32 (of_nat (length v)) @ v @ ?post"
      unfolding 2(1) payload_def by (subst (2) kvs) (simp add: h_enc_split l_enc_def)
    let ?off = "4 + length (concat (map h_enc ?xs))"
    have fin: "?off + length (h_enc (f, v)) - length v = length ?pre + 4" "?off + length (h_enc (f, v)) = length ?pre + 4 + length v"
      by (simp_all add: h_enc_split)
    have new: "payload h_enc (AList.update f val kvs) = ?pre @ put_u32 (of_nat (length val)) @ val @ ?post"
    proof -
      have "length (?xs @ (f, val) # ?ys) = length kvs" by (subst (3) kvs) simp
      then show ?thesis by (simp add: payload_def up h_enc_split l_enc_def)
    qed
    have "fst (HSet raw f val) = payload h_enc (AList.update f val kvs)" "\<not> snd (HSet raw f val)"
    proof (atomize (full), cases "length v = length val")
      case True
      have "copy_at raw (length ?pre + 4) val = ?pre @ put_u32 (of_nat (length val)) @ val @ ?post"
        using True by (simp add: raw copy_at_def)
      then show "fst (HSet raw f val) = payload h_enc (AList.update f val kvs) \<and> \<not> snd (HSet raw f val)"
        using find Some fin True 2(1) new by (simp add: HSet_def Let_def)
    next
      case False
      have "take (length ?pre + 4 - 4) raw = ?pre" "drop (length ?pre + 4 + length v) raw = ?post" by (simp_all add: raw)
      then show "fst (HSet raw f val) = payload h_enc (AList.update f val kvs) \<and> \<not> snd (HSet raw f val)"
        using find Some fin False 2(1) new by (simp add: HSet_def Let_def)
    qed
    moreover have "\<forall>r \<in> set (AList.update f val kvs). h_fits r" using 2(2) fv unfolding up by (subst (asm) kvs) auto
    moreover have "length (AList.update f val kvs) = length kvs" unfolding up by (subst (3) kvs) simp
    ultimately show ?thesis using Some 2(3) by (simp add: reps_def)
  qed
qed



text \<open>
  \<^verbatim>\<open>HDel\<close> takes \<^verbatim>\<open>endValOff\<close> before it skips the value: the bytes of the deleted value stay, the count
  goes down, and the next field is lost.
\<close>

lemma HDel_corrupts:
  "let raw = payload h_enc [([1], [2, 3]), ([4], [5])]; (raw', deleted) = HDel raw [1]
   in deleted \<and> HGet raw [4] = Some [5] \<and> HGet raw' [4] = None"
  by code_simp

end
