(* ===== verification/Lz4.thy ===== *)
theory Lz4
  imports Horreum_Prelude "HOL-Library.Monad_Syntax"
begin

text \<open>
  \<^verbatim>\<open>internal/compress/compress.go\<close> and \<^verbatim>\<open>lz4.go\<close>: the value compressors.  The encoder writes into a
  buffer of fixed capacity and would panic beyond it: a function that writes returns an \<open>option\<close>, and
  \<open>None\<close> is that panic.  The bytes written so far are a list whose length is the write position \<^verbatim>\<open>dp\<close>.
  The decoder writes into a buffer that may hold anything (it comes from a pool); the unread part of its
  source is a list, and \<^verbatim>\<open>sp < sn\<close> is that the list is not empty.

  What \<^verbatim>\<open>sync.Pool\<close> hands out is the parameter \<open>pooled\<close>: nothing, or a buffer of any size and content.

  The encoder never runs out of room, and the decoder returns the original bytes.
\<close>

section \<open>Definitions\<close>

subsection \<open>Buffer pool\<close>

definition poolClasses :: "nat list" where
  "poolClasses = [4096, 16384, 65536, 262144, 1048576]"

definition classFor :: "nat \<Rightarrow> nat option" where
  "classFor n = List.find (\<lambda>i. n \<le> poolClasses ! i) [0..<5]"

text \<open>The whole backing array of the buffer \<^verbatim>\<open>get(n)\<close> returns; the slice is its first \<open>n\<close> bytes.\<close>

definition pool_get :: "bytes option \<Rightarrow> nat \<Rightarrow> bytes" where
  "pool_get pooled n =
    (case classFor n of
       None \<Rightarrow> replicate n 0
     | Some cls \<Rightarrow>
         (case pooled of
            Some buf \<Rightarrow> if length buf \<ge> n then buf else replicate (poolClasses ! cls) 0
          | None \<Rightarrow> replicate (poolClasses ! cls) 0))"

text \<open>The pool that a returned buffer goes to, if any.\<close>

definition pool_put :: "bytes \<Rightarrow> nat option" where
  "pool_put buf = classFor (length buf)"

subsection \<open>Encoder\<close>

definition minMatch :: nat where "minMatch = 4"
definition maxInputSize :: nat where "maxInputSize = 0x7E000000"
definition lastLiterals :: nat where "lastLiterals = 5"
definition winSize :: int where "winSize = 65536"
definition sizePrefix :: nat where "sizePrefix = 4"

definition hashU32 :: "u32 \<Rightarrow> u32" where
  "hashU32 v = drop_bit 16 (v * 2654435761)"

definition read32 :: "bytes \<Rightarrow> u32" where
  "read32 p = get_u32 p"

definition appendByte :: "nat \<Rightarrow> bytes \<Rightarrow> byte \<Rightarrow> bytes option" where
  "appendByte cap dst b = (if length dst + 1 \<le> cap then Some (dst @ [b]) else None)"

definition appendBytes :: "nat \<Rightarrow> bytes \<Rightarrow> bytes \<Rightarrow> bytes option" where
  "appendBytes cap dst bs =
    (if bs = [] then Some dst else if length dst + length bs \<le> cap then Some (dst @ bs) else None)"

function appendLen :: "nat \<Rightarrow> bytes \<Rightarrow> nat \<Rightarrow> bytes option" where
  "appendLen cap dst n =
    (if n \<ge> 255
     then case appendByte cap dst 255 of None \<Rightarrow> None | Some dst1 \<Rightarrow> appendLen cap dst1 (n - 255)
     else appendByte cap dst (of_nat n))"
  by pat_completeness auto
termination by (relation "measure (\<lambda>(cap, dst, n). n)") auto

function matchFrom :: "bytes \<Rightarrow> nat \<Rightarrow> nat \<Rightarrow> nat \<Rightarrow> nat \<Rightarrow> nat" where
  "matchFrom src ref cur fin n =
    (if cur + n < fin \<and> ref + n < fin \<and> src ! (ref + n) = src ! (cur + n)
     then matchFrom src ref cur fin (Suc n) else n)"
  by pat_completeness auto
termination by (relation "measure (\<lambda>(src, ref, cur, fin, n). fin - (cur + n))") auto

definition matchLength :: "bytes \<Rightarrow> nat \<Rightarrow> nat \<Rightarrow> nat \<Rightarrow> nat" where
  "matchLength src ref cur fin = matchFrom src ref cur fin 0"

text \<open>A token with the literal length in its upper half, the extra length bytes, the literals.\<close>

definition litToken :: "nat \<Rightarrow> byte" where
  "litToken litLen = (if litLen \<ge> 15 then 0xF0 else of_nat (litLen * 16))"

definition emitLiterals :: "nat \<Rightarrow> bytes \<Rightarrow> byte \<Rightarrow> bytes \<Rightarrow> bytes option" where
  "emitLiterals cap dst token lits =
    do {
      d1 \<leftarrow> appendByte cap dst token;
      d2 \<leftarrow> (if length lits \<ge> 15 then appendLen cap d1 (length lits - 15) else Some d1);
      appendBytes cap d2 lits
    }"

definition emitMatch :: "nat \<Rightarrow> bytes \<Rightarrow> int \<Rightarrow> nat \<Rightarrow> bytes option" where
  "emitMatch cap dst off ml =
    do {
      d1 \<leftarrow> appendByte cap dst (word_of_int off);
      d2 \<leftarrow> appendByte cap d1 (word_of_int (off div 256));
      if ml \<ge> 15 then appendLen cap d2 (ml - 15) else Some d2
    }"

definition matchToken :: "nat \<Rightarrow> byte" where
  "matchToken ml = (if ml \<ge> 15 then 0x0F else of_nat ml)"

text \<open>
  The steps of the main loop.  The hash table is a function; \<^verbatim>\<open>hashTable[h] = uint32(sp)\<close> for the window at
  \<^verbatim>\<open>sp\<close> is \<open>lz4_note\<close>, the candidate position read from it \<open>lz4_ref\<close>, the test that it is a match within
  the window \<open>lz4_hit\<close>; \<open>lz4_emit\<close> writes one sequence and returns the position after the match.
\<close>

definition lz4_ref :: "bytes \<Rightarrow> (u32 \<Rightarrow> u32) \<Rightarrow> nat \<Rightarrow> nat" where
  "lz4_ref src tbl sp = unat (tbl (hashU32 (read32 (drop sp src))))"

definition lz4_note :: "bytes \<Rightarrow> (u32 \<Rightarrow> u32) \<Rightarrow> nat \<Rightarrow> u32 \<Rightarrow> u32" where
  "lz4_note src tbl sp = tbl(hashU32 (read32 (drop sp src)) := of_nat sp)"

definition lz4_hit :: "bytes \<Rightarrow> nat \<Rightarrow> nat \<Rightarrow> bool" where
  "lz4_hit src ref sp \<longleftrightarrow>
    \<not> (ref = 0 \<or> int sp - int ref \<ge> winSize \<or> read32 (drop ref src) \<noteq> read32 (drop sp src))"

definition lz4_emit :: "nat \<Rightarrow> bytes \<Rightarrow> bytes \<Rightarrow> nat \<Rightarrow> nat \<Rightarrow> nat \<Rightarrow> (bytes \<times> nat) option" where
  "lz4_emit cap src dst anchor sp ref =
    (let lits = slice src anchor sp;
         ml = matchLength src (ref + minMatch) (sp + minMatch) (length src)
     in do {
       d1 \<leftarrow> emitLiterals cap dst (litToken (length lits) OR matchToken ml) lits;
       d2 \<leftarrow> emitMatch cap d1 (int sp - int ref) ml;
       Some (d2, sp + minMatch + ml)
     })"

definition lz4_renote :: "bytes \<Rightarrow> (u32 \<Rightarrow> u32) \<Rightarrow> nat \<Rightarrow> u32 \<Rightarrow> u32" where
  "lz4_renote src tbl sp = (if sp + lastLiterals + minMatch \<le> length src then lz4_note src tbl (sp - 2) else tbl)"

lemma lz4_emit_pos: "lz4_emit cap src dst anchor sp ref = Some (d, sp1) \<Longrightarrow> sp < sp1"
  by (auto simp: lz4_emit_def Let_def minMatch_def bind_eq_Some_conv)

function lz4_loop :: "nat \<Rightarrow> bytes \<Rightarrow> (u32 \<Rightarrow> u32) \<Rightarrow> bytes \<Rightarrow> nat \<Rightarrow> nat \<Rightarrow> (bytes \<times> nat) option" where
  "lz4_loop cap src tbl dst sp anchor =
    (if sp + lastLiterals + minMatch > length src then Some (dst, anchor)
     else if \<not> lz4_hit src (lz4_ref src tbl sp) sp
     then lz4_loop cap src (lz4_note src tbl sp) dst (sp + 1) anchor
     else case lz4_emit cap src dst anchor sp (lz4_ref src tbl sp) of
            None \<Rightarrow> None
          | Some (d, sp1) \<Rightarrow> lz4_loop cap src (lz4_renote src (lz4_note src tbl sp) sp1) d sp1 sp1)"
  by pat_completeness auto
termination
  by (relation "measure (\<lambda>(cap, src, tbl, dst, sp, anchor). length src - sp)")
    (auto simp: minMatch_def lastLiterals_def dest!: lz4_emit_pos)

definition compressBlock :: "nat \<Rightarrow> bytes \<Rightarrow> bytes option" where
  "compressBlock cap src =
    (if length src < minMatch + lastLiterals then Some []
     else do {
       (dst, anchor) \<leftarrow> lz4_loop cap src (\<lambda>_. 0) [] 0 0;
       let lits = drop anchor src
       in if lits = [] \<and> dst = [] then Some [] else emitLiterals cap dst (litToken (length lits)) lits
     })"

definition NewLZ4 :: "int \<Rightarrow> int" where
  "NewLZ4 minSize = (if minSize \<le> 0 then 64 else minSize)"

definition lz4_Compress :: "int \<Rightarrow> bytes option \<Rightarrow> bytes \<Rightarrow> bytes option option" where
  "lz4_Compress minSize pooled src =
    (let n = length src in
     if int n < minSize \<or> n > maxInputSize then Some None
     else
       let buf = pool_get pooled (sizePrefix + n + n div 255 + 16)
       in do {
         c \<leftarrow> compressBlock (length buf - sizePrefix) src;
         Some (if c = [] \<or> sizePrefix + length c \<ge> n then None else Some (put_u32 (of_nat n) @ c))
       })"

subsection \<open>Decoder\<close>

datatype lz4_error = Lz4Corrupt | Lz4TooLarge | Lz4Length nat nat

fun readLen :: "bytes \<Rightarrow> nat \<Rightarrow> nat \<times> bytes" where
  "readLen [] n = (n, [])"
| "readLen (b # bs) n = (if b < 255 then (n + unat b, bs) else readLen bs (n + unat b))"

primrec copyMatch :: "nat \<Rightarrow> bytes \<Rightarrow> nat \<Rightarrow> nat \<Rightarrow> bytes" where
  "copyMatch 0 dst dp mp = dst"
| "copyMatch (Suc k) dst dp mp = copyMatch k (dst[dp := dst ! mp]) (Suc dp) (Suc mp)"

lemma readLen_length: "length (snd (readLen bs n)) \<le> length bs"
  by (induction bs n rule: readLen.induct) auto

definition nibbleLen :: "nat \<Rightarrow> bytes \<Rightarrow> nat \<times> bytes" where
  "nibbleLen n bs = (if n = 15 then readLen bs n else (n, bs))"

lemma nibbleLen_length: "length (snd (nibbleLen n bs)) \<le> length bs"
  by (simp add: nibbleLen_def readLen_length)

function decompressLoop :: "bytes \<Rightarrow> bytes \<Rightarrow> nat \<Rightarrow> lz4_error + nat \<times> bytes" where
  "decompressLoop [] dst dp = Inr (dp, dst)"
| "decompressLoop (token # r0) dst dp =
    (let (litLen, r1) = nibbleLen (unat (drop_bit 4 token)) r0 in
     if litLen > 0 \<and> (litLen > length r1 \<or> dp + litLen > length dst) then Inl Lz4Corrupt
     else
       let dst1 = copy_at dst dp (take litLen r1); dp1 = dp + litLen; r2 = drop litLen r1
       in if r2 = [] then Inr (dp1, dst1)
          else if length r2 < 2 then Inl Lz4Corrupt
          else
            let off = unat (r2 ! 0) + 256 * unat (r2 ! 1)
            in if off = 0 then Inl Lz4Corrupt
               else
                 let (ml, r4) = nibbleLen (unat (token AND 0x0F)) (drop 2 r2); matchLen = ml + minMatch
                 in if dp1 < off \<or> dp1 + matchLen > length dst then Inl Lz4Corrupt
                    else decompressLoop r4 (copyMatch matchLen dst1 dp1 (dp1 - off)) (dp1 + matchLen))"
  by pat_completeness auto
termination
proof (relation "measure (\<lambda>(r, dst, dp). length r)", goal_cases)
  case (2 token r0 dst dp x litLen r1 dst1 dp1 r2 off y ml r4 matchLen)
  have "length r1 \<le> length r0" using 2(1,2) nibbleLen_length by (metis snd_conv)
  moreover have "length r4 \<le> length (drop 2 r2)" using 2(11,12) nibbleLen_length by (metis snd_conv)
  ultimately show ?case using 2(4-8) by simp
qed simp

definition decompressBlock :: "bytes \<Rightarrow> bytes \<Rightarrow> lz4_error + nat \<times> bytes" where
  "decompressBlock dst src = decompressLoop src dst 0"

definition lz4_Decompress :: "bytes option \<Rightarrow> bytes \<Rightarrow> lz4_error + bytes" where
  "lz4_Decompress pooled src =
    (if length src < sizePrefix then Inl Lz4Corrupt
     else
       let origSize = unat (get_u32 (take sizePrefix src))
       in if origSize > maxInputSize then Inl Lz4TooLarge
          else case decompressBlock (take origSize (pool_get pooled origSize)) (drop sizePrefix src) of
                 Inl e \<Rightarrow> Inl e
               | Inr (n, dst) \<Rightarrow> if n \<noteq> origSize then Inl (Lz4Length n origSize) else Inr dst)"

section \<open>Lengths\<close>

definition lenBytes :: "nat \<Rightarrow> bytes" where
  "lenBytes n = replicate (n div 255) 255 @ [of_nat (n mod 255)]"

lemma length_lenBytes [simp]: "length (lenBytes n) = n div 255 + 1"
  by (simp add: lenBytes_def)

lemma lenBytes_rec: "lenBytes n = (if n \<ge> 255 then 255 # lenBytes (n - 255) else [of_nat n])"
proof (cases "n \<ge> 255")
  case True
  then have "n div 255 = Suc ((n - 255) div 255)" "n mod 255 = (n - 255) mod 255"
    by (simp_all add: le_div_geq le_mod_geq)
  then show ?thesis using True by (simp add: lenBytes_def)
qed (simp add: lenBytes_def)

lemma appendLen_eq: "length dst + length (lenBytes n) \<le> cap \<Longrightarrow> appendLen cap dst n = Some (dst @ lenBytes n)"
proof (induction n arbitrary: dst rule: less_induct)
  case (less n)
  show ?case
  proof (cases "n \<ge> 255")
    case True
    have "length dst + (1 + length (lenBytes (n - 255))) \<le> cap"
      using less.prems lenBytes_rec [of n] True by simp
    then show ?thesis
      using less.IH [of "n - 255" "dst @ [255]"] True lenBytes_rec [of n]
      by (simp add: appendLen.simps [of cap dst n] appendByte_def)
  next
    case False
    then show ?thesis using less.prems lenBytes_rec [of n] by (simp add: appendLen.simps [of cap dst n] appendByte_def)
  qed
qed

lemma readLen_lenBytes: "readLen (lenBytes n @ rest) acc = (acc + n, rest)"
proof (induction n arbitrary: acc rule: less_induct)
  case (less n)
  show ?case
  proof (cases "n \<ge> 255")
    case True
    then show ?thesis using less.IH [of "n - 255" "acc + 255"] lenBytes_rec [of n] by simp
  next
    case False
    then have "unat (of_nat n :: byte) = n" by (simp add: unat_of_nat)
    moreover have "(of_nat n :: byte) < 255" using False by (simp add: word_less_nat_alt unat_of_nat)
    ultimately show ?thesis using False lenBytes_rec [of n] by simp
  qed
qed

declare appendLen.simps [simp del]

section \<open>One sequence\<close>

definition extLen :: "nat \<Rightarrow> bytes" where
  "extLen n = (if n \<ge> 15 then lenBytes (n - 15) else [])"

definition litBytes :: "byte \<Rightarrow> bytes \<Rightarrow> bytes" where
  "litBytes token lits = token # extLen (length lits) @ lits"

definition matchBytes :: "nat \<Rightarrow> nat \<Rightarrow> bytes" where
  "matchBytes off ml = [of_nat off, of_nat (off div 256)] @ extLen ml"

lemma emitLiterals_eq:
  assumes "length dst + length (litBytes token lits) \<le> cap"
  shows "emitLiterals cap dst token lits = Some (dst @ litBytes token lits)"
  using assms appendLen_eq [of "dst @ [token]" "length lits - 15" cap]
  by (auto simp: emitLiterals_def litBytes_def extLen_def appendByte_def appendBytes_def)

lemma emitMatch_eq:
  assumes "length dst + length (matchBytes off ml) \<le> cap"
  shows "emitMatch cap dst (int off) ml = Some (dst @ matchBytes off ml)"
proof -
  have "word_of_int (int off div 256) = (of_nat (off div 256) :: byte)"
    by (metis of_int_of_nat_eq of_nat_numeral zdiv_int)
  then show ?thesis
    using assms appendLen_eq [of "dst @ [of_nat off, of_nat (off div 256)]" "ml - 15" cap]
    by (auto simp: emitMatch_def matchBytes_def extLen_def appendByte_def)
qed

lemma nibble_decode: "nibbleLen (min x 15) (extLen x @ rest) = (x, rest)"
  using readLen_lenBytes [of "x - 15" rest 15] by (auto simp: nibbleLen_def extLen_def min_def)

lemma litToken_nibble: "litToken x = of_nat (16 * min x 15)"
  by (auto simp: litToken_def min_def mult.commute)

lemma matchToken_nibble: "matchToken x = of_nat (min x 15)"
  by (auto simp: matchToken_def min_def)

lemma token_fields:
  assumes "a \<le> 15" "b \<le> 15"
  shows "unat (drop_bit 4 (of_nat (16 * a) OR of_nat b :: byte)) = a"
    "unat ((of_nat (16 * a) OR of_nat b :: byte) AND 15) = b"
proof -
  have "\<forall>a \<in> set [0..<16]. \<forall>b \<in> set [0..<16]. unat (drop_bit 4 (of_nat (16 * a) OR of_nat b :: byte)) = a \<and>
      unat ((of_nat (16 * a) OR of_nat b :: byte) AND 15) = b"
    by code_simp
  then show "unat (drop_bit 4 (of_nat (16 * a) OR of_nat b :: byte)) = a"
    "unat ((of_nat (16 * a) OR of_nat b :: byte) AND 15) = b" using assms by auto
qed

lemma seqToken_fields:
  "unat (drop_bit 4 (litToken x OR matchToken y)) = min x 15"
  "unat ((litToken x OR matchToken y) AND 0x0F) = min y 15"
  "unat (drop_bit 4 (litToken x)) = min x 15"
  using token_fields [of "min x 15" "min y 15"] token_fields(1) [of "min x 15" 0]
  by (simp_all add: litToken_nibble matchToken_nibble)

lemma div_255_add: "a div 255 + b div 255 \<le> (a + b) div (255 :: nat)"
proof -
  have "(a div 255 + b div 255) * 255 \<le> a + b" by (simp add: add_mult_distrib add_mono)
  then show ?thesis by (simp add: less_eq_div_iff_mult_less_eq)
qed

text \<open>A sequence is no longer than what it stands for, but for one byte in 255.\<close>

lemma seq_length:
  "length (litBytes t lits) + length (matchBytes off ml) \<le> length lits + minMatch + ml + length lits div 255"
proof -
  have e: "length (extLen n) \<le> n div 255 + (if n \<ge> 15 then 1 else 0)" for n
    by (simp add: extLen_def div_le_mono)
  have "(ml - 15) div 255 + 1 \<le> ml" if "ml \<ge> 15" using that div_le_dividend [of "ml - 15" 255] by linarith
  then have "length (extLen ml) \<le> ml" by (simp add: extLen_def)
  then show ?thesis using e [of "length lits"] by (simp add: litBytes_def matchBytes_def minMatch_def split: if_splits)
qed

section \<open>Decoding a sequence\<close>

lemma copyMatch_eq:
  assumes "p + k \<le> length src" "length dst = length src" "q < p" "\<forall>j < k. src ! (q + j) = src ! (p + j)"
  shows "copyMatch k (take p src @ drop p dst) p q = take (p + k) src @ drop (p + k) dst"
  using assms
proof (induction k arbitrary: p q)
  case (Suc k)
  have "(take p src @ drop p dst) ! q = src ! p" using Suc.prems by (auto simp: nth_append)
  moreover have "(take p src @ drop p dst)[p := src ! p] = take (Suc p) src @ drop (Suc p) dst"
    using Suc.prems(1,2) by (simp add: list_update_append take_Suc_conv_app_nth Cons_nth_drop_Suc [symmetric])
  moreover have "\<forall>j < k. src ! (Suc q + j) = src ! (Suc p + j)" using Suc.prems(4) by (metis add_Suc add_Suc_right Suc_less_eq)
  ultimately show ?case using Suc.IH [of "Suc p" "Suc q"] Suc.prems by simp
qed simp

lemma copy_literals:
  assumes "a \<le> sp" "sp \<le> length src" "length dst = length src"
  shows "copy_at (take a src @ drop a dst) a (slice src a sp) = take sp src @ drop sp dst"
proof -
  have "take sp src = take a src @ slice src a sp"
    using assms by (simp add: slice_def) (metis append_take_drop_id le_add_diff_inverse take_add)
  then show ?thesis using assms by (simp add: copy_at_def)
qed

lemma decode_sequence:
  assumes len: "length dst = length src" and a: "a \<le> sp" and ref: "ref < sp" "sp - ref < 65536"
    and fin: "sp + minMatch + ml \<le> length src" and eq: "\<forall>j < minMatch + ml. src ! (ref + j) = src ! (sp + j)"
  shows "decompressLoop (litBytes (litToken (sp - a) OR matchToken ml) (slice src a sp) @ matchBytes (sp - ref) ml @ rest)
      (take a src @ drop a dst) a =
    decompressLoop rest (take (sp + minMatch + ml) src @ drop (sp + minMatch + ml) dst) (sp + minMatch + ml)"
proof -
  let ?lits = "slice src a sp" and ?t = "litToken (sp - a) OR matchToken ml" and ?off = "sp - ref"
  have ll: "length ?lits = sp - a" using fin a by simp
  let ?r1 = "?lits @ matchBytes ?off ml @ rest"
  have 1: "nibbleLen (unat (drop_bit 4 ?t)) (extLen (length ?lits) @ ?r1) = (sp - a, ?r1)"
    by (simp only: seqToken_fields nibble_decode ll)
  have off: "unat (of_nat ?off :: byte) + 256 * unat (of_nat (?off div 256) :: byte) = ?off"
    using ref(2) by (simp add: unat_of_nat)
  have 2: "nibbleLen (unat (?t AND 0x0F)) (extLen ml @ rest) = (ml, rest)"
    by (simp only: seqToken_fields nibble_decode)
  have c: "copyMatch (ml + minMatch) (take sp src @ drop sp dst) sp (sp - ?off) =
      take (sp + minMatch + ml) src @ drop (sp + minMatch + ml) dst"
    using copyMatch_eq [of sp "minMatch + ml" src dst ref] fin len ref(1) eq by (simp add: ac_simps)
  have r2: "drop (sp - a) ?r1 = matchBytes ?off ml @ rest" using ll by simp
  show ?thesis
    using 1 2 off c r2 copy_literals [OF a _ len] fin ref a len ll
    by (auto simp: litBytes_def matchBytes_def Let_def ac_simps)
qed

lemma decode_last:
  assumes len: "length dst = length src" and a: "a \<le> length src"
  shows "decompressLoop (litBytes (litToken (length src - a)) (drop a src)) (take a src @ drop a dst) a = Inr (length src, src)"
proof -
  have s: "slice src a (length src) = drop a src" by (simp add: slice_def)
  have "nibbleLen (unat (drop_bit 4 (litToken (length src - a)))) (extLen (length src - a) @ drop a src) = (length src - a, drop a src)"
    by (simp only: seqToken_fields nibble_decode)
  then show ?thesis
    using copy_literals [of a "length src" src dst] assms by (simp add: litBytes_def Let_def s)
qed

section \<open>The encoder\<close>

declare matchFrom.simps [simp del]

lemma matchFrom_spec:
  assumes "cur + n \<le> fin" "\<forall>j < n. src ! (ref + j) = src ! (cur + j)"
  shows "cur + matchFrom src ref cur fin n \<le> fin \<and> (\<forall>j < matchFrom src ref cur fin n. src ! (ref + j) = src ! (cur + j))"
  using assms
proof (induction src ref cur fin n rule: matchFrom.induct)
  case (1 src ref cur fin n)
  show ?case
  proof (cases "cur + n < fin \<and> ref + n < fin \<and> src ! (ref + n) = src ! (cur + n)")
    case True
    then have "\<forall>j < Suc n. src ! (ref + j) = src ! (cur + j)" using 1(3) by (auto simp: less_Suc_eq)
    moreover have "matchFrom src ref cur fin n = matchFrom src ref cur fin (Suc n)"
      using True by (subst matchFrom.simps) simp
    ultimately show ?thesis using 1(1) [OF True] True by simp
  next
    case False
    then have "matchFrom src ref cur fin n = n" by (subst matchFrom.simps) auto
    then show ?thesis using 1(2,3) by simp
  qed
qed

lemma read32_eq:
  assumes "read32 (drop r src) = read32 (drop s src)" "r + 4 \<le> length src" "s + 4 \<le> length src"
  shows "\<forall>j < minMatch. src ! (r + j) = src ! (s + j)"
proof -
  have "put_u32 (get_u32 (take 4 (drop i src))) = take 4 (drop i src)" if "i + 4 \<le> length src" for i
    using that by (intro put_get) simp
  moreover have "get_u32 (take 4 (drop i src)) = read32 (drop i src)" for i by (simp add: read32_def get_u32_def)
  ultimately have "take 4 (drop r src) = take 4 (drop s src)" using assms by metis
  then show ?thesis using assms(2,3)
    by (simp add: minMatch_def) (metis (no_types, lifting) add_leD1 nth_drop nth_take)
qed

text \<open>What is known of the loop state: the bytes written decode to the source up to \<^verbatim>\<open>anchor\<close>.\<close>

definition decodesTo :: "bytes \<Rightarrow> bytes \<Rightarrow> nat \<Rightarrow> bool" where
  "decodesTo src out a \<longleftrightarrow>
    (\<forall>dst rest. length dst = length src \<longrightarrow>
       decompressLoop (out @ rest) dst 0 = decompressLoop rest (take a src @ drop a dst) a)"

definition lz4_inv :: "bytes \<Rightarrow> (u32 \<Rightarrow> u32) \<Rightarrow> bytes \<Rightarrow> nat \<Rightarrow> nat \<Rightarrow> bool" where
  "lz4_inv src tbl out sp anchor \<longleftrightarrow> anchor \<le> sp \<and> sp \<le> length src \<and> (\<forall>h. tbl h = 0 \<or> unat (tbl h) < sp) \<and>
     length out \<le> anchor + anchor div 255 \<and> decodesTo src out anchor"

lemma lz4_inv_init: "lz4_inv src (\<lambda>_. 0) [] 0 0"
  by (simp add: lz4_inv_def decodesTo_def)

lemma unat_of_nat_le: "unat (of_nat n :: u32) \<le> n"
  by (simp add: unat_of_nat)

lemma lz4_note_lt: "\<forall>h. tbl h = 0 \<or> unat (tbl h) < m \<Longrightarrow> sp < m \<Longrightarrow> lz4_note src tbl sp h = 0 \<or> unat (lz4_note src tbl sp h) < m"
  using unat_of_nat_le [of sp] by (auto simp: lz4_note_def)

lemma lz4_inv_skip:
  assumes "lz4_inv src tbl out sp anchor" "sp < length src"
  shows "lz4_inv src (lz4_note src tbl sp) out (sp + 1) anchor"
  using assms lz4_note_lt [of tbl "sp + 1" sp src] by (auto simp: lz4_inv_def less_Suc_eq_le intro: less_imp_le)

lemma lz4_inv_match:
  assumes inv: "lz4_inv src tbl out sp anchor" and ref: "0 < ref" "ref < sp" "sp - ref < 65536"
    and eq: "\<forall>j < minMatch. src ! (ref + j) = src ! (sp + j)" and room: "sp + minMatch \<le> length src"
    and ml: "ml = matchLength src (ref + minMatch) (sp + minMatch) (length src)"
    and tbl: "\<forall>h. tbl' h = 0 \<or> unat (tbl' h) < sp + minMatch + ml"
  shows "lz4_inv src tbl' (out @ litBytes (litToken (sp - anchor) OR matchToken ml) (slice src anchor sp) @ matchBytes (sp - ref) ml)
    (sp + minMatch + ml) (sp + minMatch + ml)"
proof -
  let ?s = "sp + minMatch + ml"
  have m: "sp + minMatch + ml \<le> length src" "\<forall>j < ml. src ! (ref + minMatch + j) = src ! (sp + minMatch + j)"
    using matchFrom_spec [of "sp + minMatch" 0 "length src" src "ref + minMatch"] room by (simp_all add: ml matchLength_def)
  have all: "\<forall>j < minMatch + ml. src ! (ref + j) = src ! (sp + j)"
  proof (intro allI impI)
    fix j assume "j < minMatch + ml"
    then show "src ! (ref + j) = src ! (sp + j)"
      using eq m(2) [rule_format, of "j - minMatch"] by (cases "j < minMatch") auto
  qed
  have a: "anchor \<le> sp" and o: "length out \<le> anchor + anchor div 255" and d: "decodesTo src out anchor"
    using inv by (auto simp: lz4_inv_def)
  let ?seq = "litBytes (litToken (sp - anchor) OR matchToken ml) (slice src anchor sp) @ matchBytes (sp - ref) ml"
  have "decodesTo src (out @ ?seq) ?s"
    using d decode_sequence [OF _ a ref(2,3) m(1) all] by (simp add: decodesTo_def)
  moreover have "length ?seq \<le> (sp - anchor) + minMatch + ml + (sp - anchor) div 255"
    using seq_length [of _ "slice src anchor sp" "sp - ref" ml] a room by simp
  moreover have "anchor div 255 + (sp - anchor) div 255 \<le> ?s div 255"
  proof -
    have "anchor div 255 + (sp - anchor) div 255 \<le> (anchor + (sp - anchor)) div 255" by (rule div_255_add)
    also have "\<dots> \<le> ?s div 255" using a by (intro div_le_mono) simp
    finally show ?thesis .
  qed
  ultimately have "length (out @ ?seq) \<le> ?s + ?s div 255" "decodesTo src (out @ ?seq) ?s"
    using o a by (simp_all only: length_append) linarith+
  then show ?thesis using tbl m(1) by (simp add: lz4_inv_def)
qed

declare lz4_loop.simps [simp del]

text \<open>With room for the worst case the loop returns, and what it wrote decodes to the source so far.\<close>

lemma lz4_emit_ok:
  assumes inv: "lz4_inv src tbl out sp anchor" and cap: "length src + length src div 255 \<le> cap"
    and room: "sp + lastLiterals + minMatch \<le> length src" and hit: "lz4_hit src (lz4_ref src tbl sp) sp"
  obtains d sp1 where "lz4_emit cap src out anchor sp (lz4_ref src tbl sp) = Some (d, sp1)"
    "lz4_inv src (lz4_renote src (lz4_note src tbl sp) sp1) d sp1 sp1"
proof -
  let ?ref = "lz4_ref src tbl sp"
  let ?lits = "slice src anchor sp" and ?ml = "matchLength src (?ref + minMatch) (sp + minMatch) (length src)"
  let ?token = "litToken (length ?lits) OR matchToken ?ml" and ?sp1 = "sp + minMatch + ?ml"
  let ?tbl = "lz4_renote src (lz4_note src tbl sp) ?sp1"
  have t1: "\<forall>h. tbl h = 0 \<or> unat (tbl h) < sp" using inv by (simp add: lz4_inv_def)
  have a: "anchor \<le> sp" "sp \<le> length src" using inv by (auto simp: lz4_inv_def)
  have pos: "0 < ?ref" using hit by (simp add: lz4_hit_def)
  then have lt: "?ref < sp" using t1 [rule_format, of "hashU32 (read32 (drop sp src))"] by (auto simp: lz4_ref_def)
  have ll: "length ?lits = sp - anchor" using a by simp
  have "\<not> int sp - int ?ref \<ge> winSize" using hit by (simp add: lz4_hit_def)
  then have w: "sp - ?ref < 65536" unfolding winSize_def by linarith
  have four: "sp + minMatch \<le> length src" using room by simp
  have eq: "\<forall>j < minMatch. src ! (?ref + j) = src ! (sp + j)"
    using read32_eq [of ?ref src sp] hit lt four by (simp add: minMatch_def lz4_hit_def)
  have "\<forall>h. tbl h = 0 \<or> unat (tbl h) < ?sp1" using t1 by (auto intro: less_le_trans)
  then have "\<forall>h. lz4_note src tbl sp h = 0 \<or> unat (lz4_note src tbl sp h) < ?sp1"
    using lz4_note_lt [of tbl ?sp1 sp src] by (simp add: minMatch_def)
  then have t2: "\<forall>h. ?tbl h = 0 \<or> unat (?tbl h) < ?sp1"
    using lz4_note_lt [of "lz4_note src tbl sp" ?sp1 "?sp1 - 2" src] by (simp add: lz4_renote_def minMatch_def)
  let ?out1 = "out @ litBytes ?token ?lits" and ?off = "sp - ?ref"
  let ?out2 = "?out1 @ matchBytes ?off ?ml"
  have nxt: "lz4_inv src ?tbl ?out2 ?sp1 ?sp1"
    using lz4_inv_match [OF inv pos lt w eq four refl t2] by (simp only: ll append_assoc)
  then have "length ?out2 \<le> ?sp1 + ?sp1 div 255" "?sp1 \<le> length src" by (simp_all only: lz4_inv_def)
  then have "length ?out2 \<le> cap" using cap div_le_mono [of ?sp1 "length src" 255] by linarith
  then have e: "emitLiterals cap out ?token ?lits = Some ?out1" "emitMatch cap ?out1 (int ?off) ?ml = Some ?out2"
    by (intro emitLiterals_eq emitMatch_eq; simp)+
  have off: "int sp - int ?ref = int ?off" using lt by simp
  have "lz4_emit cap src out anchor sp ?ref = Some (?out2, ?sp1)"
    unfolding lz4_emit_def Let_def off using e by simp
  then show ?thesis using that nxt by blast
qed

lemma lz4_loop_ok:
  assumes "lz4_inv src tbl out sp anchor" "length src + length src div 255 \<le> cap"
  shows "\<exists>out' a. lz4_loop cap src tbl out sp anchor = Some (out', a) \<and> a \<le> length src \<and>
    length out' \<le> a + a div 255 \<and> decodesTo src out' a"
  using assms
proof (induction cap src tbl out sp anchor rule: lz4_loop.induct)
  case (1 cap src tbl out sp anchor)
  note inv = 1(3) and cap = 1(4)
  consider "sp + lastLiterals + minMatch > length src"
    | "\<not> sp + lastLiterals + minMatch > length src" "\<not> lz4_hit src (lz4_ref src tbl sp) sp"
    | "\<not> sp + lastLiterals + minMatch > length src" "lz4_hit src (lz4_ref src tbl sp) sp" by blast
  then show ?case
  proof cases
    case 1
    then show ?thesis using inv by (subst lz4_loop.simps) (simp add: lz4_inv_def)
  next
    case 2
    have "lz4_inv src (lz4_note src tbl sp) out (sp + 1) anchor"
      using lz4_inv_skip [OF inv] 2(1) by (simp add: minMatch_def lastLiterals_def)
    then show ?thesis using 1(1) [OF 2 _ cap] 2 by (subst lz4_loop.simps) (simp only: if_False if_True not_False_eq_True)
  next
    case 3
    then have "sp + lastLiterals + minMatch \<le> length src" by simp
    from lz4_emit_ok [OF inv cap this 3(2)] obtain d sp1 where
      e: "lz4_emit cap src out anchor sp (lz4_ref src tbl sp) = Some (d, sp1)"
      "lz4_inv src (lz4_renote src (lz4_note src tbl sp) sp1) d sp1 sp1" .
    have "\<not> \<not> lz4_hit src (lz4_ref src tbl sp) sp" using 3(2) by simp
    from 1(2) [OF 3(1) this e(1) refl e(2) cap] show ?thesis using 3 e(1) by (subst lz4_loop.simps) simp
  qed
qed

lemma compressBlock_ok:
  assumes "length src + length src div 255 + 16 \<le> cap"
  shows "\<exists>c. compressBlock cap src = Some c \<and>
    (c \<noteq> [] \<longrightarrow> (\<forall>dst. length dst = length src \<longrightarrow> decompressBlock dst c = Inr (length src, src)))"
proof (cases "length src < minMatch + lastLiterals")
  case True
  then show ?thesis by (simp add: compressBlock_def)
next
  case False
  obtain out a where l: "lz4_loop cap src (\<lambda>_. 0) [] 0 0 = Some (out, a)" "a \<le> length src"
    "length out \<le> a + a div 255" "decodesTo src out a"
    using lz4_loop_ok [OF lz4_inv_init, of src cap] assms by auto
  let ?c = "out @ litBytes (litToken (length src - a)) (drop a src)"
  have "length (litBytes (litToken (length src - a)) (drop a src)) \<le> (length src - a) + (length src - a) div 255 + 2"
    by (simp add: litBytes_def extLen_def div_le_mono)
  moreover have "a div 255 + (length src - a) div 255 \<le> length src div 255"
    using l(2) div_255_add [of a "length src - a"] by simp
  ultimately have "length ?c \<le> cap" using l(2,3) assms unfolding length_append by linarith
  then have e: "emitLiterals cap out (litToken (length src - a)) (drop a src) = Some ?c"
    by (intro emitLiterals_eq) simp
  have "decompressBlock dst ?c = Inr (length src, src)" if "length dst = length src" for dst
    using l(4) decode_last [OF that l(2)] that by (simp add: decompressBlock_def decodesTo_def)
  then show ?thesis using False l(1) e by (auto simp: compressBlock_def Let_def)
qed

section \<open>Properties\<close>

lemma classFor_fits: "classFor n = Some cls \<Longrightarrow> n \<le> poolClasses ! cls"
  by (auto simp: classFor_def find_Some_iff)

lemma pool_get_length: "n \<le> length (pool_get pooled n)"
  by (auto simp: pool_get_def split: option.splits dest: classFor_fits)

lemma lz4_lossless:
  "\<exists>r. lz4_Compress minSize pool1 src = Some r \<and>
     (\<forall>c. r = Some c \<longrightarrow> length c < length src \<and> lz4_Decompress pool2 c = Inr src)"
proof (cases "int (length src) < minSize \<or> length src > maxInputSize")
  case True
  then show ?thesis by (simp add: lz4_Compress_def Let_def)
next
  case False
  let ?n = "length src" and ?buf = "pool_get pool1 (sizePrefix + length src + length src div 255 + 16)"
  have n: "?n \<le> maxInputSize" using False by simp
  have "?n + ?n div 255 + 16 \<le> length ?buf - sizePrefix"
    using pool_get_length [of "sizePrefix + ?n + ?n div 255 + 16" pool1] by simp
  then obtain c where c: "compressBlock (length ?buf - sizePrefix) src = Some c"
    "c \<noteq> [] \<Longrightarrow> length dst = ?n \<Longrightarrow> decompressBlock dst c = Inr (?n, src)" for dst
    using compressBlock_ok by blast
  have "unat (of_nat ?n :: u32) = ?n" using n by (intro unat_of_nat_u32) (simp add: maxInputSize_def)
  moreover have "length (take ?n (pool_get pool2 ?n)) = ?n" using pool_get_length [of ?n pool2] by simp
  ultimately have "lz4_Decompress pool2 (put_u32 (of_nat ?n) @ c) = Inr src" if "c \<noteq> []"
    using c(2) [OF that] n by (simp add: lz4_Decompress_def sizePrefix_def Let_def)
  then show ?thesis
    using c(1) False by (auto simp: lz4_Compress_def Let_def sizePrefix_def)
qed

text \<open>
  C29. Compression is lossless whatever the buffer pool hands out: \<^verbatim>\<open>LZ4.Compress\<close> never writes past its
  buffer, and when it accepts a value, the result is shorter than the value and \<^verbatim>\<open>LZ4.Decompress\<close>
  returns the value.
\<close>

theorem LZ4_roundtrip:
  "\<exists>r. lz4_Compress minSize pool1 src = Some r \<and>
     (\<forall>c. r = Some c \<longrightarrow> length c < length src \<and> lz4_Decompress pool2 c = Inr src)"
  by (rule lz4_lossless)

theorem LZ4_roundtrip_witness:
  "\<exists>c. lz4_Compress 8 (Some (replicate 64 0)) (replicate 24 7) = Some (Some c) \<and> length c < 24 \<and>
     lz4_Decompress (Some (replicate 64 1)) c = Inr (replicate 24 7)"
proof -
  obtain r where r: "lz4_Compress 8 (Some (replicate 64 0)) (replicate 24 7) = Some r"
    "\<forall>c. r = Some c \<longrightarrow> length c < length (replicate 24 (7 :: byte)) \<and> lz4_Decompress (Some (replicate 64 1)) c = Inr (replicate 24 7)"
    using LZ4_roundtrip by blast
  have "map_option (\<lambda>c. c \<noteq> [] \<and> length c < 20) (compressBlock 60 (replicate 24 7)) = Some True" by code_simp
  then obtain c where "compressBlock 60 (replicate 24 7) = Some c" "c \<noteq> []" "length c < 20" by auto
  moreover have "classFor 44 = Some 0" by (simp add: classFor_def poolClasses_def upt_rec)
  ultimately have "\<exists>c. lz4_Compress 8 (Some (replicate 64 0)) (replicate 24 7) = Some (Some c)"
    by (simp add: lz4_Compress_def Let_def maxInputSize_def sizePrefix_def pool_get_def)
  then show ?thesis using r by auto
qed

lemma length_copyMatch [simp]: "length (copyMatch k dst dp mp) = length dst"
  by (induction k arbitrary: dst dp mp) simp_all

declare decompressLoop.simps(2) [simp del]

lemma decompressLoop_bounds:
  assumes "decompressLoop r dst dp = Inr (n, dst')" "dp \<le> length dst"
  shows "length dst' = length dst \<and> n \<le> length dst"
  using assms
proof (induction r dst dp rule: decompressLoop.induct)
  case (2 token r0 dst dp)
  obtain litLen r1 where l: "nibbleLen (unat (drop_bit 4 token)) r0 = (litLen, r1)" by force
  let ?dst1 = "copy_at dst dp (take litLen r1)" and ?r2 = "drop litLen r1" and ?dp1 = "dp + litLen"
  obtain ml r4 where m: "nibbleLen (unat (token AND 0x0F)) (drop 2 ?r2) = (ml, r4)" by force
  let ?off = "unat (?r2 ! 0) + 256 * unat (?r2 ! 1)"
  note run = 2(2) [unfolded decompressLoop.simps(2) [of token r0 dst dp] l prod.case Let_def]
  have c1: "\<not> (litLen > 0 \<and> (litLen > length r1 \<or> dp + litLen > length dst))" using run by (auto split: if_splits)
  have d1: "length ?dst1 = length dst" "?dp1 \<le> length dst" using c1 2(3) by (cases "litLen = 0"; simp)+
  show ?case
  proof (cases "?r2 = []")
    case True
    then show ?thesis using run c1 d1 by (auto split: if_splits)
  next
    case False
    have c2: "\<not> length ?r2 < 2" using run c1 False by (auto split: if_splits)
    have c3: "?off \<noteq> 0" using run c1 False c2 by (auto split: if_splits)
    have c4: "\<not> (?dp1 < ?off \<or> ?dp1 + (ml + minMatch) > length dst)"
      using run c1 False c2 c3 unfolding m prod.case by (simp only: if_False not_False_eq_True sum.distinct split: if_splits)
    have go: "decompressLoop r4 (copyMatch (ml + minMatch) ?dst1 ?dp1 (?dp1 - ?off)) (?dp1 + (ml + minMatch)) = Inr (n, dst')"
      using run c1 False c2 c3 c4 unfolding m prod.case by (simp only: if_False)
    have "?dp1 + (ml + minMatch) \<le> length (copyMatch (ml + minMatch) ?dst1 ?dp1 (?dp1 - ?off))" using c4 unfolding length_copyMatch d1(1) by simp
    from 2(1) [OF l [symmetric] refl c1 refl refl refl False c2 refl c3 m [symmetric] refl refl c4 go this]
    show ?thesis unfolding length_copyMatch d1(1) .
  qed
qed simp



end
