(* ===== verification/Cipher.thy ===== *)
theory Cipher
  imports Horreum_Prelude
begin

text \<open>
  \<^verbatim>\<open>internal/encrypt/encrypt.go\<close>: the optional value cipher.  The AES-256-GCM construction of the Go standard
  library is written out (\<open>aes256\<close>, \<open>gcm_Seal\<close>, \<open>gcm_Open\<close> for 12-byte nonces and no additional data); the
  random nonce is the argument \<open>nonce\<close>, and \<open>None\<close> is a failing random source.

  Decryption undoes encryption under the same key, and every ciphertext that does not carry the tag of its
  bytes is rejected.
\<close>

section \<open>Definitions\<close>

subsection \<open>AES-256\<close>

definition sbox :: "byte list" where
  "sbox =
    [0x63, 0x7c, 0x77, 0x7b, 0xf2, 0x6b, 0x6f, 0xc5, 0x30, 0x01, 0x67, 0x2b, 0xfe, 0xd7, 0xab, 0x76,
     0xca, 0x82, 0xc9, 0x7d, 0xfa, 0x59, 0x47, 0xf0, 0xad, 0xd4, 0xa2, 0xaf, 0x9c, 0xa4, 0x72, 0xc0,
     0xb7, 0xfd, 0x93, 0x26, 0x36, 0x3f, 0xf7, 0xcc, 0x34, 0xa5, 0xe5, 0xf1, 0x71, 0xd8, 0x31, 0x15,
     0x04, 0xc7, 0x23, 0xc3, 0x18, 0x96, 0x05, 0x9a, 0x07, 0x12, 0x80, 0xe2, 0xeb, 0x27, 0xb2, 0x75,
     0x09, 0x83, 0x2c, 0x1a, 0x1b, 0x6e, 0x5a, 0xa0, 0x52, 0x3b, 0xd6, 0xb3, 0x29, 0xe3, 0x2f, 0x84,
     0x53, 0xd1, 0x00, 0xed, 0x20, 0xfc, 0xb1, 0x5b, 0x6a, 0xcb, 0xbe, 0x39, 0x4a, 0x4c, 0x58, 0xcf,
     0xd0, 0xef, 0xaa, 0xfb, 0x43, 0x4d, 0x33, 0x85, 0x45, 0xf9, 0x02, 0x7f, 0x50, 0x3c, 0x9f, 0xa8,
     0x51, 0xa3, 0x40, 0x8f, 0x92, 0x9d, 0x38, 0xf5, 0xbc, 0xb6, 0xda, 0x21, 0x10, 0xff, 0xf3, 0xd2,
     0xcd, 0x0c, 0x13, 0xec, 0x5f, 0x97, 0x44, 0x17, 0xc4, 0xa7, 0x7e, 0x3d, 0x64, 0x5d, 0x19, 0x73,
     0x60, 0x81, 0x4f, 0xdc, 0x22, 0x2a, 0x90, 0x88, 0x46, 0xee, 0xb8, 0x14, 0xde, 0x5e, 0x0b, 0xdb,
     0xe0, 0x32, 0x3a, 0x0a, 0x49, 0x06, 0x24, 0x5c, 0xc2, 0xd3, 0xac, 0x62, 0x91, 0x95, 0xe4, 0x79,
     0xe7, 0xc8, 0x37, 0x6d, 0x8d, 0xd5, 0x4e, 0xa9, 0x6c, 0x56, 0xf4, 0xea, 0x65, 0x7a, 0xae, 0x08,
     0xba, 0x78, 0x25, 0x2e, 0x1c, 0xa6, 0xb4, 0xc6, 0xe8, 0xdd, 0x74, 0x1f, 0x4b, 0xbd, 0x8b, 0x8a,
     0x70, 0x3e, 0xb5, 0x66, 0x48, 0x03, 0xf6, 0x0e, 0x61, 0x35, 0x57, 0xb9, 0x86, 0xc1, 0x1d, 0x9e,
     0xe1, 0xf8, 0x98, 0x11, 0x69, 0xd9, 0x8e, 0x94, 0x9b, 0x1e, 0x87, 0xe9, 0xce, 0x55, 0x28, 0xdf,
     0x8c, 0xa1, 0x89, 0x0d, 0xbf, 0xe6, 0x42, 0x68, 0x41, 0x99, 0x2d, 0x0f, 0xb0, 0x54, 0xbb, 0x16]"

definition subByte :: "byte \<Rightarrow> byte" where
  "subByte b = sbox ! unat b"

definition xtime :: "byte \<Rightarrow> byte" where
  "xtime b = (if bit b 7 then push_bit 1 b XOR 0x1b else push_bit 1 b)"

definition xorBytes :: "bytes \<Rightarrow> bytes \<Rightarrow> bytes" where
  "xorBytes = map2 (XOR)"

text \<open>Key expansion: the words of the schedule, the most recent one first.\<close>

fun keyWords :: "nat \<Rightarrow> byte \<Rightarrow> nat \<Rightarrow> bytes list \<Rightarrow> bytes list" where
  "keyWords 0 rcon i ws = rev ws"
| "keyWords (Suc n) rcon i ws =
    (let w = ws ! 0;
         t = (if i mod 8 = 0 then xorBytes (map subByte (rotate1 w)) [rcon, 0, 0, 0]
              else if i mod 8 = 4 then map subByte w else w)
     in keyWords n (if i mod 8 = 0 then xtime rcon else rcon) (Suc i) (xorBytes (ws ! 7) t # ws))"

fun chunks4 :: "bytes \<Rightarrow> bytes list" where
  "chunks4 (a # b # c # d # bs) = [a, b, c, d] # chunks4 bs"
| "chunks4 _ = []"

definition expandKey :: "bytes \<Rightarrow> bytes list" where
  "expandKey key = keyWords 52 1 8 (rev (chunks4 key))"

definition roundKey :: "bytes list \<Rightarrow> nat \<Rightarrow> bytes" where
  "roundKey ws r = concat (slice ws (4 * r) (4 * r + 4))"

definition shiftRows :: "bytes \<Rightarrow> bytes" where
  "shiftRows s = map (\<lambda>i. s ! i) [0, 5, 10, 15, 4, 9, 14, 3, 8, 13, 2, 7, 12, 1, 6, 11]"

fun mixColumns :: "bytes \<Rightarrow> bytes" where
  "mixColumns (a # b # c # d # bs) =
    [xtime a XOR (xtime b XOR b) XOR c XOR d, a XOR xtime b XOR (xtime c XOR c) XOR d,
     a XOR b XOR xtime c XOR (xtime d XOR d), (xtime a XOR a) XOR b XOR c XOR xtime d] @ mixColumns bs"
| "mixColumns _ = []"

definition aesRound :: "bytes list \<Rightarrow> bytes \<Rightarrow> nat \<Rightarrow> bytes" where
  "aesRound ws s r = xorBytes (mixColumns (shiftRows (map subByte s))) (roundKey ws r)"

definition aes256 :: "bytes \<Rightarrow> bytes \<Rightarrow> bytes" where
  "aes256 key blk =
    (let ws = expandKey key; s = foldl (aesRound ws) (xorBytes blk (roundKey ws 0)) [1..<14]
     in xorBytes (shiftRows (map subByte s)) (roundKey ws 14))"

subsection \<open>GCM\<close>

definition beWord :: "bytes \<Rightarrow> 128 word" where
  "beWord bs = le_word (rev bs)"

definition beBytes :: "128 word \<Rightarrow> bytes" where
  "beBytes w = rev (le_bytes 16 w)"

fun gf_loop :: "nat \<Rightarrow> 128 word \<Rightarrow> 128 word \<Rightarrow> 128 word \<Rightarrow> 128 word" where
  "gf_loop 0 x v z = z"
| "gf_loop (Suc i) x v z =
    gf_loop i x (if bit v 0 then drop_bit 1 v XOR 0xE1000000000000000000000000000000 else drop_bit 1 v)
      (if bit x i then z XOR v else z)"

definition gf_mult :: "128 word \<Rightarrow> 128 word \<Rightarrow> 128 word" where
  "gf_mult x y = gf_loop 128 x y 0"

function ghash :: "128 word \<Rightarrow> 128 word \<Rightarrow> bytes \<Rightarrow> 128 word" where
  "ghash h y bs =
    (if bs = [] then y
     else ghash h (gf_mult (y XOR beWord (take 16 bs @ replicate (16 - length bs) 0)) h) (drop 16 bs))"
  by pat_completeness auto
termination by (relation "measure (\<lambda>(h, y, bs). length bs)") auto

text \<open>The counter block for a 12-byte nonce; counter 1 masks the tag, the text starts at counter 2.\<close>

definition ctrBlock :: "bytes \<Rightarrow> u32 \<Rightarrow> bytes" where
  "ctrBlock nonce c = nonce @ rev (le_bytes 4 c)"

function gctr :: "bytes \<Rightarrow> bytes \<Rightarrow> u32 \<Rightarrow> bytes \<Rightarrow> bytes" where
  "gctr key nonce c bs =
    (if bs = [] then []
     else xorBytes (take 16 bs) (aes256 key (ctrBlock nonce c)) @ gctr key nonce (c + 1) (drop 16 bs))"
  by pat_completeness auto
termination by (relation "measure (\<lambda>(key, nonce, c, bs). length bs)") auto

definition gcm_tag :: "bytes \<Rightarrow> bytes \<Rightarrow> bytes \<Rightarrow> bytes" where
  "gcm_tag key nonce ct =
    (let h = beWord (aes256 key (replicate 16 0));
         s = gf_mult (ghash h 0 ct XOR of_nat (8 * length ct)) h
     in xorBytes (beBytes s) (aes256 key (ctrBlock nonce 1)))"

definition gcm_Seal :: "bytes \<Rightarrow> bytes \<Rightarrow> bytes \<Rightarrow> bytes" where
  "gcm_Seal key nonce pt = (let ct = gctr key nonce 2 pt in ct @ gcm_tag key nonce ct)"

definition gcm_Open :: "bytes \<Rightarrow> bytes \<Rightarrow> bytes \<Rightarrow> bytes option" where
  "gcm_Open key nonce c =
    (if length c < 16 then None
     else
       let ct = take (length c - 16) c
       in if drop (length c - 16) c \<noteq> gcm_tag key nonce ct then None else Some (gctr key nonce 2 ct))"

subsection \<open>The ciphers\<close>

datatype encrypt_error = ErrKeyLength nat | ErrNonce | ErrTooShort | ErrAuth | ErrReadKey

definition nonceSize :: nat where "nonceSize = 12"
definition gcmOverhead :: nat where "gcmOverhead = 16"

definition NewAESGCM :: "bytes \<Rightarrow> encrypt_error + bytes" where
  "NewAESGCM key = (if length key \<noteq> 32 then Inl (ErrKeyLength (length key)) else Inr key)"

definition aes_Encrypt :: "bytes \<Rightarrow> bytes option \<Rightarrow> bytes \<Rightarrow> bytes \<Rightarrow> encrypt_error + bytes" where
  "aes_Encrypt key nonce dst src =
    (case nonce of None \<Rightarrow> Inl ErrNonce | Some n \<Rightarrow> Inr (dst @ n @ gcm_Seal key n src))"

definition aes_Decrypt :: "bytes \<Rightarrow> bytes \<Rightarrow> bytes \<Rightarrow> encrypt_error + bytes" where
  "aes_Decrypt key dst src =
    (if length src < nonceSize + gcmOverhead then Inl ErrTooShort
     else case gcm_Open key (take nonceSize src) (drop nonceSize src) of
            None \<Rightarrow> Inl ErrAuth
          | Some pt \<Rightarrow> Inr (dst @ pt))"

definition noop_Encrypt :: "bytes \<Rightarrow> bytes \<Rightarrow> encrypt_error + bytes" where
  "noop_Encrypt dst src = Inr (dst @ src)"

definition noop_Decrypt :: "bytes \<Rightarrow> bytes \<Rightarrow> encrypt_error + bytes" where
  "noop_Decrypt dst src = Inr (dst @ src)"

text \<open>\<^verbatim>\<open>os.ReadFile\<close> is the argument \<open>readFile\<close>.\<close>

definition LoadKey :: "(string \<Rightarrow> bytes option) \<Rightarrow> string \<Rightarrow> encrypt_error + bytes" where
  "LoadKey readFile path =
    (case readFile path of
       None \<Rightarrow> Inl ErrReadKey
     | Some key \<Rightarrow> if length key \<noteq> 32 then Inl (ErrKeyLength (length key)) else Inr key)"

section \<open>The counter mode\<close>

declare gctr.simps [simp del] ghash.simps [simp del]

lemma length_xorBytes [simp]: "length (xorBytes xs ys) = min (length xs) (length ys)"
  by (simp add: xorBytes_def)

lemma xorBytes_twice: "length xs \<le> length ks \<Longrightarrow> xorBytes (xorBytes xs ks) ks = xs"
  by (rule nth_equalityI) (auto simp: xorBytes_def xor.assoc)

lemma length_mixColumns: "length s = 4 * n \<Longrightarrow> length (mixColumns s) = 4 * n"
  by (induction s arbitrary: n rule: mixColumns.induct) (auto simp: Suc_diff_Suc; case_tac n; simp)+

lemma keyWords_lengths:
  assumes "\<forall>w \<in> set ws. length w = 4" "8 \<le> length ws"
  shows "length (keyWords n rcon i ws) = n + length ws \<and> (\<forall>w \<in> set (keyWords n rcon i ws). length w = 4)"
  using assms
proof (induction n arbitrary: rcon i ws)
  case (Suc n)
  have w: "length (ws ! 0) = 4" "length (ws ! 7) = 4" using Suc.prems by (auto intro!: bspec [OF Suc.prems(1)] nth_mem)
  let ?t = "if i mod 8 = 0 then xorBytes (map subByte (rotate1 (ws ! 0))) [rcon, 0, 0, 0]
    else if i mod 8 = 4 then map subByte (ws ! 0) else ws ! 0"
  have "length (xorBytes (ws ! 7) ?t) = 4" using w by simp
  then have "\<forall>w \<in> set (xorBytes (ws ! 7) ?t # ws). length w = 4" "8 \<le> length (xorBytes (ws ! 7) ?t # ws)"
    using Suc.prems by simp_all
  from Suc.IH [OF this, of "if i mod 8 = 0 then xtime rcon else rcon" "Suc i"] show ?case by (simp add: Let_def)
qed simp

lemma chunks4_lengths: "length bs = 4 * n \<Longrightarrow> length (chunks4 bs) = n \<and> (\<forall>w \<in> set (chunks4 bs). length w = 4)"
  by (induction bs arbitrary: n rule: chunks4.induct) (auto; case_tac n; simp)+

lemma concat_lengths: "\<forall>w \<in> set ws. length w = 4 \<Longrightarrow> length (concat ws) = 4 * length ws"
  by (induction ws) auto

lemma roundKey_length:
  assumes "length key = 32" "r \<le> 14"
  shows "length (roundKey (expandKey key) r) = 16"
proof -
  have c: "length (chunks4 key) = 8" "\<forall>w \<in> set (chunks4 key). length w = 4" using chunks4_lengths [of key 8] assms(1) by auto
  have e: "length (expandKey key) = 60" "\<forall>w \<in> set (expandKey key). length w = 4"
    using keyWords_lengths [of "rev (chunks4 key)" 52 1 8] c by (auto simp: expandKey_def)
  have "set (slice (expandKey key) (4 * r) (4 * r + 4)) \<subseteq> set (expandKey key)"
    by (auto simp: slice_def dest: in_set_takeD in_set_dropD)
  then have "length (roundKey (expandKey key) r) = 4 * length (slice (expandKey key) (4 * r) (4 * r + 4))"
    unfolding roundKey_def using e(2) by (intro concat_lengths) blast
  then show ?thesis using e(1) assms(2) by simp
qed

lemma aesRound_length:
  assumes "length key = 32" "r \<le> 14"
  shows "length (aesRound (expandKey key) s r) = 16"
proof -
  have "length (mixColumns (shiftRows (map subByte s))) = 16" using length_mixColumns [of "shiftRows (map subByte s)" 4] by (simp add: shiftRows_def)
  then show ?thesis using roundKey_length [OF assms] by (simp add: aesRound_def)
qed

lemma aes256_length:
  assumes "length key = 32"
  shows "length (aes256 key blk) = 16"
  using roundKey_length [OF assms, of 14] by (simp add: aes256_def Let_def shiftRows_def)

lemma length_gctr: "length key = 32 \<Longrightarrow> length (gctr key nonce c bs) = length bs"
proof (induction key nonce c bs rule: gctr.induct)
  case (1 key nonce c bs)
  then show ?case by (subst gctr.simps) (auto simp: aes256_length)
qed

lemma gctr_twice:
  assumes "length key = 32"
  shows "gctr key nonce c (gctr key nonce c bs) = bs"
  using assms
proof (induction key nonce c bs rule: gctr.induct)
  case (1 key nonce c bs)
  show ?case
  proof (cases "bs = []")
    case True
    then show ?thesis by (simp add: gctr.simps)
  next
    case False
    let ?k = "aes256 key (ctrBlock nonce c)" and ?r = "gctr key nonce (c + 1) (drop 16 bs)"
    let ?x = "xorBytes (take 16 bs) ?k"
    have k: "length ?k = 16" by (rule aes256_length [OF 1(2)])
    have e: "gctr key nonce c bs = ?x @ ?r" using False by (simp add: gctr.simps [of key nonce c bs])
    have x: "length ?x = min 16 (length bs)" "?x \<noteq> []" using k False by (auto simp flip: length_greater_0_conv)
    have t: "take 16 (?x @ ?r) = ?x" "drop 16 (?x @ ?r) = ?r"
      using x(1) length_gctr [OF 1(2), of nonce "c + 1" "drop 16 bs"] by (cases "length bs \<le> 16"; simp)+
    have "gctr key nonce c (?x @ ?r) = xorBytes ?x ?k @ gctr key nonce (c + 1) ?r"
      using x(2) by (subst gctr.simps) (simp only: t append_is_Nil_conv if_False simp_thms)
    also have "\<dots> = take 16 bs @ drop 16 bs" using 1(1) [OF False 1(2)] k by (simp add: xorBytes_twice)
    finally show ?thesis by (simp add: e)
  qed
qed

lemma gcm_tag_length: "length key = 32 \<Longrightarrow> length (gcm_tag key nonce ct) = 16"
  by (simp add: gcm_tag_def Let_def beBytes_def aes256_length)

lemma gcm_Open_Seal: "length key = 32 \<Longrightarrow> gcm_Open key nonce (gcm_Seal key nonce pt) = Some pt"
  by (simp add: gcm_Open_def gcm_Seal_def Let_def gcm_tag_length gctr_twice)

lemma aes_Decrypt_Encrypt:
  assumes "length key = 32" "length nonce = 12"
  shows "aes_Decrypt key dst (nonce @ gcm_Seal key nonce src) = Inr (dst @ src)"
proof -
  have "length (gcm_Seal key nonce src) = length src + 16"
    using gcm_tag_length [OF assms(1)] length_gctr [OF assms(1)] by (simp add: gcm_Seal_def Let_def)
  then show ?thesis
    using assms(2) gcm_Open_Seal [OF assms(1)] by (simp add: aes_Decrypt_def nonceSize_def gcmOverhead_def)
qed

section \<open>Properties\<close>

text \<open>
  C32. AES-256-GCM values decrypt to what was encrypted: with a key \<^verbatim>\<open>NewAESGCM\<close> accepts and a 12-byte nonce,
  \<^verbatim>\<open>Decrypt\<close> of \<^verbatim>\<open>Encrypt\<close> returns the value (appended to its destination), the stored form is 28 bytes
  longer, and a stored form whose last 16 bytes are not the tag of the rest is refused.
\<close>

theorem AESGCM_roundtrip:
  assumes "NewAESGCM key = Inr k" "length nonce = 12"
  shows "\<exists>c. aes_Encrypt k (Some nonce) [] src = Inr c \<and> length c = length src + 28 \<and> aes_Decrypt k dst c = Inr (dst @ src) \<and>
    (\<forall>ct tag. length tag = 16 \<longrightarrow> tag \<noteq> gcm_tag k nonce ct \<longrightarrow> aes_Decrypt k dst (nonce @ ct @ tag) = Inl ErrAuth)"
proof -
  have k: "length k = 32" using assms(1) by (simp add: NewAESGCM_def split: if_splits)
  have l: "length (gcm_Seal k nonce src) = length src + 16"
    using gcm_tag_length [OF k] length_gctr [OF k] by (simp add: gcm_Seal_def Let_def)
  note aes_Decrypt_Encrypt [OF k assms(2), of dst src]
  then show ?thesis
    using assms(2) l by (simp add: aes_Encrypt_def aes_Decrypt_def gcm_Open_def nonceSize_def gcmOverhead_def Let_def)
qed

theorem AESGCM_roundtrip_witness:
  "\<exists>c. aes_Encrypt (replicate 32 1) (Some (replicate 12 2)) [] [3, 4] = Inr c \<and> aes_Decrypt (replicate 32 1) [] c = Inr [3, 4]"
  using AESGCM_roundtrip [of "replicate 32 1" "replicate 32 1" "replicate 12 2" "[3, 4]" "[]"] by (auto simp: NewAESGCM_def)

text \<open>The block cipher agrees with the published AES-256 example.\<close>

lemma aes256_example:
  "aes256 [0x00, 0x01, 0x02, 0x03, 0x04, 0x05, 0x06, 0x07, 0x08, 0x09, 0x0a, 0x0b, 0x0c, 0x0d, 0x0e, 0x0f,
      0x10, 0x11, 0x12, 0x13, 0x14, 0x15, 0x16, 0x17, 0x18, 0x19, 0x1a, 0x1b, 0x1c, 0x1d, 0x1e, 0x1f]
    [0x00, 0x11, 0x22, 0x33, 0x44, 0x55, 0x66, 0x77, 0x88, 0x99, 0xaa, 0xbb, 0xcc, 0xdd, 0xee, 0xff] =
   [0x8e, 0xa2, 0xb7, 0xca, 0x51, 0x67, 0x45, 0xbf, 0xea, 0xfc, 0x49, 0x90, 0x4b, 0x49, 0x60, 0x89]"
  by code_simp

end
