(* ===== verification/Codec.thy ===== *)
theory Codec
  imports Lz4 Cipher
begin

text \<open>
  The two interfaces a cache shard stores values through: \<^verbatim>\<open>compress.Compressor\<close> and \<^verbatim>\<open>encrypt.Cipher\<close>, as
  records of functions, with the pass-through and the real implementations as their values.  A buffer of
  the shared pool and the nonce read from the system are arguments of each call.

  The locales state what the shard relies on, and every implementation is an interpretation: a compressor
  never panics and undoes itself, a cipher with a nonce of the right length never fails and undoes itself.
\<close>

section \<open>Definitions\<close>

record Compressor =
  cm_Name :: string
  cm_Compress :: "bytes option \<Rightarrow> bytes \<Rightarrow> bytes option option"
  cm_Decompress :: "bytes option \<Rightarrow> bytes \<Rightarrow> lz4_error + bytes"

record Cipher =
  cp_Name :: string
  cp_Encrypt :: "bytes option \<Rightarrow> bytes \<Rightarrow> bytes \<Rightarrow> encrypt_error + bytes"
  cp_Decrypt :: "bytes \<Rightarrow> bytes \<Rightarrow> encrypt_error + bytes"

definition encodeSizePrefix :: "bytes \<Rightarrow> u32 \<Rightarrow> bytes" where
  "encodeSizePrefix dst originalSize = copy_at dst 0 (put_u32 originalSize)"

definition decodeSizePrefix :: "bytes \<Rightarrow> u32" where
  "decodeSizePrefix src = get_u32 (take sizePrefix src)"

definition noop_Compress :: "bytes \<Rightarrow> bytes option" where
  "noop_Compress src = None"

definition noop_Decompress :: "bytes \<Rightarrow> lz4_error + bytes" where
  "noop_Decompress src = Inr src"

definition noop_compressor :: Compressor where
  "noop_compressor = \<lparr>cm_Name = ''none'', cm_Compress = (\<lambda>_ src. Some (noop_Compress src)),
     cm_Decompress = (\<lambda>_ src. noop_Decompress src)\<rparr>"

definition lz4_compressor :: "int \<Rightarrow> Compressor" where
  "lz4_compressor minSize = \<lparr>cm_Name = ''lz4'', cm_Compress = lz4_Compress (NewLZ4 minSize), cm_Decompress = lz4_Decompress\<rparr>"

definition noop_cipher :: Cipher where
  "noop_cipher = \<lparr>cp_Name = ''none'', cp_Encrypt = (\<lambda>_. noop_Encrypt), cp_Decrypt = noop_Decrypt\<rparr>"

definition aesgcm_cipher :: "bytes \<Rightarrow> Cipher" where
  "aesgcm_cipher key = \<lparr>cp_Name = ''aes-256-gcm'', cp_Encrypt = aes_Encrypt key, cp_Decrypt = aes_Decrypt key\<rparr>"

section \<open>The contracts\<close>

locale compressor_laws =
  fixes comp :: Compressor
  assumes compress_returns: "\<exists>r. cm_Compress comp pool1 v = Some r"
    and decompress_undoes: "cm_Compress comp pool1 v = Some (Some c) \<Longrightarrow> cm_Decompress comp pool2 c = Inr v"
    and compress_shrinks: "cm_Compress comp pool1 v = Some (Some c) \<Longrightarrow> length c < length v"

locale cipher_laws =
  fixes cip :: Cipher
  assumes encrypt_returns: "length nonce = 12 \<Longrightarrow> \<exists>c. cp_Encrypt cip (Some nonce) [] v = Inr c \<and> length c \<le> length v + 28"
    and decrypt_undoes: "length nonce = 12 \<Longrightarrow> cp_Encrypt cip (Some nonce) [] v = Inr c \<Longrightarrow> cp_Decrypt cip [] c = Inr v"

locale value_codec = compressor_laws comp + cipher_laws cip
  for comp :: Compressor and cip :: Cipher
begin

text \<open>Compress, then encrypt; decrypt, then decompress.\<close>

lemma codec_undoes:
  assumes "cm_Compress comp pool1 v = Some cv" "w = (case cv of None \<Rightarrow> v | Some c \<Rightarrow> c)"
    and "length nonce = 12" "cp_Encrypt cip (Some nonce) [] w = Inr e"
  shows "cp_Decrypt cip [] e = Inr w \<and> (cv = None \<longrightarrow> w = v) \<and> (cv \<noteq> None \<longrightarrow> cm_Decompress comp pool2 w = Inr v)"
  using assms decompress_undoes [of pool1 v w pool2] decrypt_undoes [of nonce w e] by (cases cv) auto

end

interpretation noop_comp: compressor_laws noop_compressor
  by unfold_locales (auto simp: noop_compressor_def noop_Compress_def)

interpretation lz4_comp: compressor_laws "lz4_compressor minSize" for minSize
proof
  fix pool1 v pool2 c
  show "\<exists>r. cm_Compress (lz4_compressor minSize) pool1 v = Some r"
    using lz4_lossless [of "NewLZ4 minSize" pool1 v pool2] by (auto simp: lz4_compressor_def)
  assume "cm_Compress (lz4_compressor minSize) pool1 v = Some (Some c)"
  then show "cm_Decompress (lz4_compressor minSize) pool2 c = Inr v" "length c < length v"
    using lz4_lossless [of "NewLZ4 minSize" pool1 v pool2] by (auto simp: lz4_compressor_def)
qed

interpretation noop_ciph: cipher_laws noop_cipher
  by unfold_locales (auto simp: noop_cipher_def noop_Encrypt_def noop_Decrypt_def)

lemma aesgcm_laws:
  assumes "NewAESGCM key = Inr k"
  shows "cipher_laws (aesgcm_cipher k)"
proof
  have k: "length k = 32" using assms by (simp add: NewAESGCM_def split: if_splits)
  fix nonce v c :: bytes assume n: "length nonce = 12"
  have "length (gcm_Seal k nonce v) = length v + 16"
    using gcm_tag_length [OF k] length_gctr [OF k] by (simp add: gcm_Seal_def Let_def)
  then show "\<exists>c. cp_Encrypt (aesgcm_cipher k) (Some nonce) [] v = Inr c \<and> length c \<le> length v + 28"
    using n by (simp add: aesgcm_cipher_def aes_Encrypt_def)
  assume "cp_Encrypt (aesgcm_cipher k) (Some nonce) [] v = Inr c"
  then show "cp_Decrypt (aesgcm_cipher k) [] c = Inr v"
    using aes_Decrypt_Encrypt [OF k n, of "[]" v] by (auto simp: aesgcm_cipher_def aes_Encrypt_def)
qed

lemma aesgcm_replicate: "cipher_laws (aesgcm_cipher (replicate 32 b))"
  by (rule aesgcm_laws [of "replicate 32 b"]) (simp add: NewAESGCM_def)

interpretation aes_ciph: cipher_laws "aesgcm_cipher (replicate 32 b)" for b
  by (rule aesgcm_replicate)

interpretation plain_codec: value_codec noop_compressor noop_cipher ..

interpretation lz4_codec: value_codec "lz4_compressor minSize" noop_cipher for minSize ..

interpretation full_codec: value_codec "lz4_compressor minSize" "aesgcm_cipher (replicate 32 b)" for minSize b ..

end
