(* ===== verification/Shard_Cache.thy ===== *)
theory Shard_Cache
  imports S3_Fifo Shard_Index Ds Codec
begin

text \<open>
  \<^verbatim>\<open>shardCache\<close> of \<^verbatim>\<open>internal/transport/transport.go\<close>: one cache shard, which composes the arena, the eviction
  policy, the key index, the compressor and the cipher.

  An operation takes the shard and returns its result with the shard after it; \<open>None\<close> is a call that
  panics or does not return.  What the outside world supplies to one call is the record \<open>call_env\<close>: the
  kernel's \<^verbatim>\<open>mmap\<close>, the clock (an operation reads it at most once), the nonce, the two pool buffers.

  The slice that \<^verbatim>\<open>Get\<close> returns may point into the arena; \<open>sc_GetView\<close> says when, and the operations that
  write through it (\<^verbatim>\<open>HSet\<close>) or read it after other writes (\<^verbatim>\<open>LPop\<close>, \<^verbatim>\<open>RPop\<close>) do so in the model too.
  The tests \<^verbatim>\<open>s == nil\<close> are in the theory of shard sets, where a shard may be missing.
\<close>

section \<open>Definitions\<close>

datatype cache_error = ErrBackendNil | ErrNotFound | ErrTooLarge | ErrNoCipher
  | ArenaErr arena_error | EncryptErr encrypt_error | DecompressErr lz4_error

record shardCache =
  sc_mgr :: Manager
  sc_ev :: Eviction
  sc_idx :: shardIndex
  sc_comp :: Compressor
  sc_cipher :: Cipher

record call_env =
  en_mmap :: mmap_fn
  en_now :: u32
  en_nonce :: "bytes option"
  en_cbuf :: "bytes option"
  en_dbuf :: "bytes option"

type_synonym 'a outcome = "((cache_error + 'a) \<times> shardCache) option"

definition newShardCacheFromArena :: "Manager \<Rightarrow> u64 \<Rightarrow> Compressor option \<Rightarrow> Cipher option \<Rightarrow> shardCache option" where
  "newShardCacheFromArena mgr evictCapacity cmpr cip =
    (case ev_New (if evictCapacity = 0 then 1024 else evictCapacity) of
       Some (Inr ev) \<Rightarrow> Some \<lparr>sc_mgr = mgr, sc_ev = ev, sc_idx = newShardIndex,
         sc_comp = (case cmpr of None \<Rightarrow> noop_compressor | Some x \<Rightarrow> x),
         sc_cipher = (case cip of None \<Rightarrow> noop_cipher | Some x \<Rightarrow> x)\<rparr>
     | _ \<Rightarrow> None)"

definition NewShardCache :: "mmap_fn \<Rightarrow> u64 \<Rightarrow> u64 \<Rightarrow> Compressor option \<Rightarrow> Cipher option \<Rightarrow> (cache_error + shardCache) option" where
  "NewShardCache mmap regionSize evictCapacity cmpr cip =
    (case NewManager mmap (if regionSize = 0 then 67108864 else regionSize) False of
       Inl e \<Rightarrow> Some (Inl (ArenaErr e))
     | Inr mgr \<Rightarrow> map_option Inr (newShardCacheFromArena mgr evictCapacity cmpr cip))"

subsection \<open>Storing a value\<close>

definition sc_encrypt :: "call_env \<Rightarrow> shardCache \<Rightarrow> bytes \<Rightarrow> cache_error + bytes \<times> bool" where
  "sc_encrypt env c v =
    (if cp_Name (sc_cipher c) \<noteq> ''none''
     then case cp_Encrypt (sc_cipher c) (en_nonce env) [] v of
            Inl e \<Rightarrow> Inl (EncryptErr e)
          | Inr encBuf \<Rightarrow> Inr (encBuf, True)
     else Inr (v, False))"

definition orFlag :: "Manager \<Rightarrow> Handle \<Rightarrow> u16 \<Rightarrow> bool \<Rightarrow> Manager option" where
  "orFlag m h flag on = (if on then OrMetaBits m h flag else Some m)"

definition freeAll :: "Manager \<Rightarrow> Handle list \<Rightarrow> Manager" where
  "freeAll m hs = foldl (\<lambda>m h. snd (Free m h)) m hs"

text \<open>The lines \<^verbatim>\<open>Set\<close>, \<^verbatim>\<open>CAS\<close> and \<^verbatim>\<open>Incr\<close> share: store the bytes, mark them, tell the policy, free what
  it evicts, point the index at the new handle and free the old one.\<close>

definition sc_store :: "call_env \<Rightarrow> shardCache \<Rightarrow> bytes \<Rightarrow> bytes \<Rightarrow> bool \<Rightarrow> bool \<Rightarrow> u32 \<Rightarrow> Handle outcome" where
  "sc_store env c key v compressed encrypted expiresAt =
    (case Put (en_mmap env) (sc_mgr c) v of
       (Inl e, m) \<Rightarrow> if e = ArenaPanic then None else Some (Inl (ArenaErr e), c\<lparr>sc_mgr := m\<rparr>)
     | (Inr h, m) \<Rightarrow> do {
         m1 \<leftarrow> orFlag m h CompressedFlag compressed;
         m2 \<leftarrow> orFlag m1 h EncryptedFlag encrypted;
         (out, e, m3) \<leftarrow> ev_Add (sc_ev c) m2 key h;
         ((old, replaced), idx) \<leftarrow> si_put (sc_idx c) key h expiresAt;
         let m4 = freeAll m3 out
         in Some (Inr h, c\<lparr>sc_mgr := (if replaced then snd (Free m4 old) else m4), sc_ev := e, sc_idx := idx\<rparr>)
       })"

definition arenaView :: "Manager \<Rightarrow> Handle \<Rightarrow> (cache_error + bytes) option" where
  "arenaView m h =
    (case View m h of
       Inl e \<Rightarrow> if e = ArenaPanic then None else Some (Inl (ArenaErr e))
     | Inr b \<Rightarrow> Some (Inr b))"

definition tooLarge :: "bytes \<Rightarrow> bool" where
  "tooLarge v \<longleftrightarrow> int (length v) > uint MaxObjectSize"

definition sc_Set :: "call_env \<Rightarrow> shardCache \<Rightarrow> bytes \<Rightarrow> bytes \<Rightarrow> u32 \<Rightarrow> bytes outcome" where
  "sc_Set env c key val ttlSeconds =
    (if tooLarge val then Some (Inl ErrTooLarge, c)
     else do {
       cBuf \<leftarrow> cm_Compress (sc_comp c) (en_cbuf env) val;
       case sc_encrypt env c (case cBuf of None \<Rightarrow> val | Some b \<Rightarrow> b) of
         Inl e \<Rightarrow> Some (Inl e, c)
       | Inr (storeVal, encrypted) \<Rightarrow> do {
           (r, c1) \<leftarrow> sc_store env c key storeVal (cBuf \<noteq> None) encrypted
             (if ttlSeconds > 0 then en_now env + ttlSeconds else 0);
           case r of
             Inl e \<Rightarrow> Some (Inl e, c1)
           | Inr h \<Rightarrow>
               if cBuf \<noteq> None \<or> encrypted then Some (Inr val, c1)
               else map_option (\<lambda>x. (x, c1)) (arenaView (sc_mgr c1) h)
         }
     })"

subsection \<open>Reading a value\<close>

definition isEncrypted :: "Manager \<Rightarrow> Handle \<Rightarrow> bool" where
  "isEncrypted m h \<longleftrightarrow> GetMeta m h AND EncryptedFlag \<noteq> 0"

definition isCompressed :: "Manager \<Rightarrow> Handle \<Rightarrow> bool" where
  "isCompressed m h \<longleftrightarrow> GetMeta m h AND CompressedFlag \<noteq> 0"

definition sc_decode :: "call_env \<Rightarrow> shardCache \<Rightarrow> Handle \<Rightarrow> bytes \<Rightarrow> cache_error + bytes" where
  "sc_decode env c h raw =
    (case (if isEncrypted (sc_mgr c) h
           then if cp_Name (sc_cipher c) = ''none'' then Inl ErrNoCipher
                else case cp_Decrypt (sc_cipher c) [] raw of Inl e \<Rightarrow> Inl (EncryptErr e) | Inr dec \<Rightarrow> Inr dec
           else Inr raw) of
       Inl e \<Rightarrow> Inl e
     | Inr raw1 \<Rightarrow>
         if isCompressed (sc_mgr c) h
         then case cm_Decompress (sc_comp c) (en_dbuf env) raw1 of Inl e \<Rightarrow> Inl (DecompressErr e) | Inr dec \<Rightarrow> Inr dec
         else Inr raw1)"

text \<open>The handle whose bytes the result points to, unless the result is a copy.  (The pass-through
  compressor also returns its argument, but no handle it stored has the flag.)\<close>

definition aliasOf :: "shardCache \<Rightarrow> Handle \<Rightarrow> Handle option" where
  "aliasOf c h =
    (if \<not> isEncrypted (sc_mgr c) h \<and> \<not> isCompressed (sc_mgr c) h then Some h else None)"

definition sc_touch :: "shardCache \<Rightarrow> Handle \<Rightarrow> shardCache" where
  "sc_touch c h = c\<lparr>sc_mgr := ev_Touch (sc_ev c) (sc_mgr c) h\<rparr>"

definition sc_GetView :: "call_env \<Rightarrow> shardCache \<Rightarrow> bytes \<Rightarrow> (bytes \<times> Handle option) outcome" where
  "sc_GetView env c key = do {
     (h, ok, _) \<leftarrow> si_get (sc_idx c) key (en_now env);
     if \<not> ok then Some (Inl ErrNotFound, c)
     else do {
       r \<leftarrow> arenaView (sc_mgr (sc_touch c h)) h;
       Some (case r of
               Inl e \<Rightarrow> Inl e
             | Inr raw \<Rightarrow>
                 (case sc_decode env (sc_touch c h) h raw of
                    Inl e \<Rightarrow> Inl e
                  | Inr v \<Rightarrow> Inr (v, aliasOf (sc_touch c h) h)), sc_touch c h)
     }
   }"

definition sc_Get :: "call_env \<Rightarrow> shardCache \<Rightarrow> bytes \<Rightarrow> bytes outcome" where
  "sc_Get env c key = map_option (apfst (map_sum id fst)) (sc_GetView env c key)"

subsection \<open>CAS and Incr\<close>

text \<open>\<^verbatim>\<open>CAS\<close> and \<^verbatim>\<open>Incr\<close> prepare a value like \<^verbatim>\<open>Set\<close>, but call the compressor only when it has a name, and
  test the size of what they are about to store.\<close>

definition sc_rewrite :: "call_env \<Rightarrow> shardCache \<Rightarrow> bytes \<Rightarrow> bytes \<Rightarrow> u32 \<Rightarrow> Handle outcome" where
  "sc_rewrite env c key newValue expiresAt = do {
     cBuf \<leftarrow> (if cm_Name (sc_comp c) \<noteq> ''none'' then cm_Compress (sc_comp c) (en_cbuf env) newValue else Some None);
     case sc_encrypt env c (case cBuf of None \<Rightarrow> newValue | Some b \<Rightarrow> b) of
       Inl e \<Rightarrow> Some (Inl e, c)
     | Inr (valToWrite, encrypted) \<Rightarrow>
         if tooLarge valToWrite then Some (Inl ErrTooLarge, c)
         else sc_store env c key valToWrite (cBuf \<noteq> None) encrypted expiresAt
   }"

text \<open>\<open>Inr (current, swapped)\<close>\<close>

definition sc_CAS :: "call_env \<Rightarrow> shardCache \<Rightarrow> bytes \<Rightarrow> bytes \<Rightarrow> bytes \<Rightarrow> (bytes \<times> bool) outcome" where
  "sc_CAS env c key expectedValue newValue = do {
     (h, ok, expiresAt) \<leftarrow> si_get (sc_idx c) key (en_now env);
     if \<not> ok then Some (Inr ([], False), c)
     else do {
       r \<leftarrow> arenaView (sc_mgr (sc_touch c h)) h;
       case r of
         Inl e \<Rightarrow> Some (Inl e, sc_touch c h)
       | Inr raw \<Rightarrow>
           (case sc_decode env (sc_touch c h) h raw of
              Inl e \<Rightarrow> Some (Inl e, sc_touch c h)
            | Inr currentValue \<Rightarrow>
                if \<not> bytesEq currentValue expectedValue then Some (Inr (currentValue, False), sc_touch c h)
                else if tooLarge newValue then Some (Inl ErrTooLarge, sc_touch c h)
                else map_option (apfst (map_sum id (\<lambda>_. ([], True)))) (sc_rewrite env (sc_touch c h) key newValue expiresAt))
     }
   }"

text \<open>The current counter: whatever cannot be decrypted or decompressed is used as it is, and anything
  that is not eight bytes long counts as zero.\<close>

definition sc_counter :: "call_env \<Rightarrow> shardCache \<Rightarrow> Handle \<Rightarrow> bytes \<Rightarrow> u64" where
  "sc_counter env c h raw =
    (let raw1 = (if isEncrypted (sc_mgr c) h \<and> cp_Name (sc_cipher c) \<noteq> ''none''
                 then case cp_Decrypt (sc_cipher c) [] raw of Inl _ \<Rightarrow> raw | Inr dec \<Rightarrow> dec else raw);
         raw2 = (if isCompressed (sc_mgr c) h
                 then case cm_Decompress (sc_comp c) (en_dbuf env) raw1 of Inl _ \<Rightarrow> raw1 | Inr dec \<Rightarrow> dec else raw1)
     in if length raw2 = 8 then get_u64 raw2 else 0)"

definition sc_Incr :: "call_env \<Rightarrow> shardCache \<Rightarrow> bytes \<Rightarrow> u64 \<Rightarrow> u64 outcome" where
  "sc_Incr env c key delta = do {
     (h, ok, expiresAt) \<leftarrow> si_get (sc_idx c) key (en_now env);
     let c1 = (if ok then sc_touch c h else c);
     current \<leftarrow> (if ok then map_option (\<lambda>r. case r of Inl _ \<Rightarrow> 0 | Inr raw \<Rightarrow> sc_counter env c1 h raw) (arenaView (sc_mgr c1) h)
                 else Some 0);
     map_option (apfst (map_sum id (\<lambda>_. current + delta))) (sc_rewrite env c1 key (put_u64 (current + delta)) expiresAt)
   }"

subsection \<open>Removal and scans\<close>

definition sc_Delete :: "call_env \<Rightarrow> shardCache \<Rightarrow> bytes \<Rightarrow> unit outcome" where
  "sc_Delete env c key = do {
     ((h, ok), idx) \<leftarrow> si_delete (sc_idx c) key;
     if \<not> ok then Some (Inr (), c\<lparr>sc_idx := idx\<rparr>)
     else do {
       (e, m) \<leftarrow> ev_Delete (sc_ev c) (sc_mgr c) key h;
       case Free m h of (r, m1) \<Rightarrow>
         Some (map_sum ArenaErr id r, c\<lparr>sc_mgr := m1, sc_ev := e, sc_idx := idx\<rparr>)
     }
   }"

text \<open>The loops over freed handles: take each out of the queues, then free it.\<close>

fun removeAll_handles :: "Eviction \<Rightarrow> Manager \<Rightarrow> Handle list \<Rightarrow> (Eviction \<times> Manager) option" where
  "removeAll_handles e m [] = Some (e, m)"
| "removeAll_handles e m (h # hs) = do {
     (e1, m1) \<leftarrow> ev_Remove e m h;
     removeAll_handles e1 (snd (Free m1 h)) hs }"

fun deleteAll_handles :: "Eviction \<Rightarrow> Manager \<Rightarrow> (bytes \<times> Handle) list \<Rightarrow> (Eviction \<times> Manager) option" where
  "deleteAll_handles e m [] = Some (e, m)"
| "deleteAll_handles e m ((k, h) # hs) = do {
     (e1, m1) \<leftarrow> ev_Delete e m k h;
     deleteAll_handles e1 (snd (Free m1 h)) hs }"

definition sc_DeleteExpired :: "call_env \<Rightarrow> shardCache \<Rightarrow> int \<Rightarrow> unit outcome" where
  "sc_DeleteExpired env c limit = do {
     (freed, idx) \<leftarrow> si_DeleteExpired (sc_idx c) (en_now env) limit;
     (e, m) \<leftarrow> removeAll_handles (sc_ev c) (sc_mgr c) freed;
     Some (Inr (), c\<lparr>sc_mgr := m, sc_ev := e, sc_idx := idx\<rparr>) }"

definition sc_Scan :: "call_env \<Rightarrow> shardCache \<Rightarrow> bytes \<Rightarrow> u64 \<Rightarrow> int \<Rightarrow> (bytes list \<times> u64) outcome" where
  "sc_Scan env c pfx cursor cnt = Some (Inr (si_scanPrefix (sc_idx c) pfx cursor cnt (en_now env)), c)"

definition sc_DelPrefix :: "call_env \<Rightarrow> shardCache \<Rightarrow> bytes \<Rightarrow> u64 outcome" where
  "sc_DelPrefix env c pfx = do {
     ((freed, deletedKeys), idx) \<leftarrow> si_deletePrefix (sc_idx c) pfx;
     (e, m) \<leftarrow> deleteAll_handles (sc_ev c) (sc_mgr c) (zip deletedKeys freed);
     Some (Inr (of_nat (length freed)), c\<lparr>sc_mgr := m, sc_ev := e, sc_idx := idx\<rparr>) }"

definition sc_Close :: "shardCache \<Rightarrow> shardCache" where
  "sc_Close c = c\<lparr>sc_mgr := mgr_Close (sc_mgr c)\<rparr>"

subsection \<open>Hashes, lists and sets in one value\<close>

text \<open>\<^verbatim>\<open>raw, _ := s.Get(key)\<close>: no value, or one that cannot be read, is an empty slice.\<close>

definition rawOr :: "cache_error + bytes \<times> Handle option \<Rightarrow> bytes" where
  "rawOr r = (case r of Inl _ \<Rightarrow> [] | Inr (raw, _) \<Rightarrow> raw)"

definition sc_update :: "call_env \<Rightarrow> shardCache \<Rightarrow> bytes \<Rightarrow> (bytes \<Rightarrow> bytes \<times> 'a) \<Rightarrow> 'a outcome" where
  "sc_update env c key f = do {
     (r, c1) \<leftarrow> sc_GetView env c key;
     case f (rawOr r) of (newRaw, x) \<Rightarrow>
       map_option (apfst (map_sum id (\<lambda>_. x))) (sc_Set env c1 key newRaw 0) }"

definition sc_query :: "call_env \<Rightarrow> shardCache \<Rightarrow> bytes \<Rightarrow> (cache_error + bytes \<Rightarrow> cache_error + 'a) \<Rightarrow> 'a outcome" where
  "sc_query env c key f = map_option (apfst f) (sc_Get env c key)"

text \<open>\<^verbatim>\<open>HSet\<close> overwrites a value of the same length in place; when the payload is a view of the arena, the
  bytes of the stored value change at once.\<close>

definition hset_inPlace :: "bytes \<Rightarrow> bytes \<Rightarrow> bytes \<Rightarrow> bool" where
  "hset_inPlace raw field val \<longleftrightarrow>
    length raw \<ge> 4 \<and> (case h_find raw field of None \<Rightarrow> False | Some (_, _, _, v) \<Rightarrow> length v = length val)"

definition pokeView :: "Manager \<Rightarrow> Handle \<Rightarrow> bytes \<Rightarrow> Manager" where
  "pokeView m h bs =
    (let i = unat (h_Region h); reg = mg_regions m ! i
     in m\<lparr>mg_regions := (mg_regions m)[i := reg\<lparr>rg_data := copy_at (rg_data reg) (unat (h_Offset h)) bs\<rparr>]\<rparr>)"

definition sc_HSet :: "call_env \<Rightarrow> shardCache \<Rightarrow> bytes \<Rightarrow> bytes \<Rightarrow> bytes \<Rightarrow> bool outcome" where
  "sc_HSet env c key field val = do {
     (r, c1) \<leftarrow> sc_GetView env c key;
     case HSet (rawOr r) field val of (newRaw, updated) \<Rightarrow>
       let c2 = (case r of
                   Inr (raw, Some h) \<Rightarrow>
                     if hset_inPlace raw field val then c1\<lparr>sc_mgr := pokeView (sc_mgr c1) h newRaw\<rparr> else c1
                 | _ \<Rightarrow> c1)
       in map_option (apfst (map_sum id (\<lambda>_. updated))) (sc_Set env c2 key newRaw 0) }"

definition sc_HGet :: "call_env \<Rightarrow> shardCache \<Rightarrow> bytes \<Rightarrow> bytes \<Rightarrow> bytes outcome" where
  "sc_HGet env c key field = sc_query env c key
     (\<lambda>r. case r of Inl e \<Rightarrow> Inl e | Inr raw \<Rightarrow> (case HGet raw field of None \<Rightarrow> Inl ErrNotFound | Some v \<Rightarrow> Inr v))"

definition sc_HDel :: "call_env \<Rightarrow> shardCache \<Rightarrow> bytes \<Rightarrow> bytes \<Rightarrow> bool outcome" where
  "sc_HDel env c key field = do {
     (r, c1) \<leftarrow> sc_Get env c key;
     case r of
       Inl e \<Rightarrow> Some (Inl e, c1)
     | Inr raw \<Rightarrow>
         (case HDel raw field of (newRaw, deleted) \<Rightarrow>
            if \<not> deleted then Some (Inr False, c1)
            else if length newRaw = 0 then map_option (\<lambda>(_, c2). (Inr True, c2)) (sc_Delete env c1 key)
            else map_option (apfst (map_sum id (\<lambda>_. True))) (sc_Set env c1 key newRaw 0))
   }"

definition sc_HGetAll :: "call_env \<Rightarrow> shardCache \<Rightarrow> bytes \<Rightarrow> (bytes list \<times> bytes list) outcome" where
  "sc_HGetAll env c key = sc_query env c key (map_sum id HGetAll)"

definition sc_LPush :: "call_env \<Rightarrow> shardCache \<Rightarrow> bytes \<Rightarrow> bytes \<Rightarrow> u32 outcome" where
  "sc_LPush env c key elem = sc_update env c key (\<lambda>raw. let newRaw = LPush raw elem in (newRaw, LLen newRaw))"

definition sc_RPush :: "call_env \<Rightarrow> shardCache \<Rightarrow> bytes \<Rightarrow> bytes \<Rightarrow> u32 outcome" where
  "sc_RPush env c key elem = do {
     (r, c1) \<leftarrow> sc_GetView env c key;
     newRaw \<leftarrow> RPush (rawOr r) elem;
     map_option (apfst (map_sum id (\<lambda>_. LLen newRaw))) (sc_Set env c1 key newRaw 0) }"

text \<open>\<^verbatim>\<open>_ = s.Delete(key)\<close> or \<^verbatim>\<open>_, _ = s.Set(key, newRaw, 0)\<close>, whatever they return.\<close>

definition sc_putBack :: "call_env \<Rightarrow> shardCache \<Rightarrow> bytes \<Rightarrow> bytes \<Rightarrow> shardCache option" where
  "sc_putBack env c key newRaw =
    (if length newRaw = 0 then map_option snd (sc_Delete env c key) else map_option snd (sc_Set env c key newRaw 0))"

text \<open>The popped element is a slice of the payload, read by the caller after the write.\<close>

definition viewAfter :: "Manager \<Rightarrow> Handle option \<Rightarrow> nat \<Rightarrow> bytes \<Rightarrow> bytes" where
  "viewAfter m al off popped =
    (case al of
       None \<Rightarrow> popped
     | Some h \<Rightarrow> (case View m h of Inl _ \<Rightarrow> popped | Inr b \<Rightarrow> slice b off (off + length popped)))"

definition sc_pop :: "call_env \<Rightarrow> shardCache \<Rightarrow> bytes \<Rightarrow> (bytes \<Rightarrow> bytes \<times> bytes \<times> bool) \<Rightarrow> (bytes \<Rightarrow> nat) \<Rightarrow> bytes outcome" where
  "sc_pop env c key pop popOff = do {
     (r, c1) \<leftarrow> sc_GetView env c key;
     case r of
       Inl e \<Rightarrow> Some (Inl e, c1)
     | Inr (raw, al) \<Rightarrow>
         (case pop raw of (newRaw, popped, ok) \<Rightarrow>
            if \<not> ok then Some (Inl ErrNotFound, c1)
            else do {
              c2 \<leftarrow> sc_putBack env c1 key newRaw;
              Some (Inr (viewAfter (sc_mgr c2) al (popOff raw) popped), c2)
            })
   }"

definition sc_LPop :: "call_env \<Rightarrow> shardCache \<Rightarrow> bytes \<Rightarrow> bytes outcome" where
  "sc_LPop env c key = sc_pop env c key LPop (\<lambda>_. 8)"

definition rpopOff :: "bytes \<Rightarrow> nat" where
  "rpopOff raw = (case l_last (unat (hdrCount raw)) (drop 4 raw) 4 of None \<Rightarrow> 0 | Some (lastStartOff, _) \<Rightarrow> lastStartOff + 4)"

definition sc_RPop :: "call_env \<Rightarrow> shardCache \<Rightarrow> bytes \<Rightarrow> bytes outcome" where
  "sc_RPop env c key = sc_pop env c key RPop rpopOff"

definition sc_LLen :: "call_env \<Rightarrow> shardCache \<Rightarrow> bytes \<Rightarrow> u32 outcome" where
  "sc_LLen env c key = sc_query env c key (\<lambda>r. case r of Inl _ \<Rightarrow> Inr 0 | Inr raw \<Rightarrow> Inr (LLen raw))"

definition sc_SAdd :: "call_env \<Rightarrow> shardCache \<Rightarrow> bytes \<Rightarrow> bytes \<Rightarrow> bool outcome" where
  "sc_SAdd env c key member = sc_update env c key (\<lambda>raw. SAdd raw member)"

definition sc_SRem :: "call_env \<Rightarrow> shardCache \<Rightarrow> bytes \<Rightarrow> bytes \<Rightarrow> bool outcome" where
  "sc_SRem env c key member = do {
     (r, c1) \<leftarrow> sc_Get env c key;
     case r of
       Inl e \<Rightarrow> Some (Inl e, c1)
     | Inr raw \<Rightarrow>
         (case SRem raw member of (newRaw, removed) \<Rightarrow>
            if \<not> removed then Some (Inr False, c1)
            else map_option (\<lambda>c2. (Inr True, c2)) (sc_putBack env c1 key newRaw))
   }"

definition sc_SIsMember :: "call_env \<Rightarrow> shardCache \<Rightarrow> bytes \<Rightarrow> bytes \<Rightarrow> bool outcome" where
  "sc_SIsMember env c key member = sc_query env c key (\<lambda>r. case r of Inl _ \<Rightarrow> Inr False | Inr raw \<Rightarrow> Inr (SIsMember raw member))"

definition sc_SMembers :: "call_env \<Rightarrow> shardCache \<Rightarrow> bytes \<Rightarrow> bytes list outcome" where
  "sc_SMembers env c key = sc_query env c key (\<lambda>r. case r of Inl _ \<Rightarrow> Inr [] | Inr raw \<Rightarrow> Inr (SMembers raw))"

subsection \<open>Contract\<close>

text \<open>
  What every operation keeps, whatever was evicted or freed before: the parts are well formed, and every
  handle that the index or a queue holds lies within the arena.
\<close>

definition cache_inv :: "shardCache \<Rightarrow> bool" where
  "cache_inv c \<longleftrightarrow> mgr_rng (sc_mgr c) \<and> si_inv (sc_idx c) \<and> ev_inv (sc_ev c) \<and>
     (\<forall>k h e. si_map (sc_idx c) k = Some (h, e) \<longrightarrow> hgood (sc_mgr c) h) \<and>
     (\<forall>h \<in># ev_handles (sc_ev c). hgood (sc_mgr c) h)"

text \<open>The compressor and the cipher never change, and they obey their contracts.\<close>

definition cache_codec :: "shardCache \<Rightarrow> bool" where
  "cache_codec c \<longleftrightarrow> value_codec (sc_comp c) (sc_cipher c)"

definition same_codec :: "shardCache \<Rightarrow> shardCache \<Rightarrow> bool" where
  "same_codec c c' \<longleftrightarrow> sc_comp c' = sc_comp c \<and> sc_cipher c' = sc_cipher c"

definition env_ok :: "call_env \<Rightarrow> bool" where
  "env_ok env \<longleftrightarrow> mmap_ok (en_mmap env) \<and> (\<exists>n. en_nonce env = Some n \<and> length n = 12)"

text \<open>The index gains no key outside \<open>K\<close>.\<close>

definition grows :: "bytes set \<Rightarrow> shardCache \<Rightarrow> shardCache \<Rightarrow> bool" where
  "grows K c c' \<longleftrightarrow> dom (si_map (sc_idx c')) \<subseteq> K \<union> dom (si_map (sc_idx c))"

lemma grows_trans: "grows K a b \<Longrightarrow> grows K b c \<Longrightarrow> grows K a c"
  unfolding grows_def by blast

lemma grows_same: "sc_idx c' = sc_idx c \<Longrightarrow> grows K c c'"
  by (simp add: grows_def)

text \<open>Handle \<open>h\<close> stands for the value \<open>v\<close>: its bytes decode to it.\<close>

definition reads :: "shardCache \<Rightarrow> Handle \<Rightarrow> bytes \<Rightarrow> bool" where
  "reads c h v \<longleftrightarrow> (\<exists>raw. View (sc_mgr c) h = Inr raw \<and> (\<forall>env. sc_decode env c h raw = Inr v))"

definition expiryOf :: "call_env \<Rightarrow> u32 \<Rightarrow> u32" where
  "expiryOf env ttl = (if ttl > 0 then en_now env + ttl else 0)"

section \<open>Flags and views\<close>

lemma flag_of_flags:
  "GetMeta m h AND EncryptedFlag = flags m h AND EncryptedFlag" "GetMeta m h AND CompressedFlag = flags m h AND CompressedFlag"
  unfolding flags_def EncryptedFlag_def CompressedFlag_def and.assoc by simp_all

lemma quiet_flags:
  assumes "quiet m m'"
  shows "isEncrypted m' h = isEncrypted m h" "isCompressed m' h = isCompressed m h"
  using assms by (simp_all add: isEncrypted_def isCompressed_def flag_of_flags quiet_def)

lemma sc_decode_cong:
  assumes "same_codec c c'" "isEncrypted (sc_mgr c') h = isEncrypted (sc_mgr c) h" "isCompressed (sc_mgr c') h = isCompressed (sc_mgr c) h"
  shows "sc_decode env c' h raw = sc_decode env c h raw"
proof -
  have "sc_comp c' = sc_comp c" "sc_cipher c' = sc_cipher c" using assms(1) by (simp_all add: same_codec_def)
  then show ?thesis unfolding sc_decode_def assms(2,3) by (simp only:)
qed

lemma reads_quiet:
  assumes "same_codec c c'" "quiet (sc_mgr c) (sc_mgr c')"
  shows "reads c' h v = reads c h v"
  using sc_decode_cong [OF assms(1) quiet_flags [OF assms(2)]] assms(2) by (simp add: reads_def quiet_def)

lemma hgood_View:
  assumes "mgr_rng m" "hgood m h"
  obtains b where "View m h = Inr b" "length b = unat (h_Size h)"
proof -
  have i: "unat (h_Region h) < length (mg_regions m)" using assms(2) by (simp add: hgood_def)
  note e = hgood_end [OF assms]
  show ?thesis using that i e by (simp add: View_def Let_def unat_end unsafeView_def)
qed

lemma arenaView_ok:
  assumes "mgr_rng m" "hgood m h"
  obtains b where "View m h = Inr b" "arenaView m h = Some (Inr b)"
proof -
  obtain b where "View m h = Inr b" using hgood_View [OF assms] .
  then show ?thesis using that by (simp add: arenaView_def)
qed

lemma freeAll_quiet:
  assumes "mgr_rng m" "\<forall>h \<in> set hs. hgood m h"
  shows "quiet m (freeAll m hs)"
  using assms
proof (induction hs arbitrary: m)
  case Nil
  then show ?case by (simp add: freeAll_def quiet_refl)
next
  case (Cons h hs)
  have q: "quiet m (snd (Free m h))" using Free_quiet(2) [of m h] Cons.prems by simp
  then have "quiet (snd (Free m h)) (freeAll (snd (Free m h)) hs)"
    using Cons.IH [of "snd (Free m h)"] Cons.prems quiet_hgood [OF q] quiet_rng [OF q] by simp
  then show ?case using quiet_trans [OF q] by (simp add: freeAll_def)
qed

text \<open>Changing the manager quietly keeps the shard.\<close>

lemma cache_inv_quiet:
  assumes "cache_inv c" "quiet (sc_mgr c) m"
  shows "cache_inv (c\<lparr>sc_mgr := m\<rparr>)"
  using assms quiet_hgood [OF assms(2)] quiet_rng [OF assms(2)] by (simp add: cache_inv_def)

lemma cache_invD:
  assumes "cache_inv c"
  shows "mgr_rng (sc_mgr c)" "si_inv (sc_idx c)" "ev_inv (sc_ev c)"
    "si_map (sc_idx c) k = Some (h, e) \<Longrightarrow> hgood (sc_mgr c) h" "h \<in># ev_handles (sc_ev c) \<Longrightarrow> hgood (sc_mgr c) h"
  using assms by (auto simp: cache_inv_def)

lemma orFlag_ok:
  assumes "mgr_rng m" "metaCell m h \<noteq> None"
  obtains m' where "orFlag m h flag on = Some m'" "same_data m m'" "metaCell m' h \<noteq> None"
    "GetMeta m' h = (if on then GetMeta m h OR flag else GetMeta m h)"
proof (cases on)
  case True
  obtain m' where m': "casLoop16 m h (\<lambda>current. current OR flag) = Some m'" "same_data m m'"
    "metaCell m h \<noteq> None \<Longrightarrow> GetMeta m' h = GetMeta m h OR flag"
    using casLoop16_rng [OF assms(1), of h "\<lambda>current. current OR flag"] by metis
  moreover have "metaCell m' h \<noteq> None"
    using m'(1) assms(2) metaCell_setCell [of m h _ _ h]
    by (auto simp: casLoop16_def Let_def same_cell_def split: if_splits)
  ultimately show ?thesis using that True assms(2) by (auto simp: orFlag_def OrMetaBits_def)
next
  case False
  then show ?thesis using that [of m] assms same_data_refl by (simp add: orFlag_def)
qed

section \<open>Storing\<close>

lemma si_old_cases:
  assumes "cache_inv c"
  shows "snd (si_old (sc_idx c) key) \<Longrightarrow> hgood (sc_mgr c) (fst (si_old (sc_idx c) key))"
  using cache_invD(4) [OF assms] by (auto simp: si_old_def split: option.splits)

text \<open>The steps of a store once the arena has taken the bytes.\<close>

lemma sc_store_steps:
  assumes inv: "cache_inv c" and room: "si_room (sc_idx c)" and mm: "mmap_ok (en_mmap env)" and len: "length v < 4294967296"
    and put: "Put (en_mmap env) (sc_mgr c) v = (Inr h, m)"
  obtains m1 m2 out e m3 idx m5 where
    "orFlag m h CompressedFlag cp = Some m1" "orFlag m1 h EncryptedFlag en = Some m2" "same_data m m2"
    "ev_Add (sc_ev c) m2 key h = Some (out, e, m3)" "ev_step (sc_ev c) m2 e m3"
    "if rb_Full (ev_target (sc_ev c) key) then ev_handles (sc_ev c) = ev_handles e + mset out
     else out = [] \<and> ev_handles e = ev_handles (sc_ev c) + {#h#}"
    "si_inv idx" "si_map idx = (si_map (sc_idx c))(key \<mapsto> (h, ex))"
    "m5 = (if snd (si_old (sc_idx c) key) then snd (Free (freeAll m3 out) (fst (si_old (sc_idx c) key))) else freeAll m3 out)"
    "quiet m2 m5" "View m2 h = Inr v"
    "isCompressed m2 h = cp" "isEncrypted m2 h = en"
    "sc_store env c key v cp en ex = Some (Inr h, c\<lparr>sc_mgr := m5, sc_ev := e, sc_idx := idx\<rparr>)"
    "cache_inv (c\<lparr>sc_mgr := m5, sc_ev := e, sc_idx := idx\<rparr>)"
proof -
  note d = cache_invD [OF inv]
  have p: "mgr_rng m" "\<And>x. hgood (sc_mgr c) x \<Longrightarrow> hgood m x" "hgood m h" "View m h = Inr v" "metaCell m h = Some 0"
    using Put_rng [OF d(1) mm len] put by (auto simp: put_rng_def)
  have g0: "GetMeta m h = 0" using p(5) by (simp add: GetMeta_def)
  obtain m1 where m1: "orFlag m h CompressedFlag cp = Some m1" "same_data m m1" "metaCell m1 h \<noteq> None"
    "GetMeta m1 h = (if cp then GetMeta m h OR CompressedFlag else GetMeta m h)"
    using orFlag_ok [OF p(1), of h CompressedFlag cp] p(5) by auto
  have r1: "mgr_rng m1" using m1(2) by (simp add: same_data_def)
  obtain m2 where m2: "orFlag m1 h EncryptedFlag en = Some m2" "same_data m1 m2"
    "GetMeta m2 h = (if en then GetMeta m1 h OR EncryptedFlag else GetMeta m1 h)"
    using orFlag_ok [OF r1 m1(3), of EncryptedFlag en] by metis
  have sd: "same_data m m2" using same_data_trans [OF m1(2) m2(2)] .
  have r2: "mgr_rng m2" using sd by (simp add: same_data_def)
  have hg: "hgood m2 x = hgood m x" for x using same_data_hgood [OF sd] .
  obtain out e m3 where a: "ev_Add (sc_ev c) m2 key h = Some (out, e, m3)" "ev_step (sc_ev c) m2 e m3"
    "if rb_Full (ev_target (sc_ev c) key) then ev_handles (sc_ev c) = ev_handles e + mset out
     else out = [] \<and> ev_handles e = ev_handles (sc_ev c) + {#h#}"
    using ev_Add_ok [OF d(3) r2] by metis
  have q3: "quiet m2 m3" and e: "ev_inv e" using a(2) by (auto simp: ev_step_def)
  have eh: "\<forall>x \<in># ev_handles e + mset out. hgood m x"
    using a(3) d(5) p(2,3) by (auto split: if_splits)
  have fa: "quiet m3 (freeAll m3 out)"
    using freeAll_quiet [OF quiet_rng [OF q3], of out] eh quiet_hgood [OF q3] hg by auto
  obtain idx where idx: "si_put (sc_idx c) key h ex = Some (si_old (sc_idx c) key, idx)" "si_inv idx"
    "si_map idx = (si_map (sc_idx c))(key \<mapsto> (h, ex))" using si_put_ok [OF d(2) room] by blast
  define m5 where "m5 = (if snd (si_old (sc_idx c) key) then snd (Free (freeAll m3 out) (fst (si_old (sc_idx c) key))) else freeAll m3 out)"
  have q4: "quiet m2 (freeAll m3 out)" using quiet_trans [OF q3 fa] .
  have "hgood (freeAll m3 out) (fst (si_old (sc_idx c) key))" if "snd (si_old (sc_idx c) key)"
    using si_old_cases [OF inv that] p(2) hg quiet_hgood [OF q4] by simp
  then have q5: "quiet m2 m5"
    using quiet_trans [OF q4 Free_quiet(2)] quiet_rng [OF q4] q4 by (simp add: m5_def)
  have "sc_store env c key v cp en ex = Some (Inr h, c\<lparr>sc_mgr := m5, sc_ev := e, sc_idx := idx\<rparr>)"
    using put m1(1) m2(1) a(1) idx(1) by (cases "si_old (sc_idx c) key") (simp add: sc_store_def m5_def Let_def)
  moreover have "cache_inv (c\<lparr>sc_mgr := m5, sc_ev := e, sc_idx := idx\<rparr>)"
    using quiet_rng [OF q5] idx(2,3) e eh d(4) p(2,3) quiet_hgood [OF q5] hg by (auto simp: cache_inv_def split: if_splits)
  moreover have "View m2 h = Inr v" using sd p(4) by (simp add: same_data_def)
  moreover have "isCompressed m2 h = cp" "isEncrypted m2 h = en"
    using m1(4) m2(3) g0 by (simp_all add: isCompressed_def isEncrypted_def CompressedFlag_def EncryptedFlag_def)
  ultimately show ?thesis using that m1(1) m2(1) sd a idx(2,3) m5_def q5 by blast
qed

text \<open>A store that the arena refuses changes nothing a reader can see.\<close>

lemma sc_store_fails:
  assumes inv: "cache_inv c" and mm: "mmap_ok (en_mmap env)" and len: "length v < 4294967296"
    and put: "Put (en_mmap env) (sc_mgr c) v = (Inl e, m)"
  shows "sc_store env c key v cp en ex = Some (Inl (ArenaErr e), c\<lparr>sc_mgr := m\<rparr>)" "cache_inv (c\<lparr>sc_mgr := m\<rparr>)"
proof -
  note d = cache_invD [OF inv]
  have p: "mgr_rng m" "\<And>x. hgood (sc_mgr c) x \<Longrightarrow> hgood m x" "e \<noteq> ArenaPanic"
    using Put_rng [OF d(1) mm len] put by (auto simp: put_rng_def)
  show "sc_store env c key v cp en ex = Some (Inl (ArenaErr e), c\<lparr>sc_mgr := m\<rparr>)" using put p(3) by (simp add: sc_store_def)
  show "cache_inv (c\<lparr>sc_mgr := m\<rparr>)" using inv p by (auto simp: cache_inv_def)
qed

text \<open>Both outcomes: the key reads what was stored, or there was an error.\<close>

definition stored_at :: "shardCache \<Rightarrow> bytes \<Rightarrow> bytes \<Rightarrow> u32 \<Rightarrow> bool" where
  "stored_at c key v ex \<longleftrightarrow> (\<exists>h. si_map (sc_idx c) key = Some (h, ex) \<and> reads c h v)"

text \<open>What \<^verbatim>\<open>Set\<close>, \<^verbatim>\<open>CAS\<close> and \<^verbatim>\<open>Incr\<close> hand to the store decodes to the value.\<close>

definition encodes :: "shardCache \<Rightarrow> bytes \<Rightarrow> bytes \<Rightarrow> bool \<Rightarrow> bool \<Rightarrow> bool" where
  "encodes c val v cp en \<longleftrightarrow>
    (\<forall>env c' h. same_codec c c' \<longrightarrow> isCompressed (sc_mgr c') h = cp \<longrightarrow> isEncrypted (sc_mgr c') h = en \<longrightarrow>
       sc_decode env c' h v = Inr val)"

lemma sc_store_ok:
  assumes "cache_inv c" "si_room (sc_idx c)" "mmap_ok (en_mmap env)" "length v < 4294967296" "encodes c val v cp en"
  obtains r c' where "sc_store env c key v cp en ex = Some (r, c')" "cache_inv c'" "same_codec c c'" "grows {key} c c'"
    "\<And>h. r = Inr h \<Longrightarrow> stored_at c' key val ex \<and> View (sc_mgr c') h = Inr v \<and> hgood (sc_mgr c') h"
proof -
  obtain res m where put: "Put (en_mmap env) (sc_mgr c) v = (res, m)" by force
  show ?thesis
  proof (cases res)
    case (Inl e)
    then show ?thesis using that sc_store_fails [OF assms(1,3,4)] put by (simp add: same_codec_def grows_same)
  next
    case (Inr h)
    then have put: "Put (en_mmap env) (sc_mgr c) v = (Inr h, m)" using put by simp
    obtain m2 e idx m5 where s: "si_map idx = (si_map (sc_idx c))(key \<mapsto> (h, ex))" "quiet m2 m5" "View m2 h = Inr v"
      "isCompressed m2 h = cp" "isEncrypted m2 h = en"
      "sc_store env c key v cp en ex = Some (Inr h, c\<lparr>sc_mgr := m5, sc_ev := e, sc_idx := idx\<rparr>)"
      "cache_inv (c\<lparr>sc_mgr := m5, sc_ev := e, sc_idx := idx\<rparr>)"
      using sc_store_steps [OF assms(1-4) put] by metis
    let ?c = "c\<lparr>sc_mgr := m5, sc_ev := e, sc_idx := idx\<rparr>"
    have sc: "same_codec c ?c" by (simp add: same_codec_def)
    have v: "View m5 h = Inr v" using s(2,3) by (simp add: quiet_def)
    have "sc_decode env' ?c h v = Inr val" for env'
      using assms(5) sc s(4,5) quiet_flags [OF s(2), of h] by (simp add: encodes_def)
    then have "stored_at ?c key val ex" using s(1) v by (simp add: stored_at_def reads_def)
    moreover have "hgood m5 h" using cache_invD(4) [OF s(7), of key h ex] s(1) by simp
    moreover have "grows {key} c ?c" using s(1) by (auto simp: grows_def)
    ultimately show ?thesis using that [OF s(6,7) sc] v by simp
  qed
qed

section \<open>Encoding values\<close>

lemma sc_encode_ok:
  assumes cod: "cache_codec c" and env: "env_ok env"
    and cb: "cBuf = None \<or> cm_Compress (sc_comp c) pool val = Some cBuf"
  obtains v en where "sc_encrypt env c (case cBuf of None \<Rightarrow> val | Some b \<Rightarrow> b) = Inr (v, en)"
    "encodes c val v (cBuf \<noteq> None) en" "length v \<le> length val + 28"
proof -
  note laws = cod [unfolded cache_codec_def value_codec_def]
  let ?w = "case cBuf of None \<Rightarrow> val | Some b \<Rightarrow> b"
  obtain n where n: "en_nonce env = Some n" "length n = 12" using env by (auto simp: env_ok_def)
  have lw: "length ?w \<le> length val"
    using cb compressor_laws.compress_shrinks [OF conjunct1 [OF laws], of pool val]
    by (cases cBuf) (auto simp: less_imp_le)
  have dc: "cBuf \<noteq> None \<Longrightarrow> cm_Decompress (sc_comp c) pool2 ?w = Inr val" for pool2
    using cb compressor_laws.decompress_undoes [OF conjunct1 [OF laws], of pool val] by auto
  show ?thesis
  proof (cases "cp_Name (sc_cipher c) = ''none''")
    case True
    have "encodes c val ?w (cBuf \<noteq> None) False"
      using dc by (cases cBuf) (auto simp: encodes_def sc_decode_def same_codec_def)
    then show ?thesis using that [of ?w False] True lw by (simp add: sc_encrypt_def)
  next
    case False
    obtain e where e: "cp_Encrypt (sc_cipher c) (Some n) [] ?w = Inr e" "length e \<le> length ?w + 28"
      using cipher_laws.encrypt_returns [OF conjunct2 [OF laws] n(2)] by blast
    have "cp_Decrypt (sc_cipher c) [] e = Inr ?w"
      using cipher_laws.decrypt_undoes [OF conjunct2 [OF laws] n(2) e(1)] .
    then have "encodes c val e (cBuf \<noteq> None) True"
      using dc False by (cases cBuf) (auto simp: encodes_def sc_decode_def same_codec_def)
    then show ?thesis using that [of e True] False e lw n(1) by (simp add: sc_encrypt_def)
  qed
qed

lemma not_tooLarge: "\<not> tooLarge v \<Longrightarrow> length v \<le> 67108864"
  by (simp add: tooLarge_def MaxObjectSize_def)

text \<open>\<^verbatim>\<open>Set\<close> is a store of the encoded value.\<close>

lemma sc_Set_store:
  assumes inv: "cache_inv c" and room: "si_room (sc_idx c)" and cod: "cache_codec c" and env: "env_ok env"
    and small: "\<not> tooLarge val"
  obtains v cp en r c1 where "encodes c val v cp en" "length v < 4294967296"
    "sc_store env c key v cp en (expiryOf env ttl) = Some (r, c1)" "sc_Set env c key val ttl = Some (map_sum id (\<lambda>_. val) r, c1)"
proof -
  have mm: "mmap_ok (en_mmap env)" using env by (simp add: env_ok_def)
  obtain cBuf where cb: "cm_Compress (sc_comp c) (en_cbuf env) val = Some cBuf"
    using cod compressor_laws.compress_returns unfolding cache_codec_def value_codec_def by blast
  obtain v en where v: "sc_encrypt env c (case cBuf of None \<Rightarrow> val | Some b \<Rightarrow> b) = Inr (v, en)"
    "encodes c val v (cBuf \<noteq> None) en" "length v \<le> length val + 28" using sc_encode_ok [OF cod env] cb by metis
  have lv: "length v < 4294967296" using v(3) not_tooLarge [OF small] by linarith
  obtain r c1 where s: "sc_store env c key v (cBuf \<noteq> None) en (expiryOf env ttl) = Some (r, c1)"
    "\<And>h. r = Inr h \<Longrightarrow> stored_at c1 key val (expiryOf env ttl) \<and> View (sc_mgr c1) h = Inr v \<and> hgood (sc_mgr c1) h"
    using sc_store_ok [OF inv room mm lv v(2)] by metis
  have plain: "v = val" if "cBuf = None" "\<not> en"
    using v(1) that by (simp add: sc_encrypt_def split: if_splits sum.splits)
  have "sc_Set env c key val ttl = Some (map_sum id (\<lambda>_. val) r, c1)"
  proof (cases r)
    case (Inl e)
    then show ?thesis using small cb v(1) s(1) by (simp add: sc_Set_def expiryOf_def)
  next
    case (Inr h)
    then show ?thesis using small cb v(1) s(1) s(2) [OF Inr] plain by (auto simp: sc_Set_def expiryOf_def arenaView_def)
  qed
  then show ?thesis using that [OF v(2) lv s(1)] by blast
qed

definition set_post :: "call_env \<Rightarrow> bytes \<Rightarrow> bytes \<Rightarrow> u32 \<Rightarrow> shardCache \<Rightarrow> cache_error + bytes \<Rightarrow> shardCache \<Rightarrow> bool" where
  "set_post env key val ttl c r c' \<longleftrightarrow> cache_inv c' \<and> same_codec c c' \<and> grows {key} c c' \<and>
     (\<forall>v. r = Inr v \<longrightarrow> v = val \<and> stored_at c' key val (expiryOf env ttl))"

text \<open>\<^verbatim>\<open>Set\<close> returns in every state; a successful one returns the value and leaves it under the key.\<close>

lemma sc_Set_ok:
  assumes inv: "cache_inv c" and room: "si_room (sc_idx c)" and cod: "cache_codec c" and env: "env_ok env"
  shows "\<exists>r c'. sc_Set env c key val ttl = Some (r, c') \<and> set_post env key val ttl c r c'"
proof (cases "tooLarge val")
  case True
  then show ?thesis using inv by (simp add: sc_Set_def same_codec_def set_post_def grows_same)
next
  case False
  obtain v cp en r c1 where s: "encodes c val v cp en" "length v < 4294967296"
    "sc_store env c key v cp en (expiryOf env ttl) = Some (r, c1)" "sc_Set env c key val ttl = Some (map_sum id (\<lambda>_. val) r, c1)"
    by (rule sc_Set_store [OF assms False])
  have mm: "mmap_ok (en_mmap env)" using env by (simp add: env_ok_def)
  have "cache_inv c1 \<and> same_codec c c1 \<and> grows {key} c c1 \<and> (\<forall>h. r = Inr h \<longrightarrow> stored_at c1 key val (expiryOf env ttl))"
    using sc_store_ok [OF inv room mm s(2,1), of key "expiryOf env ttl"] s(3) by (metis option.inject prod.inject)
  then show ?thesis using s(4) by (cases r) (auto simp: set_post_def)
qed

section \<open>Reading\<close>

lemma sc_touch_ok:
  assumes "cache_inv c"
  shows "cache_inv (sc_touch c h)" "same_codec c (sc_touch c h)" "quiet (sc_mgr c) (sc_mgr (sc_touch c h))"
    "sc_idx (sc_touch c h) = sc_idx c" "sc_ev (sc_touch c h) = sc_ev c"
  using cache_inv_quiet [OF assms ev_Touch_quiet] ev_Touch_quiet [of "sc_mgr c"] cache_invD(1) [OF assms]
  by (simp_all add: sc_touch_def same_codec_def)

definition live_at :: "call_env \<Rightarrow> shardCache \<Rightarrow> bytes \<Rightarrow> Handle \<Rightarrow> u32 \<Rightarrow> bool" where
  "live_at env c key h ex \<longleftrightarrow> si_map (sc_idx c) key = Some (h, ex) \<and> \<not> expired (en_now env) ex"

lemma live_at_cases:
  assumes "cache_inv c"
  obtains "si_get (sc_idx c) key (en_now env) = Some (zeroHandle, False, 0)" "\<nexists>h ex. live_at env c key h ex"
  | h ex raw where "live_at env c key h ex" "si_get (sc_idx c) key (en_now env) = Some (h, True, ex)"
      "hgood (sc_mgr (sc_touch c h)) h" "View (sc_mgr (sc_touch c h)) h = Inr raw"
      "arenaView (sc_mgr (sc_touch c h)) h = Some (Inr raw)"
proof (cases "\<exists>h ex. live_at env c key h ex")
  case True
  then obtain h ex where l: "live_at env c key h ex" by blast
  have g: "hgood (sc_mgr (sc_touch c h)) h"
    using l cache_invD(4) [OF assms] quiet_hgood [OF sc_touch_ok(3) [OF assms]] by (auto simp: live_at_def)
  obtain raw where "View (sc_mgr (sc_touch c h)) h = Inr raw" "arenaView (sc_mgr (sc_touch c h)) h = Some (Inr raw)"
    using arenaView_ok [OF cache_invD(1) [OF sc_touch_ok(1) [OF assms]] g] .
  then show ?thesis
    using that(2) [OF l _ g] l si_get_ok [OF cache_invD(2) [OF assms], of key "en_now env"] by (simp add: live_at_def)
next
  case False
  then show ?thesis
    using that(1) si_get_ok [OF cache_invD(2) [OF assms], of key "en_now env"]
    by (auto simp: live_at_def split: option.splits if_splits)
qed

lemma decode_alias: "aliasOf c h = Some x \<Longrightarrow> x = h \<and> sc_decode env c h raw = Inr raw"
  by (auto simp: aliasOf_def sc_decode_def split: if_splits)

text \<open>The result of a lookup and the shard after it.\<close>

definition get_post :: "call_env \<Rightarrow> shardCache \<Rightarrow> bytes \<Rightarrow> cache_error + bytes \<times> Handle option \<Rightarrow> shardCache \<Rightarrow> bool" where
  "get_post env c key r c' \<longleftrightarrow> cache_inv c' \<and> same_codec c c' \<and> quiet (sc_mgr c) (sc_mgr c') \<and> sc_idx c' = sc_idx c \<and> sc_ev c' = sc_ev c \<and>
     (\<forall>h ex v. live_at env c key h ex \<longrightarrow> reads c h v \<longrightarrow> r = Inr (v, aliasOf c' h)) \<and>
     ((\<nexists>h ex. live_at env c key h ex) \<longrightarrow> r = Inl ErrNotFound) \<and>
     (\<forall>raw h. r = Inr (raw, Some h) \<longrightarrow> hgood (sc_mgr c') h \<and> View (sc_mgr c') h = Inr raw)"

lemma get_postD:
  assumes "get_post env c key r c'"
  shows "cache_inv c'" "same_codec c c'" "quiet (sc_mgr c) (sc_mgr c')" "sc_idx c' = sc_idx c" "sc_ev c' = sc_ev c"
    "live_at env c key h ex \<Longrightarrow> reads c h v \<Longrightarrow> r = Inr (v, aliasOf c' h)"
    "(\<nexists>h ex. live_at env c key h ex) \<Longrightarrow> r = Inl ErrNotFound"
    "r = Inr (raw, Some x) \<Longrightarrow> hgood (sc_mgr c') x" "r = Inr (raw, Some x) \<Longrightarrow> View (sc_mgr c') x = Inr raw"
  using assms unfolding get_post_def by blast+

lemma sc_GetView_ok:
  assumes inv: "cache_inv c"
  shows "\<exists>r c'. sc_GetView env c key = Some (r, c') \<and> get_post env c key r c'"
  using live_at_cases [OF inv, of key env]
proof cases
  case 1
  then show ?thesis
    using inv quiet_refl [OF cache_invD(1) [OF inv]] by (auto simp: sc_GetView_def get_post_def same_codec_def)
next
  case (2 h ex raw)
  note t = sc_touch_ok [OF inv, of h]
  define r where "r = (case sc_decode env (sc_touch c h) h raw of Inl e \<Rightarrow> Inl e
    | Inr v \<Rightarrow> Inr (v, aliasOf (sc_touch c h) h))"
  have eq: "sc_GetView env c key = Some (r, sc_touch c h)" using 2 by (simp add: sc_GetView_def r_def)
  have "r = Inr (v, aliasOf (sc_touch c h) x)" if l: "live_at env c key x e'" "reads c x v" for x e' v
  proof -
    have x: "x = h" using l(1) 2(1) by (simp add: live_at_def)
    have "reads (sc_touch c h) h v" using reads_quiet [OF t(2,3)] l(2) x by simp
    then show ?thesis using 2(4) x by (simp add: reads_def r_def)
  qed
  moreover have "hgood (sc_mgr (sc_touch c h)) x \<and> View (sc_mgr (sc_touch c h)) x = Inr v"
    if "r = Inr (v, Some x)" for v x
    using that decode_alias [of "sc_touch c h" h x env raw] 2(3,4) by (auto simp: r_def split: sum.splits)
  ultimately have "get_post env c key r (sc_touch c h)" unfolding get_post_def using t 2(1) by blast
  then show ?thesis using eq by blast
qed

lemma sc_Get_ok:
  assumes "cache_inv c"
  shows "\<exists>r c'. sc_Get env c key = Some (map_sum id fst r, c') \<and> get_post env c key r c'"
  using sc_GetView_ok [OF assms, of env key] by (auto simp: sc_Get_def)

section \<open>Compare-and-swap and counters\<close>

lemma sc_rewrite_ok:
  assumes inv: "cache_inv c" and room: "si_room (sc_idx c)" and cod: "cache_codec c" and env: "env_ok env"
    and len: "length val \<le> 67108864"
  obtains r c' where "sc_rewrite env c key val ex = Some (r, c')" "cache_inv c'" "same_codec c c'" "grows {key} c c'"
    "\<And>h. r = Inr h \<Longrightarrow> stored_at c' key val ex"
proof -
  have mm: "mmap_ok (en_mmap env)" using env by (simp add: env_ok_def)
  define cb where "cb = (if cm_Name (sc_comp c) \<noteq> ''none'' then cm_Compress (sc_comp c) (en_cbuf env) val else Some None)"
  obtain cBuf where cb1: "cb = Some cBuf" "cBuf = None \<or> cm_Compress (sc_comp c) (en_cbuf env) val = Some cBuf"
    using cod compressor_laws.compress_returns unfolding cache_codec_def value_codec_def cb_def by (metis option.distinct(1))
  obtain v en where v: "sc_encrypt env c (case cBuf of None \<Rightarrow> val | Some b \<Rightarrow> b) = Inr (v, en)"
    "encodes c val v (cBuf \<noteq> None) en" "length v \<le> length val + 28" using sc_encode_ok [OF cod env cb1(2)] by metis
  have lv: "length v < 4294967296" using v(3) len by linarith
  have eq: "sc_rewrite env c key val ex = (if tooLarge v then Some (Inl ErrTooLarge, c)
      else sc_store env c key v (cBuf \<noteq> None) en ex)"
    using cb1(1) v(1) by (simp add: sc_rewrite_def flip: cb_def)
  show ?thesis
  proof (cases "tooLarge v")
    case True
    then show ?thesis using that [of "Inl ErrTooLarge" c] eq inv by (simp add: same_codec_def grows_same)
  next
    case False
    obtain r c1 where s: "sc_store env c key v (cBuf \<noteq> None) en ex = Some (r, c1)" "cache_inv c1" "same_codec c c1" "grows {key} c c1"
      "\<And>h. r = Inr h \<Longrightarrow> stored_at c1 key val ex \<and> View (sc_mgr c1) h = Inr v \<and> hgood (sc_mgr c1) h"
      using sc_store_ok [OF inv room mm lv v(2)] by metis
    then show ?thesis using that [of r c1] eq False by simp
  qed
qed

lemma cache_codec_same: "same_codec c c' \<Longrightarrow> cache_codec c' = cache_codec c"
  by (simp add: cache_codec_def same_codec_def)

lemma same_codec_refl [simp]: "same_codec c c"
  by (simp add: same_codec_def)

lemma same_codec_trans: "same_codec a b \<Longrightarrow> same_codec b c \<Longrightarrow> same_codec a c"
  by (simp add: same_codec_def)

definition cas_post :: "call_env \<Rightarrow> shardCache \<Rightarrow> bytes \<Rightarrow> bytes \<Rightarrow> bytes \<Rightarrow> cache_error + bytes \<times> bool \<Rightarrow> shardCache \<Rightarrow> bool" where
  "cas_post env c key old new r c' \<longleftrightarrow> cache_inv c' \<and> same_codec c c' \<and> grows {key} c c' \<and>
     ((\<nexists>h ex. live_at env c key h ex) \<longrightarrow> r = Inr ([], False) \<and> c' = c) \<and>
     (\<forall>h ex v. live_at env c key h ex \<longrightarrow> reads c h v \<longrightarrow>
        (v \<noteq> old \<longrightarrow> r = Inr (v, False) \<and> c' = sc_touch c h) \<and>
        (v = old \<longrightarrow> (\<forall>x. r = Inr x \<longrightarrow> x = ([], True) \<and> stored_at c' key new ex)))"

lemma sc_CAS_ok:
  assumes inv: "cache_inv c" and room: "si_room (sc_idx c)" and cod: "cache_codec c" and env: "env_ok env"
  shows "\<exists>r c'. sc_CAS env c key old new = Some (r, c') \<and> cas_post env c key old new r c'"
  using live_at_cases [OF inv, of key env]
proof cases
  case 1
  then show ?thesis using inv by (auto simp: sc_CAS_def cas_post_def grows_same)
next
  case (2 h ex raw)
  note t = sc_touch_ok [OF inv, of h]
  have uniq: "x = h \<and> e' = ex" if "live_at env c key x e'" for x e' using that 2(1) by (simp add: live_at_def)
  have gr: "grows {key} c (sc_touch c h)" using grows_same [OF t(4)] .
  have dec: "sc_decode env (sc_touch c h) h raw = Inr v" if "reads c h v" for v
  proof -
    have "reads (sc_touch c h) h v" using that reads_quiet [OF t(2,3)] by simp
    then show ?thesis using 2(4) by (auto simp: reads_def)
  qed
  have post: "cas_post env c key old new r c'" if "cache_inv c'" "same_codec c c'" "grows {key} c c'"
    "\<And>v. reads c h v \<Longrightarrow> v \<noteq> old \<Longrightarrow> r = Inr (v, False) \<and> c' = sc_touch c h"
    "\<And>x. reads c h old \<Longrightarrow> r = Inr x \<Longrightarrow> x = ([], True) \<and> stored_at c' key new ex" for r c'
    unfolding cas_post_def using that 2(1) uniq by blast
  show ?thesis
  proof (cases "sc_decode env (sc_touch c h) h raw")
    case (Inl e)
    have "sc_CAS env c key old new = Some (Inl e, sc_touch c h)" using 2 Inl by (simp add: sc_CAS_def)
    moreover have "\<not> reads c h v" for v using dec [of v] Inl by auto
    ultimately show ?thesis using post [OF t(1,2) gr] by blast
  next
    case (Inr v)
    have vv: "w = v" if "reads c h w" for w using dec [OF that] Inr by simp
    consider "v \<noteq> old" | "v = old" "tooLarge new" | "v = old" "\<not> tooLarge new" by blast
    then show ?thesis
    proof cases
      case 1
      then have "sc_CAS env c key old new = Some (Inr (v, False), sc_touch c h)" using 2 Inr by (simp add: sc_CAS_def)
      then show ?thesis using post [OF t(1,2) gr] vv 1 by blast
    next
      case c2: 2
      then have "sc_CAS env c key old new = Some (Inl ErrTooLarge, sc_touch c h)" using 2 Inr by (simp add: sc_CAS_def)
      then show ?thesis using post [OF t(1,2) gr] vv c2(1) by blast
    next
      case 3
      obtain r c1 where r: "sc_rewrite env (sc_touch c h) key new ex = Some (r, c1)" "cache_inv c1" "same_codec (sc_touch c h) c1" "grows {key} (sc_touch c h) c1"
        "\<And>x. r = Inr x \<Longrightarrow> stored_at c1 key new ex"
        using sc_rewrite_ok [OF t(1), of env new key ex] room t(4) cod cache_codec_same [OF t(2)] env not_tooLarge [OF 3(2)] by metis
      have "sc_CAS env c key old new = Some (map_sum id (\<lambda>_. ([], True)) r, c1)" using 2 Inr 3 r(1) by (simp add: sc_CAS_def)
      moreover have "x = ([], True) \<and> stored_at c1 key new ex" if "map_sum id (\<lambda>_. ([], True)) r = Inr x" for x
        using that r(5) by (cases r) auto
      ultimately show ?thesis using post [OF r(2) same_codec_trans [OF t(2) r(3)] grows_trans [OF gr r(4)]] vv 3(1) by blast
    qed
  qed
qed

definition counterOf :: "bytes \<Rightarrow> u64" where
  "counterOf v = (if length v = 8 then get_u64 v else 0)"

lemma sc_counter_decode:
  assumes "sc_decode env c h raw = Inr v"
  shows "sc_counter env c h raw = counterOf v"
  using assms by (auto simp: sc_decode_def sc_counter_def counterOf_def Let_def split: if_splits sum.splits)

definition incr_post :: "call_env \<Rightarrow> shardCache \<Rightarrow> bytes \<Rightarrow> u64 \<Rightarrow> cache_error + u64 \<Rightarrow> shardCache \<Rightarrow> bool" where
  "incr_post env c key delta r c' \<longleftrightarrow> cache_inv c' \<and> same_codec c c' \<and> grows {key} c c' \<and>
     (\<forall>n. (\<nexists>h ex. live_at env c key h ex) \<longrightarrow> r = Inr n \<longrightarrow> n = delta \<and> stored_at c' key (put_u64 n) 0) \<and>
     (\<forall>h ex v n. live_at env c key h ex \<longrightarrow> reads c h v \<longrightarrow> r = Inr n \<longrightarrow> n = counterOf v + delta \<and> stored_at c' key (put_u64 n) ex)"

lemma sc_Incr_ok:
  assumes inv: "cache_inv c" and room: "si_room (sc_idx c)" and cod: "cache_codec c" and env: "env_ok env"
  shows "\<exists>r c'. sc_Incr env c key delta = Some (r, c') \<and> incr_post env c key delta r c'"
  using live_at_cases [OF inv, of key env]
proof cases
  case 1
  obtain r c1 where r: "sc_rewrite env c key (put_u64 delta) 0 = Some (r, c1)" "cache_inv c1" "same_codec c c1" "grows {key} c c1"
    "\<And>x. r = Inr x \<Longrightarrow> stored_at c1 key (put_u64 delta) 0"
    using sc_rewrite_ok [OF inv room cod env, of "put_u64 delta" key 0] by auto
  have "sc_Incr env c key delta = Some (map_sum id (\<lambda>_. delta) r, c1)" using 1(1) r(1) by (simp add: sc_Incr_def Let_def)
  moreover have "k = delta \<and> stored_at c1 key (put_u64 k) 0" if "map_sum id (\<lambda>_. delta) r = Inr k" for k
    using that r(5) by (cases r) auto
  ultimately show ?thesis using r(2,3,4) 1(2) unfolding incr_post_def by blast
next
  case (2 h ex raw)
  note t = sc_touch_ok [OF inv, of h]
  define n where "n = sc_counter env (sc_touch c h) h raw + delta"
  obtain r c1 where r: "sc_rewrite env (sc_touch c h) key (put_u64 n) ex = Some (r, c1)" "cache_inv c1" "same_codec (sc_touch c h) c1" "grows {key} (sc_touch c h) c1"
    "\<And>x. r = Inr x \<Longrightarrow> stored_at c1 key (put_u64 n) ex"
    using sc_rewrite_ok [OF t(1), of env "put_u64 n" key ex] room t(4) cod cache_codec_same [OF t(2)] env by auto
  have eq: "sc_Incr env c key delta = Some (map_sum id (\<lambda>_. n) r, c1)" using 2 r(1) by (simp add: sc_Incr_def Let_def n_def)
  have cnt: "n = counterOf v + delta" if "reads c h v" for v
  proof -
    have "reads (sc_touch c h) h v" using that reads_quiet [OF t(2,3)] by simp
    then show ?thesis using 2(4) sc_counter_decode [of env "sc_touch c h" h raw v] by (auto simp: reads_def n_def)
  qed
  have uniq: "x = h \<and> e' = ex" if "live_at env c key x e'" for x e' using that 2(1) by (simp add: live_at_def)
  have n: "k = n \<and> stored_at c1 key (put_u64 n) ex" if "map_sum id (\<lambda>_. n) r = Inr k" for k
    using that r(5) by (cases r) auto
  have "incr_post env c key delta (map_sum id (\<lambda>_. n) r) c1"
    unfolding incr_post_def using r(2) same_codec_trans [OF t(2) r(3)] grows_trans [OF grows_same [OF t(4)] r(4)] 2(1) uniq cnt n by blast
  then show ?thesis using eq by blast
qed

section \<open>Removal\<close>

lemma cache_inv_removed:
  assumes inv: "cache_inv c" and e: "ev_inv e" "ev_handles e = ev_handles (sc_ev c)" and q: "quiet (sc_mgr c) m"
    and idx: "si_inv idx" "si_map idx \<subseteq>\<^sub>m si_map (sc_idx c)"
  shows "cache_inv (c\<lparr>sc_mgr := m, sc_ev := e, sc_idx := idx\<rparr>)"
proof -
  have "hgood m h" if "si_map idx k = Some (h, x)" for k h x
  proof -
    have "si_map (sc_idx c) k = Some (h, x)" using idx(2) that unfolding map_le_def by (metis domI)
    then show ?thesis using cache_invD(4) [OF inv] quiet_hgood [OF q] by blast
  qed
  then show ?thesis using inv e idx(1) quiet_rng [OF q] quiet_hgood [OF q] by (auto simp: cache_inv_def)
qed

lemma sc_Delete_ok:
  assumes inv: "cache_inv c"
  obtains c' where "sc_Delete env c key = Some (Inr (), c')" "cache_inv c'" "same_codec c c'" "quiet (sc_mgr c) (sc_mgr c')"
    "si_map (sc_idx c') = (si_map (sc_idx c))(key := None)"
proof -
  note d = cache_invD [OF inv]
  obtain idx where idx: "si_delete (sc_idx c) key = Some (si_old (sc_idx c) key, idx)" "si_inv idx"
    "si_map idx = (si_map (sc_idx c))(key := None)" using si_delete_ok [OF d(2)] by blast
  have le: "si_map idx \<subseteq>\<^sub>m si_map (sc_idx c)" by (simp add: idx(3) map_le_def)
  obtain h ok where old: "si_old (sc_idx c) key = (h, ok)" by force
  show ?thesis
  proof (cases ok)
    case False
    have "cache_inv (c\<lparr>sc_idx := idx\<rparr>)"
      using cache_inv_removed [OF inv d(3) refl quiet_refl [OF d(1)] idx(2) le] by simp
    then show ?thesis
      using that [of "c\<lparr>sc_idx := idx\<rparr>"] idx False old quiet_refl [OF d(1)] by (simp add: sc_Delete_def same_codec_def)
  next
    case True
    have h: "hgood (sc_mgr c) h" using si_old_cases [OF inv, of key] old True by simp
    obtain e m where e: "ev_Delete (sc_ev c) (sc_mgr c) key h = Some (e, m)" "ev_step (sc_ev c) (sc_mgr c) e m"
      "ev_handles e = ev_handles (sc_ev c)" using ev_Delete_ok [OF d(3,1)] by metis
    have q: "quiet (sc_mgr c) m" using e(2) by (simp add: ev_step_def)
    note f = Free_quiet [OF quiet_rng [OF q], of h]
    have hm: "hgood m h" using h quiet_hgood [OF q] by simp
    have q2: "quiet (sc_mgr c) (snd (Free m h))" using quiet_trans [OF q f(2) [OF hm]] .
    let ?c = "c\<lparr>sc_mgr := snd (Free m h), sc_ev := e, sc_idx := idx\<rparr>"
    have "cache_inv ?c" using cache_inv_removed [OF inv _ e(3) q2 idx(2) le] e(2) by (simp add: ev_step_def)
    moreover have "sc_Delete env c key = Some (Inr (), ?c)"
      using idx(1) old True e(1) f(1) [OF hm] by (cases "Free m h") (simp add: sc_Delete_def)
    ultimately show ?thesis using that [of ?c] q2 idx(3) by (simp add: same_codec_def)
  qed
qed

lemma removeAll_handles_ok:
  assumes "ev_inv e" "mgr_rng m" "\<forall>h \<in> set hs. hgood m h"
  shows "\<exists>e' m'. removeAll_handles e m hs = Some (e', m') \<and> ev_inv e' \<and> quiet m m' \<and> ev_handles e' = ev_handles e"
  using assms
proof (induction hs arbitrary: e m)
  case Nil
  then show ?case by (simp add: quiet_refl)
next
  case (Cons h hs)
  obtain e1 m1 where e1: "ev_Remove e m h = Some (e1, m1)" "ev_inv e1" "quiet m m1" "ev_handles e1 = ev_handles e"
    using ev_Remove_ok [OF Cons.prems(1,2)] unfolding ev_step_def by metis
  have "quiet m1 (snd (Free m1 h))"
    using Free_quiet(2) [OF quiet_rng [OF e1(3)]] quiet_hgood [OF e1(3)] Cons.prems(3) by simp
  then have q: "quiet m (snd (Free m1 h))" using quiet_trans e1(3) by blast
  obtain e' m' where r: "removeAll_handles e1 (snd (Free m1 h)) hs = Some (e', m')" "ev_inv e'" "quiet (snd (Free m1 h)) m'"
    "ev_handles e' = ev_handles e1"
    using Cons.IH [OF e1(2) quiet_rng [OF q]] quiet_hgood [OF q] Cons.prems(3) by auto
  have "removeAll_handles e m (h # hs) = Some (e', m')" using e1(1) r(1) by simp
  then show ?case using r(2,4) e1(4) quiet_trans [OF q r(3)] by metis
qed

lemma deleteAll_handles_ok:
  assumes "ev_inv e" "mgr_rng m" "\<forall>h \<in> snd ` set hs. hgood m h"
  shows "\<exists>e' m'. deleteAll_handles e m hs = Some (e', m') \<and> ev_inv e' \<and> quiet m m' \<and> ev_handles e' = ev_handles e"
  using assms
proof (induction hs arbitrary: e m)
  case Nil
  then show ?case by (simp add: quiet_refl)
next
  case (Cons kh hs)
  obtain k h where kh: "kh = (k, h)" by force
  obtain e1 m1 where e1: "ev_Delete e m k h = Some (e1, m1)" "ev_inv e1" "quiet m m1" "ev_handles e1 = ev_handles e"
    using ev_Delete_ok [OF Cons.prems(1,2)] unfolding ev_step_def by metis
  have "quiet m1 (snd (Free m1 h))"
    using Free_quiet(2) [OF quiet_rng [OF e1(3)]] quiet_hgood [OF e1(3)] Cons.prems(3) kh by simp
  then have q: "quiet m (snd (Free m1 h))" using quiet_trans e1(3) by blast
  obtain e' m' where r: "deleteAll_handles e1 (snd (Free m1 h)) hs = Some (e', m')" "ev_inv e'" "quiet (snd (Free m1 h)) m'"
    "ev_handles e' = ev_handles e1"
    using Cons.IH [OF e1(2) quiet_rng [OF q]] quiet_hgood [OF q] Cons.prems(3) by auto
  have "deleteAll_handles e m (kh # hs) = Some (e', m')" using e1(1) r(1) kh by simp
  then show ?case using r(2,4) e1(4) quiet_trans [OF q r(3)] by metis
qed

text \<open>The handles that a sweep of the index returns were in the index.\<close>

lemma removes_good:
  assumes "cache_inv c" "removes (sc_idx c) ks hs idx"
  shows "\<forall>h \<in> set hs. hgood (sc_mgr c) h" "si_inv idx" "si_map idx \<subseteq>\<^sub>m si_map (sc_idx c)" "length ks = length hs"
proof -
  have m: "map (\<lambda>k. map_option fst (si_map (sc_idx c) k)) ks = map Some hs" using assms(2) by (simp add: removes_def)
  show l: "length ks = length hs" using arg_cong [OF m, of length] by simp
  have "hgood (sc_mgr c) h" if "h \<in> set hs" for h
  proof -
    obtain i where i: "i < length hs" "hs ! i = h" using \<open>h \<in> set hs\<close> by (auto simp: in_set_conv_nth)
    have "map_option fst (si_map (sc_idx c) (ks ! i)) = Some h" using arg_cong [OF m, of "\<lambda>xs. xs ! i"] i l by simp
    then show ?thesis using cache_invD(4) [OF assms(1)] by auto
  qed
  then show "\<forall>h \<in> set hs. hgood (sc_mgr c) h" by blast
  show "si_inv idx" "si_map idx \<subseteq>\<^sub>m si_map (sc_idx c)"
    using assms(2) by (auto simp: removes_def map_le_def restrict_map_def)
qed

lemma si_DeleteExpired_removes:
  assumes "si_inv s"
  obtains ks hs s' where "si_DeleteExpired s now limit = Some (hs, s')" "removes s ks hs s'"
    "\<forall>k \<in> set ks. \<exists>h e. si_map s k = Some (h, e) \<and> expired now e"
proof (cases "si_count s = 0 \<or> limit \<le> 0")
  case True
  then show ?thesis using that [of "[]" s "[]"] removes_Nil [OF assms] by (simp add: si_DeleteExpired_def)
next
  case False
  then show ?thesis using that si_expireLoop_ok [OF assms, of "nat limit" now "[]"] by (auto simp: si_DeleteExpired_def)
qed

lemma si_deletePrefix_removes:
  assumes "si_inv s"
  obtains ks hs s' where "si_deletePrefix s pfx = Some ((hs, ks), s')" "removes s ks hs s'"
    "\<forall>k \<in> set ks. bytesHasPrefix k pfx" "\<forall>k. si_map s' k \<noteq> None \<longrightarrow> \<not> bytesHasPrefix k pfx"
proof (cases "si_count s = 0")
  case True
  obtain j where "si_table j s" using assms by (auto simp: si_inv_def)
  then have "si_map s = Map.empty" using si_map_empty True by blast
  then show ?thesis using that [of "[]" "[]" s] True removes_Nil [OF assms] by (simp add: si_deletePrefix_def)
next
  case False
  then show ?thesis using that si_prefixLoop_ok [OF assms refl, of 0 pfx "[]" "[]"] by (auto simp: si_deletePrefix_def)
qed

lemma sc_DeleteExpired_ok:
  assumes inv: "cache_inv c"
  obtains c' ks where "sc_DeleteExpired env c limit = Some (Inr (), c')" "cache_inv c'" "same_codec c c'" "quiet (sc_mgr c) (sc_mgr c')"
    "si_map (sc_idx c') = si_map (sc_idx c) |` (- ks)" "\<forall>k \<in> ks. \<exists>h e. si_map (sc_idx c) k = Some (h, e) \<and> expired (en_now env) e"
proof -
  note d = cache_invD [OF inv]
  obtain ks hs idx where s: "si_DeleteExpired (sc_idx c) (en_now env) limit = Some (hs, idx)" "removes (sc_idx c) ks hs idx"
    "\<forall>k \<in> set ks. \<exists>h e. si_map (sc_idx c) k = Some (h, e) \<and> expired (en_now env) e"
    using si_DeleteExpired_removes [OF d(2)] by metis
  note g = removes_good [OF inv s(2)]
  obtain e m where r: "removeAll_handles (sc_ev c) (sc_mgr c) hs = Some (e, m)" "ev_inv e" "quiet (sc_mgr c) m" "ev_handles e = ev_handles (sc_ev c)"
    using removeAll_handles_ok [OF d(3,1) g(1)] by blast
  have "cache_inv (c\<lparr>sc_mgr := m, sc_ev := e, sc_idx := idx\<rparr>)" using cache_inv_removed [OF inv r(2,4,3) g(2,3)] .
  moreover have "si_map idx = si_map (sc_idx c) |` (- set ks)" using s(2) by (simp add: removes_def)
  ultimately show ?thesis
    using that [of "c\<lparr>sc_mgr := m, sc_ev := e, sc_idx := idx\<rparr>" "set ks"] s(1,3) r(1,3) by (simp add: sc_DeleteExpired_def same_codec_def)
qed

lemma sc_DelPrefix_ok:
  assumes inv: "cache_inv c"
  obtains c' ks where "sc_DelPrefix env c pfx = Some (Inr (of_nat (length ks)), c')" "cache_inv c'" "same_codec c c'" "quiet (sc_mgr c) (sc_mgr c')"
    "distinct ks" "set ks = {k. si_map (sc_idx c) k \<noteq> None \<and> bytesHasPrefix k pfx}"
    "si_map (sc_idx c') = si_map (sc_idx c) |` {k. \<not> bytesHasPrefix k pfx}"
proof -
  note d = cache_invD [OF inv]
  obtain ks hs idx where s: "si_deletePrefix (sc_idx c) pfx = Some ((hs, ks), idx)" "removes (sc_idx c) ks hs idx"
    "\<forall>k \<in> set ks. bytesHasPrefix k pfx" "\<forall>k. si_map idx k \<noteq> None \<longrightarrow> \<not> bytesHasPrefix k pfx"
    using si_deletePrefix_removes [OF d(2)] by metis
  note g = removes_good [OF inv s(2)]
  have "\<forall>h \<in> snd ` set (zip ks hs). hgood (sc_mgr c) h" using g(1) by (auto dest: set_zip_rightD)
  then obtain e m where r: "deleteAll_handles (sc_ev c) (sc_mgr c) (zip ks hs) = Some (e, m)" "ev_inv e" "quiet (sc_mgr c) m"
    "ev_handles e = ev_handles (sc_ev c)"
    using deleteAll_handles_ok [OF d(3,1)] by metis
  have inv': "cache_inv (c\<lparr>sc_mgr := m, sc_ev := e, sc_idx := idx\<rparr>)" using cache_inv_removed [OF inv r(2,4,3) g(2,3)] .
  have mp: "si_map idx = si_map (sc_idx c) |` (- set ks)" and di: "distinct ks" using s(2) by (simp_all add: removes_def)
  have keys: "si_map (sc_idx c) k \<noteq> None" if "k \<in> set ks" for k
  proof -
    have "map (\<lambda>k. map_option fst (si_map (sc_idx c) k)) ks = map Some hs" using s(2) by (simp add: removes_def)
    then have "map_option fst (si_map (sc_idx c) k) \<in> set (map Some hs)" using that by (metis image_eqI set_map)
    then show ?thesis by auto
  qed
  have ks: "set ks = {k. si_map (sc_idx c) k \<noteq> None \<and> bytesHasPrefix k pfx}"
    using keys s(3) s(4) [unfolded mp] by (auto simp: restrict_map_def split: if_splits)
  have mp2: "si_map idx k = (si_map (sc_idx c) |` {k. \<not> bytesHasPrefix k pfx}) k" for k
    unfolding mp ks restrict_map_def by (cases "si_map (sc_idx c) k") auto
  then have mp3: "si_map idx = si_map (sc_idx c) |` {k. \<not> bytesHasPrefix k pfx}" by blast
  show ?thesis
    by (rule that [of ks "c\<lparr>sc_mgr := m, sc_ev := e, sc_idx := idx\<rparr>"])
      (use s(1) r(1,3) inv' di ks mp3 g(4) in \<open>simp_all add: sc_DelPrefix_def same_codec_def\<close>)
qed

end
