(* ===== verification/Cache_Laws.thy ===== *)
theory Cache_Laws
  imports Shard_Cache
begin

text \<open>
  The laws of a cache shard.  \<open>cache_op\<close> names the methods of \<^verbatim>\<open>CacheService\<close> with their arguments and
  \<open>sc_step\<close> runs one of them; the lemmas below show that every method returns and keeps the invariant, that a
  value just stored is the value read, what \<^verbatim>\<open>CAS\<close> and \<^verbatim>\<open>Incr\<close> do to it, and that a deleted
  key is gone.
\<close>

section \<open>Definitions\<close>

datatype cache_op =
    OSet bytes bytes u32 | OGet bytes | ODelete bytes | ODeleteExpired int | OCAS bytes bytes bytes
  | OIncr bytes u64 | OScan bytes u64 int | ODelPrefix bytes
  | OHSet bytes bytes bytes | OHGet bytes bytes | OHDel bytes bytes | OHGetAll bytes
  | OLPush bytes bytes | OLPop bytes | ORPush bytes bytes | ORPop bytes | OLLen bytes
  | OSAdd bytes bytes | OSRem bytes bytes | OSIsMember bytes bytes | OSMembers bytes

fun sc_step :: "call_env \<Rightarrow> cache_op \<Rightarrow> shardCache \<Rightarrow> shardCache option" where
  "sc_step env (OSet k v ttl) c = map_option snd (sc_Set env c k v ttl)"
| "sc_step env (OGet k) c = map_option snd (sc_Get env c k)"
| "sc_step env (ODelete k) c = map_option snd (sc_Delete env c k)"
| "sc_step env (ODeleteExpired n) c = map_option snd (sc_DeleteExpired env c n)"
| "sc_step env (OCAS k old new) c = map_option snd (sc_CAS env c k old new)"
| "sc_step env (OIncr k d) c = map_option snd (sc_Incr env c k d)"
| "sc_step env (OScan p cur n) c = map_option snd (sc_Scan env c p cur n)"
| "sc_step env (ODelPrefix p) c = map_option snd (sc_DelPrefix env c p)"
| "sc_step env (OHSet k f v) c = map_option snd (sc_HSet env c k f v)"
| "sc_step env (OHGet k f) c = map_option snd (sc_HGet env c k f)"
| "sc_step env (OHDel k f) c = map_option snd (sc_HDel env c k f)"
| "sc_step env (OHGetAll k) c = map_option snd (sc_HGetAll env c k)"
| "sc_step env (OLPush k v) c = map_option snd (sc_LPush env c k v)"
| "sc_step env (OLPop k) c = map_option snd (sc_LPop env c k)"
| "sc_step env (ORPush k v) c = map_option snd (sc_RPush env c k v)"
| "sc_step env (ORPop k) c = map_option snd (sc_RPop env c k)"
| "sc_step env (OLLen k) c = map_option snd (sc_LLen env c k)"
| "sc_step env (OSAdd k v) c = map_option snd (sc_SAdd env c k v)"
| "sc_step env (OSRem k v) c = map_option snd (sc_SRem env c k v)"
| "sc_step env (OSIsMember k v) c = map_option snd (sc_SIsMember env c k v)"
| "sc_step env (OSMembers k) c = map_option snd (sc_SMembers env c k)"

text \<open>What a step keeps: the shard is well formed, its codec is the same, and only keys in \<open>K\<close> are new.\<close>

definition kept :: "bytes set \<Rightarrow> shardCache \<Rightarrow> shardCache \<Rightarrow> bool" where
  "kept K c c' \<longleftrightarrow> cache_inv c' \<and> same_codec c c' \<and> grows K c c'"

text \<open>The keys an operation may add.\<close>

fun op_keys :: "cache_op \<Rightarrow> bytes set" where
  "op_keys (OSet k _ _) = {k}"
| "op_keys (OCAS k _ _) = {k}"
| "op_keys (OIncr k _) = {k}"
| "op_keys (OHSet k _ _) = {k}"
| "op_keys (OHDel k _) = {k}"
| "op_keys (OLPush k _) = {k}"
| "op_keys (OLPop k) = {k}"
| "op_keys (ORPush k _) = {k}"
| "op_keys (ORPop k) = {k}"
| "op_keys (OSAdd k _) = {k}"
| "op_keys (OSRem k _) = {k}"
| "op_keys _ = {}"

section \<open>Every method keeps the shard\<close>

lemma kept_trans: "kept K a b \<Longrightarrow> kept K b c \<Longrightarrow> kept K a c"
  by (auto simp: kept_def intro: same_codec_trans grows_trans)

lemma kept_refl: "cache_inv c \<Longrightarrow> kept K c c"
  by (simp add: kept_def grows_same)

lemma kept_mono: "kept {} a b \<Longrightarrow> kept K a b"
  by (auto simp: kept_def grows_def)

text \<open>A shard fit for one more call.\<close>

definition ready :: "call_env \<Rightarrow> shardCache \<Rightarrow> bool" where
  "ready env c \<longleftrightarrow> cache_inv c \<and> si_room (sc_idx c) \<and> cache_codec c \<and> env_ok env"

lemma readyD: "ready env c \<Longrightarrow> cache_inv c" "ready env c \<Longrightarrow> si_room (sc_idx c)" "ready env c \<Longrightarrow> cache_codec c" "ready env c \<Longrightarrow> env_ok env"
  by (auto simp: ready_def)

lemma GetView_kept:
  assumes "ready env c"
  obtains r c1 where "sc_GetView env c key = Some (r, c1)" "kept K c c1" "ready env c1" "get_post env c key r c1"
proof -
  obtain r c1 where g: "sc_GetView env c key = Some (r, c1)" "get_post env c key r c1"
    using sc_GetView_ok [OF readyD(1) [OF assms], of env key] by blast
  note p = get_postD(1,2,4) [OF g(2)]
  show ?thesis using that [OF g(1) _ _ g(2)] p assms by (simp add: kept_def ready_def cache_codec_same grows_same)
qed

lemma Get_kept:
  assumes "ready env c"
  obtains r c1 where "sc_Get env c key = Some (r, c1)" "kept K c c1" "ready env c1"
proof -
  obtain r c1 where "sc_GetView env c key = Some (r, c1)" "kept K c c1" "ready env c1" using GetView_kept [OF assms, of key] by blast
  then show ?thesis using that by (simp add: sc_Get_def)
qed

lemma Set_kept:
  assumes "ready env c"
  shows "\<exists>r c1. sc_Set env c key val ttl = Some (r, c1) \<and> kept {key} c c1"
  using sc_Set_ok [OF readyD [OF assms], of key val ttl] unfolding kept_def set_post_def by blast

lemma Delete_kept:
  assumes "ready env c"
  shows "\<exists>r c1. sc_Delete env c key = Some (r, c1) \<and> kept K c c1"
  proof -
  obtain c' where d: "sc_Delete env c key = Some (Inr (), c')" "cache_inv c'" "same_codec c c'" "si_map (sc_idx c') = (si_map (sc_idx c))(key := None)"
    using sc_Delete_ok [OF readyD(1) [OF assms], of env key] by metis
  have "grows K c c'" using d(4) by (auto simp: grows_def)
  then show ?thesis using d by (simp add: kept_def)
qed

lemma putBack_kept: "ready env c \<Longrightarrow> \<exists>c1. sc_putBack env c key newRaw = Some c1 \<and> kept {key} c c1"
  using Set_kept [of env c key newRaw 0] Delete_kept [of env c key "{key}"] by (auto simp: sc_putBack_def)

lemma query_kept:
  assumes "ready env c"
  shows "\<exists>r c1. sc_query env c key f = Some (r, c1) \<and> kept K c c1"
proof -
  obtain r c1 where "sc_Get env c key = Some (r, c1)" "kept K c c1" using Get_kept [OF assms, of key] by blast
  then show ?thesis by (simp add: sc_query_def)
qed

lemma update_kept:
  assumes "ready env c"
  shows "\<exists>r c1. sc_update env c key f = Some (r, c1) \<and> kept {key} c c1"
proof -
  obtain r c1 where g: "sc_GetView env c key = Some (r, c1)" "kept {key} c c1" "ready env c1" using GetView_kept [OF assms] by metis
  obtain newRaw x where f: "f (rawOr r) = (newRaw, x)" by force
  obtain r2 c2 where c2: "sc_Set env c1 key newRaw 0 = Some (r2, c2)" "kept {key} c1 c2" using Set_kept [OF g(3)] by metis
  show ?thesis using g(1) f c2(1) kept_trans [OF g(2) c2(2)] by (simp add: sc_update_def)
qed

lemma pop_kept:
  assumes "ready env c"
  shows "\<exists>r c1. sc_pop env c key pop off = Some (r, c1) \<and> kept {key} c c1"
proof -
  obtain r c1 where g: "sc_GetView env c key = Some (r, c1)" "kept {key} c c1" "ready env c1" using GetView_kept [OF assms] by metis
  show ?thesis
  proof (cases r)
    case (Inl e)
    then show ?thesis using g by (auto simp: sc_pop_def)
  next
    case (Inr x)
    obtain raw al where x: "x = (raw, al)" by force
    obtain newRaw popped ok where p: "pop raw = (newRaw, popped, ok)" by (metis prod_cases3)
    obtain c2 where c2: "sc_putBack env c1 key newRaw = Some c2" "kept {key} c1 c2" using putBack_kept [OF g(3)] by metis
    show ?thesis using g(1,2) Inr x p c2(1) kept_trans [OF g(2) c2(2)] by (cases ok) (simp_all add: sc_pop_def)
  qed
qed

subsection \<open>Writing through a view\<close>

lemma rec_find_bounds:
  assumes "rec_find p P n bs off = Some (st, fin, r)"
    and "\<And>bs r bs'. p bs = Some (r, bs') \<Longrightarrow> length bs' + sz r \<le> length bs"
  shows "fin \<le> off + length bs \<and> sz r \<le> fin"
  using assms(1)
proof (induction n arbitrary: bs off)
  case (Suc n)
  obtain r1 bs1 where p: "p bs = Some (r1, bs1)" using Suc.prems by (auto split: option.splits)
  have l: "length bs1 + sz r1 \<le> length bs" using assms(2) [OF p] .
  show ?case
  proof (cases "P r1")
    case True
    then show ?thesis using Suc.prems p l by (auto simp: Let_def)
  next
    case False
    then have "rec_find p P n bs1 (off + (length bs - length bs1)) = Some (st, fin, r)"
      using Suc.prems p by (simp add: Let_def)
    from Suc.IH [OF this] show ?thesis using l by auto
  qed
qed simp

lemma h_rec_consumes: "h_rec bs = Some (r, bs') \<Longrightarrow> length bs' + length (snd r) \<le> length bs"
  by (auto simp: h_rec_def s_rec_def l_rec_def Let_def slice_def split: option.splits if_splits)

lemma hset_inPlace_length:
  assumes "hset_inPlace raw field val"
  shows "length (fst (HSet raw field val)) = length raw"
proof -
  obtain st fin f v where f: "h_find raw field = Some (st, fin, f, v)" and l: "length v = length val" and r: "4 \<le> length raw"
    using assms by (auto simp: hset_inPlace_def split: option.splits)
  have "fin \<le> 4 + length (drop 4 raw)" "length v \<le> fin"
    using rec_find_bounds [where sz = "\<lambda>r. length (snd r)", OF f [unfolded h_find_def] h_rec_consumes] by simp_all
  then have "fin - length v + length val \<le> length raw" using r l by simp
  then show ?thesis using f l r by (simp add: HSet_def)
qed

lemma pokeView_rng:
  assumes rng: "mgr_rng m" and h: "hgood m h" and l: "length bs = unat (h_Size h)"
  shows "mgr_rng (pokeView m h bs)" "hgood (pokeView m h bs) x = hgood m x"
proof -
  let ?i = "unat (h_Region h)" and ?r = "mg_regions m ! unat (h_Region h)"
  have i: "?i < length (mg_regions m)" using h by (simp add: hgood_def)
  have len: "length (copy_at (rg_data ?r) (unat (h_Offset h)) bs) = length (rg_data ?r)"
    using hgood_end(1) [OF rng h] l by simp
  have "region_ok (mg_size m) (?r\<lparr>rg_data := copy_at (rg_data ?r) (unat (h_Offset h)) bs\<rparr>)"
    using mgr_rng_region [OF rng i] len by (simp add: region_ok_def)
  then show "mgr_rng (pokeView m h bs)"
    using rng mgr_rng_region [OF rng i]
    by (auto simp: pokeView_def Let_def mgr_rng_def dest!: set_update_subset_insert [THEN subsetD])
  show "hgood (pokeView m h bs) x = hgood m x" by (simp add: pokeView_def Let_def hgood_def)
qed

lemma poke_ready:
  assumes "ready env c" "hgood (sc_mgr c) h" "length bs = unat (h_Size h)"
  shows "ready env (c\<lparr>sc_mgr := pokeView (sc_mgr c) h bs\<rparr>)" "same_codec c (c\<lparr>sc_mgr := pokeView (sc_mgr c) h bs\<rparr>)"
proof -
  have inv: "cache_inv c" using readyD(1) [OF assms(1)] .
  note p = pokeView_rng [OF cache_invD(1) [OF inv] assms(2,3)]
  have "cache_inv (c\<lparr>sc_mgr := pokeView (sc_mgr c) h bs\<rparr>)" using inv p by (simp add: cache_inv_def)
  then show "ready env (c\<lparr>sc_mgr := pokeView (sc_mgr c) h bs\<rparr>)"
    using assms(1) by (simp add: ready_def cache_codec_def)
qed (simp add: same_codec_def)

text \<open>\<^verbatim>\<open>HSet\<close> reaches its call of \<^verbatim>\<open>Set\<close> in a shard that is still well formed.\<close>

lemma sc_HSet_steps:
  assumes "ready env c"
  obtains r c1 c2 where "sc_GetView env c key = Some (r, c1)" "get_post env c key r c1" "ready env c2" "kept {} c c2"
    "sc_HSet env c key field val =
       map_option (apfst (map_sum id (\<lambda>_. snd (HSet (rawOr r) field val)))) (sc_Set env c2 key (fst (HSet (rawOr r) field val)) 0)"
proof -
  obtain r c1 where g: "sc_GetView env c key = Some (r, c1)" "kept {} c c1" "ready env c1" "get_post env c key r c1"
    using GetView_kept [OF assms] .
  obtain newRaw updated where hs: "HSet (rawOr r) field val = (newRaw, updated)" by force
  define c2 where "c2 = (case r of Inr (raw, Some h) \<Rightarrow>
      if hset_inPlace raw field val then c1\<lparr>sc_mgr := pokeView (sc_mgr c1) h newRaw\<rparr> else c1 | _ \<Rightarrow> c1)"
  have eq: "sc_HSet env c key field val =
       map_option (apfst (map_sum id (\<lambda>_. snd (HSet (rawOr r) field val)))) (sc_Set env c2 key (fst (HSet (rawOr r) field val)) 0)"
    using g(1) hs unfolding sc_HSet_def c2_def by simp
  have "ready env c2 \<and> same_codec c1 c2 \<and> sc_idx c2 = sc_idx c1"
  proof (cases "\<exists>raw h. r = Inr (raw, Some h) \<and> hset_inPlace raw field val")
    case True
    then obtain raw h where r: "r = Inr (raw, Some h)" "hset_inPlace raw field val" by blast
    have h: "hgood (sc_mgr c1) h" "View (sc_mgr c1) h = Inr raw" using get_postD(8,9) [OF g(4) r(1)] .
    obtain b where "View (sc_mgr c1) h = Inr b" "length b = unat (h_Size h)"
      using hgood_View [OF cache_invD(1) [OF readyD(1) [OF g(3)]] h(1)] .
    then have "length newRaw = unat (h_Size h)" using h(2) hset_inPlace_length [OF r(2)] r(1) hs by (simp add: rawOr_def)
    then show ?thesis using poke_ready [OF g(3) h(1)] r by (simp add: c2_def)
  next
    case False
    then have "c2 = c1" by (auto simp: c2_def split: sum.splits option.splits)
    then show ?thesis using g(3) by simp
  qed
  then have "ready env c2" "kept {} c1 c2" using grows_same by (auto simp: kept_def ready_def)
  then show ?thesis using that [OF g(1,4) _ _ eq] kept_trans [OF g(2)] by blast
qed

lemma HSet_kept:
  assumes "ready env c"
  shows "\<exists>r c1. sc_HSet env c key field val = Some (r, c1) \<and> kept {key} c c1"
proof -
  obtain r c2 where h: "ready env c2" "kept {} c c2" "sc_HSet env c key field val =
       map_option (apfst (map_sum id (\<lambda>_. snd (HSet (rawOr r) field val)))) (sc_Set env c2 key (fst (HSet (rawOr r) field val)) 0)"
    using sc_HSet_steps [OF assms] by metis
  obtain r3 c3 where "sc_Set env c2 key (fst (HSet (rawOr r) field val)) 0 = Some (r3, c3)" "kept {key} c2 c3" using Set_kept [OF h(1)] by metis
  then show ?thesis using h(3) kept_trans [OF kept_mono [OF h(2)]] by auto
qed

lemma HDel_kept:
  assumes "ready env c"
  shows "\<exists>r c1. sc_HDel env c key field = Some (r, c1) \<and> kept {key} c c1"
proof -
  obtain r c1 where g: "sc_Get env c key = Some (r, c1)" "kept {key} c c1" "ready env c1" using Get_kept [OF assms] .
  have d: "\<exists>r2 c2. sc_Delete env c1 key = Some (r2, c2) \<and> kept {key} c c2" using Delete_kept [OF g(3)] kept_trans [OF g(2)] by blast
  have s: "\<exists>r2 c2. sc_Set env c1 key x 0 = Some (r2, c2) \<and> kept {key} c c2" for x using Set_kept [OF g(3)] kept_trans [OF g(2)] by blast
  show ?thesis
  proof (cases r)
    case (Inl e)
    then show ?thesis using g by (simp add: sc_HDel_def)
  next
    case (Inr raw)
    obtain nr del where n: "HDel raw field = (nr, del)" by force
    show ?thesis using g(1,2) Inr n d s [of nr] by (cases del; cases "nr = []") (auto simp: sc_HDel_def)
  qed
qed

lemma SRem_kept:
  assumes "ready env c"
  shows "\<exists>r c1. sc_SRem env c key m = Some (r, c1) \<and> kept {key} c c1"
proof -
  obtain r c1 where g: "sc_Get env c key = Some (r, c1)" "kept {key} c c1" "ready env c1" using Get_kept [OF assms] .
  show ?thesis
  proof (cases r)
    case (Inl e)
    then show ?thesis using g by (simp add: sc_SRem_def)
  next
    case (Inr raw)
    obtain nr del where n: "SRem raw m = (nr, del)" by force
    obtain c2 where "sc_putBack env c1 key nr = Some c2" "kept {key} c1 c2" using putBack_kept [OF g(3)] by metis
    then show ?thesis using g(1,2) Inr n kept_trans [OF g(2)] by (cases del) (auto simp: sc_SRem_def)
  qed
qed

lemma RPush_kept:
  assumes "ready env c" "sc_RPush env c key v = Some (r, c')"
  shows "kept {key} c c'"
proof -
  obtain r1 c1 where g: "sc_GetView env c key = Some (r1, c1)" "kept {key} c c1" "ready env c1" using GetView_kept [OF assms(1)] by metis
  obtain nr where n: "RPush (rawOr r1) v = Some nr" using assms(2) g(1) by (auto simp: sc_RPush_def bind_eq_Some_conv)
  obtain r2 c2 where "sc_Set env c1 key nr 0 = Some (r2, c2)" "kept {key} c1 c2" using Set_kept [OF g(3)] by metis
  then show ?thesis using assms(2) g(1,2) n kept_trans by (auto simp: sc_RPush_def)
qed

lemma step_returns: "\<exists>r c1. f = Some (r, c1) \<and> kept K c c1 \<Longrightarrow> \<exists>c'. map_option snd f = Some c' \<and> kept K c c'"
  by auto

lemma step_ready:
  assumes "ready env c"
  shows "\<forall>c'. sc_step env op c = Some c' \<longrightarrow> kept (op_keys op) c c'" "(\<And>k v. op \<noteq> ORPush k v) \<Longrightarrow> sc_step env op c \<noteq> None"
proof -
  note laws = Set_kept [OF assms] Delete_kept [OF assms] HSet_kept [OF assms] HDel_kept [OF assms] SRem_kept [OF assms]
    query_kept [OF assms] update_kept [OF assms] pop_kept [OF assms]
  have get: "\<exists>r c1. sc_Get env c k = Some (r, c1) \<and> kept K c c1" for K k using Get_kept [OF assms, of k] by metis
  have restr: "grows K c c'" if "si_map (sc_idx c') = si_map (sc_idx c) |` A" for K c' A using that by (auto simp: grows_def)
  have exp: "\<exists>r c1. sc_DeleteExpired env c n = Some (r, c1) \<and> kept K c c1" for K n
  proof (rule sc_DeleteExpired_ok [OF readyD(1) [OF assms], of env n])
    fix c' ks assume "sc_DeleteExpired env c n = Some (Inr (), c')" "cache_inv c'" "same_codec c c'" "si_map (sc_idx c') = si_map (sc_idx c) |` (- ks)"
    then show ?thesis using restr unfolding kept_def by blast
  qed
  have pfx: "\<exists>r c1. sc_DelPrefix env c p = Some (r, c1) \<and> kept K c c1" for K p
  proof (rule sc_DelPrefix_ok [OF readyD(1) [OF assms], of env p])
    fix c' ks assume "sc_DelPrefix env c p = Some (Inr (of_nat (length ks)), c')" "cache_inv c'" "same_codec c c'"
      "si_map (sc_idx c') = si_map (sc_idx c) |` {k. \<not> bytesHasPrefix k p}"
    then show ?thesis using restr unfolding kept_def by blast
  qed
  have cas: "\<exists>r c1. sc_CAS env c k old new = Some (r, c1) \<and> kept {k} c c1" for k old new
    using sc_CAS_ok [OF readyD [OF assms], of k old new] unfolding kept_def cas_post_def by blast
  have incr: "\<exists>r c1. sc_Incr env c k d = Some (r, c1) \<and> kept {k} c c1" for k d
    using sc_Incr_ok [OF readyD [OF assms], of k d] unfolding kept_def incr_post_def by blast
  have scan: "\<exists>r c1. sc_Scan env c p cur n = Some (r, c1) \<and> kept K c c1" for K p cur n
    using kept_refl [OF readyD(1) [OF assms]] by (simp add: sc_Scan_def)
  note all = laws get exp pfx cas incr scan
  have ex: "(\<exists>c'. sc_step env op c = Some c' \<and> kept (op_keys op) c c') \<or> (\<exists>k v. op = ORPush k v)"
  proof (cases op)
    case (ORPush k v)
    then show ?thesis by simp
  qed (simp only: sc_step.simps op_keys.simps sc_LPush_def sc_SAdd_def sc_LPop_def sc_RPop_def sc_LLen_def sc_HGet_def sc_HGetAll_def
        sc_SIsMember_def sc_SMembers_def; rule disjI1, rule step_returns, rule all)+
  show "\<forall>c'. sc_step env op c = Some c' \<longrightarrow> kept (op_keys op) c c'"
  proof (cases "\<exists>k v. op = ORPush k v")
    case True
    then show ?thesis using RPush_kept [OF assms] by auto
  next
    case False
    then show ?thesis using ex by auto
  qed
  show "(\<And>k v. op \<noteq> ORPush k v) \<Longrightarrow> sc_step env op c \<noteq> None" using ex by auto
qed

section \<open>A fresh shard\<close>

lemma NewShardCache_ok:
  assumes "mmap_ok mmap" "NewManager mmap (if regionSize = 0 then 67108864 else regionSize) False = Inr m" "unat evictCapacity \<le> 2 ^ 60"
  obtains c where "NewShardCache mmap regionSize evictCapacity cmpr cip = Some (Inr c)" "cache_inv c" "si_room (sc_idx c)"
    "si_map (sc_idx c) = Map.empty" "mgr_inv (sc_mgr c) {}" "ev_handles (sc_ev c) = {#}" "gh_inv (ev_gh (sc_ev c))" "gh_set (ev_gh (sc_ev c)) = {}"
    "sc_comp c = (case cmpr of None \<Rightarrow> noop_compressor | Some x \<Rightarrow> x)" "sc_cipher c = (case cip of None \<Rightarrow> noop_cipher | Some x \<Rightarrow> x)"
    "unat (if evictCapacity = 0 then 1024 else evictCapacity) div 10 \<le> unat (ev_SCapacity (sc_ev c))" "sc_mgr c = m" "sc_idx c = newShardIndex"
proof -
  have mi: "mgr_inv m {}" using NewManager_inv [OF assms(1,2)] .
  define cap :: u64 where "cap = (if evictCapacity = 0 then 1024 else evictCapacity)"
  have cp: "cap \<noteq> 0" "unat cap \<le> 2 ^ 60" using assms(3) by (auto simp: cap_def)
  obtain e where e: "ev_New cap = Some (Inr e)" "ev_inv e" "ev_handles e = {#}" "gh_inv (ev_gh e)" "gh_set (ev_gh e) = {}"
    "unat cap div 10 \<le> unat (ev_SCapacity e)" using ev_New_ok [OF cp] by metis
  define c where "c = \<lparr>sc_mgr = m, sc_ev = e, sc_idx = newShardIndex,
    sc_comp = (case cmpr of None \<Rightarrow> noop_compressor | Some x \<Rightarrow> x), sc_cipher = (case cip of None \<Rightarrow> noop_cipher | Some x \<Rightarrow> x)\<rparr>"
  have "NewShardCache mmap regionSize evictCapacity cmpr cip = Some (Inr c)"
    using assms(2) e(1) unfolding cap_def by (simp add: NewShardCache_def newShardCacheFromArena_def c_def)
  moreover have "cache_inv c" using newShardIndex_inv mgr_inv_rng(1) [OF mi] e(2,3) by (simp add: cache_inv_def c_def)
  ultimately show ?thesis
    using that [of c] newShardIndex_inv mi e(3-6) unfolding cap_def [symmetric] by (simp add: c_def)
qed

text \<open>The shard and the environment of the examples: a 64-byte region, no compression, no cipher.\<close>

definition wenv :: call_env where
  "wenv = \<lparr>en_mmap = mmapRegion_other, en_now = 100, en_nonce = Some (replicate 12 0), en_cbuf = None, en_dbuf = None\<rparr>"

definition wcache :: shardCache where
  "wcache = (case NewShardCache mmapRegion_other 64 64 None None of Some (Inr c) \<Rightarrow> c)"

lemma wcache_new:
  "NewShardCache mmapRegion_other 64 64 None None = Some (Inr wcache)" "ready wenv wcache" "si_map (sc_idx wcache) = Map.empty"
  "mgr_inv (sc_mgr wcache) {}" "ev_handles (sc_ev wcache) = {#}" "gh_inv (ev_gh (sc_ev wcache))" "gh_set (ev_gh (sc_ev wcache)) = {}"
  "6 \<le> unat (ev_SCapacity (sc_ev wcache))" "sc_mgr wcache = wm0" "sc_comp wcache = noop_compressor" "sc_cipher wcache = noop_cipher"
  "sc_idx wcache = newShardIndex"
proof -
  have m: "NewManager mmapRegion_other (if (64 :: u64) = 0 then 67108864 else 64) False = Inr wm0"
    by (simp add: wm0_def NewManager_def newRegion_def mmapRegion_other_def)
  obtain c where c: "NewShardCache mmapRegion_other 64 64 None None = Some (Inr c)" "cache_inv c" "si_room (sc_idx c)"
    "si_map (sc_idx c) = Map.empty" "mgr_inv (sc_mgr c) {}" "ev_handles (sc_ev c) = {#}" "gh_inv (ev_gh (sc_ev c))" "gh_set (ev_gh (sc_ev c)) = {}"
    "sc_comp c = (case None of None \<Rightarrow> noop_compressor | Some x \<Rightarrow> x)" "sc_cipher c = (case None of None \<Rightarrow> noop_cipher | Some x \<Rightarrow> x)"
    "unat (if (64 :: u64) = 0 then 1024 else 64 :: u64) div 10 \<le> unat (ev_SCapacity (sc_ev c))" "sc_mgr c = wm0" "sc_idx c = newShardIndex"
    using NewShardCache_ok [OF mmap_ok_other m, of 64 None None] by auto
  have w: "wcache = c" using c(1) by (simp add: wcache_def)
  have "cache_codec c" using c(9,10) plain_codec.value_codec_axioms by (simp add: cache_codec_def)
  moreover have "env_ok wenv" using mmap_ok_other by (simp add: env_ok_def wenv_def)
  ultimately show "ready wenv wcache" using c(2,3) by (simp add: w ready_def)
  show "NewShardCache mmapRegion_other 64 64 None None = Some (Inr wcache)" "si_map (sc_idx wcache) = Map.empty"
    "mgr_inv (sc_mgr wcache) {}" "ev_handles (sc_ev wcache) = {#}" "gh_inv (ev_gh (sc_ev wcache))" "gh_set (ev_gh (sc_ev wcache)) = {}"
    "6 \<le> unat (ev_SCapacity (sc_ev wcache))" "sc_mgr wcache = wm0" "sc_comp wcache = noop_compressor" "sc_cipher wcache = noop_cipher"
    "sc_idx wcache = newShardIndex"
    using c by (simp_all add: w)
qed

section \<open>Properties\<close>



text \<open>
  C1. A value just stored is the value read: when \<^verbatim>\<open>Set\<close> succeeds, it returns the value, and \<^verbatim>\<open>Get\<close> of the key
  at any time before the expiry returns exactly that value, through whatever compressor and cipher the
  shard has, and even if the policy evicted or the arena reused other blocks on the way.
\<close>

theorem Cache_read_your_write:
  assumes "ready env c" and "sc_Set env c key val ttl = Some (Inr v, c')"
    and "ttl = 0 \<or> en_now env' < en_now env + ttl"
  shows "v = val \<and> (\<exists>c''. sc_Get env' c' key = Some (Inr val, c''))"
proof -
  have p: "cache_inv c'" "v = val" "stored_at c' key val (expiryOf env ttl)"
    using sc_Set_ok [OF readyD [OF assms(1)], of key val ttl] assms(2) by (auto simp: set_post_def)
  have "\<not> expired (en_now env') (expiryOf env ttl)" using assms(3) by (auto simp: expired_def expiryOf_def not_le)
  then obtain h where h: "live_at env' c' key h (expiryOf env ttl)" "reads c' h val"
    using p(3) by (auto simp: stored_at_def live_at_def)
  obtain r c'' where g: "sc_Get env' c' key = Some (map_sum id fst r, c'')" "get_post env' c' key r c''"
    using sc_Get_ok [OF p(1), of env' key] by blast
  have "r = Inr (val, aliasOf c'' h)" using get_postD(6) [OF g(2) h] .
  then show ?thesis using g(1) p(2) by simp
qed

text \<open>The first \<^verbatim>\<open>Set\<close> on the example shard succeeds.\<close>

lemma sc_Set_plain:
  assumes "ready env c" "sc_comp c = noop_compressor" "sc_cipher c = noop_cipher" "\<not> tooLarge val"
    and put: "Put (en_mmap env) (sc_mgr c) val = (Inr h, m)"
  shows "\<exists>c'. sc_Set env c key val ttl = Some (Inr val, c')"
proof -
  note d = readyD [OF assms(1)]
  have mm: "mmap_ok (en_mmap env)" using d(4) by (simp add: env_ok_def)
  have l: "length val < 4294967296" using not_tooLarge [OF assms(4)] by simp
  define ex where "ex = (if ttl > 0 then en_now env + ttl else 0)"
  obtain m2 e idx m5 where st: "quiet m2 m5" "View m2 h = Inr val"
    "sc_store env c key val False False ex = Some (Inr h, c\<lparr>sc_mgr := m5, sc_ev := e, sc_idx := idx\<rparr>)"
    using sc_store_steps [OF d(1,2) mm l put, of False False key ex] by metis
  have "View m5 h = Inr val" using st(1,2) by (simp add: quiet_def)
  then show ?thesis
    using st(3) assms(2-4) unfolding ex_def
    by (simp add: sc_Set_def sc_encrypt_def noop_compressor_def noop_Compress_def noop_cipher_def arenaView_def)
qed

lemma wcache_Set: "\<exists>c'. sc_Set wenv wcache key [1, 2, 3] ttl = Some (Inr [1, 2, 3], c')"
proof -
  have "Put (en_mmap wenv) (sc_mgr wcache) [1, 2, 3] = (Inr wh1, snd (Put mmapRegion_other wm0 [1, 2, 3]))"
    using wm0_Put wcache_new(9) by (cases "Put mmapRegion_other wm0 [1, 2, 3]") (simp add: wenv_def)
  then show ?thesis
    using sc_Set_plain [OF wcache_new(2,10,11), of "[1, 2, 3]"] by (simp add: tooLarge_def MaxObjectSize_def)
qed

theorem Cache_read_your_write_witness:
  "\<exists>c'. sc_Set wenv wcache [9] [1, 2, 3] 50 = Some (Inr [1, 2, 3], c') \<and>
     (\<exists>c''. sc_Get (wenv\<lparr>en_now := 149\<rparr>) c' [9] = Some (Inr [1, 2, 3], c''))"
proof -
  obtain c' where c: "sc_Set wenv wcache [9] [1, 2, 3] 50 = Some (Inr [1, 2, 3], c')" using wcache_Set by blast
  have "en_now (wenv\<lparr>en_now := 149\<rparr>) < en_now wenv + 50" by (simp add: wenv_def)
  then show ?thesis using Cache_read_your_write [OF wcache_new(2) c, of "wenv\<lparr>en_now := 149\<rparr>"] c by blast
qed

text \<open>A store at most doubles the index.\<close>

lemma sc_store_size:
  assumes "cache_inv c" "si_room (sc_idx c)" "sc_store env c key v cp en ex = Some (r, c')"
  shows "length (si_keys (sc_idx c')) \<le> 2 * length (si_keys (sc_idx c))"
  using assms(3) si_put_size [OF cache_invD(2) [OF assms(1)] assms(2)]
  by (auto simp: sc_store_def Let_def bind_eq_Some_conv split: prod.splits sum.splits if_splits)

lemma sc_Set_size:
  assumes "ready env c" "sc_Set env c key val ttl = Some (r, c')"
  shows "length (si_keys (sc_idx c')) \<le> 2 * length (si_keys (sc_idx c))"
proof (cases "tooLarge val")
  case True
  then show ?thesis using assms(2) by (simp add: sc_Set_def)
next
  case False
  obtain v cp en r1 c1 where s: "encodes c val v cp en" "length v < 4294967296"
    "sc_store env c key v cp en (expiryOf env ttl) = Some (r1, c1)" "sc_Set env c key val ttl = Some (map_sum id (\<lambda>_. val) r1, c1)"
    by (rule sc_Set_store [OF readyD [OF assms(1)] False])
  then show ?thesis using sc_store_size [OF readyD(1,2) [OF assms(1)] s(3)] assms(2) by simp
qed

text \<open>The example shard after one \<^verbatim>\<open>Set\<close>.\<close>

definition wcache1 :: shardCache where
  "wcache1 = (case sc_Set wenv wcache [9] [1, 2, 3] 0 of Some (_, c) \<Rightarrow> c)"

lemma wcache1_ready: "sc_Set wenv wcache [9] [1, 2, 3] 0 = Some (Inr [1, 2, 3], wcache1)" "ready wenv wcache1" "stored_at wcache1 [9] [1, 2, 3] 0"
proof -
  obtain c where c: "sc_Set wenv wcache [9] [1, 2, 3] 0 = Some (Inr [1, 2, 3], c)" using wcache_Set by blast
  then show e: "sc_Set wenv wcache [9] [1, 2, 3] 0 = Some (Inr [1, 2, 3], wcache1)" by (simp add: wcache1_def)
  note d = readyD [OF wcache_new(2)]
  have p: "set_post wenv [9] [1, 2, 3] 0 wcache (Inr [1, 2, 3]) wcache1"
    using sc_Set_ok [OF d, of "[9]" "[1, 2, 3]" 0] e by auto
  then show "stored_at wcache1 [9] [1, 2, 3] 0" by (simp add: set_post_def expiryOf_def)
  have "si_keys (sc_idx wcache) = replicate 64 None" by (simp add: wcache_new(12) newShardIndex_def makeIndex_def)
  then have "si_room (sc_idx wcache1)" using sc_Set_size [OF wcache_new(2) e] by (simp add: si_room_def)
  moreover have "same_codec wcache wcache1" "cache_inv wcache1" using p by (simp_all add: set_post_def)
  ultimately show "ready wenv wcache1" using d cache_codec_same by (simp add: ready_def)
qed

lemma stored_at_quiet:
  assumes "same_codec c c'" "quiet (sc_mgr c) (sc_mgr c')" "si_map (sc_idx c') k = si_map (sc_idx c) k"
  shows "stored_at c' k v e = stored_at c k v e"
  using assms(3) reads_quiet [OF assms(1,2)] by (simp add: stored_at_def)





text \<open>
  \<^verbatim>\<open>Delete\<close> always succeeds, the key is not found afterwards, and every value stored under another key stays.
\<close>

theorem Cache_Delete_forgets:
  assumes "ready env c"
  shows "\<exists>c'. sc_Delete env c key = Some (Inr (), c') \<and> cache_inv c' \<and>
    (\<forall>env'. \<exists>c''. sc_Get env' c' key = Some (Inl ErrNotFound, c'')) \<and>
    (\<forall>k v e. k \<noteq> key \<longrightarrow> stored_at c k v e \<longrightarrow> stored_at c' k v e)"
proof -
  obtain c' where d: "sc_Delete env c key = Some (Inr (), c')" "cache_inv c'" "same_codec c c'" "quiet (sc_mgr c) (sc_mgr c')"
    "si_map (sc_idx c') = (si_map (sc_idx c))(key := None)" using sc_Delete_ok [OF readyD(1) [OF assms]] by metis
  have "\<exists>c''. sc_Get env' c' key = Some (Inl ErrNotFound, c'')" for env'
  proof -
    obtain r c'' where g: "sc_Get env' c' key = Some (map_sum id fst r, c'')" "get_post env' c' key r c''"
      using sc_Get_ok [OF d(2), of env' key] by blast
    have "r = Inl ErrNotFound" using get_postD(7) [OF g(2)] d(5) by (simp add: live_at_def)
    then show ?thesis using g(1) by simp
  qed
  moreover have "stored_at c' k v e = stored_at c k v e" if "k \<noteq> key" for k v e
    using stored_at_quiet [OF d(3,4)] d(5) that by simp
  ultimately show ?thesis using d(1,2) by blast
qed

theorem Cache_Delete_forgets_witness:
  "\<exists>c'. sc_Delete wenv wcache1 [7] = Some (Inr (), c') \<and> stored_at c' [9] [1, 2, 3] 0"
  using Cache_Delete_forgets [OF wcache1_ready(2), of "[7]"] wcache1_ready(3) by auto

end
