(* ===== verification/Cache_Map.thy ===== *)
theory Cache_Map
  imports Cache_Laws
begin

text \<open>
  The abstract specification of a cache shard is a map from keys to values with expiry times.  \<open>cache_abs c M\<close>
  relates a shard to the map it stands for: the handles in the index are exactly the live blocks of the
  arena, one per key, and each of them decodes to its value.  As long as the eviction policy has room,
  every operation of the shard is the operation of the map; a full policy frees the block of a key that
  stays in the index, and the relation is lost.
\<close>

section \<open>Definitions\<close>

definition live_handles :: "shardCache \<Rightarrow> Handle set" where
  "live_handles c = {h. \<exists>k e. si_map (sc_idx c) k = Some (h, e)}"

definition one_key :: "shardCache \<Rightarrow> bool" where
  "one_key c \<longleftrightarrow> (\<forall>k k' h e e'. si_map (sc_idx c) k = Some (h, e) \<longrightarrow> si_map (sc_idx c) k' = Some (h, e') \<longrightarrow> k = k')"

definition cache_abs :: "shardCache \<Rightarrow> (bytes \<Rightarrow> (bytes \<times> u32) option) \<Rightarrow> bool" where
  "cache_abs c M \<longleftrightarrow> mgr_inv (sc_mgr c) (live_handles c) \<and> one_key c \<and>
     (\<forall>k. case si_map (sc_idx c) k of None \<Rightarrow> M k = None | Some (h, e) \<Rightarrow> \<exists>v. M k = Some (v, e) \<and> reads c h v)"

section \<open>The policy does not touch the allocator\<close>

definition same_alloc :: "Manager \<Rightarrow> Manager \<Rightarrow> bool" where
  "same_alloc m m' \<longleftrightarrow> map rg_alloc (mg_regions m') = map rg_alloc (mg_regions m) \<and>
     mg_filePath m' = mg_filePath m \<and> mg_currentIdx m' = mg_currentIdx m \<and> mg_size m' = mg_size m"

lemma same_alloc_refl [simp]: "same_alloc m m"
  by (simp add: same_alloc_def)

lemma same_alloc_trans: "same_alloc m m1 \<Longrightarrow> same_alloc m1 m2 \<Longrightarrow> same_alloc m m2"
  by (simp add: same_alloc_def)

lemma mgr_inv_same_alloc:
  assumes inv: "mgr_inv m H" and rng: "mgr_rng m'" and sa: "same_alloc m m'"
  shows "mgr_inv m' H"
proof -
  have len: "length (mg_regions m') = length (mg_regions m)" using arg_cong [of _ _ length] sa by (auto simp: same_alloc_def dest: map_eq_imp_length_eq)
  have al: "rg_alloc (mg_regions m' ! i) = rg_alloc (mg_regions m ! i)" if "i < length (mg_regions m)" for i
    using sa that len unfolding same_alloc_def by (metis nth_map)
  have "regBase m' i = regBase m i" for i using sa by (simp add: regBase_def same_alloc_def)
  then show ?thesis using inv rng sa len al by (simp add: mgr_inv_def mgr_rng_def same_alloc_def)
qed

lemma setCell_same_alloc: "same_alloc m (setCell m h v)"
proof (cases "unat (h_Region h) < length (mg_regions m)")
  case True
  then show ?thesis
    by (auto simp: setCell_def same_alloc_def Let_def map_update split: option.splits intro!: nth_equalityI simp: nth_list_update)
next
  case False
  then show ?thesis by (auto simp: setCell_def same_alloc_def Let_def list_update_beyond split: option.splits)
qed

lemma SetFreq_same_alloc: "same_alloc m (SetFreq m h f)"
  by (simp add: SetFreq_def setCell_same_alloc split: option.splits)

lemma casLoop16_same_alloc: "casLoop16 m h f = Some m' \<Longrightarrow> same_alloc m m'"
  by (auto simp: casLoop16_def Let_def setCell_same_alloc split: option.splits if_splits)

lemma meta_same_alloc:
  "OrMetaBits m h b = Some m' \<Longrightarrow> same_alloc m m'" "ClearMetaBits m h b = Some m' \<Longrightarrow> same_alloc m m'"
  "tagPushed m h b = Some m' \<Longrightarrow> same_alloc m m'" "orFlag m h b on = Some m' \<Longrightarrow> same_alloc m m'"
  unfolding OrMetaBits_def ClearMetaBits_def tagPushed_def orFlag_def
  by (auto dest: casLoop16_same_alloc intro: same_alloc_trans [OF SetFreq_same_alloc] split: if_splits)

lemma evictM_same_alloc: "evictM e m = Some (out, e', m') \<Longrightarrow> same_alloc m m'"
  by (auto simp: evictM_def Let_def SetFreq_same_alloc bind_eq_Some_conv split: prod.splits if_splits dest: meta_same_alloc)

lemma evictS_same_alloc:
  assumes "evictS e m key = Some (out, e', m')"
  shows "same_alloc m m'"
proof -
  obtain h ok sq where p: "rb_Pop (ev_sq e) = ((h, ok), sq)" by (metis prod_cases3 surj_pair)
  show ?thesis
  proof (cases "ok \<and> GetFreq m h \<ge> 2")
    case False
    then show ?thesis using assms p by (auto simp: evictS_def Let_def split: if_splits)
  next
    case True
    obtain m1 where m1: "ClearMetaBits m h QueueTagMask = Some m1"
      using assms p True by (auto simp: evictS_def Let_def bind_eq_Some_conv)
    obtain b mq1 where q: "rb_Push (ev_mq e) h = (b, mq1)" by force
    note sa = meta_same_alloc(2) [OF m1]
    show ?thesis
    proof (cases b)
      case True
      then have "tagPushed m1 h QueueTagM = Some m'"
        using assms p q \<open>ok \<and> GetFreq m h \<ge> 2\<close> m1 by (auto simp: evictS_def Let_def bind_eq_Some_conv)
      then show ?thesis using same_alloc_trans [OF sa meta_same_alloc(3)] by blast
    next
      case False
      obtain o1 e1 m2 where v: "evictM (e\<lparr>ev_sq := sq, ev_mq := mq1\<rparr>) m1 = Some (o1, e1, m2)"
        using assms p q \<open>ok \<and> GetFreq m h \<ge> 2\<close> m1 False by (auto simp: evictS_def Let_def bind_eq_Some_conv)
      have sa2: "same_alloc m m2" using same_alloc_trans [OF sa evictM_same_alloc [OF v]] .
      obtain b2 mq2 where q2: "rb_Push (ev_mq e1) h = (b2, mq2)" by force
      have "m' = SetFreq m2 h 0 \<or> tagPushed m2 h QueueTagM = Some m'"
        using assms p q \<open>ok \<and> GetFreq m h \<ge> 2\<close> m1 False v q2 by (auto simp: evictS_def Let_def bind_eq_Some_conv split: if_splits)
      then show ?thesis using same_alloc_trans [OF sa2 SetFreq_same_alloc] same_alloc_trans [OF sa2 meta_same_alloc(3)] by blast
    qed
  qed
qed

lemma ev_Add_same_alloc: "ev_Add e m key h = Some (out, e', m') \<Longrightarrow> same_alloc m m'"
  by (auto simp: ev_Add_def bind_eq_Some_conv split: prod.splits if_splits dest: evictM_same_alloc evictS_same_alloc meta_same_alloc)

lemma ev_Delete_same_alloc: "ev_Delete e m key h = Some (e', m') \<Longrightarrow> same_alloc m m'"
  by (auto simp: ev_Delete_def bind_eq_Some_conv split: prod.splits if_splits dest: meta_same_alloc)

lemma ev_Touch_same_alloc: "same_alloc m (ev_Touch e m h)"
  by (auto simp: ev_Touch_def touchQueue_def IncFreq_def Let_def setCell_same_alloc split: option.splits)

section \<open>Which handles an operation leaves alone\<close>

definition intact :: "Manager \<Rightarrow> Manager \<Rightarrow> Handle \<Rightarrow> bool" where
  "intact m m' h \<longleftrightarrow> View m' h = View m h \<and> flags m' h = flags m h"

lemma intact_trans: "intact m m1 h \<Longrightarrow> intact m1 m2 h \<Longrightarrow> intact m m2 h"
  by (simp add: intact_def)

lemma intact_frame: "frame m m' H \<Longrightarrow> h \<in> H \<Longrightarrow> intact m m' h"
  by (simp add: frame_def intact_def flags_def GetMeta_def)

lemma intact_quiet: "quiet m m' \<Longrightarrow> intact m m' h"
  by (simp add: quiet_def intact_def)

lemma reads_intact:
  assumes "same_codec c c'" "intact (sc_mgr c) (sc_mgr c') h"
  shows "reads c' h v = reads c h v"
proof -
  have "isEncrypted (sc_mgr c') h = isEncrypted (sc_mgr c) h" "isCompressed (sc_mgr c') h = isCompressed (sc_mgr c) h"
    using assms(2) by (simp_all add: isEncrypted_def isCompressed_def flag_of_flags intact_def)
  note d = sc_decode_cong [OF assms(1) this]
  show ?thesis using assms(2) by (simp add: reads_def d intact_def)
qed

lemma orFlag_live:
  assumes inv: "mgr_inv m H" and h: "h \<in> H" and f: "orFlag m h b on = Some m'"
  shows "mgr_inv m' H" "x \<in> H - {h} \<Longrightarrow> intact m m' x"
proof -
  have "meta_post m H h (GetMeta m' h) m'"
  proof (cases on)
    case False
    then show ?thesis using f inv by (simp add: orFlag_def meta_post_def)
  next
    case True
    obtain m1 where "casLoop16 m h (\<lambda>w. w OR b) = Some m1" "meta_post m H h (GetMeta m h OR b) m1"
      by (rule casLoop16_live [OF inv h])
    then show ?thesis using f True by (auto simp: orFlag_def OrMetaBits_def meta_post_def)
  qed
  then show "mgr_inv m' H" "x \<in> H - {h} \<Longrightarrow> intact m m' x"
    by (auto simp: meta_post_def intact_def flags_def)
qed

section \<open>The handles of the index\<close>

lemma live_others:
  assumes "one_key c"
  shows "{x. \<exists>k e. k \<noteq> key \<and> si_map (sc_idx c) k = Some (x, e)} =
    live_handles c - (if snd (si_old (sc_idx c) key) then {fst (si_old (sc_idx c) key)} else {})" (is "?L = ?R")
proof (cases "si_map (sc_idx c) key")
  case None
  have "?L = live_handles c" using None unfolding live_handles_def by (metis option.distinct(1))
  then show ?thesis using None by (simp add: si_old_def)
next
  case (Some p)
  obtain x e where p: "p = (x, e)" by force
  have "?L = live_handles c - {x}"
  proof (intro set_eqI iffI)
    fix y assume "y \<in> ?L"
    then obtain k e' where k: "k \<noteq> key" "si_map (sc_idx c) k = Some (y, e')" by blast
    then have "y \<noteq> x" using assms Some p unfolding one_key_def by blast
    then show "y \<in> live_handles c - {x}" using k(2) unfolding live_handles_def by blast
  next
    fix y assume "y \<in> live_handles c - {x}"
    then obtain k e' where k: "si_map (sc_idx c) k = Some (y, e')" "y \<noteq> x" unfolding live_handles_def by blast
    then have "k \<noteq> key" using Some p by auto
    then show "y \<in> ?L" using k(1) by blast
  qed
  then show ?thesis using Some p by (simp add: si_old_def)
qed

lemma live_put:
  assumes one: "one_key c" and idx: "si_map (sc_idx c') = (si_map (sc_idx c))(key \<mapsto> (h, ex))" and new: "h \<notin> live_handles c"
  shows "live_handles c' = insert h (live_handles c - (if snd (si_old (sc_idx c) key) then {fst (si_old (sc_idx c) key)} else {}))"
    and "one_key c'"
proof -
  have n: "si_map (sc_idx c) k \<noteq> Some (h, e)" for k e using new unfolding live_handles_def by blast
  show "one_key c'" using one n unfolding one_key_def idx fun_upd_apply by (metis option.inject prod.inject)
  have "live_handles c' = insert h {x. \<exists>k e. k \<noteq> key \<and> si_map (sc_idx c) k = Some (x, e)}"
    unfolding live_handles_def idx by (auto split: if_splits)
  then show "live_handles c' = insert h (live_handles c - (if snd (si_old (sc_idx c) key) then {fst (si_old (sc_idx c) key)} else {}))"
    unfolding live_others [OF one] .
qed

lemma live_delete:
  assumes one: "one_key c" and idx: "si_map (sc_idx c') = (si_map (sc_idx c))(key := None)"
  shows "live_handles c' = live_handles c - (if snd (si_old (sc_idx c) key) then {fst (si_old (sc_idx c) key)} else {})"
    and "one_key c'"
proof -
  show "one_key c'" using one unfolding one_key_def idx by (auto split: if_splits)
  have "live_handles c' = {x. \<exists>k e. k \<noteq> key \<and> si_map (sc_idx c) k = Some (x, e)}"
    unfolding live_handles_def idx by (auto split: if_splits)
  then show "live_handles c' = live_handles c - (if snd (si_old (sc_idx c) key) then {fst (si_old (sc_idx c) key)} else {})"
    unfolding live_others [OF one] .
qed

lemma old_live: "snd (si_old (sc_idx c) key) \<Longrightarrow> fst (si_old (sc_idx c) key) \<in> live_handles c"
  by (auto simp: si_old_def live_handles_def split: option.splits)

lemma cache_absD:
  assumes "cache_abs c M"
  shows "mgr_inv (sc_mgr c) (live_handles c)" "one_key c"
    "si_map (sc_idx c) k = None \<Longrightarrow> M k = None" "si_map (sc_idx c) k = Some (h, e) \<Longrightarrow> \<exists>v. M k = Some (v, e) \<and> reads c h v"
  using assms unfolding cache_abs_def by (auto dest: spec [of _ k])

lemma cache_abs_upd:
  assumes abs: "cache_abs c M" and sc: "same_codec c c'" and inv: "mgr_inv (sc_mgr c') (live_handles c')" and one: "one_key c'"
    and others: "\<And>k. k \<noteq> key \<Longrightarrow> si_map (sc_idx c') k = si_map (sc_idx c) k"
    and same: "\<And>h. h \<in> live_handles c \<Longrightarrow> intact (sc_mgr c) (sc_mgr c') h"
    and new: "case si_map (sc_idx c') key of None \<Rightarrow> mv = None | Some (h, e) \<Rightarrow> \<exists>v. mv = Some (v, e) \<and> reads c' h v"
  shows "cache_abs c' (M(key := mv))"
proof -
  have "case si_map (sc_idx c') k of None \<Rightarrow> (M(key := mv)) k = None
    | Some (h, e) \<Rightarrow> \<exists>v. (M(key := mv)) k = Some (v, e) \<and> reads c' h v" for k
  proof (cases "k = key")
    case True
    show ?thesis unfolding True fun_upd_same using new .
  next
    case False
    show ?thesis
    proof (cases "si_map (sc_idx c) k")
      case None
      then show ?thesis using False others cache_absD(3) [OF abs] by simp
    next
      case (Some p)
      obtain h e where p: "p = (h, e)" by force
      have "h \<in> live_handles c" using Some p unfolding live_handles_def by blast
      then show ?thesis using False others Some p cache_absD(4) [OF abs, of k h e] reads_intact [OF sc same] by simp
    qed
  qed
  then show ?thesis using inv one unfolding cache_abs_def by blast
qed

lemma cache_abs_quiet:
  assumes abs: "cache_abs c M" and sc: "same_codec c c'" and q: "quiet (sc_mgr c) (sc_mgr c')"
    and sa: "same_alloc (sc_mgr c) (sc_mgr c')" and idx: "sc_idx c' = sc_idx c"
  shows "cache_abs c' M"
proof -
  have l: "live_handles c' = live_handles c" by (simp add: live_handles_def idx)
  have "case si_map (sc_idx c') key of None \<Rightarrow> M key = None | Some (h, e) \<Rightarrow> \<exists>v. M key = Some (v, e) \<and> reads c' h v" for key
    using cache_absD(3,4) [OF abs, of key] reads_quiet [OF sc q] by (auto simp: idx split: option.splits)
  then show ?thesis
    using cache_absD(2) [OF abs] mgr_inv_same_alloc [OF cache_absD(1) [OF abs] quiet_rng [OF q] sa]
    by (simp add: cache_abs_def l one_key_def idx)
qed

section \<open>Operations\<close>

lemma sc_GetView_same_alloc: "sc_GetView env c key = Some (r, c') \<Longrightarrow> same_alloc (sc_mgr c) (sc_mgr c')"
  by (auto simp: sc_GetView_def sc_touch_def ev_Touch_same_alloc bind_eq_Some_conv split: if_splits)

lemma cache_abs_live:
  assumes "cache_abs c M"
  shows "M key = Some (v, e) \<Longrightarrow> \<not> expired (en_now env) e \<Longrightarrow> \<exists>h. live_at env c key h e \<and> reads c h v"
    and "live_at env c key h e \<Longrightarrow> \<exists>v. M key = Some (v, e) \<and> \<not> expired (en_now env) e"
proof -
  show "\<exists>h. live_at env c key h e \<and> reads c h v" if m: "M key = Some (v, e)" "\<not> expired (en_now env) e"
  proof (cases "si_map (sc_idx c) key")
    case None
    then show ?thesis using cache_absD(3) [OF assms] m by simp
  next
    case (Some p)
    then show ?thesis using cache_absD(4) [OF assms, of key "fst p" "snd p"] m by (cases p) (auto simp: live_at_def)
  qed
  show "live_at env c key h e \<Longrightarrow> \<exists>v. M key = Some (v, e) \<and> \<not> expired (en_now env) e"
    using cache_absD(4) [OF assms, of key h e] by (auto simp: live_at_def)
qed

definition map_get :: "(bytes \<Rightarrow> (bytes \<times> u32) option) \<Rightarrow> u32 \<Rightarrow> bytes \<Rightarrow> cache_error + bytes" where
  "map_get M now key = (case M key of None \<Rightarrow> Inl ErrNotFound
     | Some (v, e) \<Rightarrow> if expired now e then Inl ErrNotFound else Inr v)"

lemma sc_GetView_abs:
  assumes inv: "cache_inv c" and abs: "cache_abs c M"
  obtains r c' where "sc_GetView env c key = Some (r, c')" "get_post env c key r c'" "map_sum id fst r = map_get M (en_now env) key" "cache_abs c' M"
proof -
  obtain r c' where g: "sc_GetView env c key = Some (r, c')" "get_post env c key r c'" using sc_GetView_ok [OF inv] by blast
  have "cache_abs c' M"
    using cache_abs_quiet [OF abs get_postD(2,3) [OF g(2)] sc_GetView_same_alloc [OF g(1)] get_postD(4) [OF g(2)]] .
  moreover have "map_sum id fst r = map_get M (en_now env) key"
  proof (cases "\<exists>v e. M key = Some (v, e) \<and> \<not> expired (en_now env) e")
    case True
    then obtain v e where m: "M key = Some (v, e)" "\<not> expired (en_now env) e" by blast
    obtain h where "live_at env c key h e" "reads c h v" using cache_abs_live(1) [OF abs m] by blast
    then show ?thesis using get_postD(6) [OF g(2)] m by (simp add: map_get_def)
  next
    case False
    then have "\<nexists>h e. live_at env c key h e" using cache_abs_live(2) [OF abs] by blast
    then show ?thesis using get_postD(7) [OF g(2)] False by (auto simp: map_get_def split: option.splits)
  qed
  ultimately show ?thesis using that g by blast
qed

lemma sc_Delete_abs:
  assumes inv: "cache_inv c" and abs: "cache_abs c M"
  obtains c' where "sc_Delete env c key = Some (Inr (), c')" "cache_abs c' (M(key := None))"
proof -
  obtain c' where d: "sc_Delete env c key = Some (Inr (), c')" "cache_inv c'" "same_codec c c'" "quiet (sc_mgr c) (sc_mgr c')"
    "si_map (sc_idx c') = (si_map (sc_idx c))(key := None)" by (rule sc_Delete_ok [OF inv])
  note a = cache_absD [OF abs]
  obtain idx where idx: "si_delete (sc_idx c) key = Some (si_old (sc_idx c) key, idx)"
    using si_delete_ok [OF cache_invD(2) [OF inv]] by blast
  obtain h ok where old: "si_old (sc_idx c) key = (h, ok)" by force
  note l = live_delete [OF a(2) d(5)]
  have "mgr_inv (sc_mgr c') (live_handles c')"
  proof (cases ok)
    case False
    then show ?thesis using d(1) idx old l(1) a(1) by (auto simp: sc_Delete_def)
  next
    case True
    obtain e m where e: "ev_Delete (sc_ev c) (sc_mgr c) key h = Some (e, m)" "ev_step (sc_ev c) (sc_mgr c) e m"
      using ev_Delete_ok [OF cache_invD(3,1) [OF inv]] by metis
    have q: "quiet (sc_mgr c) m" using e(2) by (simp add: ev_step_def)
    have m: "mgr_inv m (live_handles c)" using mgr_inv_same_alloc [OF a(1) quiet_rng [OF q] ev_Delete_same_alloc [OF e(1)]] .
    have h: "h \<in> live_handles c" using old_live [of c key] old True by simp
    have "sc_mgr c' = snd (Free m h)" using d(1) idx old True e(1) by (auto simp: sc_Delete_def split: prod.splits sum.splits)
    then show ?thesis using Free_live(2) [OF m h] l(1) old True by simp
  qed
  then have "cache_abs c' (M(key := None))"
    using cache_abs_upd [OF abs d(3) _ l(2), of key None] intact_quiet [OF d(4)] d(5) by simp
  then show ?thesis using that d(1) by blast
qed

text \<open>A store into a policy with room evicts nothing: the map gains the entry and loses no other.\<close>

lemma sc_store_abs:
  assumes inv: "cache_inv c" and room: "si_room (sc_idx c)" and mm: "mmap_ok (en_mmap env)" and len: "length v < 4294967296"
    and enc: "encodes c val v cp en" and abs: "cache_abs c M" and free: "\<not> rb_Full (ev_target (sc_ev c) key)"
    and s: "sc_store env c key v cp en ex = Some (r, c')"
  shows "cache_abs c' (case r of Inl _ \<Rightarrow> M | Inr _ \<Rightarrow> M(key \<mapsto> (val, ex)))"
proof -
  note a = cache_absD [OF abs]
  obtain res m where put: "Put (en_mmap env) (sc_mgr c) v = (res, m)" by force
  note pp = Put_post [OF a(1) mm len, unfolded put put_post_def]
  show ?thesis
  proof (cases res)
    case (Inl e)
    have r: "r = Inl (ArenaErr e)" "c' = c\<lparr>sc_mgr := m\<rparr>" using s sc_store_fails(1) [OF inv mm len] put Inl by auto
    have l: "live_handles c' = live_handles c" "one_key c'" "same_codec c c'"
      using a(2) by (simp_all add: r(2) live_handles_def one_key_def same_codec_def)
    have "case si_map (sc_idx c') key of None \<Rightarrow> M key = None | Some (h, e) \<Rightarrow> \<exists>v. M key = Some (v, e) \<and> reads c' h v"
      using a(3,4) [of key] reads_intact [OF l(3) intact_frame] pp Inl
      by (auto simp: r(2) live_handles_def split: option.splits) blast
    then have "cache_abs c' (M(key := M key))"
      using cache_abs_upd [OF abs l(3) _ l(2), of key "M key"] pp Inl l(1) intact_frame [of "sc_mgr c" m "live_handles c"] by (simp add: r(2))
    then show ?thesis using r(1) by simp
  next
    case (Inr h)
    then have put: "Put (en_mmap env) (sc_mgr c) v = (Inr h, m)" using put by simp
    have p: "mgr_inv m (insert h (live_handles c))" "h \<notin> live_handles c" "frame (sc_mgr c) m (live_handles c)" using pp Inr by auto
    obtain m1 m2 out e m3 idx m5 where st:
      "orFlag m h CompressedFlag cp = Some m1" "orFlag m1 h EncryptedFlag en = Some m2"
      "ev_Add (sc_ev c) m2 key h = Some (out, e, m3)" "ev_step (sc_ev c) m2 e m3" "out = []"
      "si_map idx = (si_map (sc_idx c))(key \<mapsto> (h, ex))"
      "m5 = (if snd (si_old (sc_idx c) key) then snd (Free (freeAll m3 out) (fst (si_old (sc_idx c) key))) else freeAll m3 out)"
      "quiet m2 m5" "sc_store env c key v cp en ex = Some (Inr h, c\<lparr>sc_mgr := m5, sc_ev := e, sc_idx := idx\<rparr>)"
      using sc_store_steps [OF inv room mm len put, of cp en key ex] free by metis
    have r: "r = Inr h" "c' = c\<lparr>sc_mgr := m5, sc_ev := e, sc_idx := idx\<rparr>" using s st(9) by auto
    have sc: "same_codec c c'" by (simp add: r(2) same_codec_def)
    note f1 = orFlag_live [OF p(1) _ st(1)] and l = live_put [OF a(2) _ p(2), of c' key ex]
    have i1: "mgr_inv m1 (insert h (live_handles c))" using f1(1) by simp
    note f2 = orFlag_live [OF i1 _ st(2)]
    have q: "quiet m2 m3" using st(4) by (simp add: ev_step_def)
    have i3: "mgr_inv m3 (insert h (live_handles c))"
      using mgr_inv_same_alloc [OF f2(1) quiet_rng [OF q] ev_Add_same_alloc [OF st(3)]] by simp
    have idx: "si_map (sc_idx c') = (si_map (sc_idx c))(key \<mapsto> (h, ex))" using st(6) by (simp add: r(2))
    have "mgr_inv (sc_mgr c') (live_handles c')"
      using Free_live(2) [OF i3, of "fst (si_old (sc_idx c) key)"] i3 old_live [of c key] p(2) l(1) [OF idx] st(5,7)
      by (auto simp: r(2) freeAll_def insert_Diff_if)
    moreover have "intact (sc_mgr c) (sc_mgr c') x" if x: "x \<in> live_handles c" for x
    proof -
      have "x \<in> insert h (live_handles c) - {h}" using x p(2) by blast
      then have "intact m m1 x" "intact m1 m2 x" using f1(2) f2(2) by auto
      then show ?thesis
        using intact_trans [OF intact_trans [OF intact_frame [OF p(3) x]] intact_trans [OF _ intact_quiet [OF st(8)]]] by (simp add: r(2))
    qed
    moreover have "reads c' h val"
    proof -
      obtain r' c'' where "sc_store env c key v cp en ex = Some (r', c'')" "\<And>h. r' = Inr h \<Longrightarrow> stored_at c'' key val ex"
        using sc_store_ok [OF inv room mm len enc, of key ex] by metis
      then show ?thesis using s r(1) idx by (auto simp: stored_at_def)
    qed
    ultimately have "cache_abs c' (M(key := Some (val, ex)))"
      using cache_abs_upd [OF abs sc _ l(2) [OF idx], of key "Some (val, ex)"] idx by simp
    then show ?thesis using r(1) by simp
  qed
qed

lemma sc_Set_abs:
  assumes rdy: "ready env c" and abs: "cache_abs c M" and free: "\<not> rb_Full (ev_target (sc_ev c) key)"
  shows "\<exists>r c'. sc_Set env c key val ttl = Some (r, c') \<and>
    cache_abs c' (case r of Inl _ \<Rightarrow> M | Inr _ \<Rightarrow> M(key \<mapsto> (val, expiryOf env ttl)))"
proof (cases "tooLarge val")
  case True
  then show ?thesis using abs by (simp add: sc_Set_def)
next
  case False
  note d = readyD [OF rdy]
  obtain v cp en r c1 where s: "encodes c val v cp en" "length v < 4294967296"
    "sc_store env c key v cp en (expiryOf env ttl) = Some (r, c1)" "sc_Set env c key val ttl = Some (map_sum id (\<lambda>_. val) r, c1)"
    by (rule sc_Set_store [OF d False])
  have "mmap_ok (en_mmap env)" using d(4) by (simp add: env_ok_def)
  note sc_store_abs [OF d(1,2) this s(2,1) abs free s(3)]
  then show ?thesis using s(4) by (cases r) auto
qed

section \<open>Examples\<close>

lemma cache_abs_empty:
  assumes "si_map (sc_idx c) = Map.empty" "mgr_inv (sc_mgr c) {}"
  shows "cache_abs c Map.empty"
  using assms by (simp add: cache_abs_def live_handles_def one_key_def)

lemma ev_empty_room:
  assumes "ev_inv e" "ev_handles e = {#}"
  shows "\<not> rb_Full (ev_target e key)"
proof -
  have "\<not> rb_Full q" if "rb_inv q" "rb_content q = []" for q
  proof -
    obtain k where "rb_shape k q" using \<open>rb_inv q\<close> by (auto simp: rb_inv_def)
    then show ?thesis using rb_Full_iff [of k q] that(2) by (simp add: rb_content_def)
  qed
  then show ?thesis using assms by (simp add: ev_inv_def ev_handles_def ev_target_def)
qed

section \<open>Properties\<close>

text \<open>
  C4. A cache shard refines a map from keys to values with expiry times.  In every state that stands for a
  map, \<^verbatim>\<open>Get\<close> returns what the map holds and has not expired and \<^verbatim>\<open>ErrNotFound\<close> otherwise, and changes
  nothing; \<^verbatim>\<open>Delete\<close> removes the key from the map; and \<^verbatim>\<open>Set\<close>, while the policy's queue has room, either
  fails and leaves the map as it was or adds exactly that key, its value and its expiry time.  All three
  leave a state that again stands for the resulting map: the blocks of the index are the live blocks of the
  arena and no operation touches the value of another key.
\<close>

theorem Cache_simulates_map:
  assumes "ready env c" "cache_abs c M"
  shows "(\<exists>c'. sc_Get env c key = Some (map_get M (en_now env) key, c') \<and> cache_abs c' M) \<and>
    (\<exists>c'. sc_Delete env c key = Some (Inr (), c') \<and> cache_abs c' (M(key := None))) \<and>
    (\<not> rb_Full (ev_target (sc_ev c) key) \<longrightarrow>
      (\<exists>r c'. sc_Set env c key val ttl = Some (r, c') \<and>
         cache_abs c' (case r of Inl _ \<Rightarrow> M | Inr _ \<Rightarrow> M(key \<mapsto> (val, expiryOf env ttl)))))"
proof -
  obtain r c' where g: "sc_GetView env c key = Some (r, c')" "map_sum id fst r = map_get M (en_now env) key" "cache_abs c' M"
    using sc_GetView_abs [OF readyD(1) [OF assms(1)] assms(2)] by metis
  have "sc_Get env c key = Some (map_get M (en_now env) key, c')" using g(1,2) by (simp add: sc_Get_def)
  then show ?thesis using g(3) sc_Delete_abs [OF readyD(1) [OF assms(1)] assms(2)] sc_Set_abs [OF assms] by metis
qed

theorem Cache_simulates_map_witness:
  "\<exists>c'. sc_Set wenv wcache [9] [1, 2, 3] 50 = Some (Inr [1, 2, 3], c') \<and> cache_abs c' [[9] \<mapsto> ([1, 2, 3], 150)]"
proof -
  note d = readyD [OF wcache_new(2)]
  have a: "cache_abs wcache Map.empty" using cache_abs_empty wcache_new(3,4) by blast
  have "\<not> rb_Full (ev_target (sc_ev wcache) [9])" using ev_empty_room [OF cache_invD(3) [OF d(1)] wcache_new(5)] .
  then obtain r c' where "sc_Set wenv wcache [9] [1, 2, 3] 50 = Some (r, c')"
    "cache_abs c' (case r of Inl _ \<Rightarrow> Map.empty | Inr _ \<Rightarrow> [[9] \<mapsto> ([1, 2, 3], expiryOf wenv 50)])"
    using Cache_simulates_map [OF wcache_new(2) a, of "[9]" "[1, 2, 3]" 50] by blast
  moreover obtain c1 where "sc_Set wenv wcache [9] [1, 2, 3] 50 = Some (Inr [1, 2, 3], c1)" using wcache_Set by blast
  ultimately show ?thesis by (auto simp: expiryOf_def wenv_def)
qed

end
