(* ===== verification/Shard_Set.thy ===== *)
theory Shard_Set
  imports Cache_Laws
begin

text \<open>
  \<^verbatim>\<open>ShardSet\<close> of \<^verbatim>\<open>internal/transport/transport.go\<close>: the shards of a server, the routing of keys to them and
  the operations over all of them.

  A shard may be missing (\<open>None\<close>): a method on it then returns \<^verbatim>\<open>errBackendNil\<close>, which is the \<^verbatim>\<open>s == nil\<close> test
  every method of \<^verbatim>\<open>shardCache\<close> starts with.  A nil \<^verbatim>\<open>ShardSet\<close> answers every call the way the empty set
  does.  \<^verbatim>\<open>runtime.NumCPU\<close> and the \<^verbatim>\<open>mmap\<close> of each shard are parameters.
\<close>

section \<open>Definitions\<close>

record ShardConfig =
  cfg_NumShards :: int
  cfg_RegionSize :: u64
  cfg_EvictCapacity :: u64
  cfg_Compressor :: "Compressor option"
  cfg_Cipher :: "Cipher option"

record ShardSet =
  shards :: "shardCache option list"
  set_closed :: bool

definition DefaultShardCount :: "int \<Rightarrow> int" where
  "DefaultShardCount numCPU =
    (let n = numCPU * 4; n1 = (if n < 4 then 4 else n) in if n1 > 64 then 64 else n1)"

fun newShards :: "(nat \<Rightarrow> mmap_fn) \<Rightarrow> ShardConfig \<Rightarrow> nat \<Rightarrow> nat \<Rightarrow> (cache_error + shardCache list) option" where
  "newShards mm cfg i 0 = Some (Inr [])"
| "newShards mm cfg i (Suc n) = do {
     r \<leftarrow> NewShardCache (mm i) (cfg_RegionSize cfg) (cfg_EvictCapacity cfg) (cfg_Compressor cfg) (cfg_Cipher cfg);
     case r of
       Inl e \<Rightarrow> Some (Inl e)
     | Inr c \<Rightarrow> map_option (map_sum id ((#) c)) (newShards mm cfg (Suc i) n) }"

text \<open>A negative count makes \<^verbatim>\<open>make\<close> panic.\<close>

definition NewShardSet :: "int \<Rightarrow> (nat \<Rightarrow> mmap_fn) \<Rightarrow> ShardConfig \<Rightarrow> (cache_error + ShardSet) option" where
  "NewShardSet numCPU mm cfg =
    (let n = (if cfg_NumShards cfg = 0 then DefaultShardCount numCPU else cfg_NumShards cfg)
     in if n < 0 then None
        else map_option (map_sum id (\<lambda>cs. \<lparr>shards = map Some cs, set_closed = False\<rparr>)) (newShards mm cfg 0 (nat n)))"

definition NewShardSetOrPanic :: "int \<Rightarrow> (nat \<Rightarrow> mmap_fn) \<Rightarrow> int \<Rightarrow> u64 \<Rightarrow> u64 \<Rightarrow> Compressor option \<Rightarrow> Cipher option \<Rightarrow> ShardSet option" where
  "NewShardSetOrPanic numCPU mm numShards regionSize evictCap cmpr cip =
    (case NewShardSet numCPU mm \<lparr>cfg_NumShards = numShards, cfg_RegionSize = regionSize, cfg_EvictCapacity = evictCap,
        cfg_Compressor = cmpr, cfg_Cipher = cip\<rparr> of
       Some (Inr ss) \<Rightarrow> Some ss
     | _ \<Rightarrow> None)"

subsection \<open>Routing\<close>

definition CacheIndexFor :: "ShardSet \<Rightarrow> bytes \<Rightarrow> nat" where
  "CacheIndexFor ss key =
    (if length (shards ss) = 0 then 0 else unat (hashKey key mod of_nat (length (shards ss))))"

text \<open>\<open>None\<close> is the nil interface, \<open>Some None\<close> a nil shard.\<close>

definition CacheFor :: "ShardSet \<Rightarrow> bytes \<Rightarrow> shardCache option option" where
  "CacheFor ss key =
    (if length (shards ss) = 0 then None
     else Some (shards ss ! unat (hashKey key mod of_nat (length (shards ss)))))"

definition ShardCount :: "ShardSet \<Rightarrow> nat" where
  "ShardCount ss = length (shards ss)"

definition CacheForShard :: "ShardSet \<Rightarrow> int \<Rightarrow> shardCache option option" where
  "CacheForShard ss idx =
    (if idx < 0 \<or> idx \<ge> int (length (shards ss)) then None else Some (shards ss ! nat idx))"

text \<open>A method of shard \<open>i\<close>: the nil test, the call, and the shard after it.\<close>

definition set_on :: "ShardSet \<Rightarrow> nat \<Rightarrow> (shardCache \<Rightarrow> 'a outcome) \<Rightarrow> ((cache_error + 'a) \<times> ShardSet) option" where
  "set_on ss i f =
    (case shards ss ! i of
       None \<Rightarrow> Some (Inl ErrBackendNil, ss)
     | Some c \<Rightarrow> map_option (\<lambda>(r, c'). (r, ss\<lparr>shards := (shards ss)[i := Some c']\<rparr>)) (f c))"

text \<open>\<^verbatim>\<open>router.CacheFor(key).M(...)\<close>; a method call on the nil interface panics.\<close>

definition set_call :: "ShardSet \<Rightarrow> bytes \<Rightarrow> (shardCache \<Rightarrow> 'a outcome) \<Rightarrow> ((cache_error + 'a) \<times> ShardSet) option" where
  "set_call ss key f = (if length (shards ss) = 0 then None else set_on ss (CacheIndexFor ss key) f)"

text \<open>\<^verbatim>\<open>net.SplitHostPort\<close>, without the port and without the text of the error.\<close>

fun lastIndex :: "'a \<Rightarrow> 'a list \<Rightarrow> nat option" where
  "lastIndex c [] = None"
| "lastIndex c (x # xs) = (case lastIndex c xs of Some i \<Rightarrow> Some (Suc i) | None \<Rightarrow> if x = c then Some 0 else None)"

fun firstIndex :: "'a \<Rightarrow> 'a list \<Rightarrow> nat option" where
  "firstIndex c [] = None"
| "firstIndex c (x # xs) = (if x = c then Some 0 else map_option Suc (firstIndex c xs))"

definition SplitHost :: "string \<Rightarrow> string option" where
  "SplitHost hp =
    (case lastIndex CHR '':'' hp of
       None \<Rightarrow> None
     | Some i \<Rightarrow>
         if hp ! 0 = CHR ''[''
         then (case firstIndex CHR '']'' hp of
             None \<Rightarrow> None
           | Some e \<Rightarrow>
               if e + 1 = length hp \<or> e + 1 \<noteq> i then None
               else if CHR ''['' \<in> set (drop 1 hp) \<or> CHR '']'' \<in> set (drop (e + 1) hp) then None
               else Some (take (e - 1) (drop 1 hp)))
         else if CHR '':'' \<in> set (take i hp) then None
         else if CHR ''['' \<in> set hp \<or> CHR '']'' \<in> set hp then None
         else Some (take i hp))"

definition PickByAddr :: "ShardSet \<Rightarrow> string \<Rightarrow> nat" where
  "PickByAddr ss addr =
    (if length (shards ss) = 0 then 0
     else let host = (case SplitHost addr of None \<Rightarrow> addr | Some h \<Rightarrow> h)
          in unat (hashKey (map of_char host) mod of_nat (length (shards ss))))"

subsection \<open>All shards\<close>

text \<open>The upper 16 bits of a cursor are the shard, the lower 48 the cursor within it.\<close>

definition set_Scan :: "call_env \<Rightarrow> ShardSet \<Rightarrow> bytes \<Rightarrow> u64 \<Rightarrow> int \<Rightarrow> ((cache_error + bytes list \<times> u64) \<times> ShardSet) option" where
  "set_Scan env ss pfx cursor cnt =
    (if length (shards ss) = 0 then Some (Inr ([], 0), ss)
     else let shardIdx = unat (drop_bit 48 cursor); innerCursor = cursor AND 0x0000FFFFFFFFFFFF in
       if shardIdx \<ge> length (shards ss) then Some (Inr ([], 0), ss)
       else map_option (apfst (map_sum id (\<lambda>(keys, nextInner).
              (keys, if nextInner = 0
                     then let nextShard = shardIdx + 1 in
                          if nextShard \<ge> length (shards ss) then 0 else push_bit 48 (of_nat nextShard)
                     else push_bit 48 (of_nat shardIdx) OR nextInner))))
            (set_on ss shardIdx (\<lambda>c. sc_Scan env c pfx innerCursor cnt)))"

text \<open>The running total is returned with the error, too.\<close>

fun delPrefix_from :: "call_env \<Rightarrow> bytes \<Rightarrow> nat \<Rightarrow> nat \<Rightarrow> u64 \<Rightarrow> ShardSet \<Rightarrow> ((u64 \<times> cache_error option) \<times> ShardSet) option" where
  "delPrefix_from env pfx i 0 tot ss = Some ((tot, None), ss)"
| "delPrefix_from env pfx i (Suc n) tot ss = do {
     (r, ss1) \<leftarrow> set_on ss i (\<lambda>c. sc_DelPrefix env c pfx);
     case r of
       Inl e \<Rightarrow> Some ((tot, Some e), ss1)
     | Inr k \<Rightarrow> delPrefix_from env pfx (Suc i) n (tot + k) ss1 }"

definition set_DelPrefix :: "call_env \<Rightarrow> ShardSet \<Rightarrow> bytes \<Rightarrow> ((u64 \<times> cache_error option) \<times> ShardSet) option" where
  "set_DelPrefix env ss pfx = delPrefix_from env pfx 0 (length (shards ss)) 0 ss"

definition set_Close :: "ShardSet \<Rightarrow> ShardSet" where
  "set_Close ss = (if set_closed ss then ss
     else ss\<lparr>set_closed := True, shards := map (map_option sc_Close) (shards ss)\<rparr>)"

definition set_Stats :: "ShardSet \<Rightarrow> Stats" where
  "set_Stats ss = foldl (\<lambda>out s. case s of
       None \<Rightarrow> out
     | Some c \<Rightarrow> let sss = mgr_Stats (sc_mgr c) in
         out\<lparr>ss_UsedBytes := ss_UsedBytes out + ss_UsedBytes sss, ss_FreeBytes := ss_FreeBytes out + ss_FreeBytes sss,
             ss_LiveObjects := ss_LiveObjects out + ss_LiveObjects sss, ss_FreelistLen := ss_FreelistLen out + ss_FreelistLen sss\<rparr>)
     \<lparr>ss_UsedBytes = 0, ss_FreeBytes = 0, ss_LiveObjects = 0, ss_FreelistLen = 0\<rparr> (shards ss)"

text \<open>
  One tick of the loop that \<^verbatim>\<open>StartGCLoop\<close> starts: nothing after the set was closed, otherwise a job for
  every worker.  \<open>gc_job\<close> is what the job of shard \<open>idx\<close> does when its worker runs it.
\<close>

definition gc_tick :: "ShardSet \<Rightarrow> nat list option" where
  "gc_tick ss = (if set_closed ss then None else Some [0..<length (shards ss)])"

definition gc_job :: "call_env \<Rightarrow> int \<Rightarrow> nat \<Rightarrow> bool \<Rightarrow> ShardSet \<Rightarrow> ShardSet option" where
  "gc_job env limit idx canceled ss =
    (if \<not> canceled \<and> \<not> set_closed ss
     then map_option snd (set_on ss idx (\<lambda>c. sc_DeleteExpired env c limit)) else Some ss)"

section \<open>The invariant\<close>

text \<open>Every shard is there and well formed, and a key is only ever in the shard it is routed to.\<close>

definition shard_ok :: "ShardSet \<Rightarrow> nat \<Rightarrow> shardCache \<Rightarrow> bool" where
  "shard_ok ss i c \<longleftrightarrow> cache_inv c \<and> cache_codec c \<and> (\<forall>k. si_map (sc_idx c) k \<noteq> None \<longrightarrow> CacheIndexFor ss k = i)"

definition set_ok :: "ShardSet \<Rightarrow> bool" where
  "set_ok ss \<longleftrightarrow> 0 < length (shards ss) \<and> length (shards ss) \<le> 65536 \<and>
     (\<forall>i < length (shards ss). \<exists>c. shards ss ! i = Some c \<and> shard_ok ss i c)"

text \<open>What a set of shards holds under a key.\<close>

definition set_map :: "ShardSet \<Rightarrow> bytes \<Rightarrow> (Handle \<times> u32) option" where
  "set_map ss key = (case CacheFor ss key of Some (Some c) \<Rightarrow> si_map (sc_idx c) key | _ \<Rightarrow> None)"

section \<open>Routing lemmas\<close>

lemma of_nat_small: "n \<le> 65536 \<Longrightarrow> unat (of_nat n :: u64) = n"
  by (simp add: unat_of_nat take_bit_nat_eq_self)

lemma CacheIndexFor_less: "0 < length (shards ss) \<Longrightarrow> length (shards ss) \<le> 65536 \<Longrightarrow> CacheIndexFor ss key < length (shards ss)"
  using of_nat_small [of "length (shards ss)"] by (simp add: CacheIndexFor_def unat_mod)

lemma CacheIndexFor_cong: "length (shards ss') = length (shards ss) \<Longrightarrow> CacheIndexFor ss' = CacheIndexFor ss"
  by (simp add: CacheIndexFor_def fun_eq_iff)

lemma CacheFor_index: "0 < length (shards ss) \<Longrightarrow> CacheFor ss key = Some (shards ss ! CacheIndexFor ss key)"
  by (simp add: CacheFor_def CacheIndexFor_def)

lemma set_okD:
  assumes "set_ok ss"
  shows "0 < length (shards ss)" "length (shards ss) \<le> 65536" "CacheIndexFor ss key < length (shards ss)"
    "i < length (shards ss) \<Longrightarrow> \<exists>c. shards ss ! i = Some c \<and> shard_ok ss i c"
  using assms CacheIndexFor_less [of ss key] by (auto simp: set_ok_def)

text \<open>The entries of the set are those of its shards.\<close>

lemma set_map_shard:
  assumes "set_ok ss"
  shows "set_map ss k = Some p \<longleftrightarrow> (\<exists>i c. i < length (shards ss) \<and> shards ss ! i = Some c \<and> si_map (sc_idx c) k = Some p)"
proof
  assume "set_map ss k = Some p"
  then show "\<exists>i c. i < length (shards ss) \<and> shards ss ! i = Some c \<and> si_map (sc_idx c) k = Some p"
    using set_okD(1,3) [OF assms] by (auto simp: set_map_def CacheFor_index split: option.splits)
next
  assume "\<exists>i c. i < length (shards ss) \<and> shards ss ! i = Some c \<and> si_map (sc_idx c) k = Some p"
  then obtain i c where i: "i < length (shards ss)" "shards ss ! i = Some c" "si_map (sc_idx c) k = Some p" by blast
  have "shard_ok ss i c" using set_okD(4) [OF assms i(1)] i(2) by auto
  then have "CacheIndexFor ss k = i" using i(3) by (simp add: shard_ok_def)
  then show "set_map ss k = Some p" using i set_okD(1) [OF assms] by (simp add: set_map_def CacheFor_index)
qed

text \<open>A step of one shard that adds only keys routed to it keeps the set.\<close>

lemma set_ok_update:
  assumes ok: "set_ok ss" and i: "i < length (shards ss)" "shards ss ! i = Some c" and k: "kept K c c'"
    and K: "\<And>k. k \<in> K \<Longrightarrow> CacheIndexFor ss k = i"
  shows "set_ok (ss\<lparr>shards := (shards ss)[i := Some c']\<rparr>)"
proof -
  let ?ss = "ss\<lparr>shards := (shards ss)[i := Some c']\<rparr>"
  have ix: "CacheIndexFor ?ss = CacheIndexFor ss" by (rule CacheIndexFor_cong) simp
  have c: "shard_ok ss i c" using set_okD(4) [OF ok i(1)] i(2) by auto
  have "CacheIndexFor ss x = i" if "si_map (sc_idx c') x \<noteq> None" for x
    using k K c that unfolding kept_def grows_def shard_ok_def by blast
  then have "shard_ok ?ss i c'" using k c cache_codec_same [of c c'] by (simp add: shard_ok_def kept_def ix)
  then have "\<exists>c. shards ?ss ! j = Some c \<and> shard_ok ?ss j c" if "j < length (shards ss)" for j
    using set_okD(4) [OF ok that] i(1) by (cases "j = i") (auto simp: shard_ok_def ix)
  then show ?thesis using set_okD(1,2) [OF ok] by (simp add: set_ok_def)
qed

section \<open>A new set\<close>

lemma newShards_ok:
  assumes "\<And>j. mmap_ok (mm j)" "unat (cfg_EvictCapacity cfg) \<le> 2 ^ 60"
    "\<And>j. \<exists>m. NewManager (mm j) (if cfg_RegionSize cfg = 0 then 67108864 else cfg_RegionSize cfg) False = Inr m"
  shows "\<exists>cs. newShards mm cfg i n = Some (Inr cs) \<and> length cs = n \<and> (\<forall>c \<in> set cs. cache_inv c \<and> si_map (sc_idx c) = Map.empty \<and>
    si_room (sc_idx c) \<and> sc_comp c = (case cfg_Compressor cfg of None \<Rightarrow> noop_compressor | Some x \<Rightarrow> x) \<and>
    sc_cipher c = (case cfg_Cipher cfg of None \<Rightarrow> noop_cipher | Some x \<Rightarrow> x))"
proof (induction n arbitrary: i)
  case 0
  then show ?case by simp
next
  case (Suc n)
  obtain m where m: "NewManager (mm i) (if cfg_RegionSize cfg = 0 then 67108864 else cfg_RegionSize cfg) False = Inr m" using assms(3) by blast
  obtain c where c: "NewShardCache (mm i) (cfg_RegionSize cfg) (cfg_EvictCapacity cfg) (cfg_Compressor cfg) (cfg_Cipher cfg) = Some (Inr c)"
    "cache_inv c" "si_map (sc_idx c) = Map.empty" "si_room (sc_idx c)"
    "sc_comp c = (case cfg_Compressor cfg of None \<Rightarrow> noop_compressor | Some x \<Rightarrow> x)" "sc_cipher c = (case cfg_Cipher cfg of None \<Rightarrow> noop_cipher | Some x \<Rightarrow> x)"
    using NewShardCache_ok [OF assms(1) m assms(2), of "cfg_Compressor cfg" "cfg_Cipher cfg"] by metis
  obtain cs where "newShards mm cfg (Suc i) n = Some (Inr cs)" "length cs = n"
    "\<forall>c \<in> set cs. cache_inv c \<and> si_map (sc_idx c) = Map.empty \<and> si_room (sc_idx c) \<and>
      sc_comp c = (case cfg_Compressor cfg of None \<Rightarrow> noop_compressor | Some x \<Rightarrow> x) \<and> sc_cipher c = (case cfg_Cipher cfg of None \<Rightarrow> noop_cipher | Some x \<Rightarrow> x)"
    using Suc.IH by blast
  then show ?case using c by simp
qed

section \<open>Cursors\<close>

definition pack :: "nat \<Rightarrow> nat \<Rightarrow> u64" where
  "pack i inner = push_bit 48 (of_nat i) OR of_nat inner"

lemma pack_parts:
  assumes "i < 65536" "inner < 2 ^ 48"
  shows "unat (drop_bit 48 (pack i inner)) = i" "pack i inner AND 0x0000FFFFFFFFFFFF = of_nat inner"
    "pack i inner = 0 \<longleftrightarrow> i = 0 \<and> inner = 0"
proof -
  let ?j = "of_nat i :: u64" and ?n = "of_nat inner :: u64"
  have j: "unat ?j = i" using assms(1) by (intro of_nat_small) simp
  have n: "unat ?n = inner" using assms(2) by (simp add: unat_of_nat take_bit_nat_eq_self)
  have jb: "bit ?j b \<Longrightarrow> b < 16" for b
  proof -
    have "take_bit 16 ?j = ?j" using j assms(1) by (simp add: take_bit_eq_mod unat_arith_simps word_arith_nat_mod flip: word_unat_eq_iff)
    then show "bit ?j b \<Longrightarrow> b < 16" by (metis bit_take_bit_iff)
  qed
  have nb: "bit ?n b \<Longrightarrow> b < 48" for b
  proof -
    have "take_bit 48 ?n = ?n" using n assms(2) by (simp add: word_unat_eq_iff unsigned_take_bit_eq take_bit_nat_eq_self)
    then show "bit ?n b \<Longrightarrow> b < 48" by (metis bit_take_bit_iff)
  qed
  have "drop_bit 48 (pack i inner) = ?j"
    by (rule bit_word_eqI) (auto simp: pack_def bit_drop_bit_eq bit_or_iff bit_push_bit_iff dest: nb jb)
  then show "unat (drop_bit 48 (pack i inner)) = i" using j by simp
  have m: "0x0000FFFFFFFFFFFF = (mask 48 :: u64)" by (simp add: mask_eq_exp_minus_1)
  show a: "pack i inner AND 0x0000FFFFFFFFFFFF = ?n"
    unfolding m by (rule bit_word_eqI) (auto simp: pack_def bit_and_iff bit_mask_iff bit_or_iff bit_push_bit_iff dest: nb)
  show "pack i inner = 0 \<longleftrightarrow> i = 0 \<and> inner = 0"
  proof
    assume z: "pack i inner = 0"
    then show "i = 0 \<and> inner = 0" using a n \<open>drop_bit 48 (pack i inner) = ?j\<close> j by (metis and_zero_eq bit.conj_zero_left drop_bit_of_0 unsigned_0)
  qed (simp add: pack_def)
qed

section \<open>Scans\<close>

text \<open>A page of one shard's index: what it reports and what it leaves for the next cursor.\<close>

lemma si_scanPrefix_page:
  assumes inv: "si_inv s" and lim: "0 < limit" and start: "unat cur = 0 \<or> si_count s \<noteq> 0 \<and> unat cur < length (si_keys s)"
    and p: "si_scanPrefix s pfx cur limit now = (ks, nx)"
  shows "ks @ (if nx = 0 then [] else si_matching s pfx now (unat nx)) = si_matching s pfx now (unat cur)"
    "nx \<noteq> 0 \<Longrightarrow> unat cur < unat nx \<and> unat nx < length (si_keys s) \<and> si_count s \<noteq> 0"
proof -
  have len: "0 < length (si_keys s)" using inv by (auto simp: si_inv_def si_table_def)
  show "ks @ (if nx = 0 then [] else si_matching s pfx now (unat nx)) = si_matching s pfx now (unat cur)"
  proof (cases "si_count s = 0")
    case True
    obtain j where "si_table j s" using inv by (auto simp: si_inv_def)
    then have "set (si_matching s pfx now 0) = {}" using si_matching_all(2) [OF inv] si_map_empty [of j s] True by simp
    then show ?thesis using p start True by (simp add: si_scanPrefix_def)
  next
    case False
    then show ?thesis using p start len lim si_scanLoop_ok [OF si_inv_small [OF inv], of pfx limit now "unat cur" "[]" ks nx]
      by (auto simp: si_scanPrefix_def split: if_splits)
  qed
  show "unat cur < unat nx \<and> unat nx < length (si_keys s) \<and> si_count s \<noteq> 0" if "nx \<noteq> 0"
    using that p si_scanLoop_ok [OF si_inv_small [OF inv], of pfx limit now "unat cur" "[]" ks nx]
    by (auto simp: si_scanPrefix_def split: if_splits)
qed

text \<open>A client that follows the cursors until it gets zero; the set does not change meanwhile.\<close>

inductive set_scan_run :: "call_env \<Rightarrow> ShardSet \<Rightarrow> bytes \<Rightarrow> int \<Rightarrow> u64 \<Rightarrow> bytes list \<Rightarrow> bool" for env ss pfx cnt where
  last: "set_Scan env ss pfx cursor cnt = Some (Inr (ks, 0), ss) \<Longrightarrow> set_scan_run env ss pfx cnt cursor ks"
| more: "set_Scan env ss pfx cursor cnt = Some (Inr (ks, nx), ss) \<Longrightarrow> nx \<noteq> 0 \<Longrightarrow> set_scan_run env ss pfx cnt nx ks' \<Longrightarrow>
    set_scan_run env ss pfx cnt cursor (ks @ ks')"

definition shard_idx :: "ShardSet \<Rightarrow> nat \<Rightarrow> shardIndex" where
  "shard_idx ss i = sc_idx (the (shards ss ! i))"

text \<open>What is still to come from shard \<open>i\<close> on, and which cursors point there.\<close>

definition rest_from :: "ShardSet \<Rightarrow> bytes \<Rightarrow> u32 \<Rightarrow> nat \<Rightarrow> nat \<Rightarrow> bytes list" where
  "rest_from ss pfx now i inner = si_matching (shard_idx ss i) pfx now inner @
     concat (map (\<lambda>j. si_matching (shard_idx ss j) pfx now 0) [Suc i..<length (shards ss)])"

definition cursor_at :: "ShardSet \<Rightarrow> nat \<Rightarrow> nat \<Rightarrow> bool" where
  "cursor_at ss i inner \<longleftrightarrow> i < length (shards ss) \<and>
     (inner = 0 \<or> si_count (shard_idx ss i) \<noteq> 0 \<and> inner < length (si_keys (shard_idx ss i)))"

definition packable :: "ShardSet \<Rightarrow> bool" where
  "packable ss \<longleftrightarrow> (\<forall>i < length (shards ss). length (si_keys (shard_idx ss i)) \<le> 2 ^ 48)"

lemma set_Scan_page:
  assumes ok: "set_ok ss" and pk: "packable ss" and cnt: "0 < cnt" and at: "cursor_at ss i inner"
  obtains ks where "set_Scan env ss pfx (pack i inner) cnt = Some (Inr (ks, 0), ss)" "rest_from ss pfx (en_now env) i inner = ks"
  | ks i' inner' where "set_Scan env ss pfx (pack i inner) cnt = Some (Inr (ks, pack i' inner'), ss)" "pack i' inner' \<noteq> 0"
      "cursor_at ss i' inner'" "rest_from ss pfx (en_now env) i inner = ks @ rest_from ss pfx (en_now env) i' inner'"
      "i < i' \<or> i = i' \<and> inner < inner'"
proof -
  have i: "i < length (shards ss)" "i < 65536" using at set_okD(2) [OF ok] by (auto simp: cursor_at_def)
  obtain c where c: "shards ss ! i = Some c" "shard_ok ss i c" using set_okD(4) [OF ok i(1)] by blast
  have inv: "si_inv (sc_idx c)" using c(2) cache_invD(2) by (auto simp: shard_ok_def)
  have ix: "shard_idx ss i = sc_idx c" using c(1) by (simp add: shard_idx_def)
  have small: "n < 2 ^ 48" if "n < length (si_keys (sc_idx c))" for n using pk i(1) ix that by (force simp: packable_def)
  have inn: "inner < 2 ^ 48" using at small ix by (auto simp: cursor_at_def)
  have un: "unat (of_nat inner :: u64) = inner" using inn by (intro unat_of_nat_u64) simp
  note pp = pack_parts [OF i(2) inn]
  obtain ks nx where pg: "si_scanPrefix (sc_idx c) pfx (of_nat inner) cnt (en_now env) = (ks, nx)" by force
  have st: "unat (of_nat inner :: u64) = 0 \<or> si_count (sc_idx c) \<noteq> 0 \<and> unat (of_nat inner :: u64) < length (si_keys (sc_idx c))"
    using at ix un by (simp add: cursor_at_def)
  note page = si_scanPrefix_page [OF inv cnt st pg, unfolded un]
  have self: "ss\<lparr>shards := (shards ss)[i := Some c]\<rparr> = ss" using c(1) i(1) by (simp flip: c(1))
  have eq: "set_Scan env ss pfx (pack i inner) cnt = Some (Inr (ks, if nx = 0
      then if length (shards ss) \<le> Suc i then 0 else push_bit 48 (of_nat (Suc i)) else push_bit 48 (of_nat i) OR nx), ss)"
    using i(1) c(1) pg pp self by (simp add: set_Scan_def set_on_def sc_Scan_def del: push_bit_numeral of_nat_Suc) auto
  show thesis
  proof (cases "nx = 0")
    case False
    have nx: "inner < unat nx" "unat nx < length (si_keys (sc_idx c))" "si_count (sc_idx c) \<noteq> 0" using page(2) [OF False] by auto
    have "pack i (unat nx) \<noteq> 0" using pack_parts(3) [OF i(2) small [OF nx(2)]] nx(1) by simp
    then show thesis using that(2) [of ks i "unat nx"] eq False page(1) nx i(1) ix by (simp add: pack_def cursor_at_def rest_from_def)
  next
    case True
    show thesis
    proof (cases "Suc i < length (shards ss)")
      case False
      then show thesis using that(1) [of ks] eq True page(1) ix by (simp add: rest_from_def)
    next
      case suc: True
      have "Suc i < 65536" using suc set_okD(2) [OF ok] by simp
      then have "pack (Suc i) 0 \<noteq> 0" using pack_parts(3) [of "Suc i" 0] by simp
      moreover have "pack (Suc i) 0 = push_bit 48 (of_nat (Suc i))" by (simp add: pack_def del: of_nat_Suc)
      moreover have "rest_from ss pfx (en_now env) i inner = ks @ rest_from ss pfx (en_now env) (Suc i) 0"
        using suc page(1) True ix by (simp add: rest_from_def upt_conv_Cons)
      ultimately show thesis using that(2) [of ks "Suc i" 0] eq True suc by (simp add: cursor_at_def del: of_nat_Suc)
    qed
  qed
qed

lemma set_scan_run_rest:
  assumes run: "set_scan_run env ss pfx cnt cur ks" and ok: "set_ok ss" "packable ss" "0 < cnt"
    and at: "cur = pack i inner" "cursor_at ss i inner"
  shows "ks = rest_from ss pfx (en_now env) i inner"
  using run at
proof (induction arbitrary: i inner rule: set_scan_run.induct)
  case (last cursor ks)
  show ?case
  proof (rule set_Scan_page [OF ok last(3), of env pfx])
    fix ks0 assume "set_Scan env ss pfx (pack i inner) cnt = Some (Inr (ks0, 0), ss)" "rest_from ss pfx (en_now env) i inner = ks0"
    then show ?thesis using last(1,2) by simp
  next
    fix ks0 i' inner' assume "set_Scan env ss pfx (pack i inner) cnt = Some (Inr (ks0, pack i' inner'), ss)" "pack i' inner' \<noteq> 0"
    then show ?thesis using last(1,2) by simp
  qed
next
  case (more cursor ks nx ks')
  show ?case
  proof (rule set_Scan_page [OF ok more(6), of env pfx])
    fix ks0 assume "set_Scan env ss pfx (pack i inner) cnt = Some (Inr (ks0, 0), ss)"
    then show ?thesis using more(1,2,5) by simp
  next
    fix ks0 i' inner' assume s: "set_Scan env ss pfx (pack i inner) cnt = Some (Inr (ks0, pack i' inner'), ss)" "cursor_at ss i' inner'"
      "rest_from ss pfx (en_now env) i inner = ks0 @ rest_from ss pfx (en_now env) i' inner'"
    then show ?thesis using more(1,5) more.IH [of i' inner'] by simp
  qed
qed

lemma set_scan_run_exists:
  assumes ok: "set_ok ss" "packable ss" "0 < cnt" and at: "cursor_at ss i inner"
  shows "\<exists>ks. set_scan_run env ss pfx cnt (pack i inner) ks"
  using at
proof (induction "(length (shards ss) - i, length (si_keys (shard_idx ss i)) - inner)" arbitrary: i inner
    rule: wf_induct_rule [OF wf_lex_prod [OF wf_less_than wf_less_than]])
  case 1
  show ?case
  proof (rule set_Scan_page [OF ok 1(2), of env pfx])
    fix ks assume "set_Scan env ss pfx (pack i inner) cnt = Some (Inr (ks, 0), ss)"
    then show ?thesis using set_scan_run.last by blast
  next
    fix ks i' inner' assume s: "set_Scan env ss pfx (pack i inner) cnt = Some (Inr (ks, pack i' inner'), ss)" "pack i' inner' \<noteq> 0"
      "cursor_at ss i' inner'" "i < i' \<or> i = i' \<and> inner < inner'"
    have "\<exists>ks. set_scan_run env ss pfx cnt (pack i' inner') ks"
      by (rule 1(1) [OF _ s(3)]) (use s(3,4) in \<open>auto simp: cursor_at_def\<close>)
    then show ?thesis using set_scan_run.more [OF s(1,2)] by blast
  qed
qed

lemma rest_from_0:
  assumes "0 < length (shards ss)"
  shows "rest_from ss pfx now 0 0 = concat (map (\<lambda>j. si_matching (shard_idx ss j) pfx now 0) [0..<length (shards ss)])"
  using assms by (simp add: rest_from_def upt_conv_Cons)

lemma distinct_concat_disjoint:
  assumes "\<And>j. j < n \<Longrightarrow> distinct (f j)" "\<And>i j. i < n \<Longrightarrow> j < n \<Longrightarrow> i \<noteq> j \<Longrightarrow> set (f i) \<inter> set (f j) = {}"
  shows "distinct (concat (map f [0..<n]))"
  using assms
proof (induction n)
  case (Suc n)
  have "distinct (concat (map f [0..<n]))" using Suc by simp
  moreover have "set (concat (map f [0..<n])) \<inter> set (f n) = {}"
  proof -
    have "set (f i) \<inter> set (f n) = {}" if "i < n" for i using Suc.prems(2) [of i n] that by simp
    then show ?thesis by (auto simp: disjoint_iff)
  qed
  ultimately show ?case using Suc.prems(1) by simp
qed simp

lemma all_matching:
  assumes ok: "set_ok ss"
  shows "distinct (rest_from ss pfx now 0 0)"
    "set (rest_from ss pfx now 0 0) = {k. \<exists>h e. set_map ss k = Some (h, e) \<and> \<not> expired now e \<and> bytesHasPrefix k pfx}"
proof -
  let ?f = "\<lambda>j. si_matching (shard_idx ss j) pfx now 0"
  have sh: "\<exists>c. shards ss ! j = Some c \<and> shard_ok ss j c \<and> distinct (?f j) \<and>
      set (?f j) = {k. \<exists>h e. si_map (sc_idx c) k = Some (h, e) \<and> \<not> expired now e \<and> bytesHasPrefix k pfx}"
    if j: "j < length (shards ss)" for j
  proof -
    obtain c where c: "shards ss ! j = Some c" "shard_ok ss j c" using set_okD(4) [OF ok j] by blast
    have "si_inv (sc_idx c)" using c(2) cache_invD(2) by (auto simp: shard_ok_def)
    then show ?thesis using c si_matching_all [of "sc_idx c"] by (simp add: shard_idx_def)
  qed
  note r0 = rest_from_0 [OF set_okD(1) [OF ok], of pfx now]
  have home: "CacheIndexFor ss k = j" if "j < length (shards ss)" "k \<in> set (?f j)" for j k
    using sh [OF that(1)] that(2) by (auto simp: shard_ok_def)
  show "distinct (rest_from ss pfx now 0 0)"
    unfolding r0
  proof (rule distinct_concat_disjoint)
    show "distinct (?f j)" if "j < length (shards ss)" for j using sh [OF that] by blast
    show "set (?f i) \<inter> set (?f j) = {}" if "i < length (shards ss)" "j < length (shards ss)" "i \<noteq> j" for i j
      using home [OF that(1)] home [OF that(2)] that(3) by fastforce
  qed
  show "set (rest_from ss pfx now 0 0) = {k. \<exists>h e. set_map ss k = Some (h, e) \<and> \<not> expired now e \<and> bytesHasPrefix k pfx}"
    (is "_ = ?R")
  proof (intro set_eqI iffI)
    fix k assume "k \<in> set (rest_from ss pfx now 0 0)"
    then obtain j where j: "j < length (shards ss)" "k \<in> set (?f j)" unfolding r0 by auto
    then show "k \<in> ?R" using sh [OF j(1)] set_map_shard [OF ok] by blast
  next
    fix k assume "k \<in> ?R"
    then obtain h e where k: "set_map ss k = Some (h, e)" "\<not> expired now e" "bytesHasPrefix k pfx" by blast
    obtain j c where j: "j < length (shards ss)" "shards ss ! j = Some c" "si_map (sc_idx c) k = Some (h, e)"
      using k(1) set_map_shard [OF ok] by blast
    have "k \<in> set (?f j)" using sh [OF j(1)] j(2,3) k(2,3) by auto
    then show "k \<in> set (rest_from ss pfx now 0 0)" unfolding r0 using j(1) by auto
  qed
qed

section \<open>Prefix deletion\<close>

definition hit :: "ShardSet \<Rightarrow> bytes \<Rightarrow> nat \<Rightarrow> nat \<Rightarrow> bytes set" where
  "hit ss pfx i j = {k. set_map ss k \<noteq> None \<and> bytesHasPrefix k pfx \<and> i \<le> CacheIndexFor ss k \<and> CacheIndexFor ss k < j}"

lemma set_map_update:
  assumes "set_ok ss" "i < length (shards ss)"
  shows "set_map (ss\<lparr>shards := (shards ss)[i := Some c']\<rparr>) k = (if CacheIndexFor ss k = i then si_map (sc_idx c') k else set_map ss k)"
proof -
  let ?ss = "ss\<lparr>shards := (shards ss)[i := Some c']\<rparr>"
  have "CacheIndexFor ?ss = CacheIndexFor ss" by (rule CacheIndexFor_cong) simp
  then show ?thesis using assms set_okD(1,3) [OF assms(1)] by (simp add: set_map_def CacheFor_index nth_list_update)
qed

lemma set_on_DelPrefix:
  assumes ok: "set_ok ss" and i: "i < length (shards ss)"
  obtains ss' where "set_on ss i (\<lambda>c. sc_DelPrefix env c pfx) = Some (Inr (of_nat (card (hit ss pfx i (Suc i)))), ss')"
    "set_ok ss'" "length (shards ss') = length (shards ss)" "finite (hit ss pfx i (Suc i))"
    "set_map ss' = set_map ss |` (- hit ss pfx i (Suc i))"
proof -
  obtain c where c: "shards ss ! i = Some c" "shard_ok ss i c" using set_okD(4) [OF ok i] by blast
  have inv: "cache_inv c" using c(2) by (simp add: shard_ok_def)
  obtain c' ks where d: "sc_DelPrefix env c pfx = Some (Inr (of_nat (length ks)), c')" "cache_inv c'" "same_codec c c'" "quiet (sc_mgr c) (sc_mgr c')"
    "distinct ks" "set ks = {k. si_map (sc_idx c) k \<noteq> None \<and> bytesHasPrefix k pfx}"
    "si_map (sc_idx c') = si_map (sc_idx c) |` {k. \<not> bytesHasPrefix k pfx}" by (rule sc_DelPrefix_ok [OF inv])
  let ?ss = "ss\<lparr>shards := (shards ss)[i := Some c']\<rparr>"
  have sm: "set_map ss k = si_map (sc_idx c) k" if "CacheIndexFor ss k = i" for k
    using that c(1) set_okD(1) [OF ok] by (simp add: set_map_def CacheFor_index)
  have home: "CacheIndexFor ss k = i" if "si_map (sc_idx c) k \<noteq> None" for k using that c(2) by (simp add: shard_ok_def)
  have h: "hit ss pfx i (Suc i) = set ks" unfolding hit_def d(6) using sm home by (auto simp: le_less_Suc_eq)
  have "kept {} c c'" using d(2,3,7) by (auto simp: kept_def grows_def)
  then have "set_ok ?ss" by (rule set_ok_update [OF ok i c(1)]) simp
  moreover have "set_map ?ss k = (set_map ss |` (- hit ss pfx i (Suc i))) k" for k
    unfolding set_map_update [OF ok i] h using d(6,7) home sm [of k]
    by (cases "si_map (sc_idx c) k") (auto simp: restrict_map_def)
  moreover have "length ks = card (hit ss pfx i (Suc i))" using d(5) h by (simp add: distinct_card)
  ultimately show ?thesis using that [of ?ss] d(1) c(1) h by (simp add: set_on_def fun_eq_iff)
qed

lemma delPrefix_from_ok:
  assumes "set_ok ss" "i + n \<le> length (shards ss)"
  shows "\<exists>ss'. delPrefix_from env pfx i n tot ss = Some ((tot + of_nat (card (hit ss pfx i (i + n))), None), ss') \<and> set_ok ss' \<and>
    length (shards ss') = length (shards ss) \<and> finite (hit ss pfx i (i + n)) \<and> set_map ss' = set_map ss |` (- hit ss pfx i (i + n))"
  using assms
proof (induction n arbitrary: i tot ss)
  case 0
  have "hit ss pfx i i = {}" by (auto simp: hit_def)
  then show ?case using 0 by (simp add: restrict_map_def)
next
  case (Suc n)
  obtain s1 where s1: "set_on ss i (\<lambda>c. sc_DelPrefix env c pfx) = Some (Inr (of_nat (card (hit ss pfx i (Suc i)))), s1)"
    "set_ok s1" "length (shards s1) = length (shards ss)" "finite (hit ss pfx i (Suc i))" "set_map s1 = set_map ss |` (- hit ss pfx i (Suc i))"
    using set_on_DelPrefix [OF Suc.prems(1), of i env pfx] Suc.prems(2) by auto
  have ix: "CacheIndexFor s1 = CacheIndexFor ss" using CacheIndexFor_cong s1(3) by blast
  let ?A = "hit ss pfx i (Suc i)" and ?B = "hit s1 pfx (Suc i) (Suc i + n)"
  have u: "hit ss pfx i (i + Suc n) = ?A \<union> ?B" "?A \<inter> ?B = {}" unfolding hit_def ix s1(5) restrict_map_def by auto
  obtain s2 where s2: "delPrefix_from env pfx (Suc i) n (tot + of_nat (card ?A)) s1 =
      Some ((tot + of_nat (card ?A) + of_nat (card ?B), None), s2)" "set_ok s2" "length (shards s2) = length (shards s1)" "finite ?B"
      "set_map s2 = set_map s1 |` (- ?B)"
    using Suc.IH [OF s1(2), of "Suc i" "tot + of_nat (card ?A)"] Suc.prems(2) s1(3) by auto
  have "card (hit ss pfx i (i + Suc n)) = card ?A + card ?B" using card_Un_disjoint [OF s1(4) s2(4) u(2)] u(1) by simp
  then have "delPrefix_from env pfx i (Suc n) tot ss = Some ((tot + of_nat (card (hit ss pfx i (i + Suc n))), None), s2)"
    using s2(1) by (simp only: delPrefix_from.simps s1(1) bind.bind_lunit prod.case sum.case of_nat_add add.assoc)
  moreover have "set_map s2 = set_map ss |` (- hit ss pfx i (i + Suc n))" unfolding s2(5) s1(5) u(1) by (simp add: restrict_restrict Compl_Un)
  moreover have "finite (hit ss pfx i (i + Suc n))" using s1(4) s2(4) unfolding u(1) by blast
  moreover have "length (shards s2) = length (shards ss)" using s1(3) s2(3) by simp
  ultimately show ?case using s2(2) by blast
qed

section \<open>Addresses\<close>

lemma lastIndex_append:
  "c \<notin> set ys \<Longrightarrow> lastIndex c (xs @ c # ys) = Some (length xs)"
proof -
  have n: "c \<notin> set ys \<Longrightarrow> lastIndex c ys = None" for ys :: "'a list" by (induction ys) auto
  show "c \<notin> set ys \<Longrightarrow> lastIndex c (xs @ c # ys) = Some (length xs)" by (induction xs) (auto simp: n)
qed

lemma SplitHost_plain:
  assumes "set host \<inter> {CHR '':'', CHR ''['', CHR '']''} = {}" "set port \<inter> {CHR '':'', CHR ''['', CHR '']''} = {}"
  shows "SplitHost (host @ CHR '':'' # port) = Some host"
  using assms lastIndex_append [of "CHR '':''" port host] by (cases host) (auto simp: SplitHost_def)

text \<open>Connections from one host are pinned to one shard, whatever their port.\<close>

lemma PickByAddr_ignores_port:
  assumes "set host \<inter> {CHR '':'', CHR ''['', CHR '']''} = {}" "set port \<inter> {CHR '':'', CHR ''['', CHR '']''} = {}"
  shows "PickByAddr ss (host @ CHR '':'' # port) = CacheIndexFor ss (map of_char host)"
  using SplitHost_plain [OF assms] by (simp add: PickByAddr_def CacheIndexFor_def)

section \<open>Examples\<close>

text \<open>Two fresh shards, and the same after one \<^verbatim>\<open>Set\<close> of the key \<open>[9]\<close>.\<close>

definition wset :: ShardSet where
  "wset = \<lparr>shards = [Some wcache, Some wcache], set_closed = False\<rparr>"

definition wset1 :: ShardSet where
  "wset1 = wset\<lparr>shards := (shards wset)[CacheIndexFor wset [9] := Some wcache1]\<rparr>"

lemma wset_new: "NewShardSet 1 (\<lambda>_. mmapRegion_other)
    \<lparr>cfg_NumShards = 2, cfg_RegionSize = 64, cfg_EvictCapacity = 64, cfg_Compressor = None, cfg_Cipher = None\<rparr> = Some (Inr wset)"
  using wcache_new(1) by (simp add: NewShardSet_def wset_def numeral_2_eq_2)

lemma wset_ok: "set_ok wset"
  using wcache_new(2,3) by (auto simp: set_ok_def wset_def shard_ok_def ready_def less_Suc_eq_0_disj)

lemma wset_at: "i < length (shards wset) \<Longrightarrow> shards wset ! i = Some wcache"
  by (auto simp: wset_def less_Suc_eq_0_disj)

lemma wset1_ok: "set_ok wset1" "\<exists>h. set_map wset1 [9] = Some (h, 0)" "packable wset1" "set_map wset1 k \<noteq> None \<Longrightarrow> k = [9]"
proof -
  let ?i = "CacheIndexFor wset [9]"
  have i: "?i < length (shards wset)" using set_okD(3) [OF wset_ok] .
  note at = wset_at [OF i]
  have g: "kept {[9]} wcache wcache1"
    using Set_kept [OF wcache_new(2), of "[9]" "[1, 2, 3]" 0] wcache1_ready(1) by auto
  show "set_ok wset1" unfolding wset1_def by (rule set_ok_update [OF wset_ok i at g]) simp
  show "\<exists>h. set_map wset1 [9] = Some (h, 0)" using wcache1_ready(3) by (auto simp: wset1_def set_map_update [OF wset_ok i] stored_at_def)
  have "set_map wset k = None" using wset_at [OF set_okD(3) [OF wset_ok, of k]] set_okD(1) [OF wset_ok] wcache_new(3)
    by (simp add: set_map_def CacheFor_index)
  then show "set_map wset1 k \<noteq> None \<Longrightarrow> k = [9]"
    using g wcache_new(3) by (auto simp: wset1_def set_map_update [OF wset_ok i] kept_def grows_def split: if_splits)
  have "length (si_keys (sc_idx wcache)) = 64" by (simp add: wcache_new(12) newShardIndex_def makeIndex_def)
  then have "length (si_keys (sc_idx wcache)) \<le> 2 ^ 48" "length (si_keys (sc_idx wcache1)) \<le> 2 ^ 48"
    using sc_Set_size [OF wcache_new(2) wcache1_ready(1)] by simp_all
  then show "packable wset1" using wset_at i by (simp add: packable_def shard_idx_def wset1_def nth_list_update)
qed

section \<open>Properties\<close>

text \<open>
  C12. A client that follows the cursors of \<^verbatim>\<open>ShardSet.Scan\<close> from zero, over all shards, reaches the end and has
  then seen every unexpired key with the prefix exactly once and no other key, whatever the page size; the
  shard number in the upper 16 bits and the slot in the lower 48 never collide as long as there are at most
  65536 shards and no index has more than \<open>2 ^ 48\<close> slots.
\<close>

theorem ShardSet_scan_complete:
  assumes "set_ok ss" "packable ss" "0 < cnt"
  shows "(\<exists>ks. set_scan_run env ss pfx cnt 0 ks) \<and>
    (\<forall>ks. set_scan_run env ss pfx cnt 0 ks \<longrightarrow> distinct ks \<and>
       set ks = {k. \<exists>h e. set_map ss k = Some (h, e) \<and> \<not> expired (en_now env) e \<and> bytesHasPrefix k pfx})"
proof -
  have p: "pack 0 0 = 0" by (simp add: pack_def)
  have at: "cursor_at ss 0 0" using set_okD(1) [OF assms(1)] by (simp add: cursor_at_def)
  have "\<exists>ks. set_scan_run env ss pfx cnt 0 ks" using set_scan_run_exists [OF assms at, of env pfx] unfolding p .
  moreover have "distinct ks \<and>
       set ks = {k. \<exists>h e. set_map ss k = Some (h, e) \<and> \<not> expired (en_now env) e \<and> bytesHasPrefix k pfx}"
    if "set_scan_run env ss pfx cnt 0 ks" for ks
    unfolding set_scan_run_rest [OF that assms p [symmetric] at] using all_matching [OF assms(1)] by blast
  ultimately show ?thesis by blast
qed

theorem ShardSet_scan_complete_witness: "set_scan_run wenv wset1 [] 1 0 [[9]]"
proof -
  have "{k. \<exists>h e. set_map wset1 k = Some (h, e) \<and> \<not> expired (en_now wenv) e \<and> bytesHasPrefix k []} = {[9]}"
    using wset1_ok(2) wset1_ok(4) by (auto simp: expired_def bytesHasPrefix_iff)
  then obtain ks where "set_scan_run wenv wset1 [] 1 0 ks" "distinct ks" "set ks = {[9]}"
    using ShardSet_scan_complete [OF wset1_ok(1,3), of 1 wenv "[]"] by auto
  moreover have "length ks = 1" using distinct_card [OF \<open>distinct ks\<close>] \<open>set ks = {[9]}\<close> by simp
  then have "ks = [[9]]" using \<open>set ks = {[9]}\<close> by (cases ks) auto
  ultimately show ?thesis by simp
qed

text \<open>
  C13. \<^verbatim>\<open>ShardSet.DelPrefix\<close> on a well-formed set never fails: it removes exactly the keys with the prefix, from
  every shard, returns how many there were (modulo \<open>2 ^ 64\<close>), and leaves every other key, its value's handle
  and its expiry time in place.
\<close>

theorem ShardSet_DelPrefix_exact:
  assumes "set_ok ss"
  shows "\<exists>ss'. set_DelPrefix env ss pfx = Some ((of_nat (card {k. set_map ss k \<noteq> None \<and> bytesHasPrefix k pfx}), None), ss') \<and>
    set_ok ss' \<and> (\<forall>k. set_map ss' k = (if bytesHasPrefix k pfx then None else set_map ss k))"
proof -
  have h: "hit ss pfx 0 (0 + length (shards ss)) = {k. set_map ss k \<noteq> None \<and> bytesHasPrefix k pfx}"
    using set_okD(3) [OF assms] by (auto simp: hit_def)
  obtain ss' where s: "set_DelPrefix env ss pfx = Some ((of_nat (card {k. set_map ss k \<noteq> None \<and> bytesHasPrefix k pfx}), None), ss')"
    "set_ok ss'" "set_map ss' = set_map ss |` (- {k. set_map ss k \<noteq> None \<and> bytesHasPrefix k pfx})"
    using delPrefix_from_ok [OF assms, of 0 "length (shards ss)" env pfx 0] unfolding h set_DelPrefix_def by auto
  have "set_map ss' k = (if bytesHasPrefix k pfx then None else set_map ss k)" for k
    unfolding s(3) restrict_map_def by (cases "set_map ss k") auto
  then show ?thesis using s(1,2) by blast
qed

theorem ShardSet_DelPrefix_exact_witness:
  "\<exists>ss'. set_DelPrefix wenv wset1 [9] = Some ((1, None), ss') \<and> set_map ss' [9] = None"
proof -
  have "{k. set_map wset1 k \<noteq> None \<and> bytesHasPrefix k [9]} = {[9]}"
    using wset1_ok(2,4) by (auto simp: bytesHasPrefix_iff)
  then show ?thesis using ShardSet_DelPrefix_exact [OF wset1_ok(1), of wenv "[9]"] by (auto simp: bytesHasPrefix_iff)
qed

end
