(* ===== verification/Proto.thy ===== *)
theory Proto
  imports Horreum_Prelude
begin

text \<open>
  \<^verbatim>\<open>internal/proto/proto.go\<close>: the wire protocol.  Encoders append a frame to a buffer; growing the buffer
  by hand is the same as appending.  The parser takes frames off the front of its input.

  \<open>Feed\<close> models the memory the parser works on, because the frames it returns are views into that
  memory: \<open>pp_arr\<close> is the array behind \<^verbatim>\<open>p.pending\<close> from its first byte to its capacity.  A frame is
  returned with its offset, and what the caller sees is the frame re-read from the array as the call left it
  (\<open>frameAt\<close>).  How much room \<^verbatim>\<open>append\<close> allocates is the parameter \<open>grow\<close>.
\<close>

section \<open>Definitions\<close>

definition magic :: u16 where "magic = 0x4848"
definition headerSize :: nat where "headerSize = 10"
definition maxFrameSize :: int where "maxFrameSize = 67108864"

definition OpGet :: u8 where "OpGet = 1"
definition OpSet :: u8 where "OpSet = 2"
definition OpDel :: u8 where "OpDel = 3"
definition OpSetEx :: u8 where "OpSetEx = 4"
definition OpCAS :: u8 where "OpCAS = 5"
definition OpIncr :: u8 where "OpIncr = 6"
definition OpScan :: u8 where "OpScan = 7"
definition OpDelPrefix :: u8 where "OpDelPrefix = 8"
definition OpHSet :: u8 where "OpHSet = 9"
definition OpHGet :: u8 where "OpHGet = 10"
definition OpHDel :: u8 where "OpHDel = 11"
definition OpHGetAll :: u8 where "OpHGetAll = 12"
definition OpLPush :: u8 where "OpLPush = 13"
definition OpLPop :: u8 where "OpLPop = 14"
definition OpRPush :: u8 where "OpRPush = 15"
definition OpRPop :: u8 where "OpRPop = 16"
definition OpLLen :: u8 where "OpLLen = 17"
definition OpSAdd :: u8 where "OpSAdd = 18"
definition OpSRem :: u8 where "OpSRem = 19"
definition OpSIsMember :: u8 where "OpSIsMember = 20"
definition OpSMembers :: u8 where "OpSMembers = 21"

lemmas op_defs = OpGet_def OpSet_def OpDel_def OpSetEx_def OpCAS_def OpIncr_def OpScan_def OpDelPrefix_def
  OpHSet_def OpHGet_def OpHDel_def OpHGetAll_def OpLPush_def OpLPop_def OpRPush_def OpRPop_def OpLLen_def
  OpSAdd_def OpSRem_def OpSIsMember_def OpSMembers_def

definition opName :: "string list" where
  "opName = ['''', ''GET'', ''SET'', ''DEL'', ''SETEX'', ''CAS'', ''INCR'', ''SCAN'', ''DELPREFIX'',
    ''HSET'', ''HGET'', ''HDEL'', ''HGETALL'', ''LPUSH'', ''LPOP'', ''RPUSH'', ''RPOP'', ''LLEN'',
    ''SADD'', ''SREM'', ''SISMEMBER'', ''SMEMBERS'']"

definition op_String :: "u8 \<Rightarrow> string" where
  "op_String opc = (if unat opc < length opName then opName ! unat opc else ''?'')"

datatype proto_error = ErrShortBuffer | ErrBadMagic | ErrUnknownOp | ErrFrameTooLarge

record Frame =
  fr_Op :: u8
  fr_Key :: bytes
  fr_Value :: bytes
  fr_flags :: u8

definition IsResponse :: "Frame \<Rightarrow> bool" where
  "IsResponse f \<longleftrightarrow> fr_flags f AND 1 = 1"

definition IsError :: "Frame \<Rightarrow> bool" where
  "IsError f \<longleftrightarrow> fr_flags f AND 1 = 1 \<and> fr_flags f \<noteq> 0"

subsection \<open>Encoders\<close>

definition frameHeader :: "u8 \<Rightarrow> u8 \<Rightarrow> nat \<Rightarrow> nat \<Rightarrow> bytes" where
  "frameHeader op flags keyLen valLen =
    put_u16 magic @ [op, flags] @ put_u16 (of_nat keyLen) @ put_u32 (of_nat valLen)"

definition EncodeRequest :: "bytes \<Rightarrow> u8 \<Rightarrow> bytes \<Rightarrow> bytes \<Rightarrow> bytes" where
  "EncodeRequest dst op key val = dst @ frameHeader op 0 (length key) (length val) @ key @ val"

definition EncodeSetEx :: "bytes \<Rightarrow> bytes \<Rightarrow> bytes \<Rightarrow> u32 \<Rightarrow> bytes" where
  "EncodeSetEx dst key val ttlSeconds =
    dst @ frameHeader OpSetEx 0 (length key) (4 + length val) @ key @ put_u32 ttlSeconds @ val"

definition EncodeCAS :: "bytes \<Rightarrow> bytes \<Rightarrow> bytes \<Rightarrow> bytes \<Rightarrow> bytes" where
  "EncodeCAS dst key expectedValue newValue =
    dst @ frameHeader OpCAS 0 (length key) (4 + length expectedValue + length newValue) @ key @
      put_u32 (of_nat (length expectedValue)) @ expectedValue @ newValue"

definition EncodeIncr :: "bytes \<Rightarrow> bytes \<Rightarrow> u64 \<Rightarrow> bytes" where
  "EncodeIncr dst key delta = dst @ frameHeader OpIncr 0 (length key) 8 @ key @ put_u64 delta"

definition EncodeScan :: "bytes \<Rightarrow> bytes \<Rightarrow> u64 \<Rightarrow> u32 \<Rightarrow> bytes" where
  "EncodeScan dst pfx cursor cnt =
    dst @ frameHeader OpScan 0 (length pfx) 12 @ pfx @ put_u64 cursor @ put_u32 cnt"

definition EncodeDelPrefix :: "bytes \<Rightarrow> bytes \<Rightarrow> bytes" where
  "EncodeDelPrefix dst pfx = dst @ frameHeader OpDelPrefix 0 (length pfx) 0 @ pfx"

definition EncodeResponse :: "bytes \<Rightarrow> u8 \<Rightarrow> u8 \<Rightarrow> bytes \<Rightarrow> bytes \<Rightarrow> bytes" where
  "EncodeResponse dst op status key val = dst @ frameHeader op status (length key) (length val) @ key @ val"

subsection \<open>Parser\<close>

definition knownOp :: "u8 \<Rightarrow> bool" where
  "knownOp op \<longleftrightarrow> op \<in> {OpGet, OpSet, OpDel, OpSetEx, OpCAS, OpIncr, OpScan, OpDelPrefix,
     OpHSet, OpHGet, OpHDel, OpHGetAll, OpLPush, OpLPop, OpRPush, OpRPop, OpLLen,
     OpSAdd, OpSRem, OpSIsMember, OpSMembers}"

definition parseIn :: "bytes \<Rightarrow> proto_error + Frame" where
  "parseIn work =
    (if length work < headerSize then Inl ErrShortBuffer
     else if get_u16 (slice work 0 2) \<noteq> magic then Inl ErrBadMagic
     else
       let keyLen = unat (get_u16 (slice work 4 6)); valLen = unat (get_u32 (slice work 6 10));
           total = headerSize + keyLen + valLen
       in if int total > maxFrameSize then Inl ErrFrameTooLarge
          else if length work < total then Inl ErrShortBuffer
          else if \<not> knownOp (work ! 2) then Inl ErrUnknownOp
          else Inr \<lparr>fr_Op = work ! 2, fr_Key = slice work headerSize (headerSize + keyLen),
                    fr_Value = slice work (headerSize + keyLen) total, fr_flags = work ! 3\<rparr>)"

definition frameLen :: "Frame \<Rightarrow> nat" where
  "frameLen f = headerSize + length (fr_Key f) + length (fr_Value f)"

text \<open>The loop of \<^verbatim>\<open>Feed\<close>: the frames with their offsets, the bytes left over, the error if any.\<close>

function parseAll :: "bytes \<Rightarrow> nat \<Rightarrow> (nat \<times> Frame) list \<times> bytes \<times> proto_error option" where
  "parseAll work off =
    (case parseIn work of
       Inl e \<Rightarrow> ([], work, if e = ErrShortBuffer then None else Some e)
     | Inr f \<Rightarrow>
         (case parseAll (drop (frameLen f) work) (off + frameLen f) of
            (fs, rest, err) \<Rightarrow> ((off, f) # fs, rest, err)))"
  by pat_completeness auto
termination
  by (relation "measure (\<lambda>(work, off). length work)")
    (auto simp: parseIn_def frameLen_def headerSize_def Let_def split: if_splits)

record Parser =
  pp_arr :: bytes
  pp_len :: nat

definition NewParser :: Parser where
  "NewParser = \<lparr>pp_arr = [], pp_len = 0\<rparr>"

definition pp_Reset :: "Parser \<Rightarrow> Parser" where
  "pp_Reset p = p\<lparr>pp_len := 0\<rparr>"

definition pp_Pending :: "Parser \<Rightarrow> nat" where
  "pp_Pending p = pp_len p"

definition pp_bytes :: "Parser \<Rightarrow> bytes" where
  "pp_bytes p = take (pp_len p) (pp_arr p)"

definition pp_Parse :: "Parser \<Rightarrow> (proto_error + Frame) \<times> Parser" where
  "pp_Parse p =
    (case parseIn (pp_bytes p) of
       Inl e \<Rightarrow> (Inl e, p)
     | Inr f \<Rightarrow> (Inr f, p\<lparr>pp_arr := drop (frameLen f) (pp_arr p), pp_len := pp_len p - frameLen f\<rparr>))"

text \<open>\<^verbatim>\<open>append(p.pending[:n], buf...)\<close>: in place when it fits, into a larger array otherwise.\<close>

definition pp_append :: "(nat \<Rightarrow> nat \<Rightarrow> nat) \<Rightarrow> Parser \<Rightarrow> nat \<Rightarrow> bytes \<Rightarrow> Parser" where
  "pp_append grow p n buf =
    (if n + length buf \<le> length (pp_arr p) then \<lparr>pp_arr = copy_at (pp_arr p) n buf, pp_len = n + length buf\<rparr>
     else \<lparr>pp_arr = take n (pp_arr p) @ buf @ replicate (grow (length (pp_arr p)) (n + length buf)) 0, pp_len = n + length buf\<rparr>)"

text \<open>What a returned frame shows when its views are read from memory \<open>mem\<close>.\<close>

definition frameAt :: "bytes \<Rightarrow> nat \<times> Frame \<Rightarrow> Frame" where
  "frameAt mem r = (case r of (off, f) \<Rightarrow>
     f\<lparr>fr_Key := slice mem (off + headerSize) (off + headerSize + length (fr_Key f)),
       fr_Value := slice mem (off + headerSize + length (fr_Key f)) (off + frameLen f)\<rparr>)"

text \<open>\<open>Feed\<close> returns the frames with their offsets, the memory they point into as the call leaves it, the
  error, and the parser.\<close>

definition Feed :: "(nat \<Rightarrow> nat \<Rightarrow> nat) \<Rightarrow> Parser \<Rightarrow> bytes \<Rightarrow> (nat \<times> Frame) list \<times> bytes \<times> proto_error option \<times> Parser" where
  "Feed grow p buf =
    (if pp_len p = 0
     then case parseAll buf 0 of (frames, work, err) \<Rightarrow>
       (case err of
          Some e \<Rightarrow> (frames, buf, Some e, pp_Reset p)
        | None \<Rightarrow> (frames, buf, None, if length work > 0 then pp_append grow p 0 work else p))
     else
       let p1 = pp_append grow p (pp_len p) buf
       in case parseAll (pp_bytes p1) 0 of (frames, work, err) \<Rightarrow>
         (case err of
            Some e \<Rightarrow> (frames, pp_arr p1, Some e, pp_Reset p1)
          | None \<Rightarrow>
              if length work = 0 then (frames, pp_arr p1, None, p1\<lparr>pp_len := 0\<rparr>)
              else if length work < length (pp_arr p1) div 2
              then let arr = copy_at (pp_arr p1) 0 work
                   in (frames, arr, None, \<lparr>pp_arr = arr, pp_len = length work\<rparr>)
              else (frames, pp_arr p1, None,
                    \<lparr>pp_arr = drop (pp_len p1 - length work) (pp_arr p1), pp_len = length work\<rparr>)))"

text \<open>A connection reads chunks and feeds each of them, until an error.\<close>

fun feedAll :: "(nat \<Rightarrow> nat \<Rightarrow> nat) \<Rightarrow> Parser \<Rightarrow> bytes list \<Rightarrow> Frame list \<times> proto_error option \<times> Parser" where
  "feedAll grow p [] = ([], None, p)"
| "feedAll grow p (c # cs) =
    (case Feed grow p c of (frames, mem, err, p') \<Rightarrow>
       (case err of
          Some e \<Rightarrow> (map snd frames, Some e, p')
        | None \<Rightarrow> (case feedAll grow p' cs of (fs, r) \<Rightarrow> (map snd frames @ fs, r))))"

subsection \<open>Contract\<close>

definition encFrame :: "Frame \<Rightarrow> bytes" where
  "encFrame f = frameHeader (fr_Op f) (fr_flags f) (length (fr_Key f)) (length (fr_Value f)) @ fr_Key f @ fr_Value f"

definition validFrame :: "Frame \<Rightarrow> bool" where
  "validFrame f \<longleftrightarrow> knownOp (fr_Op f) \<and> length (fr_Key f) < 65536 \<and> int (frameLen f) \<le> maxFrameSize"

definition pp_ok :: "Parser \<Rightarrow> bool" where
  "pp_ok p \<longleftrightarrow> pp_len p \<le> length (pp_arr p)"

section \<open>One frame\<close>

declare parseAll.simps [simp del]

lemma length_frameHeader [simp]: "length (frameHeader op fl k v) = 10"
  by (simp add: frameHeader_def)

lemma length_encFrame: "length (encFrame f) = frameLen f"
  by (simp add: encFrame_def frameLen_def headerSize_def)

lemma header_fields:
  "slice (frameHeader op fl k v @ xs) 0 2 = put_u16 magic" "slice (frameHeader op fl k v @ xs) 4 6 = put_u16 (of_nat k)"
  "slice (frameHeader op fl k v @ xs) 6 10 = put_u32 (of_nat v)"
  "(frameHeader op fl k v @ xs) ! 2 = op" "(frameHeader op fl k v @ xs) ! 3 = fl"
  "slice (frameHeader op fl k v @ xs) 10 (10 + n) = take n xs"
  "slice (frameHeader op fl k v @ xs) (10 + m) (10 + m + n) = slice xs m (m + n)"
  by (simp_all add: frameHeader_def slice_def nth_append eval_nat_numeral)

lemma parseIn_header:
  assumes "k < 65536" "int (headerSize + k + v) \<le> maxFrameSize" "knownOp op"
  shows "parseIn (frameHeader op fl k v @ xs) =
    (if length xs < k + v then Inl ErrShortBuffer
     else Inr \<lparr>fr_Op = op, fr_Key = take k xs, fr_Value = slice xs k (k + v), fr_flags = fl\<rparr>)"
proof -
  have u: "unat (of_nat k :: u16) = k" "unat (of_nat v :: u32) = v"
    using assms by (simp_all add: unat_of_nat_u16 unat_of_nat_u32 maxFrameSize_def headerSize_def)
  show ?thesis
    using assms u by (simp add: parseIn_def header_fields Let_def headerSize_def)
qed

lemma parseIn_enc: "validFrame f \<Longrightarrow> parseIn (encFrame f @ rest) = Inr f"
  by (simp add: validFrame_def frameLen_def encFrame_def parseIn_header slice_def)

lemma parseIn_short:
  assumes f: "validFrame f" and n: "n < length (encFrame f)"
  shows "parseIn (take n (encFrame f)) = Inl ErrShortBuffer"
proof (cases "n < 10")
  case True
  then show ?thesis using n by (simp add: parseIn_def headerSize_def)
next
  case False
  let ?h = "frameHeader (fr_Op f) (fr_flags f) (length (fr_Key f)) (length (fr_Value f))"
  have "take n (encFrame f) = ?h @ take (n - 10) (fr_Key f @ fr_Value f)" using False by (simp add: encFrame_def)
  moreover have "n - 10 < length (fr_Key f @ fr_Value f)" using n False by (simp add: encFrame_def)
  then have "length (take (n - 10) (fr_Key f @ fr_Value f)) < length (fr_Key f) + length (fr_Value f)"
    by (simp del: take_append)
  ultimately show ?thesis using f by (simp add: validFrame_def frameLen_def parseIn_header)
qed

section \<open>A stream of frames\<close>

lemma parseAll_frames:
  assumes "\<forall>f \<in> set fs. validFrame f" "parseIn tail = Inl ErrShortBuffer"
  shows "\<exists>offs. parseAll (concat (map encFrame fs) @ tail) off = (zip offs fs, tail, None) \<and> length offs = length fs"
  using assms(1)
proof (induction fs arbitrary: off)
  case Nil
  then show ?case using assms(2) by (simp add: parseAll.simps [of tail])
next
  case (Cons f fs)
  obtain offs where o: "parseAll (concat (map encFrame fs) @ tail) (off + frameLen f) = (zip offs fs, tail, None)" "length offs = length fs"
    using Cons.IH [of "off + frameLen f"] Cons.prems by auto
  have "parseAll (concat (map encFrame (f # fs)) @ tail) off = (zip (off # offs) (f # fs), tail, None)"
    using o(1) Cons.prems length_encFrame [of f]
    by (subst parseAll.simps) (simp add: parseIn_enc)
  then show ?case using o(2) by (metis length_Cons)
qed

text \<open>Every prefix of a stream is some whole frames and a frame cut short.\<close>

lemma stream_prefix:
  assumes "\<forall>f \<in> set fs. validFrame f" "w @ w' = concat (map encFrame fs)"
  shows "\<exists>fs1 fs2 tail. fs = fs1 @ fs2 \<and> w = concat (map encFrame fs1) @ tail \<and> tail @ w' = concat (map encFrame fs2) \<and>
    parseIn tail = Inl ErrShortBuffer"
  using assms
proof (induction fs arbitrary: w)
  case Nil
  then show ?case by (simp add: parseIn_def headerSize_def)
next
  case (Cons f fs)
  show ?case
  proof (cases "length w < length (encFrame f)")
    case True
    have "w = take (length w) (w @ w')" by simp
    also have "\<dots> = take (length w) (encFrame f)" using Cons.prems(2) True by simp
    finally have w: "w = take (length w) (encFrame f)" .
    have "parseIn w = Inl ErrShortBuffer" using parseIn_short [of f "length w"] Cons.prems(1) True w by simp
    then show ?thesis using Cons.prems(2) by (intro exI [of _ "[]"] exI [of _ "f # fs"] exI [of _ w]) simp
  next
    case False
    then have "take (length (encFrame f)) w = encFrame f" using Cons.prems(2)
      by (metis append_eq_append_conv_if append_take_drop_id concat.simps(2) list.simps(9) not_le order.order_iff_strict take_all)
    then obtain v where v: "w = encFrame f @ v" by (metis append_take_drop_id)
    have "v @ w' = concat (map encFrame fs)" using Cons.prems(2) v by simp
    from Cons.IH [OF _ this] Cons.prems(1) obtain fs1 fs2 tail where
      "fs = fs1 @ fs2" "v = concat (map encFrame fs1) @ tail" "tail @ w' = concat (map encFrame fs2)" "parseIn tail = Inl ErrShortBuffer"
      by auto
    then show ?thesis using v by (intro exI [of _ "f # fs1"] exI [of _ fs2] exI [of _ tail]) simp
  qed
qed

lemma pp_append_bytes:
  assumes "n \<le> length (pp_arr p)"
  shows "pp_bytes (pp_append grow p n buf) = take n (pp_arr p) @ buf" "pp_ok (pp_append grow p n buf)"
    "pp_len (pp_append grow p n buf) = n + length buf"
  using assms by (auto simp: pp_append_def pp_bytes_def pp_ok_def copy_at_def)

lemma parseAll_rest:
  assumes "parseAll work off = (fs, rest, err)"
  shows "\<exists>d. work = d @ rest"
  using assms
proof (induction work off arbitrary: fs rest err rule: parseAll.induct)
  case (1 work off)
  show ?case
  proof (cases "parseIn work")
    case (Inl e)
    then show ?thesis using 1(2) by (simp add: parseAll.simps [of work])
  next
    case (Inr f)
    obtain fs' rest' err' where r: "parseAll (drop (frameLen f) work) (off + frameLen f) = (fs', rest', err')" by (metis surj_pair)
    then have "rest' = rest" using 1(2) Inr by (simp add: parseAll.simps [of work])
    then obtain d where "drop (frameLen f) work = d @ rest" using 1(1) [OF Inr r] by auto
    then show ?thesis by (metis append.assoc append_take_drop_id)
  qed
qed

text \<open>What \<^verbatim>\<open>Feed\<close> parses does not depend on how the bytes were cut into calls.\<close>

lemma Feed_parse:
  assumes ok: "pp_ok p" and r: "parseAll (pp_bytes p @ buf) 0 = (fs, work, err)"
  obtains mem p' where "Feed grow p buf = (fs, mem, err, p')" "pp_ok p'" "err = None \<Longrightarrow> pp_bytes p' = work"
proof (cases "pp_len p = 0")
  case True
  then have r': "parseAll buf 0 = (fs, work, err)" using r by (simp add: pp_bytes_def)
  show ?thesis
  proof (cases err)
    case None
    show ?thesis
    proof (cases "work = []")
      case True
      then show ?thesis using that [of buf p] None r' \<open>pp_len p = 0\<close> ok by (simp add: Feed_def pp_bytes_def)
    next
      case False
      then show ?thesis
        using that [of buf "pp_append grow p 0 work"] None r' \<open>pp_len p = 0\<close> pp_append_bytes [of 0 p grow work] by (simp add: Feed_def)
    qed
  next
    case (Some e)
    then show ?thesis using that [of buf "pp_Reset p"] r' True by (simp add: Feed_def pp_Reset_def pp_ok_def)
  qed
next
  case False
  let ?p1 = "pp_append grow p (pp_len p) buf"
  have b: "pp_bytes ?p1 = pp_bytes p @ buf" "pp_ok ?p1" using pp_append_bytes [of "pp_len p" p grow buf] ok by (simp_all add: pp_ok_def pp_bytes_def)
  have r1: "parseAll (pp_bytes ?p1) 0 = (fs, work, err)" using r b(1) by simp
  obtain d where d: "pp_bytes ?p1 = d @ work" using parseAll_rest [OF r1] by auto
  have lp: "length (pp_bytes ?p1) = pp_len ?p1" using b(2) by (simp add: pp_bytes_def pp_ok_def)
  have lw: "length work \<le> pp_len ?p1" "pp_len ?p1 \<le> length (pp_arr ?p1)"
    unfolding lp [symmetric] using d b(2) lp by (simp_all add: pp_ok_def)
  show ?thesis
  proof (cases err)
    case (Some e)
    then show ?thesis using that [of "pp_arr ?p1" "pp_Reset ?p1"] r1 False by (simp add: Feed_def Let_def pp_Reset_def pp_ok_def)
  next
    case None
    consider "work = []" | "work \<noteq> []" "length work < length (pp_arr ?p1) div 2" | "work \<noteq> []" "\<not> length work < length (pp_arr ?p1) div 2" by blast
    then show ?thesis
    proof cases
      case 1
      then show ?thesis using that [of "pp_arr ?p1" "?p1\<lparr>pp_len := 0\<rparr>"] r1 False None by (simp add: Feed_def Let_def pp_ok_def pp_bytes_def)
    next
      case 2
      let ?arr = "copy_at (pp_arr ?p1) 0 work"
      show ?thesis
        using that [of ?arr "\<lparr>pp_arr = ?arr, pp_len = length work\<rparr>"] r1 False None 2 lw
        by (simp add: Feed_def Let_def pp_ok_def pp_bytes_def copy_at_def)
    next
      case 3
      let ?p2 = "\<lparr>pp_arr = drop (pp_len ?p1 - length work) (pp_arr ?p1), pp_len = length work\<rparr>"
      have "length d = pp_len ?p1 - length work" unfolding lp [symmetric] d by simp
      then have "take (length work) (drop (pp_len ?p1 - length work) (pp_arr ?p1)) = work"
        using d lw by (simp add: pp_bytes_def take_drop)
      then have "pp_bytes ?p2 = work" "pp_ok ?p2" using lw by (simp_all add: pp_bytes_def pp_ok_def)
      then show ?thesis using that [of "pp_arr ?p1" ?p2] r1 False None 3 by (simp add: Feed_def Let_def)
    qed
  qed
qed

lemma feedAll_stream:
  assumes "\<forall>f \<in> set fs. validFrame f" "pp_ok p" "parseIn (pp_bytes p) = Inl ErrShortBuffer"
    "pp_bytes p @ concat cs = concat (map encFrame fs)"
  shows "\<exists>p'. feedAll grow p cs = (fs, None, p') \<and> pp_bytes p' = []"
  using assms
proof (induction cs arbitrary: p fs)
  case Nil
  have "fs = []"
  proof (rule ccontr)
    assume "fs \<noteq> []"
    then obtain f fs' where "fs = f # fs'" by (cases fs) auto
    then show False using Nil.prems parseIn_enc [of f "concat (map encFrame fs')"] by simp
  qed
  then show ?case using Nil.prems(4) by simp
next
  case (Cons c cs)
  from stream_prefix [OF Cons.prems(1), of "pp_bytes p @ c" "concat cs"] Cons.prems(4)
  obtain fs1 fs2 tail where s: "fs = fs1 @ fs2" "pp_bytes p @ c = concat (map encFrame fs1) @ tail"
    "tail @ concat cs = concat (map encFrame fs2)" "parseIn tail = Inl ErrShortBuffer" by auto
  have v: "\<forall>f \<in> set fs1. validFrame f" "\<forall>f \<in> set fs2. validFrame f" using Cons.prems(1) s(1) by auto
  obtain offs where o: "parseAll (pp_bytes p @ c) 0 = (zip offs fs1, tail, None)" "length offs = length fs1"
    using parseAll_frames [OF v(1) s(4), of 0] s(2) by auto
  obtain mem p1 where f: "Feed grow p c = (zip offs fs1, mem, None, p1)" "pp_ok p1" "pp_bytes p1 = tail"
    using Feed_parse [OF Cons.prems(2) o(1)] by metis
  obtain p' where "feedAll grow p1 cs = (fs2, None, p')" "pp_bytes p' = []"
    using Cons.IH [OF v(2) f(2)] f(3) s(3,4) by auto
  then show ?case using f(1) o(2) s(1) by simp
qed

section \<open>Properties\<close>

text \<open>
  C31. A request survives the wire: for every opcode the protocol knows, \<^verbatim>\<open>parseIn\<close> returns the frame
  \<^verbatim>\<open>EncodeRequest\<close> wrote, whatever follows it; with fewer bytes than the frame has it asks for more; and the
  specialised encoders write the frames whose value is their arguments laid out in order.
\<close>

theorem request_roundtrip:
  assumes "knownOp op" "length key < 65536" "10 + int (length key) + int (length val) \<le> maxFrameSize"
  shows "parseIn (EncodeRequest [] op key val @ rest) = Inr \<lparr>fr_Op = op, fr_Key = key, fr_Value = val, fr_flags = 0\<rparr> \<and>
    (\<forall>n < length (EncodeRequest [] op key val). parseIn (take n (EncodeRequest [] op key val)) = Inl ErrShortBuffer) \<and>
    EncodeSetEx dst key val ttl = EncodeRequest dst OpSetEx key (put_u32 ttl @ val) \<and>
    EncodeCAS dst key val val' = EncodeRequest dst OpCAS key (put_u32 (of_nat (length val)) @ val @ val') \<and>
    EncodeIncr dst key delta = EncodeRequest dst OpIncr key (put_u64 delta) \<and>
    EncodeScan dst key cursor cnt = EncodeRequest dst OpScan key (put_u64 cursor @ put_u32 cnt) \<and>
    EncodeDelPrefix dst key = EncodeRequest dst OpDelPrefix key []"
proof -
  let ?f = "\<lparr>fr_Op = op, fr_Key = key, fr_Value = val, fr_flags = 0\<rparr>"
  have e: "EncodeRequest [] op key val = encFrame ?f" by (simp add: EncodeRequest_def encFrame_def)
  have "validFrame ?f" using assms by (simp add: validFrame_def frameLen_def headerSize_def)
  then show ?thesis using parseIn_enc [of ?f rest] parseIn_short [of ?f] unfolding e
    by (simp add: EncodeRequest_def EncodeSetEx_def EncodeCAS_def EncodeIncr_def EncodeScan_def EncodeDelPrefix_def add.assoc)
qed

theorem request_roundtrip_witness:
  "parseIn (EncodeRequest [] OpSet [1, 2] [3] @ [9]) = Inr \<lparr>fr_Op = OpSet, fr_Key = [1, 2], fr_Value = [3], fr_flags = 0\<rparr>"
  using request_roundtrip [of OpSet "[1, 2]" "[3]" "[9]"] by (simp add: knownOp_def maxFrameSize_def)



lemma frameAt_drop: "frameAt (drop n mem) (off, f) = frameAt mem (n + off, f)"
  by (simp add: frameAt_def slice_def ac_simps frameLen_def)

lemma parseAll_views:
  assumes "parseAll work off = (fs, rest, err)" "r \<in> set fs"
  shows "off \<le> fst r \<and> fst r - off + frameLen (snd r) \<le> length work \<and> frameAt work (fst r - off, snd r) = snd r"
  using assms
proof (induction work off arbitrary: fs rest err rule: parseAll.induct)
  case (1 work off)
  show ?case
  proof (cases "parseIn work")
    case (Inl e)
    then show ?thesis using 1(2,3) by (simp add: parseAll.simps [of work])
  next
    case (Inr f)
    obtain fs' rest' err' where p: "parseAll (drop (frameLen f) work) (off + frameLen f) = (fs', rest', err')" by (metis surj_pair)
    then have fs: "fs = (off, f) # fs'" using 1(2) Inr by (simp add: parseAll.simps [of work])
    have f: "frameLen f \<le> length work \<and> frameAt work (0, f) = f"
      using Inr by (auto simp: parseIn_def frameAt_def frameLen_def headerSize_def Let_def split: if_splits)
    show ?thesis
    proof (cases "r = (off, f)")
      case True
      then show ?thesis using f by simp
    next
      case False
      then have "r \<in> set fs'" using 1(3) fs by simp
      from 1(1) [OF Inr p this] have ih: "off + frameLen f \<le> fst r"
        "fst r - (off + frameLen f) + frameLen (snd r) \<le> length (drop (frameLen f) work)"
        "frameAt (drop (frameLen f) work) (fst r - (off + frameLen f), snd r) = snd r" by auto
      have "frameLen f + (fst r - (off + frameLen f)) = fst r - off" using ih(1) by simp
      then show ?thesis using ih f unfolding frameAt_drop by auto
    qed
  qed
qed

lemma frameAt_take: "off + frameLen f \<le> n \<Longrightarrow> frameAt (take n mem) (off, f) = frameAt mem (off, f)"
  by (simp add: frameAt_def slice_def take_drop frameLen_def min_absorb1)

text \<open>
  Views stay valid across a call that starts or ends with nothing pending: the frames the caller reads
  through the memory \<^verbatim>\<open>Feed\<close> leaves behind are the frames it parsed.
\<close>

lemma Feed_views_valid:
  assumes "pp_ok p" "Feed grow p buf = (frames, mem, None, p')" "pp_len p = 0 \<or> pp_len p' = 0"
  shows "map (frameAt mem) frames = map snd frames"
proof (cases "pp_len p = 0")
  case True
  obtain work err where r: "parseAll buf 0 = (frames, work, err)" "mem = buf"
    using assms(2) True by (auto simp: Feed_def split: prod.splits option.splits)
  show ?thesis using parseAll_views [OF r(1)] r(2) by (intro map_cong) auto
next
  case False
  let ?p1 = "pp_append grow p (pp_len p) buf"
  obtain work where r: "parseAll (pp_bytes ?p1) 0 = (frames, work, None)" "work = []" "mem = pp_arr ?p1"
    using assms(2,3) False by (auto simp: Feed_def Let_def split: prod.splits option.splits if_splits)
  have "frameAt mem x = snd x" if "x \<in> set frames" for x
  proof -
    have "pp_ok ?p1" using pp_append_bytes(2) assms(1) by (simp add: pp_ok_def)
    then have "length (pp_bytes ?p1) = pp_len ?p1" by (simp add: pp_bytes_def pp_ok_def)
    then show ?thesis using parseAll_views [OF r(1) that] frameAt_take [of "fst x" "snd x" "pp_len ?p1" mem] r(3)
      by (simp add: pp_bytes_def)
  qed
  then show ?thesis by (intro map_cong) auto
qed

text \<open>
  With bytes pending before and after the call, \<^verbatim>\<open>Feed\<close> slides the left-over to the front of the array
  that the returned frames point into: a request completed by one read, followed by the first bytes of the
  next, is overwritten before the caller sees it.
\<close>

lemma Feed_slide_overwrites:
  "let r1 = EncodeRequest [] OpSet [1, 2, 3] [4, 5, 6]; r2 = EncodeRequest [] OpSet [7, 8, 9] [10, 11, 12];
       (frames1, mem1, err1, p1) = Feed (\<lambda>_ n. n) NewParser (take 9 r1);
       (frames2, mem2, err2, p2) = Feed (\<lambda>_ n. n) p1 (drop 9 r1 @ take 13 r2)
   in frames1 = [] \<and> err2 = None \<and> map (\<lambda>f. fr_Key (snd f)) frames2 = [[1, 2, 3]] \<and>
      map (\<lambda>f. fr_Key (frameAt mem2 f)) frames2 = [[7, 8, 9]]"
  by code_simp

end
