(* ===== verification/Handler.thy ===== *)
theory Handler
  imports Shard_Set Proto
begin

text \<open>
  \<^verbatim>\<open>internal/transport/handler.go\<close>: from a request frame to a response.  A handler takes the set of shards, the
  frame and the write buffer, and returns the buffer with the response appended, what it told the recorder,
  and the set afterwards; \<open>None\<close> is a panic.  Durations given to the recorder are left out.
\<close>

section \<open>Definitions\<close>

datatype observation = ObserveSet string | ObserveGet string | ObserveDel string | ObserveCAS string
  | ObserveIncr string | ObserveScan string | ObserveDelPrefix string

type_synonym reply = "((bytes \<times> observation list) \<times> ShardSet) option"

subsection \<open>Strings and counters\<close>

definition handleGet :: "call_env \<Rightarrow> ShardSet \<Rightarrow> Frame \<Rightarrow> bytes \<Rightarrow> reply" where
  "handleGet env ss fr buf = do {
     (r, ss1) \<leftarrow> set_call ss (fr_Key fr) (\<lambda>c. sc_Get env c (fr_Key fr));
     Some (case r of
         Inl _ \<Rightarrow> (EncodeResponse buf OpGet 1 (fr_Key fr) [], [ObserveGet ''err''])
       | Inr val \<Rightarrow> (EncodeResponse buf OpGet 0 (fr_Key fr) val, [ObserveGet ''ok'']), ss1) }"

definition handleSet :: "call_env \<Rightarrow> ShardSet \<Rightarrow> Frame \<Rightarrow> bytes \<Rightarrow> reply" where
  "handleSet env ss fr buf = do {
     (r, ss1) \<leftarrow> set_call ss (fr_Key fr) (\<lambda>c. sc_Set env c (fr_Key fr) (fr_Value fr) 0);
     Some (case r of
         Inl _ \<Rightarrow> (EncodeResponse buf OpSet 1 (fr_Key fr) [], [ObserveSet ''err''])
       | Inr _ \<Rightarrow> (EncodeResponse buf OpSet 0 (fr_Key fr) [], [ObserveSet ''ok'']), ss1) }"

definition handleSetEx :: "call_env \<Rightarrow> ShardSet \<Rightarrow> Frame \<Rightarrow> bytes \<Rightarrow> reply" where
  "handleSetEx env ss fr buf =
    (if length (fr_Value fr) < 4 then Some ((EncodeResponse buf OpSetEx 1 (fr_Key fr) [], [ObserveSet ''err'']), ss)
     else do {
       (r, ss1) \<leftarrow> set_call ss (fr_Key fr) (\<lambda>c. sc_Set env c (fr_Key fr) (drop 4 (fr_Value fr)) (get_u32 (take 4 (fr_Value fr))));
       Some (case r of
           Inl _ \<Rightarrow> (EncodeResponse buf OpSetEx 1 (fr_Key fr) [], [ObserveSet ''err''])
         | Inr _ \<Rightarrow> (EncodeResponse buf OpSetEx 0 (fr_Key fr) [], [ObserveSet ''ok'']), ss1) })"

definition handleDel :: "call_env \<Rightarrow> ShardSet \<Rightarrow> Frame \<Rightarrow> bytes \<Rightarrow> reply" where
  "handleDel env ss fr buf = do {
     (_, ss1) \<leftarrow> set_call ss (fr_Key fr) (\<lambda>c. sc_Delete env c (fr_Key fr));
     Some ((EncodeResponse buf OpDel 0 (fr_Key fr) [], [ObserveDel ''ok'']), ss1) }"

definition handleCAS :: "call_env \<Rightarrow> ShardSet \<Rightarrow> Frame \<Rightarrow> bytes \<Rightarrow> reply" where
  "handleCAS env ss fr buf =
    (if length (fr_Value fr) < 4 then Some ((EncodeResponse buf OpCAS 1 (fr_Key fr) [], [ObserveCAS ''err'']), ss)
     else let expLen = unat (get_u32 (take 4 (fr_Value fr))) in
       if 4 + expLen > length (fr_Value fr) then Some ((EncodeResponse buf OpCAS 1 (fr_Key fr) [], [ObserveCAS ''err'']), ss)
       else do {
         (r, ss1) \<leftarrow> set_call ss (fr_Key fr)
           (\<lambda>c. sc_CAS env c (fr_Key fr) (slice (fr_Value fr) 4 (4 + expLen)) (drop (4 + expLen) (fr_Value fr)));
         Some (case r of
             Inl _ \<Rightarrow> (EncodeResponse buf OpCAS 1 (fr_Key fr) [], [ObserveCAS ''err''])
           | Inr (curr_val, swapped) \<Rightarrow>
               if \<not> swapped then (EncodeResponse buf OpCAS 1 (fr_Key fr) curr_val, [ObserveCAS ''err''])
               else (EncodeResponse buf OpCAS 0 (fr_Key fr) [], [ObserveCAS ''ok'']), ss1) })"

definition handleIncr :: "call_env \<Rightarrow> ShardSet \<Rightarrow> Frame \<Rightarrow> bytes \<Rightarrow> reply" where
  "handleIncr env ss fr buf =
    (if length (fr_Value fr) \<noteq> 8 then Some ((EncodeResponse buf OpIncr 1 (fr_Key fr) [], [ObserveIncr ''err'']), ss)
     else do {
       (r, ss1) \<leftarrow> set_call ss (fr_Key fr) (\<lambda>c. sc_Incr env c (fr_Key fr) (get_u64 (fr_Value fr)));
       Some (case r of
           Inl _ \<Rightarrow> (EncodeResponse buf OpIncr 1 (fr_Key fr) [], [ObserveIncr ''err''])
         | Inr newVal \<Rightarrow> (EncodeResponse buf OpIncr 0 (fr_Key fr) (put_u64 newVal), [ObserveIncr ''ok'']), ss1) })"

subsection \<open>Scans\<close>

definition scanPayload :: "bytes list \<Rightarrow> u64 \<Rightarrow> bytes" where
  "scanPayload keys nextCursor = put_u64 nextCursor @ put_u32 (of_nat (length keys)) @
     concat (map (\<lambda>k. put_u16 (of_nat (length k)) @ k) keys)"

definition handleScan :: "call_env \<Rightarrow> ShardSet \<Rightarrow> Frame \<Rightarrow> bytes \<Rightarrow> reply" where
  "handleScan env ss fr buf =
    (if length (fr_Value fr) < 12 then Some ((EncodeResponse buf OpScan 1 (fr_Key fr) [], [ObserveScan ''err'']), ss)
     else do {
       (r, ss1) \<leftarrow> set_Scan env ss (fr_Key fr) (get_u64 (take 8 (fr_Value fr))) (uint (get_u32 (slice (fr_Value fr) 8 12)));
       Some (case r of
           Inl _ \<Rightarrow> (EncodeResponse buf OpScan 1 (fr_Key fr) [], [ObserveScan ''err''])
         | Inr (keys, nextCursor) \<Rightarrow>
             (EncodeResponse buf OpScan 0 (fr_Key fr) (scanPayload keys nextCursor), [ObserveScan ''ok'']), ss1) })"

definition handleDelPrefix :: "call_env \<Rightarrow> ShardSet \<Rightarrow> Frame \<Rightarrow> bytes \<Rightarrow> reply" where
  "handleDelPrefix env ss fr buf = do {
     ((deleted, err), ss1) \<leftarrow> set_DelPrefix env ss (fr_Key fr);
     Some (case err of
         Some _ \<Rightarrow> (EncodeResponse buf OpDelPrefix 1 (fr_Key fr) [], [ObserveDelPrefix ''err''])
       | None \<Rightarrow> (EncodeResponse buf OpDelPrefix 0 (fr_Key fr) (put_u64 deleted), [ObserveDelPrefix ''ok'']), ss1) }"

subsection \<open>Hashes\<close>

definition handleHSet :: "call_env \<Rightarrow> ShardSet \<Rightarrow> Frame \<Rightarrow> bytes \<Rightarrow> reply" where
  "handleHSet env ss fr buf =
    (if length (fr_Value fr) < 2 then Some ((EncodeResponse buf OpHSet 1 (fr_Key fr) [], []), ss)
     else let flen = unat (get_u16 (take 2 (fr_Value fr))) in
       if 2 + flen > length (fr_Value fr) then Some ((EncodeResponse buf OpHSet 1 (fr_Key fr) [], []), ss)
       else do {
         (r, ss1) \<leftarrow> set_call ss (fr_Key fr)
           (\<lambda>c. sc_HSet env c (fr_Key fr) (slice (fr_Value fr) 2 (2 + flen)) (drop (2 + flen) (fr_Value fr)));
         Some (case r of
             Inl _ \<Rightarrow> (EncodeResponse buf OpHSet 1 (fr_Key fr) [], [])
           | Inr _ \<Rightarrow> (EncodeResponse buf OpHSet 0 (fr_Key fr) [], []), ss1) })"

definition handleHGet :: "call_env \<Rightarrow> ShardSet \<Rightarrow> Frame \<Rightarrow> bytes \<Rightarrow> reply" where
  "handleHGet env ss fr buf = do {
     (r, ss1) \<leftarrow> set_call ss (fr_Key fr) (\<lambda>c. sc_HGet env c (fr_Key fr) (fr_Value fr));
     Some (case r of
         Inl _ \<Rightarrow> (EncodeResponse buf OpHGet 1 (fr_Key fr) [], [])
       | Inr val \<Rightarrow> (EncodeResponse buf OpHGet 0 (fr_Key fr) val, []), ss1) }"

definition handleHDel :: "call_env \<Rightarrow> ShardSet \<Rightarrow> Frame \<Rightarrow> bytes \<Rightarrow> reply" where
  "handleHDel env ss fr buf = do {
     (r, ss1) \<leftarrow> set_call ss (fr_Key fr) (\<lambda>c. sc_HDel env c (fr_Key fr) (fr_Value fr));
     Some ((EncodeResponse buf OpHDel (if r = Inr True then 0 else 1) (fr_Key fr) [], []), ss1) }"

definition hgetallPayload :: "bytes list \<Rightarrow> bytes list \<Rightarrow> bytes" where
  "hgetallPayload fs vs = put_u32 (of_nat (length fs)) @
     concat (map (\<lambda>(f, v). put_u16 (of_nat (length f)) @ f @ put_u32 (of_nat (length v)) @ v) (zip fs vs))"

definition handleHGetAll :: "call_env \<Rightarrow> ShardSet \<Rightarrow> Frame \<Rightarrow> bytes \<Rightarrow> reply" where
  "handleHGetAll env ss fr buf = do {
     (r, ss1) \<leftarrow> set_call ss (fr_Key fr) (\<lambda>c. sc_HGetAll env c (fr_Key fr));
     Some (case r of
         Inl _ \<Rightarrow> (EncodeResponse buf OpHGetAll 1 (fr_Key fr) [], [])
       | Inr (fs, vs) \<Rightarrow> (EncodeResponse buf OpHGetAll 0 (fr_Key fr) (hgetallPayload fs vs), []), ss1) }"

subsection \<open>Lists\<close>

definition handleLPush :: "call_env \<Rightarrow> ShardSet \<Rightarrow> Frame \<Rightarrow> bytes \<Rightarrow> reply" where
  "handleLPush env ss fr buf = do {
     (r, ss1) \<leftarrow> set_call ss (fr_Key fr) (\<lambda>c. sc_LPush env c (fr_Key fr) (fr_Value fr));
     Some (case r of
         Inl _ \<Rightarrow> (EncodeResponse buf OpLPush 1 (fr_Key fr) [], [])
       | Inr n \<Rightarrow> (EncodeResponse buf OpLPush 0 (fr_Key fr) (put_u32 n), []), ss1) }"

definition handleRPush :: "call_env \<Rightarrow> ShardSet \<Rightarrow> Frame \<Rightarrow> bytes \<Rightarrow> reply" where
  "handleRPush env ss fr buf = do {
     (r, ss1) \<leftarrow> set_call ss (fr_Key fr) (\<lambda>c. sc_RPush env c (fr_Key fr) (fr_Value fr));
     Some (case r of
         Inl _ \<Rightarrow> (EncodeResponse buf OpRPush 1 (fr_Key fr) [], [])
       | Inr n \<Rightarrow> (EncodeResponse buf OpRPush 0 (fr_Key fr) (put_u32 n), []), ss1) }"

definition handleLPop :: "call_env \<Rightarrow> ShardSet \<Rightarrow> Frame \<Rightarrow> bytes \<Rightarrow> reply" where
  "handleLPop env ss fr buf = do {
     (r, ss1) \<leftarrow> set_call ss (fr_Key fr) (\<lambda>c. sc_LPop env c (fr_Key fr));
     Some (case r of
         Inl _ \<Rightarrow> (EncodeResponse buf OpLPop 1 (fr_Key fr) [], [])
       | Inr elem \<Rightarrow> (EncodeResponse buf OpLPop 0 (fr_Key fr) elem, []), ss1) }"

definition handleRPop :: "call_env \<Rightarrow> ShardSet \<Rightarrow> Frame \<Rightarrow> bytes \<Rightarrow> reply" where
  "handleRPop env ss fr buf = do {
     (r, ss1) \<leftarrow> set_call ss (fr_Key fr) (\<lambda>c. sc_RPop env c (fr_Key fr));
     Some (case r of
         Inl _ \<Rightarrow> (EncodeResponse buf OpRPop 1 (fr_Key fr) [], [])
       | Inr elem \<Rightarrow> (EncodeResponse buf OpRPop 0 (fr_Key fr) elem, []), ss1) }"

definition handleLLen :: "call_env \<Rightarrow> ShardSet \<Rightarrow> Frame \<Rightarrow> bytes \<Rightarrow> reply" where
  "handleLLen env ss fr buf = do {
     (r, ss1) \<leftarrow> set_call ss (fr_Key fr) (\<lambda>c. sc_LLen env c (fr_Key fr));
     Some (case r of
         Inl _ \<Rightarrow> (EncodeResponse buf OpLLen 1 (fr_Key fr) [], [])
       | Inr n \<Rightarrow> (EncodeResponse buf OpLLen 0 (fr_Key fr) (put_u32 n), []), ss1) }"

subsection \<open>Sets\<close>

definition handleSAdd :: "call_env \<Rightarrow> ShardSet \<Rightarrow> Frame \<Rightarrow> bytes \<Rightarrow> reply" where
  "handleSAdd env ss fr buf = do {
     (r, ss1) \<leftarrow> set_call ss (fr_Key fr) (\<lambda>c. sc_SAdd env c (fr_Key fr) (fr_Value fr));
     Some (case r of
         Inl _ \<Rightarrow> (EncodeResponse buf OpSAdd 1 (fr_Key fr) [], [])
       | Inr added \<Rightarrow> (EncodeResponse buf OpSAdd (if \<not> added then 1 else 0) (fr_Key fr) [], []), ss1) }"

definition handleSRem :: "call_env \<Rightarrow> ShardSet \<Rightarrow> Frame \<Rightarrow> bytes \<Rightarrow> reply" where
  "handleSRem env ss fr buf = do {
     (r, ss1) \<leftarrow> set_call ss (fr_Key fr) (\<lambda>c. sc_SRem env c (fr_Key fr) (fr_Value fr));
     Some ((EncodeResponse buf OpSRem (if r = Inr True then 0 else 1) (fr_Key fr) [], []), ss1) }"

definition handleSIsMember :: "call_env \<Rightarrow> ShardSet \<Rightarrow> Frame \<Rightarrow> bytes \<Rightarrow> reply" where
  "handleSIsMember env ss fr buf = do {
     (r, ss1) \<leftarrow> set_call ss (fr_Key fr) (\<lambda>c. sc_SIsMember env c (fr_Key fr) (fr_Value fr));
     Some ((EncodeResponse buf OpSIsMember (if r = Inr True then 0 else 1) (fr_Key fr) [], []), ss1) }"

definition smembersPayload :: "bytes list \<Rightarrow> bytes" where
  "smembersPayload members = put_u32 (of_nat (length members)) @
     concat (map (\<lambda>m. put_u16 (of_nat (length m)) @ m) members)"

definition handleSMembers :: "call_env \<Rightarrow> ShardSet \<Rightarrow> Frame \<Rightarrow> bytes \<Rightarrow> reply" where
  "handleSMembers env ss fr buf = do {
     (r, ss1) \<leftarrow> set_call ss (fr_Key fr) (\<lambda>c. sc_SMembers env c (fr_Key fr));
     Some (case r of
         Inl _ \<Rightarrow> (EncodeResponse buf OpSMembers 1 (fr_Key fr) [], [])
       | Inr members \<Rightarrow> (EncodeResponse buf OpSMembers 0 (fr_Key fr) (smembersPayload members), []), ss1) }"

subsection \<open>Dispatch\<close>

text \<open>The switch; \<open>None\<close> stands for its default case.\<close>

definition handlerOf :: "u8 \<Rightarrow> (call_env \<Rightarrow> ShardSet \<Rightarrow> Frame \<Rightarrow> bytes \<Rightarrow> reply) option" where
  "handlerOf op =
    (if op = OpGet then Some handleGet
     else if op = OpSet then Some handleSet
     else if op = OpSetEx then Some handleSetEx
     else if op = OpDel then Some handleDel
     else if op = OpCAS then Some handleCAS
     else if op = OpIncr then Some handleIncr
     else if op = OpScan then Some handleScan
     else if op = OpDelPrefix then Some handleDelPrefix
     else if op = OpHSet then Some handleHSet
     else if op = OpHGet then Some handleHGet
     else if op = OpHDel then Some handleHDel
     else if op = OpHGetAll then Some handleHGetAll
     else if op = OpLPush then Some handleLPush
     else if op = OpLPop then Some handleLPop
     else if op = OpRPush then Some handleRPush
     else if op = OpRPop then Some handleRPop
     else if op = OpLLen then Some handleLLen
     else if op = OpSAdd then Some handleSAdd
     else if op = OpSRem then Some handleSRem
     else if op = OpSIsMember then Some handleSIsMember
     else if op = OpSMembers then Some handleSMembers
     else None)"

definition HandleFrame :: "call_env \<Rightarrow> ShardSet \<Rightarrow> Frame \<Rightarrow> bytes \<Rightarrow> nat \<Rightarrow> ((bool \<times> bytes \<times> observation list) \<times> ShardSet) option" where
  "HandleFrame env ss fr buf workerIdx =
    (if fr_Op fr \<noteq> OpScan \<and> fr_Op fr \<noteq> OpDelPrefix \<and> CacheIndexFor ss (fr_Key fr) \<noteq> workerIdx
     then Some ((True, EncodeResponse buf (fr_Op fr) 1 (fr_Key fr) [], []), ss)
     else case handlerOf (fr_Op fr) of
       None \<Rightarrow> Some ((False, buf, []), ss)
     | Some h \<Rightarrow> map_option (\<lambda>((out, obs), ss1). ((True, out, obs), ss1)) (h env ss fr buf))"

section \<open>Contract\<close>

definition set_ready :: "call_env \<Rightarrow> ShardSet \<Rightarrow> bool" where
  "set_ready env ss \<longleftrightarrow> set_ok ss \<and> env_ok env \<and> (\<forall>c. Some c \<in> set (shards ss) \<longrightarrow> si_room (sc_idx c))"

text \<open>Only shard \<open>i\<close> may have changed.\<close>

definition same_except :: "nat \<Rightarrow> ShardSet \<Rightarrow> ShardSet \<Rightarrow> bool" where
  "same_except i ss ss' \<longleftrightarrow> length (shards ss') = length (shards ss) \<and> set_closed ss' = set_closed ss \<and>
     (\<forall>j. j \<noteq> i \<longrightarrow> shards ss' ! j = shards ss ! j)"

lemma same_except_refl [simp]: "same_except i ss ss"
  by (simp add: same_except_def)

lemma set_ready_shard:
  assumes "set_ready env ss" "i < length (shards ss)"
  obtains c where "shards ss ! i = Some c" "ready env c" "shard_ok ss i c"
proof -
  obtain c where c: "shards ss ! i = Some c" "shard_ok ss i c"
    using set_okD(4) [of ss i] assms by (auto simp: set_ready_def dest: set_okD(4) [OF _ assms(2)])
  have "Some c \<in> set (shards ss)" using c(1) assms(2) by (metis nth_mem)
  then have "ready env c" using assms(1) c(2) by (simp add: set_ready_def ready_def shard_ok_def)
  then show ?thesis using that c by blast
qed

text \<open>One method of the shard that owns the key.\<close>

lemma set_call_step:
  assumes rdy: "set_ready env ss" and st: "\<And>c. sc_step env op c = map_option snd (f c)" and keys: "op_keys op \<subseteq> {key}"
  shows "(\<And>k v. op \<noteq> ORPush k v) \<Longrightarrow> set_call ss key f \<noteq> None"
    and "set_call ss key f = Some (r, ss1) \<Longrightarrow> set_ok ss1 \<and> same_except (CacheIndexFor ss key) ss ss1"
proof -
  let ?i = "CacheIndexFor ss key"
  have ok: "set_ok ss" using rdy by (simp add: set_ready_def)
  have i: "?i < length (shards ss)" using set_okD(3) [OF ok] .
  obtain c where c: "shards ss ! ?i = Some c" "ready env c" using set_ready_shard [OF rdy i] by blast
  have eq: "set_call ss key f = map_option (\<lambda>(r, c'). (r, ss\<lparr>shards := (shards ss)[?i := Some c']\<rparr>)) (f c)"
    using i c(1) by (auto simp: set_call_def set_on_def)
  show "(\<And>k v. op \<noteq> ORPush k v) \<Longrightarrow> set_call ss key f \<noteq> None"
    using step_ready(2) [OF c(2), of op] st [of c] eq by (cases "f c") auto
  show "set_ok ss1 \<and> same_except ?i ss ss1" if r: "set_call ss key f = Some (r, ss1)"
  proof -
    obtain c' where c': "f c = Some (r, c')" "ss1 = ss\<lparr>shards := (shards ss)[?i := Some c']\<rparr>" using r eq by auto
    have "kept (op_keys op) c c'" using step_ready(1) [OF c(2), of op] st [of c] c'(1) by simp
    then have "set_ok ss1" unfolding c'(2) by (rule set_ok_update [OF ok i c(1)]) (use keys in auto)
    then show ?thesis by (simp add: c'(2) same_except_def)
  qed
qed

text \<open>A handler's answer: one response to the request, and only the shard of the key has changed.\<close>

definition answered :: "u8 \<Rightarrow> bytes \<Rightarrow> nat \<Rightarrow> ShardSet \<Rightarrow> bytes \<Rightarrow> reply \<Rightarrow> bool" where
  "answered op key i ss buf res \<longleftrightarrow> (\<forall>out obs ss'. res = Some ((out, obs), ss') \<longrightarrow>
     (\<exists>st val. out = EncodeResponse buf op st key val \<and> (st = 0 \<or> st = 1)) \<and> set_ok ss' \<and> same_except i ss ss')"

lemma answered_now: "set_ok ss \<Longrightarrow> st = 0 \<or> st = 1 \<Longrightarrow> answered op key i ss buf (Some ((EncodeResponse buf op st key val, obs), ss))"
  by (auto simp: answered_def)

lemma answered_call:
  assumes rdy: "set_ready env ss" and st: "\<And>c. sc_step env op c = map_option snd (f c)" "op_keys op \<subseteq> {key}"
    and g: "\<And>r. \<exists>st val obs. g r = (EncodeResponse buf opc st key val, obs) \<and> (st = 0 \<or> st = 1)"
  shows "answered opc key (CacheIndexFor ss key) ss buf (do { (r, ss1) \<leftarrow> set_call ss key f; Some (g r, ss1) })"
    and "(\<And>k v. op \<noteq> ORPush k v) \<Longrightarrow> do { (r, ss1) \<leftarrow> set_call ss key f; Some (g r, ss1) } \<noteq> None"
proof -
  show "answered opc key (CacheIndexFor ss key) ss buf (do { (r, ss1) \<leftarrow> set_call ss key f; Some (g r, ss1) })"
    unfolding answered_def
  proof (intro allI impI)
    fix out obs ss' assume "do { (r, ss1) \<leftarrow> set_call ss key f; Some (g r, ss1) } = Some ((out, obs), ss')"
    then obtain r where r: "set_call ss key f = Some (r, ss')" "g r = (out, obs)" by (auto simp: bind_eq_Some_conv)
    then show "(\<exists>st val. out = EncodeResponse buf opc st key val \<and> (st = 0 \<or> st = 1)) \<and> set_ok ss' \<and> same_except (CacheIndexFor ss key) ss ss'"
      using set_call_step(2) [OF rdy st r(1)] g [of r] by auto
  qed
  show "(\<And>k v. op \<noteq> ORPush k v) \<Longrightarrow> do { (r, ss1) \<leftarrow> set_call ss key f; Some (g r, ss1) } \<noteq> None"
    using set_call_step(1) [OF rdy st] by (auto simp: bind_eq_None_conv)
qed

section \<open>The handlers\<close>

text \<open>A handler that answers and does not panic.\<close>

definition serves :: "u8 \<Rightarrow> bytes \<Rightarrow> nat \<Rightarrow> ShardSet \<Rightarrow> bytes \<Rightarrow> reply \<Rightarrow> bool" where
  "serves op key i ss buf res \<longleftrightarrow> answered op key i ss buf res \<and> res \<noteq> None"

lemma serves_call:
  assumes "set_ready env ss" "\<And>c. sc_step env op c = map_option snd (f c)" "op_keys op \<subseteq> {key}" "\<And>k v. op \<noteq> ORPush k v"
    "\<And>r. \<exists>st val obs. g r = (EncodeResponse buf opc st key val, obs) \<and> (st = 0 \<or> st = 1)"
  shows "serves opc key (CacheIndexFor ss key) ss buf (do { (r, ss1) \<leftarrow> set_call ss key f; Some (g r, ss1) })"
  unfolding serves_def by (intro conjI answered_call(1) [OF assms(1-3,5)] answered_call(2) [OF assms(1-3,5,4)])

lemma serves_now: "set_ok ss \<Longrightarrow> st = 0 \<or> st = 1 \<Longrightarrow> serves op key i ss buf (Some ((EncodeResponse buf op st key val, obs), ss))"
  by (simp add: serves_def answered_now)

lemma string_handlers:
  assumes rdy: "set_ready env ss" and i: "i = CacheIndexFor ss (fr_Key fr)"
  shows "serves OpGet (fr_Key fr) i ss buf (handleGet env ss fr buf)"
    "serves OpSet (fr_Key fr) i ss buf (handleSet env ss fr buf)"
    "serves OpSetEx (fr_Key fr) i ss buf (handleSetEx env ss fr buf)"
    "serves OpDel (fr_Key fr) i ss buf (handleDel env ss fr buf)"
proof -
  have ok: "set_ok ss" using rdy by (simp add: set_ready_def)
  note now = serves_now [OF ok, of 1, simplified]
  show "serves OpGet (fr_Key fr) i ss buf (handleGet env ss fr buf)"
    unfolding handleGet_def i by (rule serves_call [OF rdy, of "OGet (fr_Key fr)"]) (auto split: sum.splits)
  show "serves OpSet (fr_Key fr) i ss buf (handleSet env ss fr buf)"
    unfolding handleSet_def i by (rule serves_call [OF rdy, of "OSet (fr_Key fr) (fr_Value fr) 0"]) (auto split: sum.splits)
  show "serves OpSetEx (fr_Key fr) i ss buf (handleSetEx env ss fr buf)"
    unfolding handleSetEx_def i
    by (cases "length (fr_Value fr) < 4"; simp only: if_True if_False now;
      rule serves_call [OF rdy, of "OSet (fr_Key fr) (drop 4 (fr_Value fr)) (get_u32 (take 4 (fr_Value fr)))"]) (auto split: sum.splits)
  show "serves OpDel (fr_Key fr) i ss buf (handleDel env ss fr buf)"
    unfolding handleDel_def i by (rule serves_call [OF rdy, of "ODelete (fr_Key fr)"]) auto
qed

lemma cas_handlers:
  assumes rdy: "set_ready env ss" and i: "i = CacheIndexFor ss (fr_Key fr)"
  shows "serves OpCAS (fr_Key fr) i ss buf (handleCAS env ss fr buf)"
    "serves OpIncr (fr_Key fr) i ss buf (handleIncr env ss fr buf)"
proof -
  have ok: "set_ok ss" using rdy by (simp add: set_ready_def)
  note now = serves_now [OF ok, of 1, simplified]
  show "serves OpCAS (fr_Key fr) i ss buf (handleCAS env ss fr buf)"
  proof -
    let ?v = "fr_Value fr" and ?n = "unat (get_u32 (take 4 (fr_Value fr)))"
    consider "length ?v < 4" | "\<not> length ?v < 4" "4 + ?n > length ?v" | "\<not> length ?v < 4" "\<not> 4 + ?n > length ?v" by blast
    then show ?thesis
    proof cases
      case 3
      show ?thesis unfolding handleCAS_def i Let_def if_not_P [OF 3(1)] if_not_P [OF 3(2)]
        by (rule serves_call [OF rdy, of "OCAS (fr_Key fr) (slice ?v 4 (4 + ?n)) (drop (4 + ?n) ?v)"]) (auto split: sum.splits)
    qed (simp_all add: handleCAS_def now Let_def)
  qed
  show "serves OpIncr (fr_Key fr) i ss buf (handleIncr env ss fr buf)"
    unfolding handleIncr_def i
    by (cases "length (fr_Value fr) = 8"; simp only: if_True if_False now simp_thms;
      rule serves_call [OF rdy, of "OIncr (fr_Key fr) (get_u64 (fr_Value fr))"]) (auto split: sum.splits)
qed

lemma hash_handlers:
  assumes rdy: "set_ready env ss" and i: "i = CacheIndexFor ss (fr_Key fr)"
  shows "serves OpHSet (fr_Key fr) i ss buf (handleHSet env ss fr buf)"
    "serves OpHGet (fr_Key fr) i ss buf (handleHGet env ss fr buf)"
    "serves OpHDel (fr_Key fr) i ss buf (handleHDel env ss fr buf)"
    "serves OpHGetAll (fr_Key fr) i ss buf (handleHGetAll env ss fr buf)"
proof -
  have ok: "set_ok ss" using rdy by (simp add: set_ready_def)
  note now = serves_now [OF ok, of 1, simplified]
  show "serves OpHSet (fr_Key fr) i ss buf (handleHSet env ss fr buf)"
  proof -
    let ?v = "fr_Value fr" and ?n = "unat (get_u16 (take 2 (fr_Value fr)))"
    consider "length ?v < 2" | "\<not> length ?v < 2" "2 + ?n > length ?v" | "\<not> length ?v < 2" "\<not> 2 + ?n > length ?v" by blast
    then show ?thesis
    proof cases
      case 3
      show ?thesis unfolding handleHSet_def i Let_def if_not_P [OF 3(1)] if_not_P [OF 3(2)]
        by (rule serves_call [OF rdy, of "OHSet (fr_Key fr) (slice ?v 2 (2 + ?n)) (drop (2 + ?n) ?v)"]) (auto split: sum.splits)
    qed (simp_all add: handleHSet_def now Let_def)
  qed
  show "serves OpHGet (fr_Key fr) i ss buf (handleHGet env ss fr buf)"
    unfolding handleHGet_def i by (rule serves_call [OF rdy, of "OHGet (fr_Key fr) (fr_Value fr)"]) (auto split: sum.splits)
  show "serves OpHDel (fr_Key fr) i ss buf (handleHDel env ss fr buf)"
    unfolding handleHDel_def i by (rule serves_call [OF rdy, of "OHDel (fr_Key fr) (fr_Value fr)"]) auto
  show "serves OpHGetAll (fr_Key fr) i ss buf (handleHGetAll env ss fr buf)"
    unfolding handleHGetAll_def i by (rule serves_call [OF rdy, of "OHGetAll (fr_Key fr)"]) (auto split: sum.splits)
qed

lemma list_handlers:
  assumes rdy: "set_ready env ss" and i: "i = CacheIndexFor ss (fr_Key fr)"
  shows "serves OpLPush (fr_Key fr) i ss buf (handleLPush env ss fr buf)"
    "serves OpLPop (fr_Key fr) i ss buf (handleLPop env ss fr buf)"
    "answered OpRPush (fr_Key fr) i ss buf (handleRPush env ss fr buf)"
    "serves OpRPop (fr_Key fr) i ss buf (handleRPop env ss fr buf)"
    "serves OpLLen (fr_Key fr) i ss buf (handleLLen env ss fr buf)"
proof -
  show "serves OpLPush (fr_Key fr) i ss buf (handleLPush env ss fr buf)"
    unfolding handleLPush_def i by (rule serves_call [OF rdy, of "OLPush (fr_Key fr) (fr_Value fr)"]) (auto split: sum.splits)
  show "serves OpLPop (fr_Key fr) i ss buf (handleLPop env ss fr buf)"
    unfolding handleLPop_def i by (rule serves_call [OF rdy, of "OLPop (fr_Key fr)"]) (auto split: sum.splits)
  show "answered OpRPush (fr_Key fr) i ss buf (handleRPush env ss fr buf)"
    unfolding handleRPush_def i by (rule answered_call(1) [OF rdy, of "ORPush (fr_Key fr) (fr_Value fr)"]) (auto split: sum.splits)
  show "serves OpRPop (fr_Key fr) i ss buf (handleRPop env ss fr buf)"
    unfolding handleRPop_def i by (rule serves_call [OF rdy, of "ORPop (fr_Key fr)"]) (auto split: sum.splits)
  show "serves OpLLen (fr_Key fr) i ss buf (handleLLen env ss fr buf)"
    unfolding handleLLen_def i by (rule serves_call [OF rdy, of "OLLen (fr_Key fr)"]) (auto split: sum.splits)
qed

lemma set_handlers:
  assumes rdy: "set_ready env ss" and i: "i = CacheIndexFor ss (fr_Key fr)"
  shows "serves OpSAdd (fr_Key fr) i ss buf (handleSAdd env ss fr buf)"
    "serves OpSRem (fr_Key fr) i ss buf (handleSRem env ss fr buf)"
    "serves OpSIsMember (fr_Key fr) i ss buf (handleSIsMember env ss fr buf)"
    "serves OpSMembers (fr_Key fr) i ss buf (handleSMembers env ss fr buf)"
proof -
  show "serves OpSAdd (fr_Key fr) i ss buf (handleSAdd env ss fr buf)"
    unfolding handleSAdd_def i by (rule serves_call [OF rdy, of "OSAdd (fr_Key fr) (fr_Value fr)"]) (auto split: sum.splits)
  show "serves OpSRem (fr_Key fr) i ss buf (handleSRem env ss fr buf)"
    unfolding handleSRem_def i by (rule serves_call [OF rdy, of "OSRem (fr_Key fr) (fr_Value fr)"]) auto
  show "serves OpSIsMember (fr_Key fr) i ss buf (handleSIsMember env ss fr buf)"
    unfolding handleSIsMember_def i by (rule serves_call [OF rdy, of "OSIsMember (fr_Key fr) (fr_Value fr)"]) auto
  show "serves OpSMembers (fr_Key fr) i ss buf (handleSMembers env ss fr buf)"
    unfolding handleSMembers_def i by (rule serves_call [OF rdy, of "OSMembers (fr_Key fr)"]) (auto split: sum.splits)
qed

lemma set_Scan_same:
  assumes "set_ok ss"
  shows "\<exists>r. set_Scan env ss pfx cursor cnt = Some (r, ss)"
proof -
  have "\<exists>r. set_on ss i (\<lambda>c. sc_Scan env c pfx cur cnt) = Some (r, ss)" if i: "i < length (shards ss)" for i cur
  proof -
    obtain c where c: "shards ss ! i = Some c" using set_okD(4) [OF assms i] by blast
    then have "ss\<lparr>shards := (shards ss)[i := Some c]\<rparr> = ss" using i by (simp flip: c)
    then show ?thesis using c by (simp add: set_on_def sc_Scan_def)
  qed
  then show ?thesis using set_okD(1) [OF assms] by (auto simp: set_Scan_def Let_def not_le)
qed

lemma scan_handlers:
  assumes ok: "set_ok ss"
  shows "serves OpScan (fr_Key fr) i ss buf (handleScan env ss fr buf)"
    "\<exists>n obs ss'. handleDelPrefix env ss fr buf = Some ((EncodeResponse buf OpDelPrefix 0 (fr_Key fr) (put_u64 n), obs), ss') \<and> set_ok ss' \<and>
       length (shards ss') = length (shards ss)"
proof -
  obtain r where r: "set_Scan env ss (fr_Key fr) (get_u64 (take 8 (fr_Value fr))) (uint (get_u32 (slice (fr_Value fr) 8 12))) = Some (r, ss)"
    using set_Scan_same [OF ok] by blast
  show "serves OpScan (fr_Key fr) i ss buf (handleScan env ss fr buf)"
    using serves_now [OF ok] r by (cases r) (auto simp: handleScan_def)
  show "\<exists>n obs ss'. handleDelPrefix env ss fr buf = Some ((EncodeResponse buf OpDelPrefix 0 (fr_Key fr) (put_u64 n), obs), ss') \<and> set_ok ss' \<and>
       length (shards ss') = length (shards ss)"
    using delPrefix_from_ok [OF ok, of 0 "length (shards ss)" env "fr_Key fr" 0]
    by (auto simp: handleDelPrefix_def set_DelPrefix_def)
qed

lemma handlerOf_known: "handlerOf op = None \<longleftrightarrow> \<not> knownOp op"
  unfolding handlerOf_def knownOp_def by (simp split: if_split)

lemma serves_answered: "serves op key i ss buf res \<Longrightarrow> answered op key i ss buf res"
  by (simp add: serves_def)

lemma handlerOf_answers:
  assumes rdy: "set_ready env ss" and h: "handlerOf (fr_Op fr) = Some h" "fr_Op fr \<noteq> OpScan" "fr_Op fr \<noteq> OpDelPrefix"
  shows "answered (fr_Op fr) (fr_Key fr) (CacheIndexFor ss (fr_Key fr)) ss buf (h env ss fr buf)"
    "fr_Op fr \<noteq> OpRPush \<Longrightarrow> h env ss fr buf \<noteq> None"
proof -
  note all = string_handlers [OF rdy refl, of fr buf] cas_handlers [OF rdy refl, of fr buf] hash_handlers [OF rdy refl, of fr buf]
    list_handlers [OF rdy refl, of fr buf] set_handlers [OF rdy refl, of fr buf]
  have "serves (fr_Op fr) (fr_Key fr) (CacheIndexFor ss (fr_Key fr)) ss buf (h env ss fr buf) \<or>
      fr_Op fr = OpRPush \<and> answered (fr_Op fr) (fr_Key fr) (CacheIndexFor ss (fr_Key fr)) ss buf (h env ss fr buf)"
    using h all unfolding handlerOf_def by (simp split: if_splits; metis)
  then show "answered (fr_Op fr) (fr_Key fr) (CacheIndexFor ss (fr_Key fr)) ss buf (h env ss fr buf)"
    "fr_Op fr \<noteq> OpRPush \<Longrightarrow> h env ss fr buf \<noteq> None" by (auto simp: serves_def)
qed

lemma response_status:
  "EncodeResponse buf op st key val = EncodeResponse buf op' st' key' val' \<Longrightarrow> st = st'"
  by (simp add: EncodeResponse_def frameHeader_def put_u16_def le_bytes_def)

lemma set_call_shard:
  assumes "set_ok ss" "shards ss ! CacheIndexFor ss key = Some c"
  shows "set_call ss key f =
    map_option (\<lambda>(r, c'). (r, ss\<lparr>shards := (shards ss)[CacheIndexFor ss key := Some c']\<rparr>)) (f c)"
  using assms set_okD(1) [OF assms(1)] by (simp add: set_call_def set_on_def)

section \<open>Properties\<close>

lemma wset_ready: "set_ready wenv wset"
  using wset_ok wcache_new(2) by (auto simp: set_ready_def wset_def ready_def)



text \<open>
  C5. What a client stores it gets back over the protocol: after a \<^verbatim>\<open>SET\<close> that was answered with status 0, a
  \<^verbatim>\<open>GET\<close> of the key on the same worker is answered with status 0 and exactly the value, at any later time,
  through whatever compressor and cipher the shards have.
\<close>

theorem Server_set_then_get:
  assumes rdy: "set_ready env ss"
    and set: "HandleFrame env ss \<lparr>fr_Op = OpSet, fr_Key = key, fr_Value = val, fr_flags = fl\<rparr> buf w =
      Some ((True, EncodeResponse buf OpSet 0 key x, obs), ss1)"
  shows "\<exists>ss2. HandleFrame env' ss1 \<lparr>fr_Op = OpGet, fr_Key = key, fr_Value = y, fr_flags = fl'\<rparr> buf' w =
    Some ((True, EncodeResponse buf' OpGet 0 key val, [ObserveGet ''ok'']), ss2)"
proof -
  let ?f = "\<lparr>fr_Op = OpSet, fr_Key = key, fr_Value = val, fr_flags = fl\<rparr>" and ?i = "CacheIndexFor ss key"
  have hs: "handlerOf OpSet = Some handleSet" "handlerOf OpGet = Some handleGet" by (simp_all add: handlerOf_def op_defs)
  have w: "w = ?i" using set by (auto simp: HandleFrame_def op_defs dest!: response_status split: if_splits)
  have ok: "set_ok ss" using rdy by (simp add: set_ready_def)
  have i: "?i < length (shards ss)" using set_okD(3) [OF ok] .
  obtain c where c: "shards ss ! ?i = Some c" "ready env c" using set_ready_shard [OF rdy i] by blast
  obtain r c' where s: "sc_Set env c key val 0 = Some (r, c')" "set_post env key val 0 c r c'"
    using sc_Set_ok [OF readyD [OF c(2)]] by blast
  have "handleSet env ss ?f buf = Some ((EncodeResponse buf OpSet 0 key x, obs), ss1)"
    using set w hs by (auto simp: HandleFrame_def)
  then obtain v where r: "r = Inr v" and ss1: "ss1 = ss\<lparr>shards := (shards ss)[?i := Some c']\<rparr>"
    using s(1) set_call_shard [OF ok c(1), of "\<lambda>c. sc_Set env c key val 0"] by (cases r) (auto simp: handleSet_def dest!: response_status)
  have st: "stored_at c' key val 0" using s(2) r by (simp add: set_post_def expiryOf_def)
  then obtain h where h: "live_at env' c' key h 0" "reads c' h val" by (auto simp: stored_at_def live_at_def expired_def)
  have inv: "cache_inv c'" using s(2) by (simp add: set_post_def)
  obtain rg c2 where g: "sc_Get env' c' key = Some (map_sum id fst rg, c2)" "get_post env' c' key rg c2" using sc_Get_ok [OF inv] by blast
  have val: "rg = Inr (val, aliasOf c2 h)" using get_postD(6) [OF g(2) h] .
  have ix: "CacheIndexFor ss1 key = ?i" using CacheIndexFor_cong [of ss1 ss] by (simp add: ss1)
  have "kept {key} c c'" using s(2) by (simp add: set_post_def kept_def)
  then have "set_ok ss1" unfolding ss1 by (rule set_ok_update [OF ok i c(1)]) simp
  moreover have "shards ss1 ! CacheIndexFor ss1 key = Some c'" unfolding ix using i by (simp add: ss1)
  ultimately have "set_call ss1 key (\<lambda>c. sc_Get env' c key) = Some (Inr val, ss1\<lparr>shards := (shards ss1)[CacheIndexFor ss1 key := Some c2]\<rparr>)"
    using set_call_shard [of ss1 key c' "\<lambda>c. sc_Get env' c key"] g(1) val by simp
  then show ?thesis using w ix hs by (simp add: HandleFrame_def handleGet_def op_defs)
qed

lemma wset_SET:
  "HandleFrame wenv wset \<lparr>fr_Op = OpSet, fr_Key = [9], fr_Value = [1, 2, 3], fr_flags = 0\<rparr> [] (CacheIndexFor wset [9]) =
    Some ((True, EncodeResponse [] OpSet 0 [9] [], [ObserveSet ''ok'']), wset1)"
proof -
  have "set_call wset [9] (\<lambda>c. sc_Set wenv c [9] [1, 2, 3] 0) = Some (Inr [1, 2, 3], wset1)"
    using set_call_shard [OF wset_ok wset_at [OF set_okD(3) [OF wset_ok]], of "[9]" "\<lambda>c. sc_Set wenv c [9] [1, 2, 3] 0"] wcache1_ready(1)
    by (simp add: wset1_def)
  moreover have "handlerOf OpSet = Some handleSet" by (simp add: handlerOf_def op_defs)
  ultimately show ?thesis by (simp add: HandleFrame_def handleSet_def)
qed

theorem Server_set_then_get_witness:
  "\<exists>ss2. HandleFrame wenv wset1 \<lparr>fr_Op = OpGet, fr_Key = [9], fr_Value = [], fr_flags = 0\<rparr> [] (CacheIndexFor wset [9]) =
    Some ((True, EncodeResponse [] OpGet 0 [9] [1, 2, 3], [ObserveGet ''ok'']), ss2)"
  using Server_set_then_get [OF wset_ready wset_SET] by blast

end
