(* ===== verification/Worker_Pool.thy ===== *)
theory Worker_Pool
  imports Horreum_Prelude
begin

text \<open>
  \<^verbatim>\<open>internal/transport/shard_worker.go\<close>: one goroutine per shard that drains a bounded job queue.

  The state of a worker is its queue, the two shutdown flags, where its goroutine is in its loop, and the
  submitters that have passed the \<^verbatim>\<open>done\<close> test and are blocked in the \<^verbatim>\<open>select\<close>.  The step relation \<open>wstep\<close> has
  one rule per atomic action of a submitter, of the goroutine or of \<^verbatim>\<open>shutdown\<close>; where several cases of a
  \<^verbatim>\<open>select\<close> are ready, several rules apply.  The three logs at the end of the record only observe: the jobs
  submitted, what each \<^verbatim>\<open>submit\<close> returned, and each call \<^verbatim>\<open>Handle(canceled)\<close>.
\<close>

section \<open>Definitions\<close>

datatype phase = NotStarted | Serving | Draining | Exited

record 'j shardWorker =
  w_id :: int
  w_depth :: nat
  w_queue :: "'j list"
  w_done :: bool
  w_stop :: bool
  w_phase :: phase
  w_blocked :: "'j list"
  w_submitted :: "'j list"
  w_returned :: "('j \<times> bool) list"
  w_handled :: "('j \<times> bool) list"

definition newShardWorker :: "int \<Rightarrow> int \<Rightarrow> 'j shardWorker" where
  "newShardWorker i queueDepth = \<lparr>w_id = i, w_depth = (if queueDepth \<le> 0 then 4096 else nat queueDepth), w_queue = [],
     w_done = False, w_stop = False, w_phase = NotStarted, w_blocked = [], w_submitted = [], w_returned = [], w_handled = []\<rparr>"

text \<open>\<^verbatim>\<open>start\<close> is called once.\<close>

definition w_start :: "'j shardWorker \<Rightarrow> 'j shardWorker" where
  "w_start w = w\<lparr>w_phase := Serving\<rparr>"

definition closeJob :: "'j \<Rightarrow> 'j shardWorker \<Rightarrow> 'j shardWorker" where
  "closeJob j w = w\<lparr>w_handled := w_handled w @ [(j, True)]\<rparr>"

definition runJob :: "'j \<Rightarrow> 'j shardWorker \<Rightarrow> 'j shardWorker" where
  "runJob j w = w\<lparr>w_handled := w_handled w @ [(j, False)]\<rparr>"

definition returns :: "'j \<Rightarrow> bool \<Rightarrow> 'j shardWorker \<Rightarrow> 'j shardWorker" where
  "returns j b w = w\<lparr>w_returned := w_returned w @ [(j, b)]\<rparr>"

text \<open>\<^verbatim>\<open>submit\<close> up to the test of \<^verbatim>\<open>done\<close>, and the two cases of its \<^verbatim>\<open>select\<close>.\<close>

definition submit_test :: "'j \<Rightarrow> 'j shardWorker \<Rightarrow> 'j shardWorker" where
  "submit_test j w =
    (let w1 = w\<lparr>w_submitted := w_submitted w @ [j]\<rparr>
     in if w_done w then returns j False (closeJob j w1) else w1\<lparr>w_blocked := j # w_blocked w\<rparr>)"

definition submit_send :: "'j \<Rightarrow> 'j shardWorker \<Rightarrow> 'j shardWorker option" where
  "submit_send j w =
    (if j \<in> set (w_blocked w) \<and> length (w_queue w) < w_depth w
     then Some (returns j True (w\<lparr>w_blocked := remove1 j (w_blocked w), w_queue := w_queue w @ [j]\<rparr>)) else None)"

definition submit_stop :: "'j \<Rightarrow> 'j shardWorker \<Rightarrow> 'j shardWorker option" where
  "submit_stop j w =
    (if j \<in> set (w_blocked w) \<and> w_stop w
     then Some (returns j False (closeJob j (w\<lparr>w_blocked := remove1 j (w_blocked w)\<rparr>))) else None)"

text \<open>The loop of the goroutine: one action, chosen by what the \<^verbatim>\<open>select\<close> picks.\<close>

definition loop_job :: "'j shardWorker \<Rightarrow> 'j shardWorker option" where
  "loop_job w = (case w_queue w of
       j # q \<Rightarrow> if w_phase w = Serving then Some (runJob j (w\<lparr>w_queue := q\<rparr>)) else None
     | [] \<Rightarrow> None)"

definition loop_stop :: "'j shardWorker \<Rightarrow> 'j shardWorker option" where
  "loop_stop w = (if w_phase w = Serving \<and> w_stop w then Some (w\<lparr>w_phase := Draining\<rparr>) else None)"

definition loop_drain :: "'j shardWorker \<Rightarrow> 'j shardWorker option" where
  "loop_drain w =
    (if w_phase w = Draining
     then Some (case w_queue w of j # q \<Rightarrow> closeJob j (w\<lparr>w_queue := q\<rparr>) | [] \<Rightarrow> w\<lparr>w_phase := Exited\<rparr>) else None)"

text \<open>\<^verbatim>\<open>shutdown\<close>: the compare-and-swap, then \<^verbatim>\<open>close(w.stop)\<close>; waiting for the goroutine changes nothing.\<close>

definition shutdown_mark :: "'j shardWorker \<Rightarrow> 'j shardWorker option" where
  "shutdown_mark w = (if w_done w then None else Some (w\<lparr>w_done := True\<rparr>))"

definition shutdown_close :: "'j shardWorker \<Rightarrow> 'j shardWorker option" where
  "shutdown_close w = (if w_done w \<and> \<not> w_stop w then Some (w\<lparr>w_stop := True\<rparr>) else None)"

inductive wstep :: "'j shardWorker \<Rightarrow> 'j shardWorker \<Rightarrow> bool" where
  start: "w_phase w = NotStarted \<Longrightarrow> wstep w (w_start w)"
| test: "wstep w (submit_test j w)"
| send: "submit_send j w = Some w' \<Longrightarrow> wstep w w'"
| refuse: "submit_stop j w = Some w' \<Longrightarrow> wstep w w'"
| job: "loop_job w = Some w' \<Longrightarrow> wstep w w'"
| see_stop: "loop_stop w = Some w' \<Longrightarrow> wstep w w'"
| drain: "loop_drain w = Some w' \<Longrightarrow> wstep w w'"
| mark: "shutdown_mark w = Some w' \<Longrightarrow> wstep w w'"
| close: "shutdown_close w = Some w' \<Longrightarrow> wstep w w'"

inductive_cases wstepE: "wstep w w'"

text \<open>Everything a worker with this queue depth can ever get to.\<close>

inductive reachable :: "int \<Rightarrow> int \<Rightarrow> 'j shardWorker \<Rightarrow> bool" for i queueDepth where
  init: "reachable i queueDepth (newShardWorker i queueDepth)"
| step: "reachable i queueDepth w \<Longrightarrow> wstep w w' \<Longrightarrow> reachable i queueDepth w'"

subsection \<open>The pool\<close>

type_synonym 'j WorkerPool = "'j shardWorker list"

definition NewWorkerPool :: "nat \<Rightarrow> int \<Rightarrow> 'j WorkerPool" where
  "NewWorkerPool numWorkers queueDepth = map (\<lambda>i. newShardWorker (int i) queueDepth) [0..<numWorkers]"

definition pool_ShardCount :: "'j WorkerPool \<Rightarrow> nat" where
  "pool_ShardCount p = length p"

text \<open>\<^verbatim>\<open>Submit\<close>: an index out of range closes the job at once (\<open>Inl\<close>); otherwise the worker's \<^verbatim>\<open>submit\<close> begins.\<close>

definition pool_Submit :: "'j \<Rightarrow> int \<Rightarrow> 'j WorkerPool \<Rightarrow> ('j \<times> bool) + 'j WorkerPool" where
  "pool_Submit j shardIdx p =
    (if shardIdx < 0 \<or> shardIdx \<ge> int (length p) then Inl (j, True)
     else Inr (p[nat shardIdx := submit_test j (p ! nat shardIdx)]))"

definition pool_Start :: "'j WorkerPool \<Rightarrow> 'j WorkerPool" where
  "pool_Start p = map w_start p"

section \<open>The invariant\<close>

text \<open>
  Every submitted job is in exactly one place: handled, in the queue, or held by a blocked submitter.  The
  jobs \<^verbatim>\<open>submit\<close> accepted are those taken out of the queue, in order, followed by the queue.
\<close>

definition accepted :: "'j shardWorker \<Rightarrow> 'j list" where
  "accepted w = map fst (filter snd (w_returned w))"

definition ran :: "'j shardWorker \<Rightarrow> 'j list" where
  "ran w = map fst (filter (\<lambda>p. \<not> snd p) (w_handled w))"

definition placed :: "'j shardWorker \<Rightarrow> bool" where
  "placed w \<longleftrightarrow> mset (w_submitted w) = mset (map fst (w_handled w)) + mset (w_queue w) + mset (w_blocked w) \<and>
     mset (w_submitted w) = mset (map fst (w_returned w)) + mset (w_blocked w)"

definition w_inv :: "'j shardWorker \<Rightarrow> bool" where
  "w_inv w \<longleftrightarrow> placed w \<and> length (w_queue w) \<le> w_depth w \<and>
     (w_stop w \<longrightarrow> w_done w) \<and> (w_phase w = Draining \<or> w_phase w = Exited \<longrightarrow> w_stop w) \<and>
     (\<exists>closed. accepted w = ran w @ closed @ w_queue w \<and> (w_phase w = NotStarted \<or> w_phase w = Serving \<longrightarrow> closed = []))"

named_theorems step_defs

lemmas worker_defs [step_defs] = w_start_def closeJob_def runJob_def returns_def submit_test_def submit_send_def submit_stop_def
  loop_job_def loop_stop_def loop_drain_def shutdown_mark_def shutdown_close_def

lemma placed_step: "wstep w w' \<Longrightarrow> placed w \<Longrightarrow> placed w'"
  by (erule wstepE) (auto simp: placed_def step_defs Let_def split: if_splits list.splits)

lemma order_step:
  assumes "wstep w w'" "accepted w = ran w @ closed @ w_queue w" "w_phase w = NotStarted \<or> w_phase w = Serving \<longrightarrow> closed = []"
  shows "\<exists>closed. accepted w' = ran w' @ closed @ w_queue w' \<and> (w_phase w' = NotStarted \<or> w_phase w' = Serving \<longrightarrow> closed = [])"
  using assms
proof (cases rule: wstep.cases)
  case drain
  then show ?thesis
  proof (cases "w_queue w")
    case Nil
    then show ?thesis using drain assms(2) by (auto simp: accepted_def ran_def step_defs split: if_splits)
  next
    case (Cons j q)
    then show ?thesis using drain assms(2) by (intro exI [of _ "closed @ [j]"]) (auto simp: accepted_def ran_def step_defs split: if_splits)
  qed
qed (auto simp: accepted_def ran_def step_defs Let_def split: if_splits list.splits)

lemma flags_step:
  assumes "wstep w w'" "length (w_queue w) \<le> w_depth w" "w_stop w \<longrightarrow> w_done w" "w_phase w = Draining \<or> w_phase w = Exited \<longrightarrow> w_stop w"
  shows "length (w_queue w') \<le> w_depth w'" "w_stop w' \<longrightarrow> w_done w'" "w_phase w' = Draining \<or> w_phase w' = Exited \<longrightarrow> w_stop w'"
  using assms by (auto simp: step_defs Let_def split: if_splits list.splits elim!: wstepE)

lemma w_inv_step: "wstep w w' \<Longrightarrow> w_inv w \<Longrightarrow> w_inv w'"
  unfolding w_inv_def using placed_step [of w w'] order_step [of w w'] flags_step [of w w'] by blast

lemma reachable_inv: "reachable i d w \<Longrightarrow> w_inv w"
proof (induction rule: reachable.induct)
  case init
  then show ?case by (simp add: w_inv_def placed_def newShardWorker_def accepted_def ran_def)
next
  case (step w w')
  then show ?case using w_inv_step by blast
qed

section \<open>Shutdown\<close>

text \<open>Left to itself, a worker told to stop closes what is queued and exits.\<close>

lemma worker_exits:
  assumes "w_stop w" "w_phase w = Serving \<or> w_phase w = Draining"
  shows "\<exists>w'. wstep\<^sup>*\<^sup>* w w' \<and> w_phase w' = Exited \<and> w_queue w' = [] \<and> w_blocked w' = w_blocked w"
proof -
  have dr: "\<exists>w'. wstep\<^sup>*\<^sup>* w w' \<and> w_phase w' = Exited \<and> w_queue w' = [] \<and> w_blocked w' = w_blocked w" if "w_phase w = Draining" for w :: "'a shardWorker"
    using that
  proof (induction "w_queue w" arbitrary: w)
    case Nil
    then have "wstep w (w\<lparr>w_phase := Exited\<rparr>)" by (intro wstep.drain) (simp add: loop_drain_def split: list.splits)
    then show ?case using Nil by (intro exI [of _ "w\<lparr>w_phase := Exited\<rparr>"]) auto
  next
    case (Cons j q)
    let ?w = "closeJob j (w\<lparr>w_queue := q\<rparr>)"
    have s: "wstep w ?w" using Cons(3) by (intro wstep.drain) (simp add: loop_drain_def flip: Cons(2))
    have "w_queue ?w = q" "w_phase ?w = Draining" "w_blocked ?w = w_blocked w" using Cons(3) by (simp_all add: closeJob_def)
    then show ?case using Cons(1) [of ?w] converse_rtranclp_into_rtranclp [of wstep, OF s] by metis
  qed
  show ?thesis
  proof (cases "w_phase w = Draining")
    case False
    then have "wstep w (w\<lparr>w_phase := Draining\<rparr>)" using assms by (intro wstep.see_stop) (simp add: loop_stop_def)
    then show ?thesis using dr [of "w\<lparr>w_phase := Draining\<rparr>"] converse_rtranclp_into_rtranclp [of wstep] by fastforce
  qed (rule dr)
qed

text \<open>Once the goroutine has exited, the queue only grows.\<close>

lemma exited_step: "wstep w w' \<Longrightarrow> w_phase w = Exited \<Longrightarrow> w_phase w' = Exited \<and> (\<exists>q. w_queue w' = w_queue w @ q)"
  by (erule wstepE) (auto simp: step_defs Let_def split: if_splits list.splits)

lemma exited_steps: "wstep\<^sup>*\<^sup>* w w' \<Longrightarrow> w_phase w = Exited \<Longrightarrow> w_phase w' = Exited \<and> (\<exists>q. w_queue w' = w_queue w @ q)"
proof (induction rule: rtranclp_induct)
  case (step y z)
  then show ?case using exited_step [of y z] by auto
qed simp

text \<open>
  A submitter that passed the test of \<^verbatim>\<open>done\<close> before the shutdown may still find room in the queue after the
  goroutine has drained it and exited: \<^verbatim>\<open>submit\<close> returns true, and the job stays in the queue for ever.
\<close>

lemma submit_after_exit_strands_job:
  "\<exists>w. reachable 0 1 w \<and> w_returned w = [(j, True)] \<and> w_handled w = [] \<and> w_blocked w = [] \<and> w_phase w = Exited \<and>
     (\<forall>w'. wstep\<^sup>*\<^sup>* w w' \<longrightarrow> (\<exists>q. w_queue w' = j # q))"
proof -
  define w0 where "w0 = (newShardWorker 0 1 :: 'a shardWorker)"
  define w1 where "w1 = submit_test j (w_start w0)"
  define w2 where "w2 = w1\<lparr>w_done := True, w_stop := True, w_phase := Exited\<rparr>"
  define w3 where "w3 = returns j True (w2\<lparr>w_blocked := [], w_queue := [j]\<rparr>)"
  have "reachable 0 1 w0" by (simp add: w0_def reachable.init)
  then have "reachable 0 1 (w_start w0)" using reachable.step wstep.start [of w0] by (force simp: w0_def newShardWorker_def)
  then have r1: "reachable 0 1 w1" unfolding w1_def by (rule reachable.step) (rule wstep.test)
  have w1: "w_done w1 = False" "w_stop w1 = False" "w_phase w1 = Serving" "w_queue w1 = []" "w_blocked w1 = [j]" "w_depth w1 = 1"
    "w_returned w1 = []" "w_handled w1 = []"
    by (simp_all add: w1_def w0_def newShardWorker_def w_start_def submit_test_def Let_def)
  have "wstep w1 (w1\<lparr>w_done := True\<rparr>)" using w1 by (intro wstep.mark) (simp add: shutdown_mark_def)
  then have r2: "reachable 0 1 (w1\<lparr>w_done := True\<rparr>)" by (rule reachable.step [OF r1])
  have "wstep (w1\<lparr>w_done := True\<rparr>) (w1\<lparr>w_done := True, w_stop := True\<rparr>)"
    using w1 by (intro wstep.close) (simp add: shutdown_close_def)
  then have r3: "reachable 0 1 (w1\<lparr>w_done := True, w_stop := True\<rparr>)" by (rule reachable.step [OF r2])
  have "wstep (w1\<lparr>w_done := True, w_stop := True\<rparr>) (w1\<lparr>w_done := True, w_stop := True, w_phase := Draining\<rparr>)"
    using w1 by (intro wstep.see_stop) (simp add: loop_stop_def)
  then have r4: "reachable 0 1 (w1\<lparr>w_done := True, w_stop := True, w_phase := Draining\<rparr>)" by (rule reachable.step [OF r3])
  have "wstep (w1\<lparr>w_done := True, w_stop := True, w_phase := Draining\<rparr>) w2"
    using w1 by (intro wstep.drain) (simp add: loop_drain_def w2_def)
  then have r5: "reachable 0 1 w2" by (rule reachable.step [OF r4])
  have "wstep w2 w3" using w1 by (intro wstep.send [of j]) (simp add: submit_send_def w2_def w3_def)
  then have "reachable 0 1 w3" by (rule reachable.step [OF r5])
  moreover have w3: "w_phase w3 = Exited" "w_queue w3 = [j]" "w_returned w3 = [(j, True)]" "w_handled w3 = []" "w_blocked w3 = []"
    using w1 by (simp_all add: w3_def w2_def returns_def)
  moreover have "\<exists>q. w_queue w' = j # q" if "wstep\<^sup>*\<^sup>* w3 w'" for w' using exited_steps [OF that w3(1)] w3(2) by auto
  ultimately show ?thesis by blast
qed

section \<open>Properties\<close>

text \<open>
  C8. A shard worker handles no job twice and invents none: in every reachable state, under every interleaving
  of submitters, goroutine and shutdown, each job submitted so far has been handled once, or is in the queue,
  or its submitter is still blocked.  The queue never exceeds its depth; the jobs that ran are the first of
  the accepted ones, in the order \<^verbatim>\<open>submit\<close> accepted them; and once the goroutine has seen the stop signal no
  further job runs, whatever is left is only told that it was cancelled.
\<close>

theorem Worker_jobs_once:
  assumes "reachable i d w"
  shows "mset (w_submitted w) = mset (map fst (w_handled w)) + mset (w_queue w) + mset (w_blocked w) \<and>
    length (w_queue w) \<le> w_depth w \<and> (\<exists>rest. accepted w = ran w @ rest) \<and>
    (w_phase w = Draining \<or> w_phase w = Exited \<longrightarrow> (\<forall>w'. wstep w w' \<longrightarrow> ran w' = ran w))"
proof -
  have "ran w' = ran w" if "wstep w w'" "w_phase w = Draining \<or> w_phase w = Exited" for w'
    using that by (auto simp: ran_def step_defs Let_def split: if_splits list.splits elim!: wstepE)
  then show ?thesis using reachable_inv [OF assms] unfolding w_inv_def placed_def by blast
qed

theorem Worker_jobs_once_witness:
  "\<exists>w. reachable 0 1 w \<and> mset (w_submitted w) = {#7 :: nat#} \<and> w_queue w = [7] \<and> length (w_queue w) \<le> w_depth w"
proof -
  obtain w where w: "reachable 0 1 w" "w_returned w = [(7 :: nat, True)]" "w_handled w = []" "w_blocked w = []" "\<forall>w'. wstep\<^sup>*\<^sup>* w w' \<longrightarrow> (\<exists>q. w_queue w' = 7 # q)"
    using submit_after_exit_strands_job [of "7 :: nat"] by blast
  obtain q where q: "w_queue w = 7 # q" using w(5) by blast
  have "placed w" using reachable_inv [OF w(1)] by (simp add: w_inv_def)
  note pl = this [unfolded placed_def w(2) w(3) w(4) q]
  have "mset (w_submitted w) = mset (7 # q)" using conjunct1 [OF pl] by simp
  moreover have "mset (w_submitted w) = {#7#}" using conjunct2 [OF pl] by simp
  ultimately have "mset (7 # q) = {#7#}" by (rule trans [OF sym])
  then have "q = []" by simp
  then show ?thesis using Worker_jobs_once [OF w(1)] w(1,3,4) q by (intro exI [of _ w]) simp
qed

end
