(* ===== verification/Net_Server.thy ===== *)
theory Net_Server
  imports Handler Worker_Pool
begin

text \<open>
  \<^verbatim>\<open>internal/transport/tcp/server.go\<close> and \<^verbatim>\<open>internal/transport/quic/server.go\<close>: the loop that serves one connection (one
  stream in QUIC; the two loops are the same), and how a connection is pinned to a shard worker.

  The network is a list of turns: what a read returned, what became of the job the frames were submitted in,
  and whether the write succeeded.  The \<open>i\<close>th frame of the connection runs in the environment \<open>envs i\<close>.  The job
  reads the frames through the views the parser returned, from the memory \<^verbatim>\<open>Feed\<close> left behind.
\<close>

section \<open>Definitions\<close>

datatype read_error = REOF | RClosed | RTimeout | ROther

datatype job_fate = Ran | Canceled | Refused

record turn =
  tn_read :: "bytes \<times> read_error option"
  tn_job :: job_fate
  tn_written :: bool

record conn =
  cn_parser :: Parser
  cn_writeBuf :: bytes
  cn_sent :: bytes
  cn_frames :: nat

definition newConn :: conn where
  "newConn = \<lparr>cn_parser = NewParser, cn_writeBuf = [], cn_sent = [], cn_frames = 0\<rparr>"

text \<open>The job: all frames in order, up to the first that is not handled.\<close>

fun handleAll :: "(nat \<Rightarrow> call_env) \<Rightarrow> nat \<Rightarrow> nat \<Rightarrow> Frame list \<Rightarrow> ShardSet \<Rightarrow> bytes \<Rightarrow> ((bool \<times> bytes) \<times> ShardSet) option" where
  "handleAll envs workerIdx i [] ss buf = Some ((True, buf), ss)"
| "handleAll envs workerIdx i (fr # frs) ss buf = do {
     ((ok, out, _), ss1) \<leftarrow> HandleFrame (envs i) ss fr buf workerIdx;
     if ok then handleAll envs workerIdx (Suc i) frs ss1 out else Some ((False, out), ss1) }"

text \<open>One round of the loop; the first result says whether the loop goes on.  \<open>None\<close> is a panic in the worker.\<close>

definition serve_turn :: "(nat \<Rightarrow> nat \<Rightarrow> nat) \<Rightarrow> (nat \<Rightarrow> call_env) \<Rightarrow> nat \<Rightarrow> turn \<Rightarrow> conn \<Rightarrow> ShardSet \<Rightarrow> (bool \<times> conn \<times> ShardSet) option" where
  "serve_turn grow envs workerIdx tn cn ss =
    (case tn_read tn of (chunk, rerr) \<Rightarrow>
       if rerr \<noteq> None then Some (False, cn, ss)
       else if length chunk = 0 then Some (False, cn, ss)
       else case Feed grow (cn_parser cn) chunk of (frames, mem, perr, p) \<Rightarrow>
         let cn1 = cn\<lparr>cn_parser := p\<rparr> in
         if perr \<noteq> None then Some (False, cn1, ss)
         else if length frames = 0 then Some (True, cn1, ss)
         else case tn_job tn of
             Refused \<Rightarrow> Some (False, cn1, ss)
           | Canceled \<Rightarrow> Some (False, cn1, ss)
           | Ran \<Rightarrow> do {
               ((ok, out), ss1) \<leftarrow> handleAll envs workerIdx (cn_frames cn) (map (frameAt mem) frames) ss (cn_writeBuf cn);
               let cn2 = cn1\<lparr>cn_writeBuf := out, cn_frames := cn_frames cn + length frames\<rparr>
               in Some (if \<not> ok then (False, cn2, ss1)
                        else if length out > 0
                        then if tn_written tn then (True, cn2\<lparr>cn_sent := cn_sent cn @ out, cn_writeBuf := []\<rparr>, ss1) else (False, cn2, ss1)
                        else (True, cn2, ss1)) })"

text \<open>The loop, until it returns or until the next read blocks.\<close>

fun serve :: "(nat \<Rightarrow> nat \<Rightarrow> nat) \<Rightarrow> (nat \<Rightarrow> call_env) \<Rightarrow> nat \<Rightarrow> turn list \<Rightarrow> conn \<Rightarrow> ShardSet \<Rightarrow> (bool \<times> conn \<times> ShardSet) option" where
  "serve grow envs workerIdx [] cn ss = Some (True, cn, ss)"
| "serve grow envs workerIdx (tn # tns) cn ss = do {
     (goes_on, cn1, ss1) \<leftarrow> serve_turn grow envs workerIdx tn cn ss;
     if goes_on then serve grow envs workerIdx tns cn1 ss1 else Some (False, cn1, ss1) }"

text \<open>The loop of a QUIC stream is the loop of a TCP connection, statement by statement.\<close>

definition serveStream :: "(nat \<Rightarrow> nat \<Rightarrow> nat) \<Rightarrow> (nat \<Rightarrow> call_env) \<Rightarrow> nat \<Rightarrow> turn list \<Rightarrow> ShardSet \<Rightarrow> (bool \<times> conn \<times> ShardSet) option" where
  "serveStream grow envs workerIdx tns ss = serve grow envs workerIdx tns newConn ss"

subsection \<open>Pinning\<close>

text \<open>\<^verbatim>\<open>net.SplitHostPort\<close> on the local address, of which only the port is used.\<close>

definition SplitPort :: "string \<Rightarrow> string option" where
  "SplitPort hp = (case (SplitHost hp, lastIndex CHR '':'' hp) of (Some _, Some i) \<Rightarrow> Some (drop (i + 1) hp) | _ \<Rightarrow> None)"

text \<open>The worker of a TCP connection; the addresses are \<open>None\<close> when the connection has none.\<close>

definition shardIndexFor :: "string option \<Rightarrow> string option \<Rightarrow> int \<Rightarrow> nat" where
  "shardIndexFor remote loc numShards =
    (if numShards \<le> 0 then 0
     else case remote of
       None \<Rightarrow> 0
     | Some addr \<Rightarrow>
         let host = (case SplitHost addr of None \<Rightarrow> addr | Some h \<Rightarrow> h);
             h0 = foldl fnv_step fnv_offset (map of_char host);
             h1 = (case loc of
                     None \<Rightarrow> h0
                   | Some la \<Rightarrow> (case SplitPort la of None \<Rightarrow> h0 | Some port \<Rightarrow> foldl fnv_step h0 (map of_char port)))
         in unat (h1 mod word_of_int numShards))"

text \<open>The worker of a QUIC stream: the bytes of the stream number, lowest first, until it is zero.\<close>

function streamHash :: "u64 \<Rightarrow> u64 \<Rightarrow> u64" where
  "streamHash h i = (if i = 0 then h else streamHash ((h XOR (i AND 0xff)) * fnv_prime) (drop_bit 8 i))"
  by auto
termination
proof (relation "measure (\<lambda>(h, i). unat i)")
  fix h i :: u64 assume "i \<noteq> 0"
  then have "unat i \<noteq> 0" by (simp add: unat_eq_zero)
  then have "unat i div 2 ^ 8 < unat i" by simp
  then show "(((h XOR (i AND 0xff)) * fnv_prime, drop_bit 8 i), (h, i)) \<in> measure (\<lambda>(h, i). unat i)"
    by (simp add: drop_bit_eq_div unat_div)
qed simp

declare streamHash.simps [simp del]

definition shardIndexForStream :: "u64 \<Rightarrow> int \<Rightarrow> nat" where
  "shardIndexForStream streamID numShards =
    (if numShards \<le> 0 then 0 else unat (streamHash fnv_offset streamID mod word_of_int numShards))"

subsection \<open>Transports and the server\<close>

text \<open>
  The transport holds its workers and whether it listens; the router it was given is an argument of what it
  runs.  Whether the sockets can be opened is an argument too.  The expiry collector that \<^verbatim>\<open>NewTransport\<close>
  starts is \<^const>\<open>gc_tick\<close>.
\<close>

datatype server_error = ErrNoBackend | ErrListen | ErrCertRequired | ErrInvalidOptions | UnsupportedTransport string | ErrNoCert
  | ErrRouterRequired | ErrShards cache_error

record 'j Transport =
  tp_workers :: "'j WorkerPool"
  tp_listening :: bool
  tp_closed :: bool

definition transport_workers :: "ShardSet \<Rightarrow> 'j WorkerPool" where
  "transport_workers router =
    (let numShards = ShardCount router; numShards1 = (if numShards \<le> 0 then 8 else numShards)
     in pool_Start (NewWorkerPool numShards1 4096))"

definition tcp_NewTransport :: "bool \<Rightarrow> ShardSet option \<Rightarrow> server_error + 'j Transport" where
  "tcp_NewTransport listens router =
    (case router of
       None \<Rightarrow> Inl ErrNoBackend
     | Some ss \<Rightarrow>
         if \<not> listens then Inl ErrListen
         else Inr \<lparr>tp_workers = transport_workers ss, tp_listening = True, tp_closed = False\<rparr>)"

definition quic_NewTransport :: "bool \<Rightarrow> ShardSet option \<Rightarrow> 'c option \<Rightarrow> server_error + 'j Transport" where
  "quic_NewTransport listens router cert =
    (case router of
       None \<Rightarrow> Inl ErrNoBackend
     | Some ss \<Rightarrow>
         if cert = None then Inl ErrCertRequired
         else if \<not> listens then Inl ErrListen
         else Inr \<lparr>tp_workers = transport_workers ss, tp_listening = True, tp_closed = False\<rparr>)"

definition pool_Shutdown :: "'j WorkerPool \<Rightarrow> 'j WorkerPool" where
  "pool_Shutdown p = map (\<lambda>w. case shutdown_mark w of
       None \<Rightarrow> w
     | Some w1 \<Rightarrow> (case shutdown_close w1 of None \<Rightarrow> w1 | Some w2 \<Rightarrow> w2)) p"

definition tp_Shutdown :: "'j Transport \<Rightarrow> 'j Transport" where
  "tp_Shutdown t =
    (if tp_closed t then t
     else t\<lparr>tp_closed := True, tp_listening := False, tp_workers := pool_Shutdown (tp_workers t)\<rparr>)"

text \<open>
  The accept loop over what \<^verbatim>\<open>Accept\<close> returns, a connection with its two addresses or an error: the workers the
  connections are pinned to, and the error the loop returned, if it did.
\<close>

fun tcp_ListenAndServe :: "'j Transport \<Rightarrow> (string option \<times> string option) option list \<Rightarrow> nat list \<times> server_error option" where
  "tcp_ListenAndServe t [] = ([], None)"
| "tcp_ListenAndServe t (None # as) = ([], if tp_closed t then None else Some ErrListen)"
| "tcp_ListenAndServe t (Some (remote, loc) # as) =
    apfst ((#) (shardIndexFor remote loc (int (pool_ShardCount (tp_workers t))))) (tcp_ListenAndServe t as)"

text \<open>The streams of a QUIC connection, until \<^verbatim>\<open>AcceptStream\<close> fails.\<close>

fun quic_serveConn :: "'j Transport \<Rightarrow> u64 option list \<Rightarrow> nat list" where
  "quic_serveConn t [] = []"
| "quic_serveConn t (None # ss) = []"
| "quic_serveConn t (Some stream # ss) =
    shardIndexForStream stream (int (pool_ShardCount (tp_workers t))) # quic_serveConn t ss"

text \<open>
  Its accept loop, which goes on after a timeout: for each connection the workers of its streams, and the
  error the loop returned, if it did.
\<close>

datatype accepted = Conn "u64 option list" | AcceptTimeout | AcceptFailed

fun quic_ListenAndServe :: "'j Transport \<Rightarrow> accepted list \<Rightarrow> nat list list \<times> server_error option" where
  "quic_ListenAndServe t [] = ([], None)"
| "quic_ListenAndServe t (Conn streams # as) = apfst ((#) (quic_serveConn t streams)) (quic_ListenAndServe t as)"
| "quic_ListenAndServe t (AcceptTimeout # as) = (if tp_closed t then ([], None) else quic_ListenAndServe t as)"
| "quic_ListenAndServe t (AcceptFailed # as) = ([], if tp_closed t then None else Some ErrListen)"

record Options =
  op_Addr :: string
  op_TransportName :: string
  op_Router :: "ShardSet option"
  op_TLSCertFile :: string

type_synonym 'j registry = "string \<Rightarrow> (Options \<Rightarrow> server_error + 'j Transport) option"

definition RegisterTransport :: "string \<Rightarrow> (Options \<Rightarrow> server_error + 'j Transport) \<Rightarrow> 'j registry \<Rightarrow> 'j registry" where
  "RegisterTransport name factory reg = reg(name \<mapsto> factory)"

definition LookupTransport :: "'j registry \<Rightarrow> string \<Rightarrow> (Options \<Rightarrow> server_error + 'j Transport) option" where
  "LookupTransport reg name = reg name"

definition api_NewServer :: "'j registry \<Rightarrow> Options \<Rightarrow> server_error + 'j Transport" where
  "api_NewServer reg opts =
    (if op_Router opts = None then Inl ErrInvalidOptions
     else let opts1 = (if op_Addr opts = [] then opts\<lparr>op_Addr := ''127.0.0.1:0''\<rparr> else opts);
              opts2 = (if op_TransportName opts1 = [] then opts1\<lparr>op_TransportName := ''tcp''\<rparr> else opts1)
          in case LookupTransport reg (op_TransportName opts2) of
               None \<Rightarrow> Inl (UnsupportedTransport (op_TransportName opts2))
             | Some factory \<Rightarrow> factory opts2)"

text \<open>The factories the two transport packages register; \<open>listens\<close> says which addresses can be opened.\<close>

definition tcp_factory :: "(string \<Rightarrow> bool) \<Rightarrow> Options \<Rightarrow> server_error + 'j Transport" where
  "tcp_factory listens opts = tcp_NewTransport (listens (op_Addr opts)) (op_Router opts)"

definition RegisterCertificate :: "string \<Rightarrow> 'c option \<Rightarrow> (string \<Rightarrow> 'c option) \<Rightarrow> string \<Rightarrow> 'c option" where
  "RegisterCertificate path cert certs = certs(path := cert)"

definition quic_factory :: "(string \<Rightarrow> bool) \<Rightarrow> (string \<Rightarrow> 'c option) \<Rightarrow> Options \<Rightarrow> server_error + 'j Transport" where
  "quic_factory listens certs opts =
    (let cert = certs (op_TLSCertFile opts)
     in if cert = None then Inl ErrNoCert else quic_NewTransport (listens (op_Addr opts)) (op_Router opts) cert)"

definition transports :: "(string \<Rightarrow> bool) \<Rightarrow> (string \<Rightarrow> 'c option) \<Rightarrow> 'j registry" where
  "transports listens certs =
    RegisterTransport ''quic'' (quic_factory listens certs) (RegisterTransport ''tcp'' (tcp_factory listens) Map.empty)"

text \<open>The server, with the shards it owns (none when the caller supplied the router).\<close>

record 'j Server =
  sv_transport :: "'j Transport"
  sv_set :: "ShardSet option"

definition NewServer :: "'j registry \<Rightarrow> int \<Rightarrow> (nat \<Rightarrow> mmap_fn) \<Rightarrow> ShardConfig \<Rightarrow> Options \<Rightarrow> (server_error + 'j Server) option" where
  "NewServer reg numCPU mm cfg opts =
    (let cfg1 = (if cfg_NumShards cfg = 0 then cfg\<lparr>cfg_NumShards := DefaultShardCount numCPU\<rparr> else cfg)
     in do {
       r \<leftarrow> NewShardSet numCPU mm cfg1;
       Some (case r of
           Inl e \<Rightarrow> Inl (ErrShards e)
         | Inr ss \<Rightarrow> map_sum id (\<lambda>t. \<lparr>sv_transport = t, sv_set = Some ss\<rparr>) (api_NewServer reg (opts\<lparr>op_Router := Some ss\<rparr>))) })"

definition NewServerFromOpts :: "'j registry \<Rightarrow> Options \<Rightarrow> server_error + 'j Server" where
  "NewServerFromOpts reg opts =
    (if op_Router opts = None then Inl ErrRouterRequired
     else map_sum id (\<lambda>t. \<lparr>sv_transport = t, sv_set = None\<rparr>) (api_NewServer reg opts))"

definition sv_Shutdown :: "'j Server \<Rightarrow> 'j Server" where
  "sv_Shutdown s = s\<lparr>sv_transport := tp_Shutdown (sv_transport s), sv_set := map_option set_Close (sv_set s)\<rparr>"

section \<open>The response buffer\<close>

text \<open>A handler appends its response to the buffer and does not otherwise depend on it.\<close>

definition appends :: "(bytes \<Rightarrow> reply) \<Rightarrow> bool" where
  "appends f \<longleftrightarrow> (\<forall>buf. f buf = map_option (\<lambda>((out, obs), ss). ((buf @ out, obs), ss)) (f []))"

lemma appends_now: "appends (\<lambda>buf. Some ((EncodeResponse buf op st k v, obs), ss))"
  by (simp add: appends_def EncodeResponse_def)

lemma appends_bind:
  assumes "\<And>r buf. g buf r = (\<lambda>(out, obs). (buf @ out, obs)) (g [] r)"
  shows "appends (\<lambda>buf. do { (r, ss1) \<leftarrow> x; Some (g buf r, ss1) })"
  unfolding appends_def
proof
  fix buf
  show "do { (r, ss1) \<leftarrow> x; Some (g buf r, ss1) } = map_option (\<lambda>((out, obs), ss). ((buf @ out, obs), ss)) (do { (r, ss1) \<leftarrow> x; Some (g [] r, ss1) })"
  proof (cases x)
    case (Some a)
    then show ?thesis using assms [of buf "fst a"] by (cases a; cases "g [] (fst a)") simp
  qed simp
qed


lemma appends_if: "appends f \<Longrightarrow> appends g \<Longrightarrow> appends (\<lambda>buf. if b then f buf else g buf)"
  by (cases b) simp_all

lemmas handler_defs = handleGet_def [abs_def] handleSet_def [abs_def] handleSetEx_def [abs_def] handleDel_def [abs_def]
  handleCAS_def [abs_def] handleIncr_def [abs_def] handleScan_def [abs_def] handleDelPrefix_def [abs_def]
  handleHSet_def [abs_def] handleHGet_def [abs_def] handleHDel_def [abs_def] handleHGetAll_def [abs_def]
  handleLPush_def [abs_def] handleRPush_def [abs_def] handleLPop_def [abs_def] handleRPop_def [abs_def] handleLLen_def [abs_def]
  handleSAdd_def [abs_def] handleSRem_def [abs_def] handleSIsMember_def [abs_def] handleSMembers_def [abs_def]

lemma handler_appends:
  "appends (handleGet env ss fr)" "appends (handleSet env ss fr)" "appends (handleSetEx env ss fr)" "appends (handleDel env ss fr)"
  "appends (handleCAS env ss fr)" "appends (handleIncr env ss fr)" "appends (handleScan env ss fr)"
  "appends (handleHSet env ss fr)" "appends (handleHGet env ss fr)" "appends (handleHDel env ss fr)" "appends (handleHGetAll env ss fr)"
  "appends (handleLPush env ss fr)" "appends (handleRPush env ss fr)" "appends (handleLPop env ss fr)" "appends (handleRPop env ss fr)"
  "appends (handleLLen env ss fr)" "appends (handleSAdd env ss fr)" "appends (handleSRem env ss fr)" "appends (handleSIsMember env ss fr)"
  "appends (handleSMembers env ss fr)"
  unfolding handler_defs Let_def
  by (intro appends_if appends_now appends_bind; simp add: EncodeResponse_def split: sum.split prod.split)+

lemma handleDelPrefix_appends: "appends (handleDelPrefix env ss fr)"
  unfolding handleDelPrefix_def [abs_def] appends_def
  by (cases "set_DelPrefix env ss (fr_Key fr)") (auto simp: EncodeResponse_def split: option.split)

text \<open>So does \<^verbatim>\<open>HandleFrame\<close>, and with it the whole job.\<close>

lemma HandleFrame_appends:
  "HandleFrame env ss fr buf w = map_option (\<lambda>((ok, out, obs), ss). ((ok, buf @ out, obs), ss)) (HandleFrame env ss fr [] w)"
proof (cases "handlerOf (fr_Op fr)")
  case None
  then show ?thesis unfolding HandleFrame_def None by (simp add: EncodeResponse_def)
next
  case (Some h)
  have "h \<in> {handleGet, handleSet, handleSetEx, handleDel, handleCAS, handleIncr, handleScan, handleDelPrefix, handleHSet, handleHGet,
     handleHDel, handleHGetAll, handleLPush, handleRPush, handleLPop, handleRPop, handleLLen, handleSAdd, handleSRem, handleSIsMember,
     handleSMembers}" using Some by (auto simp: handlerOf_def split: if_splits)
  then have "appends (h env ss fr)" using handler_appends handleDelPrefix_appends by auto
  then have "h env ss fr buf = map_option (\<lambda>((out, obs), ss). ((buf @ out, obs), ss)) (h env ss fr [])" unfolding appends_def by blast
  then show ?thesis unfolding HandleFrame_def Some by (cases "h env ss fr []") (auto simp: EncodeResponse_def)
qed

lemma handleAll_appends:
  "handleAll envs w i frs ss buf = map_option (\<lambda>((ok, out), ss). ((ok, buf @ out), ss)) (handleAll envs w i frs ss [])"
proof (induction frs arbitrary: i ss buf)
  case (Cons fr frs)
  show ?case
  proof (cases "HandleFrame (envs i) ss fr [] w")
    case None
    then show ?thesis using HandleFrame_appends [of "envs i" ss fr buf w] by simp
  next
    case (Some a)
    obtain ok out obs ss1 where a: "a = ((ok, out, obs), ss1)" by (metis surj_pair)
    then have b: "HandleFrame (envs i) ss fr buf w = Some ((ok, buf @ out, obs), ss1)"
      using HandleFrame_appends [of "envs i" ss fr buf w] Some by simp
    have "handleAll envs w (Suc i) frs ss1 (buf @ out) = map_option (\<lambda>((ok, out), ss). ((ok, buf @ out), ss)) (handleAll envs w (Suc i) frs ss1 out)"
      using Cons.IH [of "Suc i" ss1 "buf @ out"] Cons.IH [of "Suc i" ss1 out]
      by (cases "handleAll envs w (Suc i) frs ss1 []") auto
    then show ?thesis using Some a b by simp
  qed
qed simp

lemma handleAll_split:
  "handleAll envs w i (frs @ frs') ss buf = do {
     ((ok, out), ss1) \<leftarrow> handleAll envs w i frs ss buf;
     if ok then handleAll envs w (i + length frs) frs' ss1 out else Some ((False, out), ss1) }"
proof (induction frs arbitrary: i ss buf)
  case (Cons fr frs)
  show ?case
  proof (cases "HandleFrame (envs i) ss fr buf w")
    case (Some a)
    obtain ok out obs ss1 where "a = ((ok, out, obs), ss1)" by (metis surj_pair)
    moreover have e: "i + length (fr # frs) = Suc i + length frs" by simp
    ultimately show ?thesis unfolding e append_Cons handleAll.simps using Some Cons.IH [of "Suc i" ss1 out] by (cases ok) simp_all
  qed simp
qed simp


lemma handleAll_known:
  assumes "\<forall>f \<in> set fs. knownOp (fr_Op f)" "handleAll envs w i fs ss buf = Some ((ok, out), ss')"
  shows ok
  using assms
proof (induction fs arbitrary: i ss buf)
  case (Cons f fs)
  obtain ok1 out1 obs ss1 where h: "HandleFrame (envs i) ss f buf w = Some ((ok1, out1, obs), ss1)"
    using Cons.prems(2) by (auto simp: bind_eq_Some_conv)
  then have "ok1" using Cons.prems(1) handlerOf_known [of "fr_Op f"] by (auto simp: HandleFrame_def split: if_splits option.splits)
  then show ?case using Cons h by auto
qed simp

section \<open>A connection\<close>

text \<open>No call of \<^verbatim>\<open>Feed\<close> returns frames with bytes pending both before and after it.\<close>

fun no_slide :: "(nat \<Rightarrow> nat \<Rightarrow> nat) \<Rightarrow> Parser \<Rightarrow> bytes list \<Rightarrow> bool" where
  "no_slide grow p [] = True"
| "no_slide grow p (c # cs) = (case Feed grow p c of (frames, mem, err, p') \<Rightarrow>
     (frames = [] \<or> pp_len p = 0 \<or> pp_len p' = 0) \<and> no_slide grow p' cs)"

text \<open>A turn in which nothing fails.\<close>

definition good_turn :: "bytes \<Rightarrow> turn" where
  "good_turn c = \<lparr>tn_read = (c, None), tn_job = Ran, tn_written = True\<rparr>"

lemma serve_turn_good:
  assumes "c \<noteq> []" "Feed grow (cn_parser cn) c = (frames, mem, None, p)" "map (frameAt mem) frames = fs" "cn_writeBuf cn = []"
  shows "handleAll envs w (cn_frames cn) fs ss [] = None \<Longrightarrow> serve_turn grow envs w (good_turn c) cn ss = None"
    "handleAll envs w (cn_frames cn) fs ss [] = Some ((True, out), ss1) \<Longrightarrow>
     \<exists>cn'. serve_turn grow envs w (good_turn c) cn ss = Some (True, cn', ss1) \<and> cn_parser cn' = p \<and> cn_writeBuf cn' = [] \<and>
       cn_frames cn' = cn_frames cn + length fs \<and> cn_sent cn' = cn_sent cn @ out"
  using assms by (auto simp: serve_turn_def good_turn_def Let_def)

text \<open>What the client and the shards see of a run.\<close>

definition seen :: "bool \<times> conn \<times> ShardSet \<Rightarrow> bool \<times> bytes \<times> bytes \<times> ShardSet" where
  "seen r = (case r of (goes_on, cn, ss) \<Rightarrow> (goes_on, cn_sent cn, pp_bytes (cn_parser cn), ss))"

lemma serve_stream:
  assumes "\<forall>f \<in> set fs. validFrame f" "pp_ok (cn_parser cn)" "parseIn (pp_bytes (cn_parser cn)) = Inl ErrShortBuffer"
    "pp_bytes (cn_parser cn) @ concat cs = concat (map encFrame fs)" "no_slide grow (cn_parser cn) cs" "[] \<notin> set cs" "cn_writeBuf cn = []"
  shows "map_option seen (serve grow envs w (map good_turn cs) cn ss) =
    map_option (\<lambda>((ok, out), ss'). (True, cn_sent cn @ out, [], ss')) (handleAll envs w (cn_frames cn) fs ss [])"
  using assms
proof (induction cs arbitrary: cn fs ss)
  case Nil
  have "fs = []"
  proof (rule ccontr)
    assume "fs \<noteq> []"
    then obtain f fs' where "fs = f # fs'" by (cases fs) auto
    then show False using Nil.prems(1,3,4) parseIn_enc [of f "concat (map encFrame fs')"] by simp
  qed
  then show ?case using Nil.prems by (simp add: seen_def)
next
  case (Cons c cs)
  let ?p = "cn_parser cn"
  have "(pp_bytes ?p @ c) @ concat cs = concat (map encFrame fs)" using Cons.prems(4) by simp
  from stream_prefix [OF Cons.prems(1) this]
  obtain fs1 fs2 tail where s: "fs = fs1 @ fs2" "pp_bytes ?p @ c = concat (map encFrame fs1) @ tail"
    "tail @ concat cs = concat (map encFrame fs2)" "parseIn tail = Inl ErrShortBuffer" by auto
  have v: "\<forall>f \<in> set fs1. validFrame f" "\<forall>f \<in> set fs2. validFrame f" using Cons.prems(1) s(1) by auto
  obtain offs where o: "parseAll (pp_bytes ?p @ c) 0 = (zip offs fs1, tail, None)" "length offs = length fs1"
    using parseAll_frames [OF v(1) s(4), of 0] s(2) by auto
  obtain mem p1 where f: "Feed grow ?p c = (zip offs fs1, mem, None, p1)" "pp_ok p1" "pp_bytes p1 = tail"
    using Feed_parse [OF Cons.prems(2) o(1)] by metis
  have n: "zip offs fs1 = [] \<or> pp_len ?p = 0 \<or> pp_len p1 = 0" "no_slide grow p1 cs" using Cons.prems(5) f(1) by auto
  have views: "map (frameAt mem) (zip offs fs1) = fs1"
    using n(1) Feed_views_valid [OF Cons.prems(2) f(1)] o(2) by (metis list.map_disc_iff map_snd_zip)
  have c: "c \<noteq> []" using Cons.prems(6) by auto
  note turn = serve_turn_good [OF c f(1) views Cons.prems(7), of envs w ss]
  show ?case
  proof (cases "handleAll envs w (cn_frames cn) fs1 ss []")
    case None
    then show ?thesis using turn(1) unfolding s(1) handleAll_split by simp
  next
    case (Some a)
    obtain ok out1 ss1 where a: "a = ((ok, out1), ss1)" by (metis surj_pair)
    have ok: ok using handleAll_known [of fs1] v(1) Some a by (auto simp: validFrame_def)
    obtain cn1 where c1: "serve_turn grow envs w (good_turn c) cn ss = Some (True, cn1, ss1)" "cn_parser cn1 = p1" "cn_writeBuf cn1 = []"
      "cn_frames cn1 = cn_frames cn + length fs1" "cn_sent cn1 = cn_sent cn @ out1" using turn(2) Some a ok by auto
    have "map_option seen (serve grow envs w (map good_turn cs) cn1 ss1) =
      map_option (\<lambda>((ok, out), ss'). (True, cn_sent cn1 @ out, [], ss')) (handleAll envs w (cn_frames cn1) fs2 ss1 [])"
      using Cons.IH [of fs2 cn1 ss1] v(2) f(2,3) s(3,4) n(2) Cons.prems(6) c1(2,3) by simp
    then show ?thesis using c1 Some a ok
      unfolding s(1) handleAll_split by (cases "handleAll envs w (cn_frames cn1) fs2 ss1 []") (auto simp: handleAll_appends [of envs w _ fs2 ss1 out1])
  qed
qed

section \<open>Routing\<close>

lemma mod_word_less: "0 < n \<Longrightarrow> n < 2 ^ 64 \<Longrightarrow> unat (h mod of_nat n :: u64) < n"
  by (simp add: unat_mod unat_of_nat_u64)

lemma pinned_less:
  assumes "0 < n" "n < 2 ^ 64"
  shows "shardIndexFor remote loc (int n) < n" "shardIndexForStream sid (int n) < n"
proof -
  have w: "word_of_int (int n) = (of_nat n :: u64)" by simp
  show "shardIndexFor remote loc (int n) < n"
    using assms mod_word_less [OF assms] unfolding shardIndexFor_def w Let_def by (auto split: option.split)
  show "shardIndexForStream sid (int n) < n" using assms mod_word_less [OF assms] unfolding shardIndexForStream_def w by auto
qed

lemma workers_count: "pool_ShardCount (transport_workers ss) = (if shards ss = [] then 8 else length (shards ss))"
  by (simp add: transport_workers_def pool_ShardCount_def pool_Start_def NewWorkerPool_def ShardCount_def Let_def)

lemma map_sum_Inr: "map_sum f g x = Inr y \<Longrightarrow> \<exists>z. x = Inr z \<and> y = g z"
  by (cases x) auto

lemma transports_workers:
  assumes "api_NewServer (transports listens certs) opts = Inr t" "op_Router opts = Some ss"
  shows "tp_workers t = transport_workers ss \<and> tp_listening t \<and> \<not> tp_closed t"
  using assms
  by (auto simp: api_NewServer_def Let_def LookupTransport_def transports_def RegisterTransport_def tcp_factory_def quic_factory_def
      tcp_NewTransport_def quic_NewTransport_def split: if_splits option.splits)

text \<open>
  Two connections of one client to one server address are pinned to the same worker, whatever their ports; so
  the client cannot reach the keys of another shard by opening a further connection.
\<close>

lemma one_client_one_worker:
  assumes "set host \<inter> {CHR '':'', CHR ''['', CHR '']''} = {}" "set port \<inter> {CHR '':'', CHR ''['', CHR '']''} = {}"
    "set port' \<inter> {CHR '':'', CHR ''['', CHR '']''} = {}"
  shows "shardIndexFor (Some (host @ CHR '':'' # port)) loc n = shardIndexFor (Some (host @ CHR '':'' # port')) loc n"
  using SplitHost_plain [OF assms(1,2)] SplitHost_plain [OF assms(1,3)] by (simp add: shardIndexFor_def)

lemma foreign_key_refused:
  assumes "CacheIndexFor ss (fr_Key fr) \<noteq> w" "fr_Op fr \<noteq> OpScan" "fr_Op fr \<noteq> OpDelPrefix"
  shows "handleAll envs w i [fr] ss buf = Some ((True, EncodeResponse buf (fr_Op fr) 1 (fr_Key fr) []), ss)"
  using assms by (simp add: HandleFrame_def)

section \<open>Properties\<close>

text \<open>
  C6. A connection, or a QUIC stream, is a stream of requests.  However the network cuts the bytes of a list of request frames into
  non-empty reads, as long as no read both completes a frame begun before it and begins a further one, the
  server runs the requests one after the other, in order, on the shards, and sends exactly their responses
  in that order; nothing stays buffered, and the loop goes on reading.  It is stuck exactly when one of the
  requests makes the worker panic.
\<close>

theorem Server_stream_in_order:
  assumes "\<forall>f \<in> set fs. validFrame f" "concat chunks = concat (map encFrame fs)" "[] \<notin> set chunks" "no_slide grow NewParser chunks"
  shows "map_option seen (serve grow envs w (map good_turn chunks) newConn ss) =
      map_option (\<lambda>((ok, out), ss'). (True, out, [], ss')) (handleAll envs w 0 fs ss []) \<and>
    map_option seen (serveStream grow envs w (map good_turn chunks) ss) =
      map_option (\<lambda>((ok, out), ss'). (True, out, [], ss')) (handleAll envs w 0 fs ss [])"
proof -
  have "parseIn [] = Inl ErrShortBuffer" by (simp add: parseIn_def headerSize_def)
  then show ?thesis
    using serve_stream [OF assms(1), of newConn chunks grow envs w ss] assms(2-4)
    by (simp add: serveStream_def newConn_def NewParser_def pp_ok_def pp_bytes_def)
qed

theorem Server_stream_in_order_witness:
  "map_option seen (serve (\<lambda>_ n. n) (\<lambda>_. wenv) 5 (map good_turn [take 5 (EncodeRequest [] OpGet [7] []), drop 5 (EncodeRequest [] OpGet [7] [])])
     newConn wset) = Some (True, EncodeResponse [] OpGet 1 [7] [], [], wset)"
proof -
  let ?f = "\<lparr>fr_Op = OpGet, fr_Key = [7], fr_Value = [], fr_flags = 0\<rparr>"
  let ?cs = "[take 5 (EncodeRequest [] OpGet [7] []), drop 5 (EncodeRequest [] OpGet [7] [])]"
  have v: "\<forall>f \<in> set [?f]. validFrame f" by (simp add: validFrame_def frameLen_def headerSize_def maxFrameSize_def knownOp_def)
  have c: "concat ?cs = concat (map encFrame [?f])" by (simp add: EncodeRequest_def encFrame_def)
  have n: "no_slide (\<lambda>_ n. n) NewParser ?cs \<and> [] \<notin> set ?cs" by code_simp
  have "length (shards wset) = 2" by (simp add: wset_def)
  then have "CacheIndexFor wset [7] < 2" using mod_word_less [of 2 "hashKey [7]"] by (simp add: CacheIndexFor_def)
  then have "handleAll (\<lambda>_. wenv) 5 0 [?f] wset [] = Some ((True, EncodeResponse [] OpGet 1 [7] []), wset)"
    using foreign_key_refused [of wset ?f 5 "\<lambda>_. wenv" 0 "[]"] by (simp add: OpGet_def OpScan_def OpDelPrefix_def)
  then show ?thesis using Server_stream_in_order [OF v c, of "\<lambda>_ n. n" "\<lambda>_. wenv" 5 wset] n by simp
qed

text \<open>
  C38. Routing never leaves the workers.  In a server that starts, over TCP or QUIC, there is a worker for the
  shard of every key, every connection and every stream is pinned to an existing worker, and a job submitted
  there is not rejected for its index.
\<close>

theorem Server_routing_in_range:
  assumes "NewServerFromOpts (transports listens certs) opts = Inr sv" "op_Router opts = Some ss" "length (shards ss) < 2 ^ 64"
  shows "CacheIndexFor ss key < pool_ShardCount (tp_workers (sv_transport sv)) \<and>
    (\<forall>i \<in> set (fst (tcp_ListenAndServe (sv_transport sv) conns)) \<union> set (concat (fst (quic_ListenAndServe (sv_transport sv) as))).
       i < pool_ShardCount (tp_workers (sv_transport sv)) \<and> \<not> isl (pool_Submit j (int i) (tp_workers (sv_transport sv))))"
proof -
  let ?p = "tp_workers (sv_transport sv)"
  obtain t where t: "api_NewServer (transports listens certs) opts = Inr t" "sv_transport sv = t"
    using assms(1,2) by (auto simp: NewServerFromOpts_def dest!: map_sum_Inr)
  then have p: "?p = transport_workers ss" using transports_workers [OF t(1) assms(2)] by simp
  have n: "0 < pool_ShardCount ?p" "pool_ShardCount ?p < 2 ^ 64" using assms(3) by (auto simp: p workers_count)
  have k: "CacheIndexFor ss key < pool_ShardCount ?p"
    using mod_word_less [of "length (shards ss)" "hashKey key"] assms(3) by (auto simp: p workers_count CacheIndexFor_def)
  have c: "i < pool_ShardCount ?p" if "i \<in> set (fst (tcp_ListenAndServe (sv_transport sv) conns))" for i
    using that pinned_less(1) [OF n] by (induction "sv_transport sv" conns rule: tcp_ListenAndServe.induct) auto
  have q: "i < pool_ShardCount ?p" if "i \<in> set (quic_serveConn (sv_transport sv) streams)" for i streams
    using that pinned_less(2) [OF n] by (induction "sv_transport sv" streams rule: quic_serveConn.induct) auto
  have l: "i < pool_ShardCount ?p" if "i \<in> set (concat (fst (quic_ListenAndServe (sv_transport sv) as)))" for i
    using that by (induction "sv_transport sv" as rule: quic_ListenAndServe.induct) (auto split: if_splits dest: q)
  have "\<not> isl (pool_Submit j (int i) ?p)" if "i < pool_ShardCount ?p" for i
    using that by (simp add: pool_Submit_def pool_ShardCount_def)
  then show ?thesis using k c l by blast
qed

theorem Server_routing_in_range_witness:
  "\<exists>sv. NewServerFromOpts (transports (\<lambda>_. True) (\<lambda>_. None :: unit option))
       \<lparr>op_Addr = [], op_TransportName = [], op_Router = Some wset, op_TLSCertFile = []\<rparr> = Inr sv \<and>
     CacheIndexFor wset [7] < pool_ShardCount (tp_workers (sv_transport sv) :: nat WorkerPool)"
proof -
  let ?o = "\<lparr>op_Addr = [], op_TransportName = [], op_Router = Some wset, op_TLSCertFile = []\<rparr>"
  obtain sv :: "nat Server" where s: "NewServerFromOpts (transports (\<lambda>_. True) (\<lambda>_. None :: unit option)) ?o = Inr sv"
    by (simp add: NewServerFromOpts_def api_NewServer_def transports_def LookupTransport_def RegisterTransport_def tcp_factory_def
        tcp_NewTransport_def)
  have "length (shards wset) < 2 ^ 64" by (simp add: wset_def)
  then show ?thesis using s Server_routing_in_range [OF s, of wset "[7]"] by auto
qed

end
