(* ===== verification/Hash_Index.thy ===== *)
theory Hash_Index
  imports Shard_Index
begin

text \<open>
  \<^verbatim>\<open>internal/index/index.go\<close>: the \<^verbatim>\<open>HashIndex\<close> the persistence layer rebuilds on a restart.  A key argument
  is a Go slice that may be nil, hence \<open>bytes option\<close>: \<^verbatim>\<open>Put\<close> copies the key of a new entry but stores the
  caller's slice on an update, and \<^verbatim>\<open>Add\<close> always does, so a nil key can end up in a slot (the slot then
  reads as free).

  \<open>toShard\<close> forgets the stored hash and key length; on tables whose stored hashes are right, and for keys
  that are not nil, every operation commutes with it, so the theory of \<open>Shard_Index\<close> carries over.
\<close>

section \<open>Definitions\<close>

record Entry =
  en_Hash :: u64
  en_KeyLen :: u16
  en_Handle :: Handle
  en_ExpiresAt :: u32

record HashIndex =
  hi_buckets :: "Entry list"
  hi_keys :: "bytes option list"
  hi_count :: int
  hi_mask :: u64
  hi_scanCursor :: u64

definition zeroEntry :: Entry where
  "zeroEntry = \<lparr>en_Hash = 0, en_KeyLen = 0, en_Handle = zeroHandle, en_ExpiresAt = 0\<rparr>"

definition fnv64 :: "bytes \<Rightarrow> u64" where
  "fnv64 key = foldl (\<lambda>h b. (h XOR ucast b) * 1099511628211) 14695981039346656037 key"

definition bytesEqual :: "bytes \<Rightarrow> bytes \<Rightarrow> bool" where
  "bytesEqual a b \<longleftrightarrow> (if length a \<noteq> length b then False else list_all (\<lambda>i. a ! i = b ! i) [0..<length a])"

definition nextPowerOfTwo :: "u64 \<Rightarrow> u64" where
  "nextPowerOfTwo n =
    (if n = 0 then 1
     else let n0 = n - 1;
              n1 = n0 OR drop_bit 1 n0;
              n2 = n1 OR drop_bit 2 n1;
              n3 = n2 OR drop_bit 4 n2;
              n4 = n3 OR drop_bit 8 n3;
              n5 = n4 OR drop_bit 16 n4;
              n6 = n5 OR drop_bit 32 n5
          in n6 + 1)"

definition hi_make :: "u64 \<Rightarrow> HashIndex" where
  "hi_make cp = \<lparr>hi_buckets = replicate (unat cp) zeroEntry, hi_keys = replicate (unat cp) None,
     hi_count = 0, hi_mask = cp - 1, hi_scanCursor = 0\<rparr>"

definition hi_New :: "int \<Rightarrow> HashIndex" where
  "hi_New initialBuckets = hi_make (nextPowerOfTwo (word_of_int initialBuckets))"

definition NewForCount :: "int \<Rightarrow> HashIndex" where
  "NewForCount n =
    (let cp = nextPowerOfTwo (word_of_int n * 2) in hi_make (if cp < 8 then 8 else cp))"

text \<open>The bytes of a slice, nil or not.\<close>

definition keyBytes :: "bytes option \<Rightarrow> bytes" where
  "keyBytes key = (case key of None \<Rightarrow> [] | Some k \<Rightarrow> k)"

definition hi_hit :: "HashIndex \<Rightarrow> bytes \<Rightarrow> nat \<Rightarrow> bool" where
  "hi_hit h key i \<longleftrightarrow>
    (case hi_keys h ! i of
       None \<Rightarrow> True
     | Some k \<Rightarrow> en_Hash (hi_buckets h ! i) = fnv64 key \<and> en_KeyLen (hi_buckets h ! i) = of_nat (length key) \<and>
         bytesEqual k key)"

definition hi_probe :: "HashIndex \<Rightarrow> bytes \<Rightarrow> u64 option" where
  "hi_probe h key = probe (hi_hit h key) (hi_mask h) (fnv64 key AND hi_mask h)"

definition hi_insert :: "HashIndex \<Rightarrow> bytes option \<Rightarrow> Handle \<Rightarrow> u32 \<Rightarrow> (bool \<times> HashIndex) option" where
  "hi_insert h key hdl expires = do {
     w \<leftarrow> hi_probe h (keyBytes key);
     let i = unat w;
     case hi_keys h ! i of
       None \<Rightarrow> Some (False,
         h\<lparr>hi_buckets := (hi_buckets h)[i := \<lparr>en_Hash = fnv64 (keyBytes key),
             en_KeyLen = of_nat (length (keyBytes key)), en_Handle = hdl, en_ExpiresAt = expires\<rparr>],
           hi_keys := (hi_keys h)[i := Some (keyBytes key)], hi_count := hi_count h + 1\<rparr>)
     | Some _ \<Rightarrow> Some (True,
         h\<lparr>hi_buckets := (hi_buckets h)[i := (hi_buckets h ! i)\<lparr>en_Handle := hdl, en_ExpiresAt := expires\<rparr>],
           hi_keys := (hi_keys h)[i := key]\<rparr>) }"

fun hi_rehash ::
  "(HashIndex \<Rightarrow> bytes option \<Rightarrow> Handle \<Rightarrow> u32 \<Rightarrow> (bool \<times> HashIndex) option) \<Rightarrow>
   HashIndex \<Rightarrow> HashIndex \<Rightarrow> nat list \<Rightarrow> HashIndex option" where
  "hi_rehash putf old h [] = Some h"
| "hi_rehash putf old h (i # is) =
    (case hi_keys old ! i of
       None \<Rightarrow> hi_rehash putf old h is
     | Some k \<Rightarrow> do {
         (_, h') \<leftarrow> putf h (Some k) (en_Handle (hi_buckets old ! i)) (en_ExpiresAt (hi_buckets old ! i));
         hi_rehash putf old h' is })"

definition hi_growWith ::
  "(HashIndex \<Rightarrow> bytes option \<Rightarrow> Handle \<Rightarrow> u32 \<Rightarrow> (bool \<times> HashIndex) option) \<Rightarrow> HashIndex \<Rightarrow> HashIndex option" where
  "hi_growWith putf h =
    hi_rehash putf h (hi_make (of_nat (length (hi_buckets h)) * 2)) [0..<length (hi_buckets h)]"

fun hi_putN :: "nat \<Rightarrow> HashIndex \<Rightarrow> bytes option \<Rightarrow> Handle \<Rightarrow> u32 \<Rightarrow> (bool \<times> HashIndex) option" where
  "hi_putN 0 h key hdl expires = None"
| "hi_putN (Suc d) h key hdl expires = do {
     h1 \<leftarrow> if hi_count h * 4 \<ge> int (length (hi_buckets h)) * 3 then hi_growWith (hi_putN d) h else Some h;
     hi_insert h1 key hdl expires }"

definition hi_Put :: "HashIndex \<Rightarrow> bytes option \<Rightarrow> Handle \<Rightarrow> u32 \<Rightarrow> (bool \<times> HashIndex) option" where
  "hi_Put = hi_putN 2"

definition hi_Get :: "HashIndex \<Rightarrow> bytes option \<Rightarrow> u32 \<Rightarrow> (Handle \<times> bool) option" where
  "hi_Get h key now = do {
     w \<leftarrow> hi_probe h (keyBytes key);
     let i = unat w;
     case hi_keys h ! i of
       None \<Rightarrow> Some (zeroHandle, False)
     | Some _ \<Rightarrow>
         if en_ExpiresAt (hi_buckets h ! i) \<noteq> 0 \<and> now \<ge> en_ExpiresAt (hi_buckets h ! i)
         then Some (zeroHandle, False)
         else Some (en_Handle (hi_buckets h ! i), True) }"

definition hi_clear :: "HashIndex \<Rightarrow> nat \<Rightarrow> HashIndex" where
  "hi_clear h i = h\<lparr>hi_keys := (hi_keys h)[i := None], hi_buckets := (hi_buckets h)[i := zeroEntry]\<rparr>"

definition hi_move :: "HashIndex \<Rightarrow> nat \<Rightarrow> nat \<Rightarrow> HashIndex" where
  "hi_move h gap cur = hi_clear (h\<lparr>hi_keys := (hi_keys h)[gap := hi_keys h ! cur],
     hi_buckets := (hi_buckets h)[gap := hi_buckets h ! cur]\<rparr>) cur"

definition hi_hashAt :: "HashIndex \<Rightarrow> nat \<Rightarrow> u64 option" where
  "hi_hashAt h i = map_option (\<lambda>_. en_Hash (hi_buckets h ! i)) (hi_keys h ! i)"

definition hi_deleteAt :: "HashIndex \<Rightarrow> u64 \<Rightarrow> HashIndex option" where
  "hi_deleteAt h i =
    backshift hi_hashAt hi_move (hi_mask h) ((hi_clear h (unat i))\<lparr>hi_count := hi_count h - 1\<rparr>)
      i ((i + 1) AND hi_mask h)"

definition hi_Delete :: "HashIndex \<Rightarrow> bytes option \<Rightarrow> ((Handle \<times> bool) \<times> HashIndex) option" where
  "hi_Delete h key = do {
     i \<leftarrow> hi_probe h (keyBytes key);
     case hi_keys h ! unat i of
       None \<Rightarrow> Some ((zeroHandle, False), h)
     | Some _ \<Rightarrow> do { h' \<leftarrow> hi_deleteAt h i; Some ((en_Handle (hi_buckets h ! unat i), True), h') } }"

definition hi_Snapshot :: "HashIndex \<Rightarrow> (Entry \<times> bytes) list" where
  "hi_Snapshot h =
    (if hi_count h = 0 \<or> hi_buckets h = [] then []
     else List.map_filter (\<lambda>i. map_option (\<lambda>k. (hi_buckets h ! i, k)) (hi_keys h ! i)) [0..<length (hi_buckets h)])"

definition hi_Add :: "HashIndex \<Rightarrow> bytes option \<Rightarrow> Handle \<Rightarrow> u32 \<Rightarrow> (bool \<times> HashIndex) option" where
  "hi_Add h key hdl expires = do {
     w \<leftarrow> hi_probe h (keyBytes key);
     let i = unat w;
     case hi_keys h ! i of
       None \<Rightarrow> Some (True,
         h\<lparr>hi_buckets := (hi_buckets h)[i := \<lparr>en_Hash = fnv64 (keyBytes key),
             en_KeyLen = of_nat (length (keyBytes key)), en_Handle = hdl, en_ExpiresAt = expires\<rparr>],
           hi_keys := (hi_keys h)[i := key], hi_count := hi_count h + 1\<rparr>)
     | Some _ \<Rightarrow> Some (False, h) }"

fun hi_expireLoop :: "nat \<Rightarrow> u32 \<Rightarrow> HashIndex \<Rightarrow> Handle list \<Rightarrow> (Handle list \<times> HashIndex) option" where
  "hi_expireLoop 0 now h freed = Some (freed, h)"
| "hi_expireLoop (Suc n) now h freed =
    (let idx = hi_scanCursor h; h1 = h\<lparr>hi_scanCursor := (idx + 1) AND hi_mask h\<rparr> in
     case hi_keys h1 ! unat idx of
       None \<Rightarrow> hi_expireLoop n now h1 freed
     | Some _ \<Rightarrow>
         if expired now (en_ExpiresAt (hi_buckets h1 ! unat idx))
         then do { h2 \<leftarrow> hi_deleteAt h1 idx; hi_expireLoop n now h2 (freed @ [en_Handle (hi_buckets h1 ! unat idx)]) }
         else hi_expireLoop n now h1 freed)"

definition hi_DeleteExpired :: "HashIndex \<Rightarrow> u32 \<Rightarrow> int \<Rightarrow> (Handle list \<times> HashIndex) option" where
  "hi_DeleteExpired h now limit =
    (if hi_count h = 0 \<or> limit \<le> 0 then Some ([], h) else hi_expireLoop (nat limit) now h [])"

definition hi_wanted :: "HashIndex \<Rightarrow> bytes \<Rightarrow> u32 \<Rightarrow> nat \<Rightarrow> bytes option" where
  "hi_wanted h prefix now i =
    (case hi_keys h ! i of
       None \<Rightarrow> None
     | Some k \<Rightarrow>
         if en_ExpiresAt (hi_buckets h ! i) = 0 \<or> now < en_ExpiresAt (hi_buckets h ! i)
         then if length prefix = 0 \<or> bytesHasPrefix k prefix then Some k else None
         else None)"

function hi_scanLoop :: "HashIndex \<Rightarrow> bytes \<Rightarrow> int \<Rightarrow> u32 \<Rightarrow> nat \<Rightarrow> bytes list \<Rightarrow> bytes list \<times> u64" where
  "hi_scanLoop h prefix limit now idx results =
    (if idx < length (hi_buckets h)
     then case hi_wanted h prefix now idx of
       None \<Rightarrow> hi_scanLoop h prefix limit now (idx + 1) results
     | Some k \<Rightarrow>
         if int (length (results @ [k])) \<ge> limit
         then (results @ [k], if idx + 1 \<ge> length (hi_buckets h) then 0 else of_nat (idx + 1))
         else hi_scanLoop h prefix limit now (idx + 1) (results @ [k])
     else (results, 0))"
  by auto
termination by (relation "measure (\<lambda>(h, _, _, _, idx, _). length (hi_buckets h) - idx)") auto

declare hi_scanLoop.simps [simp del]

definition hi_ScanPrefix :: "HashIndex \<Rightarrow> bytes \<Rightarrow> u64 \<Rightarrow> int \<Rightarrow> u32 \<Rightarrow> bytes list \<times> u64" where
  "hi_ScanPrefix h prefix cursor limit now =
    (if hi_count h = 0 \<or> limit \<le> 0 then ([], 0)
     else if unat cursor \<ge> length (hi_buckets h) then ([], 0)
     else hi_scanLoop h prefix limit now (unat cursor) [])"

partial_function (option) hi_prefixLoop ::
  "bytes \<Rightarrow> nat \<Rightarrow> HashIndex \<Rightarrow> nat \<Rightarrow> Handle list \<Rightarrow> (Handle list \<times> HashIndex) option" where
  "hi_prefixLoop prefix cp h idx freed =
    (if idx < cp
     then case hi_keys h ! idx of
       None \<Rightarrow> hi_prefixLoop prefix cp h (idx + 1) freed
     | Some k \<Rightarrow>
         if length prefix = 0 \<or> bytesHasPrefix k prefix
         then do {
           h' \<leftarrow> hi_deleteAt h (of_nat idx);
           hi_prefixLoop prefix cp h' idx (freed @ [en_Handle (hi_buckets h ! idx)]) }
         else hi_prefixLoop prefix cp h (idx + 1) freed
     else Some (freed, h))"

declare hi_prefixLoop.simps [code]

definition hi_DeletePrefix :: "HashIndex \<Rightarrow> bytes \<Rightarrow> (Handle list \<times> HashIndex) option" where
  "hi_DeletePrefix h prefix =
    (if hi_count h = 0 then Some ([], h) else hi_prefixLoop prefix (length (hi_buckets h)) h 0 [])"

definition hi_Count :: "HashIndex \<Rightarrow> int" where
  "hi_Count h = hi_count h"

subsection \<open>Contract\<close>

definition toShard :: "HashIndex \<Rightarrow> shardIndex" where
  "toShard h = \<lparr>si_keys = hi_keys h, si_handles = map en_Handle (hi_buckets h),
     si_expiresAt = map en_ExpiresAt (hi_buckets h), si_count = hi_count h, si_mask = hi_mask h,
     si_scanCursor = hi_scanCursor h\<rparr>"

definition hi_good :: "HashIndex \<Rightarrow> bool" where
  "hi_good h \<longleftrightarrow> length (hi_buckets h) = length (hi_keys h) \<and>
     (\<forall>i < length (hi_keys h). \<forall>k. hi_keys h ! i = Some k \<longrightarrow>
        en_Hash (hi_buckets h ! i) = fnv64 k \<and> en_KeyLen (hi_buckets h ! i) = of_nat (length k))"

definition hi_inv :: "HashIndex \<Rightarrow> bool" where
  "hi_inv h \<longleftrightarrow> hi_good h \<and> si_inv (toShard h)"

definition hi_map :: "HashIndex \<Rightarrow> bytes \<Rightarrow> (Handle \<times> u32) option" where
  "hi_map h = si_map (toShard h)"

text \<open>A result of the one table matches a result of the other.\<close>

definition hi_rel :: "HashIndex \<Rightarrow> shardIndex \<Rightarrow> bool" where
  "hi_rel h s \<longleftrightarrow> hi_good h \<and> toShard h = s"

section \<open>HashIndex and shardIndex are the same table\<close>

lemma fnv64_hashKey: "fnv64 = hashKey"
  by (simp add: fun_eq_iff fnv64_def hashKey_def)

lemma bytesEqual_iff [simp]: "bytesEqual a b \<longleftrightarrow> a = b"
  using bytesEq_iff [of a b] by (simp only: bytesEqual_def bytesEq_def)

lemma hi_relD:
  assumes "hi_rel h s"
  shows "hi_good h" "si_keys s = hi_keys h" "si_handles s = map en_Handle (hi_buckets h)"
    "si_expiresAt s = map en_ExpiresAt (hi_buckets h)" "si_count s = hi_count h" "si_mask s = hi_mask h"
    "si_scanCursor s = hi_scanCursor h" "length (hi_buckets h) = length (hi_keys h)"
  using assms by (auto simp: hi_rel_def toShard_def hi_good_def)

lemma hi_rel_toShard: "hi_good h \<Longrightarrow> hi_rel h (toShard h)"
  by (simp add: hi_rel_def)

lemma hi_rel_set:
  assumes "hi_rel h s" "i < length (hi_keys h)" "en_Hash e = fnv64 k" "en_KeyLen e = of_nat (length k)"
  shows "hi_rel (h\<lparr>hi_buckets := (hi_buckets h)[i := e], hi_keys := (hi_keys h)[i := Some k], hi_count := c\<rparr>)
    (s\<lparr>si_keys := (si_keys s)[i := Some k], si_handles := (si_handles s)[i := en_Handle e],
       si_expiresAt := (si_expiresAt s)[i := en_ExpiresAt e], si_count := c\<rparr>)"
  using assms by (auto simp: hi_rel_def hi_good_def toShard_def map_update nth_list_update)

lemma hi_rel_upd:
  assumes "hi_rel h s" "i < length (hi_keys h)" "hi_keys h ! i = Some k"
  shows "hi_rel (h\<lparr>hi_buckets := (hi_buckets h)[i := (hi_buckets h ! i)\<lparr>en_Handle := a, en_ExpiresAt := b\<rparr>],
      hi_keys := (hi_keys h)[i := Some k]\<rparr>)
    (s\<lparr>si_handles := (si_handles s)[i := a], si_expiresAt := (si_expiresAt s)[i := b]\<rparr>)"
proof -
  have "(hi_keys h)[i := Some k] = hi_keys h" using assms(3) by (metis list_update_id)
  then show ?thesis using assms by (auto simp: hi_rel_def hi_good_def toShard_def map_update nth_list_update)
qed

lemma hi_rel_clear:
  assumes "hi_rel h s" "i < length (hi_keys h)"
  shows "hi_rel (hi_clear h i) (si_clear s i)"
  using assms by (auto simp: hi_rel_def hi_good_def toShard_def si_clear_def hi_clear_def map_update zeroEntry_def nth_list_update)

lemma hi_rel_count:
  assumes "hi_rel h s" shows "hi_rel (h\<lparr>hi_count := c\<rparr>) (s\<lparr>si_count := c\<rparr>)"
  using assms by (auto simp: hi_rel_def hi_good_def toShard_def)

lemma hi_rel_cursor:
  assumes "hi_rel h s" shows "hi_rel (h\<lparr>hi_scanCursor := c\<rparr>) (s\<lparr>si_scanCursor := c\<rparr>)"
  using assms by (auto simp: hi_rel_def hi_good_def toShard_def)

lemma hi_rel_move:
  assumes "hi_rel h s" "g < length (hi_keys h)" "c < length (hi_keys h)"
  shows "hi_rel (hi_move h g c) (si_move s g c)"
proof -
  have "hi_rel (h\<lparr>hi_keys := (hi_keys h)[g := hi_keys h ! c], hi_buckets := (hi_buckets h)[g := hi_buckets h ! c]\<rparr>)
    (s\<lparr>si_keys := (si_keys s)[g := si_keys s ! c], si_handles := (si_handles s)[g := si_handles s ! c],
       si_expiresAt := (si_expiresAt s)[g := si_expiresAt s ! c]\<rparr>)"
    using assms by (auto simp: hi_rel_def hi_good_def toShard_def map_update nth_list_update)
  then show ?thesis using hi_rel_clear assms(3) unfolding hi_move_def si_move_def by simp
qed

lemma hi_rel_make:
  "hi_rel (hi_make cp) (makeIndex (unat cp) (cp - 1))"
  by (simp add: hi_rel_def hi_good_def toShard_def hi_make_def makeIndex_def zeroEntry_def)

lemma hi_hit_eq:
  assumes "hi_rel h s" "i < length (hi_keys h)"
  shows "hi_hit h key i = si_hit s key i"
  using assms hi_relD(2) [OF assms(1)]
  by (auto simp: hi_hit_def si_hit_def hi_rel_def hi_good_def split: option.splits)

lemma hi_probe_eq:
  assumes r: "hi_rel h s" and t: "si_table j s" and p: "si_probe s key = Some p"
  shows "hi_probe h key = Some p"
proof -
  note d = hi_relD [OF r] and td = si_tableD [OF t]
  have "unat (hashKey key AND si_mask s) < 2 ^ j" using and_mask_mod [OF td(2)] by simp
  moreover have "hi_hit h key q = si_hit s key q" if "q < 2 ^ j" for q
    using hi_hit_eq [OF r, of q] td(1) d(2) that by simp
  ultimately show ?thesis
    using probe_cong [OF _ td(2,3)] p unfolding hi_probe_def si_probe_def fnv64_hashKey d(6) by metis
qed

lemma hi_deleteAt_sim:
  assumes r: "hi_rel h s" and t: "si_table j s" and i: "unat i < length (si_keys s)" and run: "si_deleteAt s i = Some s'"
  shows "\<exists>h'. hi_deleteAt h i = Some h' \<and> hi_rel h' s'"
proof -
  note d = hi_relD [OF r] and td = si_tableD [OF t]
  let ?R = "\<lambda>h s. hi_rel h s \<and> length (hi_keys h) = 2 ^ j"
  have len: "length (hi_keys h) = 2 ^ j" using td(1) d(2) by simp
  have R0: "?R ((hi_clear h (unat i))\<lparr>hi_count := hi_count h - 1\<rparr>) ((si_clear s (unat i))\<lparr>si_count := si_count s - 1\<rparr>)"
    using hi_rel_count [OF hi_rel_clear [OF r, of "unat i"], of "hi_count h - 1"] i d(2,5) len
    by (simp add: hi_clear_def)
  have nx: "unat ((i + 1) AND si_mask s) < 2 ^ j" using unat_next [OF td(2,3)] by simp
  have "\<exists>h'. backshift hi_hashAt hi_move (si_mask s) ((hi_clear h (unat i))\<lparr>hi_count := hi_count h - 1\<rparr>)
      i ((i + 1) AND si_mask s) = Some h' \<and> ?R h' s'"
  proof (rule backshift_sim [where R = ?R, OF _ R0 td(2,3) _ nx])
    show "backshift si_hashAt si_move (si_mask s) ((si_clear s (unat i))\<lparr>si_count := si_count s - 1\<rparr>)
      i ((i + 1) AND si_mask s) = Some s'" using run by (simp add: si_deleteAt_def)
    show "unat i < 2 ^ j" using i td(1) by simp
    show "hi_hashAt h q = si_hashAt s q" if "?R h s" "q < 2 ^ j" for h s q
      using that hi_relD(1,2) [of h s]
      by (cases "hi_keys h ! q") (auto simp: hi_hashAt_def si_hashAt_def hi_good_def fnv64_hashKey)
    show "?R (hi_move h a b) (si_move s a b)" if "?R h s" "a < 2 ^ j" "b < 2 ^ j" "si_hashAt s b \<noteq> None" for h s a b
      using that hi_rel_move [of h s a b] by (simp add: hi_move_def hi_clear_def)
  qed
  then show ?thesis using d(6) by (auto simp: hi_deleteAt_def)
qed

lemma hi_insert_sim:
  assumes r: "hi_rel h s" and t: "si_table j s" and run: "si_insert s k hdl e = Some (res, s')"
  shows "\<exists>h'. hi_insert h (Some k) hdl e = Some (snd res, h') \<and> hi_rel h' s'"
proof -
  note d = hi_relD [OF r] and td = si_tableD [OF t]
  obtain w where w: "si_probe s k = Some w" using run by (auto simp: si_insert_def bind_eq_Some_conv)
  note hp = hi_probe_eq [OF r t w]
  let ?i = "unat w"
  have hit: "si_hit s k ?i" using probe_hit w unfolding si_probe_def by blast
  have "unat (hashKey k AND si_mask s) < 2 ^ j" using and_mask_mod [OF td(2)] by simp
  then have i: "?i < length (hi_keys h)"
    using probe_range [OF w [unfolded si_probe_def] td(2,3)] td(1) d(2) by simp
  show ?thesis
  proof (cases "si_keys s ! ?i")
    case None
    let ?e = "\<lparr>en_Hash = fnv64 k, en_KeyLen = of_nat (length k), en_Handle = hdl, en_ExpiresAt = e\<rparr>"
    let ?h = "h\<lparr>hi_buckets := (hi_buckets h)[?i := ?e], hi_keys := (hi_keys h)[?i := Some k], hi_count := hi_count h + 1\<rparr>"
    let ?s = "s\<lparr>si_keys := (si_keys s)[?i := Some k], si_handles := (si_handles s)[?i := hdl],
           si_expiresAt := (si_expiresAt s)[?i := e], si_count := si_count s + 1\<rparr>"
    have "hi_rel ?h ?s"
      using hi_rel_set [OF r i, of ?e k "hi_count h + 1"] d(5) by simp
    moreover have "hi_insert h (Some k) hdl e = Some (False, ?h)"
      using hp None d(2) by (simp add: hi_insert_def keyBytes_def Let_def)
    moreover have "res = (zeroHandle, False)" "s' = ?s" using run w None by (simp_all add: si_insert_def Let_def)
    ultimately show ?thesis by simp
  next
    case (Some k')
    then have k': "k' = k" using hit by (simp add: si_hit_def)
    let ?e = "(hi_buckets h ! ?i)\<lparr>en_Handle := hdl, en_ExpiresAt := e\<rparr>"
    let ?h = "h\<lparr>hi_buckets := (hi_buckets h)[?i := ?e], hi_keys := (hi_keys h)[?i := Some k]\<rparr>"
    let ?s = "s\<lparr>si_handles := (si_handles s)[?i := hdl], si_expiresAt := (si_expiresAt s)[?i := e]\<rparr>"
    have "hi_rel ?h ?s" using hi_rel_upd [OF r i] Some k' d(2) by simp
    moreover have "hi_insert h (Some k) hdl e = Some (True, ?h)"
      using hp Some d(2) by (simp add: hi_insert_def keyBytes_def Let_def)
    moreover have "snd res" "s' = ?s" using run w Some by (auto simp: si_insert_def Let_def)
    ultimately show ?thesis by simp
  qed
qed

declare hi_putN.simps [simp del]

lemma hi_rehash_sim:
  assumes "hi_rel h s" "si_table j s" and old: "hi_rel hold old" "\<forall>i \<in> set is. i < length (si_keys old)"
    and "4 * (si_count s + int (length is)) < 3 * int (length (si_keys s)) + 4"
    and "si_rehash (si_putN (Suc d)) old s is = Some s'"
  shows "\<exists>h'. hi_rehash (hi_putN (Suc d)) hold h is = Some h' \<and> hi_rel h' s'"
  using assms
proof (induction "is" arbitrary: h s)
  case (Cons i "is")
  note od = hi_relD [OF old(1)]
  have len: "length (si_keys s) = 2 ^ j" "si_count s = int (length (ents (si_slots s)))"
    using Cons.prems(2) by (simp_all add: si_table_def)
  have i: "i < length (hi_buckets hold)" using Cons.prems(4) od by simp
  have tl: "\<forall>i \<in> set is. i < length (si_keys old)" using Cons.prems(4) by simp
  show ?case
  proof (cases "si_keys old ! i")
    case None
    then show ?thesis using Cons.IH [OF Cons.prems(1,2) old(1) tl] Cons.prems(5,6) od(2) by simp
  next
    case (Some k)
    let ?v = "si_handles old ! i" and ?x = "si_expiresAt old ! i"
    have nog: "\<not> si_count s * 4 \<ge> int (length (si_keys s)) * 3" using Cons.prems(5) by simp
    then have free: "length (ents (si_slots s)) < length (si_keys s)" using len(2) by simp
    obtain s1 where s1: "si_insert s k ?v ?x = Some (si_old s k, s1)" "si_table j s1" "si_count s1 \<le> si_count s + 1"
      using si_insert_ok [OF Cons.prems(2) free] by blast
    have len1: "length (si_keys s1) = length (si_keys s)" using s1(2) len by (simp add: si_table_def)
    obtain h1 where h1: "hi_insert h (Some k) ?v ?x = Some (snd (si_old s k), h1)" "hi_rel h1 s1"
      using hi_insert_sim [OF Cons.prems(1,2) s1(1)] by blast
    have "si_putN (Suc d) s k ?v ?x = Some (si_old s k, s1)" using s1(1) nog by (simp add: si_putN.simps)
    then have rest: "si_rehash (si_putN (Suc d)) old s1 is = Some s'" using Cons.prems(6) Some by simp
    have room: "4 * (si_count s1 + int (length is)) < 3 * int (length (si_keys s1)) + 4"
      using Cons.prems(5) s1(3) len1 by simp
    have "hi_putN (Suc d) h (Some k) ?v ?x = Some (snd (si_old s k), h1)"
      using h1(1) nog hi_relD [OF Cons.prems(1)] by (simp add: hi_putN.simps)
    then show ?thesis
      using Cons.IH [OF h1(2) s1(2) old(1) tl room rest] Some od i by simp
  qed
qed simp

lemma hi_put_sim:
  assumes r: "hi_rel h s" and inv: "si_inv s" and room: "si_room s" and run: "si_put s k hdl e = Some (res, s')"
  shows "\<exists>h'. hi_Put h (Some k) hdl e = Some (snd res, h') \<and> hi_rel h' s'"
proof -
  note d = hi_relD [OF r]
  obtain j where j: "si_table j s" "2 \<le> j" "4 * si_count s \<le> 3 * int (length (si_keys s))"
    "length (ents (si_slots s)) < length (si_keys s)" using inv by (rule si_invD)
  have n: "length (si_keys s) = 2 ^ j" using j(1) by (simp add: si_table_def)
  show ?thesis
  proof (cases "si_count s * 4 \<ge> int (length (si_keys s)) * 3")
    case False
    then have "si_insert s k hdl e = Some (res, s')" using run by (simp add: si_put_def numeral_2_eq_2 si_putN.simps)
    from hi_insert_sim [OF r j(1) this] show ?thesis
      using False d by (simp add: hi_Put_def numeral_2_eq_2 hi_putN.simps)
  next
    case True
    have "(2 :: nat) ^ j < 2 ^ 62" using room n by (simp add: si_room_def)
    then have j62: "j < 62" by (simp only: power_strict_increasing_iff)
    have le: "si_count s \<le> int (length (si_keys s))" using j(1,4) by (simp add: si_table_def)
    obtain s1 where s1: "si_growWith (si_putN (Suc 0)) s = Some s1" "si_table (Suc j) s1"
      using si_grow_ok [OF j(1) j62 le] by blast
    let ?nc = "of_nat (length (si_keys s)) * 2 :: u64" and ?s0 = "makeIndex (unat (of_nat (length (si_keys s)) * 2 :: u64)) (of_nat (length (si_keys s)) * 2 - 1)"
    note nc = grow_size(1) [OF n j62] and msk = grow_size(2) [OF n j62]
    have t0: "si_table (Suc j) ?s0" using si_table_make(1) [OF _ _ msk] nc j(2) j62 by simp
    have s0: "si_count ?s0 = 0" "length (si_keys ?s0) = 2 * length (si_keys s)"
      using nc n by (simp_all add: makeIndex_def)
    have room0: "4 * (si_count ?s0 + int (length [0..<length (si_keys s)])) < 3 * int (length (si_keys ?s0)) + 4"
      unfolding s0 by simp
    have run0: "si_rehash (si_putN (Suc 0)) s ?s0 [0..<length (si_keys s)] = Some s1"
      using s1(1) by (simp add: si_growWith_def Let_def)
    obtain h1 where h1: "hi_growWith (hi_putN (Suc 0)) h = Some h1" "hi_rel h1 s1"
      using hi_rehash_sim [OF hi_rel_make t0 r _ room0 run0] d(2,8) by (auto simp: hi_growWith_def)
    have "si_insert s1 k hdl e = Some (res, s')"
      using run True s1(1) by (simp add: si_put_def numeral_2_eq_2 si_putN.simps)
    from hi_insert_sim [OF h1(2) s1(2) this] show ?thesis
      using True d h1(1) by (simp add: hi_Put_def numeral_2_eq_2 hi_putN.simps)
  qed
qed

section \<open>Lookup, deletion, expiry, prefixes\<close>

lemma hi_invD:
  assumes "hi_inv h"
  shows "hi_rel h (toShard h)" "si_inv (toShard h)" "length (hi_buckets h) = length (hi_keys h)"
    "length (si_keys (toShard h)) = length (hi_keys h)"
  using assms by (auto simp: hi_inv_def hi_rel_def hi_good_def toShard_def)

lemma hi_rel_inv: "hi_rel h s \<Longrightarrow> si_inv s \<Longrightarrow> hi_inv h \<and> hi_map h = si_map s"
  by (auto simp: hi_rel_def hi_inv_def hi_map_def)

lemma hi_probe_found:
  assumes "hi_inv h"
  obtains w where "hi_probe h key = Some w" "unat w < length (hi_keys h)" "si_probe (toShard h) key = Some w"
    "found (si_home (hi_mask h)) (si_slots (toShard h)) key (unat w)"
proof -
  obtain j where j: "si_table j (toShard h)" "length (ents (si_slots (toShard h))) < length (si_keys (toShard h))"
    using hi_invD(2) [OF assms] by (rule si_invD)
  obtain w where "si_probe (toShard h) key = Some w" "unat w < length (si_keys (toShard h))"
    "found (si_home (si_mask (toShard h))) (si_slots (toShard h)) key (unat w)"
    using si_probe_found [OF j] by blast
  then show thesis using that hi_probe_eq [OF hi_invD(1) [OF assms] j(1)] by (simp add: toShard_def)
qed

lemma hi_found_map:
  assumes "hi_inv h" "found home (si_slots (toShard h)) key i" "i < length (hi_keys h)"
  shows "hi_map h key = map_option (\<lambda>_. (en_Handle (hi_buckets h ! i), en_ExpiresAt (hi_buckets h ! i))) (hi_keys h ! i)"
    and "hi_keys h ! i = Some k \<Longrightarrow> k = key"
proof -
  have k: "si_keys (toShard h) = hi_keys h" "i < length (hi_buckets h)"
    using hi_invD(3) [OF assms(1)] assms(3) by (simp_all add: toShard_def)
  then show "hi_keys h ! i = Some k \<Longrightarrow> k = key" using si_found_key [OF assms(2)] by simp
  show "hi_map h key = map_option (\<lambda>_. (en_Handle (hi_buckets h ! i), en_ExpiresAt (hi_buckets h ! i))) (hi_keys h ! i)"
  proof (cases "hi_keys h ! i")
    case None
    then show ?thesis using si_found_nil [OF assms(2)] k by (simp add: hi_map_def)
  next
    case (Some k')
    have "si_handles (toShard h) ! i = en_Handle (hi_buckets h ! i)"
      "si_expiresAt (toShard h) ! i = en_ExpiresAt (hi_buckets h ! i)"
      using k(2) by (simp_all add: toShard_def)
    then show ?thesis using si_found_key(2) [OF assms(2)] k Some by (simp add: hi_map_def)
  qed
qed

lemma hi_Get_ok:
  assumes "hi_inv h"
  shows "hi_Get h key now = Some (case hi_map h (keyBytes key) of None \<Rightarrow> (zeroHandle, False)
    | Some (hdl, e) \<Rightarrow> if expired now e then (zeroHandle, False) else (hdl, True))"
proof -
  obtain w where w: "hi_probe h (keyBytes key) = Some w" "unat w < length (hi_keys h)"
    "found (si_home (hi_mask h)) (si_slots (toShard h)) (keyBytes key) (unat w)"
    using hi_probe_found [OF assms] by metis
  show ?thesis using w(1) hi_found_map(1) [OF assms w(3,2)]
    by (cases "hi_keys h ! unat w") (simp_all add: hi_Get_def Let_def expired_def)
qed

lemma hi_deleteAt_ok:
  assumes inv: "hi_inv h" and i: "unat i < length (hi_keys h)" "hi_keys h ! unat i = Some k"
  shows "\<exists>h'. hi_deleteAt h i = Some h' \<and> hi_inv h' \<and> hi_map h' = (hi_map h)(k := None)"
proof -
  obtain j where j: "si_table j (toShard h)" using hi_invD(2) [OF inv] by (auto simp: si_inv_def)
  obtain s' where "si_deleteAt (toShard h) i = Some s'" "si_inv s'" "si_map s' = (si_map (toShard h))(k := None)"
    using si_deleteAt_ok [OF hi_invD(2) [OF inv], of i k] i by (auto simp: toShard_def)
  moreover have "unat i < length (si_keys (toShard h))" using i by (simp add: toShard_def)
  ultimately show ?thesis
    using hi_deleteAt_sim [OF hi_invD(1) [OF inv] j] hi_rel_inv by (metis hi_map_def)
qed

lemma hi_Delete_ok:
  assumes "hi_inv h"
  shows "\<exists>h'. hi_Delete h key = Some
      (case hi_map h (keyBytes key) of None \<Rightarrow> (zeroHandle, False) | Some (hdl, _) \<Rightarrow> (hdl, True), h') \<and>
    hi_inv h' \<and> hi_map h' = (hi_map h)(keyBytes key := None)"
proof -
  obtain w where w: "hi_probe h (keyBytes key) = Some w" "unat w < length (hi_keys h)"
    "found (si_home (hi_mask h)) (si_slots (toShard h)) (keyBytes key) (unat w)"
    using hi_probe_found [OF assms] by metis
  note fm = hi_found_map [OF assms w(3,2)]
  show ?thesis
  proof (cases "hi_keys h ! unat w")
    case None
    then have "hi_map h (keyBytes key) = None" using fm(1) by simp
    then show ?thesis using None w(1) assms by (auto simp: hi_Delete_def fun_upd_idem)
  next
    case (Some k)
    then show ?thesis
      using hi_deleteAt_ok [OF assms w(2) Some] w(1) fm(1) fm(2) [OF Some] by (auto simp: hi_Delete_def)
  qed
qed

lemma hi_Put_ok:
  assumes inv: "hi_inv h" and room: "length (hi_keys h) < 2 ^ 62"
  shows "\<exists>h'. hi_Put h (Some k) hdl e = Some (hi_map h k \<noteq> None, h') \<and> hi_inv h' \<and> hi_map h' = (hi_map h)(k \<mapsto> (hdl, e))"
proof -
  have r: "si_room (toShard h)" using room by (simp add: si_room_def toShard_def)
  obtain s' where s': "si_put (toShard h) k hdl e = Some (si_old (toShard h) k, s')" "si_inv s'"
    "si_map s' = (si_map (toShard h))(k \<mapsto> (hdl, e))"
    using si_put_ok [OF hi_invD(2) [OF inv] r] by blast
  obtain h' where "hi_Put h (Some k) hdl e = Some (snd (si_old (toShard h) k), h')" "hi_rel h' s'"
    using hi_put_sim [OF hi_invD(1,2) [OF inv] r s'(1)] by blast
  moreover have "snd (si_old (toShard h) k) \<longleftrightarrow> hi_map h k \<noteq> None"
    by (auto simp: si_old_def hi_map_def split: option.splits)
  ultimately show ?thesis using hi_rel_inv [of h' s'] s' by (auto simp: hi_map_def)
qed

text \<open>\<^verbatim>\<open>Add\<close> of a key that is not nil, in a table that stays three quarters full at most.\<close>

lemma hi_Add_ok:
  assumes inv: "hi_inv h" and room: "4 * (hi_count h + 1) \<le> 3 * int (length (hi_keys h))"
  shows "\<exists>h'. hi_Add h (Some k) hdl e = Some (hi_map h k = None, h') \<and> hi_inv h' \<and>
    hi_map h' = (if hi_map h k = None then (hi_map h)(k \<mapsto> (hdl, e)) else hi_map h)"
proof -
  obtain w where w: "hi_probe h k = Some w" "unat w < length (hi_keys h)" "si_probe (toShard h) k = Some w"
    "found (si_home (hi_mask h)) (si_slots (toShard h)) k (unat w)"
    using hi_probe_found [OF inv] by metis
  note fm = hi_found_map [OF inv w(4,2)]
  show ?thesis
  proof (cases "hi_keys h ! unat w")
    case (Some k')
    then show ?thesis using w(1) fm(1) inv by (auto simp: hi_Add_def keyBytes_def Let_def)
  next
    case None
    obtain j where j: "si_table j (toShard h)" "length (ents (si_slots (toShard h))) < length (si_keys (toShard h))"
      using hi_invD(2) [OF inv] by (rule si_invD)
    obtain s' where s': "si_insert (toShard h) k hdl e = Some (si_old (toShard h) k, s')" "si_table j s'"
      "si_map s' = (si_map (toShard h))(k \<mapsto> (hdl, e))" "si_count s' \<le> si_count (toShard h) + 1"
      using si_insert_ok [OF j] by blast
    have len: "length (si_keys s') = length (hi_keys h)"
      using s'(2) j(1) hi_invD(4) [OF inv] by (simp add: si_table_def)
    have "4 * si_count s' \<le> 3 * int (length (si_keys s'))"
      using s'(4) room len by (simp add: toShard_def)
    then have si: "si_inv s'" using s'(2) by (auto simp: si_inv_def)
    obtain h' where h': "hi_insert h (Some k) hdl e = Some (snd (si_old (toShard h) k), h')" "hi_rel h' s'"
      using hi_insert_sim [OF hi_invD(1) [OF inv] j(1) s'(1)] by blast
    have "hi_map h k = None" using fm(1) None by simp
    moreover have "hi_Add h (Some k) hdl e = Some (True, h')"
      using h'(1) w(1) None by (simp add: hi_Add_def hi_insert_def keyBytes_def Let_def)
    ultimately show ?thesis using hi_rel_inv [OF h'(2) si] s'(3) by (auto simp: hi_map_def)
  qed
qed

lemma hi_expireLoop_sim:
  assumes "hi_rel h s" "si_inv s" "si_expireLoop n now s freed = Some (res, s')"
  shows "\<exists>h'. hi_expireLoop n now h freed = Some (res, h') \<and> hi_rel h' s'"
  using assms
proof (induction n arbitrary: h s freed)
  case 0
  then show ?case by simp
next
  case (Suc n)
  let ?i = "si_scanCursor s" and ?s = "s\<lparr>si_scanCursor := (si_scanCursor s + 1) AND si_mask s\<rparr>"
    and ?h = "h\<lparr>hi_scanCursor := (hi_scanCursor h + 1) AND hi_mask h\<rparr>"
  note d = hi_relD [OF Suc.prems(1)] and c = si_inv_cursor [OF Suc.prems(2)]
  have r1: "hi_rel ?h ?s" using hi_rel_cursor [OF Suc.prems(1)] d by simp
  have at: "si_handles s ! unat ?i = en_Handle (hi_buckets h ! unat ?i)"
    "si_expiresAt s ! unat ?i = en_ExpiresAt (hi_buckets h ! unat ?i)"
    using c(1) d by simp_all
  show ?case
  proof (cases "si_keys s ! unat ?i")
    case None
    then show ?thesis using Suc.IH [OF r1 c(2)] Suc.prems(3) d by (simp add: Let_def)
  next
    case (Some k)
    show ?thesis
    proof (cases "expired now (si_expiresAt s ! unat ?i)")
      case False
      then show ?thesis using Suc.IH [OF r1 c(2)] Suc.prems(3) Some d at by (simp add: Let_def)
    next
      case True
      obtain s2 where s2: "si_deleteAt ?s ?i = Some s2" "si_inv s2"
        using si_deleteAt_ok [OF c(2), of ?i k] c(1) Some by auto
      obtain j where "si_table j ?s" using c(2) by (auto simp: si_inv_def)
      then obtain h2 where h2: "hi_deleteAt ?h ?i = Some h2" "hi_rel h2 s2"
        using hi_deleteAt_sim [OF r1 _ _ s2(1)] c(1) by auto
      have "si_expireLoop n now s2 (freed @ [si_handles s ! unat ?i]) = Some (res, s')"
        using Suc.prems(3) Some True s2(1) by (simp add: Let_def)
      from Suc.IH [OF h2(2) s2(2) this] show ?thesis using Some True h2(1) d at by (simp add: Let_def)
    qed
  qed
qed

lemma hi_prefixLoop_sim:
  assumes run: "si_prefixLoop prefix cp s idx freed dk = Some ((fs, ks), s')" and r: "hi_rel h s" and inv: "si_inv s"
    and cp: "cp = length (si_keys s)"
  shows "\<exists>h'. hi_prefixLoop prefix cp h idx freed = Some (fs, h') \<and> hi_rel h' s'"
proof -
  let ?P = "\<lambda>prefix cp s idx freed (dk :: bytes list) res. \<forall>h. hi_rel h s \<longrightarrow> si_inv s \<longrightarrow> cp = length (si_keys s) \<longrightarrow>
     (\<exists>h'. hi_prefixLoop prefix cp h idx freed = Some (fst (fst res), h') \<and> hi_rel h' (snd res))"
  have "?P prefix cp s idx freed dk ((fs, ks), s')"
  proof (rule si_prefixLoop.raw_induct [where P = ?P, OF _ run], intro allI impI)
    fix rec prefix cp s idx freed dk res h
    assume IH: "\<And>prefix cp s idx freed dk res. rec prefix cp s idx freed dk = Some res \<Longrightarrow> ?P prefix cp s idx freed dk res"
      and step: "(if idx < cp then case si_keys s ! idx of None \<Rightarrow> rec prefix cp s (idx + 1) freed dk
         | Some k \<Rightarrow> if length prefix = 0 \<or> bytesHasPrefix k prefix
             then si_deleteAt s (of_nat idx) \<bind> (\<lambda>s'. rec prefix cp s' idx (freed @ [si_handles s ! idx]) (dk @ [k]))
             else rec prefix cp s (idx + 1) freed dk
         else Some ((freed, dk), s)) = Some res"
      and r: "hi_rel h s" and inv: "si_inv s" and cp: "cp = length (si_keys s)"
    note d = hi_relD [OF r]
    show "\<exists>h'. hi_prefixLoop prefix cp h idx freed = Some (fst (fst res), h') \<and> hi_rel h' (snd res)"
    proof (cases "idx < cp")
      case False
      then show ?thesis using step r by (auto simp: hi_prefixLoop.simps [of prefix cp h idx freed])
    next
      case True
      show ?thesis
      proof (cases "si_keys s ! idx")
        case None
        then have nx: "rec prefix cp s (idx + 1) freed dk = Some res" using step True by simp
        have "hi_prefixLoop prefix cp h idx freed = hi_prefixLoop prefix cp h (idx + 1) freed"
          using True None d(2) by (simp add: hi_prefixLoop.simps [of prefix cp h idx freed])
        then show ?thesis using IH [OF nx] r inv cp by metis
      next
        case (Some k)
        show ?thesis
        proof (cases "length prefix = 0 \<or> bytesHasPrefix k prefix")
          case False
          then have nx: "rec prefix cp s (idx + 1) freed dk = Some res" using step True Some by simp
          have "hi_prefixLoop prefix cp h idx freed = hi_prefixLoop prefix cp h (idx + 1) freed"
            using True Some False d(2) by (simp add: hi_prefixLoop.simps [of prefix cp h idx freed])
          then show ?thesis using IH [OF nx] r inv cp by metis
        next
          case pre: True
          have w: "unat (of_nat idx :: u64) = idx"
            using True cp si_inv_small [OF inv] by (intro unat_of_nat_u64) linarith
          obtain s2 where s2: "si_deleteAt s (of_nat idx) = Some s2" "si_inv s2" "length (si_keys s2) = length (si_keys s)"
            using si_deleteAt_ok [OF inv, of "of_nat idx" k] w True cp Some by auto
          obtain j where "si_table j s" using inv by (auto simp: si_inv_def)
          then obtain h2 where h2: "hi_deleteAt h (of_nat idx) = Some h2" "hi_rel h2 s2"
            using hi_deleteAt_sim [OF r _ _ s2(1)] w True cp by auto
          have at: "si_handles s ! idx = en_Handle (hi_buckets h ! idx)" using True cp d by simp
          have nx: "rec prefix cp s2 idx (freed @ [si_handles s ! idx]) (dk @ [k]) = Some res"
            using step True Some pre s2(1) by simp
          have "hi_prefixLoop prefix cp h idx freed = hi_prefixLoop prefix cp h2 idx (freed @ [si_handles s ! idx])"
            using True Some pre h2(1) d(2) at by (simp add: hi_prefixLoop.simps [of prefix cp h idx freed])
          then show ?thesis using IH [OF nx] h2(2) s2(2,3) cp by simp
        qed
      qed
    qed
  qed
  then show ?thesis using r inv cp by simp
qed

lemma hi_scanLoop_eq:
  assumes "hi_rel h s"
  shows "hi_scanLoop h prefix limit now idx results = si_scanLoop s prefix limit now idx results"
  using assms
proof (induction h prefix limit now idx results rule: hi_scanLoop.induct)
  case (1 h prefix limit now idx results)
  note d = hi_relD [OF "1.prems"]
  show ?case
  proof (cases "idx < length (hi_buckets h)")
    case False
    then show ?thesis using d by (simp add: hi_scanLoop.simps [of h] si_scanLoop.simps [of s])
  next
    case True
    have "si_expiresAt s ! idx = en_ExpiresAt (hi_buckets h ! idx)" using True d(4) by simp
    then have want: "hi_wanted h prefix now idx = si_wanted s prefix now idx"
      by (cases "hi_keys h ! idx") (simp_all add: hi_wanted_def si_wanted_def d(2))
    show ?thesis
    proof (cases "si_wanted s prefix now idx")
      case None
      then show ?thesis
        using "1.IH"(1) [OF True _ "1.prems"] True d want
        by (simp add: hi_scanLoop.simps [of h _ _ _ idx] si_scanLoop.simps [of s _ _ _ idx])
    next
      case (Some k)
      then show ?thesis
        using "1.IH"(2) [OF True _ _ "1.prems", of k] True d want
        by (simp add: hi_scanLoop.simps [of h _ _ _ idx] si_scanLoop.simps [of s _ _ _ idx])
    qed
  qed
qed

lemma hi_ScanPrefix_eq:
  assumes "hi_rel h s"
  shows "hi_ScanPrefix h prefix cursor limit now = si_scanPrefix s prefix cursor limit now"
  using hi_scanLoop_eq [OF assms] hi_relD [OF assms] by (simp add: hi_ScanPrefix_def si_scanPrefix_def)

section \<open>Sizes\<close>

lemma smear_step:
  assumes "2 * d = d'" and "\<And>i. bit (y :: u64) i \<longleftrightarrow> (\<exists>e < d. bit x (i + e))"
  shows "bit (y OR drop_bit d y) i \<longleftrightarrow> (\<exists>e < d'. bit (x :: u64) (i + e))"
proof -
  have "bit (y OR drop_bit d y) i \<longleftrightarrow> (\<exists>e < d. bit x (i + e)) \<or> (\<exists>e < d. bit x (i + (d + e)))"
    using assms(2) [of i] assms(2) [of "d + i"] by (simp add: bit_or_iff bit_drop_bit_eq ac_simps)
  also have "\<dots> \<longleftrightarrow> (\<exists>e < 2 * d. bit x (i + e))"
  proof
    assume "\<exists>e < 2 * d. bit x (i + e)"
    then obtain e where e: "e < 2 * d" "bit x (i + e)" by blast
    show "(\<exists>e < d. bit x (i + e)) \<or> (\<exists>e < d. bit x (i + (d + e)))"
    proof (cases "e < d")
      case False
      then have "bit x (i + (d + (e - d)))" "e - d < d" using e by auto
      then show ?thesis by blast
    qed (use e in blast)
  next
    assume "(\<exists>e < d. bit x (i + e)) \<or> (\<exists>e < d. bit x (i + (d + e)))"
    then obtain e where "(e < d \<and> bit x (i + e)) \<or> (e < d \<and> bit x (i + (d + e)))" by blast
    then show "\<exists>e < 2 * d. bit x (i + e)"
    proof
      assume "e < d \<and> bit x (i + e)"
      then show ?thesis by (intro exI [of _ e]) simp
    next
      assume "e < d \<and> bit x (i + (d + e))"
      then show ?thesis by (intro exI [of _ "d + e"]) simp
    qed
  qed
  finally show ?thesis using assms(1) by simp
qed

definition smear :: "u64 \<Rightarrow> u64" where
  "smear x = (let n1 = x OR drop_bit 1 x; n2 = n1 OR drop_bit 2 n1; n3 = n2 OR drop_bit 4 n2;
     n4 = n3 OR drop_bit 8 n3; n5 = n4 OR drop_bit 16 n4 in n5 OR drop_bit 32 n5)"

lemma bit_smear: "bit (smear x) i \<longleftrightarrow> (\<exists>e < 64. bit x (i + e))"
proof -
  have s0: "bit x i \<longleftrightarrow> (\<exists>e < 1. bit x (i + e))" for i by simp
  have s1: "bit (x OR drop_bit 1 x) i \<longleftrightarrow> (\<exists>e < 2. bit x (i + e))" for i by (rule smear_step [OF _ s0]) simp
  note s2 = smear_step [OF _ s1, of 4]
  note s3 = smear_step [OF _ s2, of 8]
  note s4 = smear_step [OF _ s3, of 16]
  note s5 = smear_step [OF _ s4, of 32]
  note s6 = smear_step [OF _ s5, of 64]
  show ?thesis unfolding smear_def Let_def by (rule s6) simp_all
qed

lemma bit_unat: "bit (unat (x :: u64)) i \<longleftrightarrow> bit x i"
  by (simp add: bit_unsigned_iff)

lemma smear_mask:
  assumes "2 ^ t \<le> unat x" "unat x < 2 ^ Suc t"
  shows "smear x = mask (Suc t)"
proof (rule bit_word_eqI)
  fix i assume i: "i < LENGTH(64)"
  have top: "bit x t"
  proof -
    have "unat x div 2 ^ t = 1" using assms by (simp add: div_nat_eqI)
    then have "bit (unat x) t" by (simp add: bit_iff_odd)
    then show ?thesis by (simp add: bit_unat)
  qed
  then have t: "t < 64" using bit_imp_le_length [of x t] by simp
  have above: "\<not> bit x j" if "t < j" for j
  proof -
    have "(2 :: nat) ^ Suc t \<le> 2 ^ j" using that by (intro power_increasing) simp_all
    then have "unat x div 2 ^ j = 0" using assms(2) by simp
    then have "\<not> bit (unat x) j" by (simp add: bit_iff_odd)
    then show ?thesis by (simp add: bit_unat)
  qed
  have "(\<exists>e < 64. bit x (i + e)) \<longleftrightarrow> i \<le> t"
  proof
    assume "\<exists>e < 64. bit x (i + e)"
    then obtain e where "bit x (i + e)" by blast
    then show "i \<le> t" using above [of "i + e"] by (cases "i \<le> t") auto
  next
    assume "i \<le> t"
    then show "\<exists>e < 64. bit x (i + e)" using top t by (intro exI [of _ "t - i"]) simp
  qed
  then show "bit (smear x) i \<longleftrightarrow> bit (mask (Suc t) :: u64) i"
    using i t by (auto simp: bit_smear bit_mask_iff)
qed

lemma nextPowerOfTwo_cases:
  assumes "1 \<le> unat n" "unat n \<le> 2 ^ 63"
  obtains k where "unat (nextPowerOfTwo n) = 2 ^ k" "unat n \<le> 2 ^ k" "k = 0 \<or> 2 ^ (k - 1) < unat n"
proof -
  have nz: "n \<noteq> 0" using assms(1) by auto
  have x: "unat (n - 1) = unat n - 1" using nz by (simp add: unat_minus_one)
  have eq: "nextPowerOfTwo n = smear (n - 1) + 1" using nz by (simp add: nextPowerOfTwo_def smear_def Let_def)
  show thesis
  proof (cases "unat n = 1")
    case True
    then have "n = 1" by (metis unat_1 unsigned_word_eqI)
    then have "unat (nextPowerOfTwo n) = 1" by (simp add: nextPowerOfTwo_def)
    then show thesis using that [of 0] True by simp
  next
    case False
    then have "1 \<le> unat n - 1" using assms(1) by simp
    then obtain t where t: "2 ^ t \<le> unat n - 1" "unat n - 1 < 2 ^ Suc t"
      using ex_power_ivl1 [of 2 "unat n - 1"] by auto
    have "(2 :: nat) ^ t < 2 ^ 63" using t(1) assms False by linarith
    then have t63: "t < 63" by (simp only: power_strict_increasing_iff)
    have "smear (n - 1) = mask (Suc t)" using smear_mask [of t "n - 1"] t x by simp
    then have "nextPowerOfTwo n = 2 ^ Suc t" by (simp add: eq mask_eq_exp_minus_1)
    moreover have "unat (2 ^ Suc t :: u64) = 2 ^ Suc t"
    proof -
      have "(2 :: nat) ^ Suc t < 2 ^ 64" using t63 by (intro power_strict_increasing) simp_all
      then have "unat (of_nat (2 ^ Suc t) :: u64) = 2 ^ Suc t" by (intro unat_of_nat_u64) simp
      then show ?thesis by simp
    qed
    ultimately have "unat (nextPowerOfTwo n) = 2 ^ Suc t" by simp
    then show thesis using that [of "Suc t"] t by simp
  qed
qed

lemma hi_make_inv:
  assumes "unat cp = 2 ^ j" "2 \<le> j" "j < 63"
  shows "hi_inv (hi_make cp)" "hi_map (hi_make cp) = Map.empty" "length (hi_keys (hi_make cp)) = 2 ^ j" "hi_count (hi_make cp) = 0"
proof -
  have "cp \<noteq> 0" using assms(1) by auto
  then have msk: "unat (cp - 1) = 2 ^ j - 1" using assms(1) by (simp add: unat_minus_one)
  note t = si_table_make [OF assms(2,3) msk]
  have "si_inv (makeIndex (unat cp) (cp - 1))" using t(1) assms(1) by (auto simp: si_inv_def makeIndex_def)
  then show "hi_inv (hi_make cp)" "hi_map (hi_make cp) = Map.empty"
    using hi_rel_inv [OF hi_rel_make] t(2) assms(1) by auto
  show "length (hi_keys (hi_make cp)) = 2 ^ j" "hi_count (hi_make cp) = 0" using assms(1) by (simp_all add: hi_make_def)
qed

section \<open>Properties\<close>

text \<open>
  \<^verbatim>\<open>nextPowerOfTwo\<close> by bit smearing returns the least power of two that is at least its argument, for
  every argument from one up to \<open>2 ^ 63\<close>.
\<close>

theorem nextPowerOfTwo_least:
  assumes "1 \<le> unat n" and "unat n \<le> 2 ^ 63"
  shows "\<exists>k. unat (nextPowerOfTwo n) = 2 ^ k \<and> unat n \<le> 2 ^ k \<and> (\<forall>j. unat n \<le> 2 ^ j \<longrightarrow> k \<le> j)"
proof -
  obtain k where k: "unat (nextPowerOfTwo n) = 2 ^ k" "unat n \<le> 2 ^ k" "k = 0 \<or> 2 ^ (k - 1) < unat n"
    using nextPowerOfTwo_cases [OF assms] by blast
  have "k \<le> j" if "unat n \<le> 2 ^ j" for j
  proof (rule ccontr)
    assume "\<not> k \<le> j"
    then have "k \<noteq> 0" "(2 :: nat) ^ j \<le> 2 ^ (k - 1)" by (auto intro!: power_increasing)
    then show False using k(3) that by linarith
  qed
  then show ?thesis using k by blast
qed

theorem nextPowerOfTwo_least_witness: "\<exists>k. unat (nextPowerOfTwo 100) = 2 ^ k \<and> 100 \<le> (2 :: nat) ^ k"
  using nextPowerOfTwo_least [of 100] by auto

interpretation hi_kv: kv_table hi_inv "\<lambda>h. length (hi_keys h) < 2 ^ 62" hi_map
  "\<lambda>h k v. map_option snd (hi_Put h (Some k) (fst v) (snd v))" "\<lambda>h k. map_option snd (hi_Delete h (Some k))"
proof
  fix h :: HashIndex and k :: bytes and v :: "Handle \<times> u32"
  show "\<exists>h'. map_option snd (hi_Put h (Some k) (fst v) (snd v)) = Some h' \<and> hi_inv h' \<and> hi_map h' = (hi_map h)(k \<mapsto> v)"
    if "hi_inv h" "length (hi_keys h) < 2 ^ 62"
    using hi_Put_ok [OF that, of k "fst v" "snd v"] by auto
  show "\<exists>h'. map_option snd (hi_Delete h (Some k)) = Some h' \<and> hi_inv h' \<and> hi_map h' = (hi_map h)(k := None)" if "hi_inv h"
    using hi_Delete_ok [OF that, of "Some k"] by (auto simp: keyBytes_def)
qed

lemma hi_New_inv:
  assumes "3 \<le> n" "n \<le> 2 ^ 62"
  shows "hi_inv (hi_New n)" "hi_map (hi_New n) = Map.empty"
proof -
  have w: "unat (word_of_int n :: u64) = nat n"
  proof -
    have "uint (word_of_int n :: u64) = n" using assms by (simp add: uint_word_of_int_eq take_bit_int_eq_self)
    then show ?thesis by (simp flip: nat_uint_eq)
  qed
  obtain k where k: "unat (nextPowerOfTwo (word_of_int n)) = 2 ^ k" "nat n \<le> 2 ^ k" "k = 0 \<or> 2 ^ (k - 1) < nat n"
  proof (rule nextPowerOfTwo_cases [of "word_of_int n"], unfold w)
    show "1 \<le> nat n" "nat n \<le> 2 ^ 63" using assms by simp_all
  qed
  have "2 \<le> k"
  proof (rule ccontr)
    assume "\<not> 2 \<le> k"
    then have "k \<le> 1" by simp
    then have "(2 :: nat) ^ k \<le> 2" using power_increasing [of k 1 "2 :: nat"] by simp
    moreover have "3 \<le> nat n" using assms(1) by simp
    ultimately show False using k(2) by linarith
  qed
  moreover have "k < 63"
  proof (rule ccontr)
    assume "\<not> k < 63"
    then have "62 \<le> k - 1" by simp
    then have "(2 :: nat) ^ 62 \<le> 2 ^ (k - 1)" by (rule power_increasing) simp
    moreover have "nat n \<le> 2 ^ 62" using assms(2) by simp
    moreover have "k \<noteq> 0" using \<open>\<not> k < 63\<close> by simp
    ultimately show False using k(3) by linarith
  qed
  ultimately show "hi_inv (hi_New n)" "hi_map (hi_New n) = Map.empty"
    using hi_make_inv [OF k(1)] by (simp_all add: hi_New_def)
qed

text \<open>
  Any history of \<^verbatim>\<open>Put\<close> and \<^verbatim>\<open>Delete\<close> with keys that are not nil, on a \<^verbatim>\<open>HashIndex\<close> made with at
  least three buckets, returns and leaves the index with exactly the map the history builds, unless
  a table of \<open>2 ^ 62\<close> slots was reached on the way.
\<close>

theorem HashIndex_history_refines_map:
  fixes ops :: "(bytes, Handle \<times> u32) kv_op list"
  assumes "3 \<le> n" and "n \<le> 2 ^ 62"
  shows "(\<exists>h'. kv_run (\<lambda>h k v. map_option snd (hi_Put h (Some k) (fst v) (snd v))) (\<lambda>h k. map_option snd (hi_Delete h (Some k)))
      ops (hi_New n) = Some h' \<and> hi_inv h' \<and> hi_map h' = fold kv_step ops Map.empty) \<or>
    (\<exists>m h'. kv_run (\<lambda>h k v. map_option snd (hi_Put h (Some k) (fst v) (snd v))) (\<lambda>h k. map_option snd (hi_Delete h (Some k)))
      (take m ops) (hi_New n) = Some h' \<and> 2 ^ 62 \<le> length (hi_keys h'))"
  using hi_kv.run_refines [OF hi_New_inv(1) [OF assms], of ops] hi_New_inv(2) [OF assms] by (simp add: not_less)

theorem HashIndex_history_refines_map_witness:
  "(\<exists>h'. kv_run (\<lambda>h k v. map_option snd (hi_Put h (Some k) (fst v) (snd v))) (\<lambda>h k. map_option snd (hi_Delete h (Some k)))
      [KPut [1] (wh1, 0), KDel [1]] (hi_New 16) = Some h' \<and> hi_map h' = Map.empty) \<or>
    (\<exists>m h'. kv_run (\<lambda>h k v. map_option snd (hi_Put h (Some k) (fst v) (snd v))) (\<lambda>h k. map_option snd (hi_Delete h (Some k)))
      (take m [KPut [1] (wh1, 0), KDel [1]]) (hi_New 16) = Some h' \<and> 2 ^ 62 \<le> length (hi_keys h'))"
  using HashIndex_history_refines_map [of 16 "[KPut [1] (wh1, 0), KDel [1]]"] by auto

text \<open>
  On a well-formed \<^verbatim>\<open>HashIndex\<close> the lookups, the expiry sweep, the prefix deletion and the prefix scan
  return and agree with those of a \<^verbatim>\<open>shardIndex\<close> over the same keys, handles and expiry times: stored
  hash and stored key length never change an outcome.
\<close>

theorem HashIndex_agrees_with_shardIndex:
  assumes "hi_inv h"
  shows "hi_Get h (Some key) now = map_option (\<lambda>(hdl, ok, _). (hdl, ok)) (si_get (toShard h) key now) \<and>
    map_option (map_prod id toShard) (hi_DeleteExpired h now limit) = si_DeleteExpired (toShard h) now limit \<and>
    map_option (map_prod id toShard) (hi_DeletePrefix h prefix) =
      map_option (map_prod fst id) (si_deletePrefix (toShard h) prefix) \<and>
    hi_ScanPrefix h prefix cursor limit now = si_scanPrefix (toShard h) prefix cursor limit now"
proof (intro conjI)
  let ?s = "toShard h"
  note r = hi_invD(1) [OF assms] and inv = hi_invD(2) [OF assms]
  note d = hi_relD [OF r]
  show "hi_Get h (Some key) now = map_option (\<lambda>(hdl, ok, _). (hdl, ok)) (si_get ?s key now)"
    unfolding hi_Get_ok [OF assms] si_get_ok [OF inv]
    by (cases "si_map ?s key") (auto simp: keyBytes_def hi_map_def)
  show "map_option (map_prod id toShard) (hi_DeleteExpired h now limit) = si_DeleteExpired ?s now limit"
  proof (cases "hi_count h = 0 \<or> limit \<le> 0")
    case True
    then show ?thesis using d(5) by (auto simp: hi_DeleteExpired_def si_DeleteExpired_def)
  next
    case False
    obtain hs s' where e: "si_expireLoop (nat limit) now ?s [] = Some ([] @ hs, s')"
      using si_expireLoop_ok [OF inv] by blast
    obtain h' where "hi_expireLoop (nat limit) now h [] = Some ([] @ hs, h')" "hi_rel h' s'"
      using hi_expireLoop_sim [OF r inv e] by blast
    then show ?thesis using False d(5) e by (simp add: hi_DeleteExpired_def si_DeleteExpired_def hi_rel_def)
  qed
  show "map_option (map_prod id toShard) (hi_DeletePrefix h prefix) = map_option (map_prod fst id) (si_deletePrefix ?s prefix)"
  proof (cases "hi_count h = 0")
    case True
    then show ?thesis using d(5) by (simp add: hi_DeletePrefix_def si_deletePrefix_def)
  next
    case False
    obtain ks hs s' where e: "si_prefixLoop prefix (length (si_keys ?s)) ?s 0 [] [] = Some (([] @ hs, [] @ ks), s')"
      using si_prefixLoop_ok [OF inv refl, of 0 prefix "[]" "[]"] by auto
    obtain h' where "hi_prefixLoop prefix (length (si_keys ?s)) h 0 [] = Some ([] @ hs, h')" "hi_rel h' s'"
      using hi_prefixLoop_sim [OF e r inv refl] by blast
    then show ?thesis using False d e by (simp add: hi_DeletePrefix_def si_deletePrefix_def hi_rel_def)
  qed
  show "hi_ScanPrefix h prefix cursor limit now = si_scanPrefix ?s prefix cursor limit now"
    by (rule hi_ScanPrefix_eq [OF r])
qed

theorem HashIndex_agrees_with_shardIndex_witness:
  "hi_Get (hi_New 8) (Some [1]) 0 = map_option (\<lambda>(hdl, ok, _). (hdl, ok)) (si_get (toShard (hi_New 8)) [1] 0)"
  using HashIndex_agrees_with_shardIndex [OF hi_New_inv(1) [of 8], of "[1]" 0] by simp

lemma hi_map_iff:
  assumes "hi_inv h"
  shows "hi_map h k = Some (a, b) \<longleftrightarrow>
    (\<exists>i < length (hi_keys h). hi_keys h ! i = Some k \<and> en_Handle (hi_buckets h ! i) = a \<and> en_ExpiresAt (hi_buckets h ! i) = b)"
proof -
  have uk: "ukeys (si_slots (toShard h))"
    using hi_invD(2) [OF assms] by (auto simp: si_inv_def si_table_def lp_wf_def)
  have "si_slots (toShard h) ! i = Some (k, a, b) \<longleftrightarrow>
      hi_keys h ! i = Some k \<and> en_Handle (hi_buckets h ! i) = a \<and> en_ExpiresAt (hi_buckets h ! i) = b"
    if "i < length (hi_keys h)" for i
    using that hi_invD(3) [OF assms] by (auto simp: nth_si_slots toShard_def)
  then show ?thesis
    unfolding hi_map_def si_map_def tab_Some [OF uk] using hi_invD(4) [OF assms] by auto
qed

lemma hi_keys_inj:
  assumes "hi_inv h" "i < length (hi_keys h)" "j < length (hi_keys h)" "hi_keys h ! i = Some k" "hi_keys h ! j = Some k"
  shows "i = j"
proof -
  have uk: "ukeys (si_slots (toShard h))"
    using hi_invD(2) [OF assms(1)] by (auto simp: si_inv_def si_table_def lp_wf_def)
  moreover have "\<exists>v. si_slots (toShard h) ! i = Some (k, v)" "\<exists>v. si_slots (toShard h) ! j = Some (k, v)"
    using assms by (simp_all add: nth_si_slots toShard_def)
  ultimately show ?thesis using assms(2,3) hi_invD(4) [OF assms(1)] unfolding ukeys_def by auto
qed

text \<open>
  \<^verbatim>\<open>HashIndex.Snapshot\<close> lists every live key exactly once, with the entry stored for it.
\<close>

theorem HashIndex_Snapshot_complete:
  assumes "hi_inv h"
  shows "distinct (map snd (hi_Snapshot h)) \<and>
    (\<forall>k a b. hi_map h k = Some (a, b) \<longleftrightarrow>
       (\<exists>e. (e, k) \<in> set (hi_Snapshot h) \<and> en_Handle e = a \<and> en_ExpiresAt e = b))"
proof (cases "hi_count h = 0 \<or> hi_buckets h = []")
  case True
  have "hi_map h = Map.empty"
  proof -
    obtain j where j: "si_table j (toShard h)" using hi_invD(2) [OF assms] by (auto simp: si_inv_def)
    have "hi_buckets h \<noteq> []" using j hi_invD(3) [OF assms] by (auto simp: si_table_def toShard_def)
    then show ?thesis using si_map_empty [OF j] True by (simp add: hi_map_def toShard_def)
  qed
  then show ?thesis using True by (simp add: hi_Snapshot_def)
next
  case False
  let ?f = "\<lambda>i. map_option (\<lambda>k. (hi_buckets h ! i, k)) (hi_keys h ! i)"
  have len: "length (hi_buckets h) = length (hi_keys h)" by (rule hi_invD(3) [OF assms])
  have "distinct (map snd (List.map_filter ?f is))" if "distinct is" "set is \<subseteq> {0..<length (hi_keys h)}" for "is"
    using that
  proof (induction "is")
    case (Cons i "is")
    show ?case
    proof (cases "hi_keys h ! i")
      case (Some k)
      have "k \<notin> snd ` set (List.map_filter ?f is)"
      proof
        assume "k \<in> snd ` set (List.map_filter ?f is)"
        then obtain i' where "i' \<in> set is" "hi_keys h ! i' = Some k" by (auto simp: set_map_filter')
        then show False using hi_keys_inj [OF assms, of i i' k] Some Cons.prems by auto
      qed
      then show ?thesis using Cons Some by simp
    qed (use Cons in simp)
  qed simp
  then have "distinct (map snd (hi_Snapshot h))" using False len by (simp add: hi_Snapshot_def)
  moreover have "(e, k) \<in> set (hi_Snapshot h) \<longleftrightarrow> (\<exists>i < length (hi_keys h). hi_keys h ! i = Some k \<and> e = hi_buckets h ! i)" for e k
    using False len by (auto simp: hi_Snapshot_def set_map_filter')
  then have "hi_map h k = Some (a, b) \<longleftrightarrow> (\<exists>e. (e, k) \<in> set (hi_Snapshot h) \<and> en_Handle e = a \<and> en_ExpiresAt e = b)" for k a b
    using hi_map_iff [OF assms, of k a b] by auto
  ultimately show ?thesis by blast
qed

theorem HashIndex_Snapshot_complete_witness: "distinct (map snd (hi_Snapshot (hi_New 8)))"
  using HashIndex_Snapshot_complete [OF hi_New_inv(1) [of 8]] by simp

section \<open>Where the index goes wrong\<close>

text \<open>
  A second \<^verbatim>\<open>Put\<close> of a nil key (the empty key, as the write-ahead log replay passes it) stores the nil slice
  over the key of its own entry: the entry is gone, the count still includes it.
\<close>

lemma HashIndex_nil_key_lost:
  "\<exists>h1 h2. hi_Put (hi_New 8) None wh1 0 = Some (False, h1) \<and> hi_Get h1 None 0 = Some (wh1, True) \<and>
     hi_Put h1 None wh1 0 = Some (True, h2) \<and> hi_Get h2 None 0 = Some (zeroHandle, False) \<and> hi_Count h2 = 1"
proof -
  define r1 where "r1 = hi_Put (hi_New 8) None wh1 0"
  define h1 where "h1 = snd (the r1)"
  define h2 where "h2 = snd (the (hi_Put h1 None wh1 0))"
  have "r1 = Some (False, h1)" unfolding h1_def r1_def by code_simp
  moreover have "hi_Get h1 None 0 = Some (wh1, True)" unfolding h1_def r1_def by code_simp
  moreover have "hi_Put h1 None wh1 0 = Some (True, h2)" unfolding h2_def h1_def r1_def by code_simp
  moreover have "hi_Get h2 None 0 = Some (zeroHandle, False)" unfolding h2_def h1_def r1_def by code_simp
  moreover have "hi_Count h2 = 1" unfolding h2_def h1_def r1_def by code_simp
  ultimately show ?thesis unfolding r1_def by blast
qed

text \<open>
  With one bucket the load test lets the table fill up, and a \<^verbatim>\<open>Get\<close> of any other key never returns.
\<close>

lemma HashIndex_New_1_Get_diverges:
  assumes "key \<noteq> [1]"
  shows "\<exists>h1. hi_Put (hi_New 1) (Some [1]) wh1 0 = Some (False, h1) \<and> hi_Get h1 (Some key) now = None"
proof -
  define h1 where "h1 = snd (the (hi_Put (hi_New 1) (Some [1]) wh1 0))"
  have put: "hi_Put (hi_New 1) (Some [1]) wh1 0 = Some (False, h1)" unfolding h1_def by code_simp
  have k: "hi_keys h1 = [Some [1]]" "hi_mask h1 = 0" unfolding h1_def by code_simp+
  have "probe (hi_hit h1 key) (hi_mask h1) (fnv64 key AND hi_mask h1) = None"
    by (rule probe_diverges [where k = 0]) (use assms in \<open>simp_all add: k hi_hit_def\<close>)
  then have "hi_Get h1 (Some key) now = None" by (simp add: hi_Get_def hi_probe_def keyBytes_def)
  then show ?thesis using put by blast
qed

end
