(* ===== verification/Checkpoint.thy ===== *)
theory Checkpoint
  imports Hash_Index
begin

text \<open>
  \<^verbatim>\<open>internal/arena/persist/superblock.go\<close> and the codec of \<^verbatim>\<open>checkpoint.go\<close>: the metadata header of an arena file
  and the on-disk form of an index snapshot.  An encoder takes the buffer it writes into and returns it.
\<close>

section \<open>Definitions\<close>

datatype persist_error = PBadMagic | PBadVersion | PTooSmall | PCkptBadMagic | PCkptVersion | PCkptTruncated
  | PCkptOverflow | PKeyTooLong

subsection \<open>Superblock\<close>

definition superblockSize :: nat where "superblockSize = 4096"

definition sb_magic :: bytes where
  "sb_magic = [0x48, 0x4F, 0x52, 0x52, 0x45, 0x55, 0x4D, 0]"

definition sb_version :: u32 where "sb_version = 1"

record Superblock =
  sb_Version :: u32
  sb_RegionSize :: u64
  sb_IndexOffset :: u64
  sb_IndexLen :: u64
  sb_WALOffset :: u64
  sb_Flags :: u32
  sb_CheckpointCount :: u64

definition sb_fields :: "Superblock \<Rightarrow> bytes" where
  "sb_fields sb = put_u32 (sb_Version sb) @ put_u64 (sb_RegionSize sb) @ put_u64 (sb_IndexOffset sb) @
     put_u64 (sb_IndexLen sb) @ put_u64 (sb_WALOffset sb) @ put_u32 (sb_Flags sb) @ put_u64 (sb_CheckpointCount sb)"

text \<open>\<open>None\<close> is the panic.\<close>

definition encodeSuperblock :: "bytes \<Rightarrow> Superblock \<Rightarrow> bytes option" where
  "encodeSuperblock buf sb =
    (if length buf < superblockSize then None
     else let b0 = copy_at buf 0 (replicate superblockSize 0); b1 = copy_at b0 0 sb_magic in
       Some (copy_at b1 8 (sb_fields sb)))"

definition decodeSuperblock :: "bytes \<Rightarrow> persist_error + Superblock" where
  "decodeSuperblock buf =
    (if length buf < superblockSize then Inl PTooSmall
     else if slice buf 0 8 \<noteq> sb_magic then Inl PBadMagic
     else let ver = get_u32 (slice buf 8 12) in
       if ver \<noteq> sb_version then Inl PBadVersion
       else Inr \<lparr>sb_Version = ver, sb_RegionSize = get_u64 (slice buf 12 20), sb_IndexOffset = get_u64 (slice buf 20 28),
         sb_IndexLen = get_u64 (slice buf 28 36), sb_WALOffset = get_u64 (slice buf 36 44), sb_Flags = get_u32 (slice buf 44 48),
         sb_CheckpointCount = get_u64 (slice buf 48 56)\<rparr>)"

definition indexCheckpointMaxLen :: "u64 \<Rightarrow> u64" where
  "indexCheckpointMaxLen regionSize =
    (let v = regionSize div 8; v1 = (if v > 1048576 then 1048576 else v) in if v1 < 4096 then 4096 else v1)"

definition walMaxLen :: "u64 \<Rightarrow> u64" where
  "walMaxLen regionSize =
    (let v = regionSize div 4; v1 = (if v > 67108864 then 67108864 else v) in if v1 < 4096 then 4096 else v1)"

subsection \<open>Checkpoint\<close>

definition checkpointMagic :: bytes where "checkpointMagic = [0x49, 0x44, 0x58, 0]"
definition checkpointVersion :: u32 where "checkpointVersion = 1"
definition checkpointHeaderSize :: nat where "checkpointHeaderSize = 4 + 4 + 4"
definition checkpointEntryFixedSize :: nat where "checkpointEntryFixedSize = 8 + 2 + 4 + 4 + 1 + 1 + 4"

lemmas ckpt_sizes = checkpointHeaderSize_def checkpointEntryFixedSize_def

definition checkpointMaxSize :: "u64 \<Rightarrow> u64" where
  "checkpointMaxSize regionSize = indexCheckpointMaxLen regionSize"

definition indexCheckpointOffset :: u64 where
  "indexCheckpointOffset = of_nat superblockSize"

text \<open>The bytes of one entry: the metadata word is cut to its low byte, the expiry time is not written.\<close>

definition entryBytes :: "Entry \<Rightarrow> bytes \<Rightarrow> bytes" where
  "entryBytes e key = put_u64 (en_Hash e) @ put_u16 (of_nat (length key)) @ put_u32 (h_Offset (en_Handle e)) @
     put_u32 (h_Size (en_Handle e)) @ [h_Region (en_Handle e), ucast (h_Meta (en_Handle e))] @
     take 4 key @ replicate (4 - length key) 0 @ drop 4 key"

definition entrySize :: "bytes \<Rightarrow> nat" where
  "entrySize key = checkpointEntryFixedSize + (if length key > 4 then length key - 4 else 0)"

fun encEntries :: "bytes \<Rightarrow> nat \<Rightarrow> (Entry \<times> bytes) list \<Rightarrow> (persist_error + nat) \<times> bytes" where
  "encEntries buf pos [] = (Inr pos, buf)"
| "encEntries buf pos ((e, key) # snap) =
    (if length key > 0xFFFF then (Inl PKeyTooLong, buf)
     else if pos + entrySize key > length buf then (Inl PCkptOverflow, buf)
     else encEntries (copy_at buf pos (entryBytes e key)) (pos + entrySize key) snap)"

definition encodeCheckpoint :: "bytes \<Rightarrow> (Entry \<times> bytes) list \<Rightarrow> (persist_error + nat) \<times> bytes" where
  "encodeCheckpoint buf snap =
    (if length buf < checkpointHeaderSize then (Inl PTooSmall, buf)
     else encEntries (copy_at buf 0 (checkpointMagic @ put_u32 checkpointVersion @ put_u32 (of_nat (length snap))))
            checkpointHeaderSize snap)"

fun decEntries :: "bytes \<Rightarrow> nat \<Rightarrow> nat \<Rightarrow> persist_error + (Entry \<times> bytes) list \<times> nat" where
  "decEntries buf 0 pos = Inr ([], pos)"
| "decEntries buf (Suc n) pos =
    (if pos + checkpointEntryFixedSize > length buf then Inl PCkptTruncated
     else
       let entry = drop pos buf;
           keyLen = unat (get_u16 (slice entry 8 10));
           inl = (if keyLen < 4 then keyLen else 4);
           pos1 = pos + checkpointEntryFixedSize
       in if keyLen > 4 \<and> pos1 + (keyLen - 4) > length buf then Inl PCkptTruncated
          else
            let key = slice entry 20 (20 + inl) @ slice buf pos1 (pos1 + (keyLen - 4));
                e = \<lparr>en_Hash = get_u64 (slice entry 0 8), en_KeyLen = of_nat keyLen,
                     en_Handle = \<lparr>h_Offset = get_u32 (slice entry 10 14), h_Size = get_u32 (slice entry 14 18),
                       h_Meta = ucast (entry ! 19), h_Region = entry ! 18\<rparr>, en_ExpiresAt = 0\<rparr>
            in case decEntries buf n (pos1 + (keyLen - 4)) of
                 Inl err \<Rightarrow> Inl err
               | Inr (out, fin) \<Rightarrow> Inr ((e, key) # out, fin))"

definition decodeCheckpoint :: "bytes \<Rightarrow> persist_error + (Entry \<times> bytes) list \<times> nat" where
  "decodeCheckpoint buf =
    (if length buf < checkpointHeaderSize then Inl PTooSmall
     else if slice buf 0 4 \<noteq> checkpointMagic then Inl PCkptBadMagic
     else if get_u32 (slice buf 4 8) \<noteq> checkpointVersion then Inl PCkptVersion
     else decEntries buf (unat (get_u32 (slice buf 8 12))) checkpointHeaderSize)"

section \<open>Superblock round trip\<close>

lemma length_sb_magic: "length sb_magic = 8"
  by (simp add: sb_magic_def)

lemma length_sb_fields [simp]: "length (sb_fields sb) = 48"
  by (simp add: sb_fields_def)

lemma encodeSuperblock_eq:
  assumes "4096 \<le> length buf"
  shows "encodeSuperblock buf sb = Some (sb_magic @ sb_fields sb @ replicate 4040 0 @ drop 4096 buf)"
proof -
  have "copy_at (copy_at (copy_at buf 0 (replicate 4096 0)) 0 sb_magic) 8 (sb_fields sb) =
      sb_magic @ sb_fields sb @ drop 56 (replicate 4096 0) @ drop 4096 buf"
    by (simp add: copy_at_def sb_magic_def)
  moreover have "drop 56 (replicate 4096 (0 :: u8)) = replicate 4040 0" by simp
  ultimately show ?thesis using assms by (simp add: encodeSuperblock_def superblockSize_def)
qed

lemma superblock_roundtrip:
  assumes "4096 \<le> length buf" "encodeSuperblock buf sb = Some out"
  shows "decodeSuperblock out = (if sb_Version sb = sb_version then Inr sb else Inl PBadVersion)" "length out = length buf"
proof -
  have out: "out = sb_magic @ sb_fields sb @ replicate 4040 0 @ drop 4096 buf" using assms encodeSuperblock_eq by simp
  show "length out = length buf" using assms(1) by (simp add: out sb_magic_def)
  have m: "slice out 0 8 = sb_magic" by (simp add: out slice_def sb_magic_def)
  have f: "slice out (8 + a) (8 + b) = slice (sb_fields sb) a b" if "b \<le> 48" for a b
    using that by (simp add: out slice_def length_sb_magic)
  have s: "slice (sb_fields sb) 0 4 = put_u32 (sb_Version sb)" "slice (sb_fields sb) 4 12 = put_u64 (sb_RegionSize sb)"
    "slice (sb_fields sb) 12 20 = put_u64 (sb_IndexOffset sb)" "slice (sb_fields sb) 20 28 = put_u64 (sb_IndexLen sb)"
    "slice (sb_fields sb) 28 36 = put_u64 (sb_WALOffset sb)" "slice (sb_fields sb) 36 40 = put_u32 (sb_Flags sb)"
    "slice (sb_fields sb) 40 48 = put_u64 (sb_CheckpointCount sb)"
    by (simp_all add: sb_fields_def slice_def)
  show "decodeSuperblock out = (if sb_Version sb = sb_version then Inr sb else Inl PBadVersion)"
    using f [of 4 0] f [of 12 4] f [of 20 12] f [of 28 20] f [of 36 28] f [of 40 36] f [of 48 40] s m \<open>length out = length buf\<close> assms(1)
    by (simp add: decodeSuperblock_def superblockSize_def)
qed

section \<open>Checkpoint round trip\<close>

lemma length_entryBytes: "length (entryBytes e key) = entrySize key"
  by (simp add: entryBytes_def entrySize_def ckpt_sizes)

definition snapBytes :: "(Entry \<times> bytes) list \<Rightarrow> bytes" where
  "snapBytes snap = concat (map (\<lambda>(e, k). entryBytes e k) snap)"

lemma encEntries_ok:
  assumes "encEntries buf pos snap = (Inr n, out)" "pos \<le> length buf"
  shows "out = take pos buf @ snapBytes snap @ drop n buf" "n = pos + length (snapBytes snap)" "n \<le> length buf"
    "\<forall>(e, k) \<in> set snap. length k \<le> 65535"
proof -
  have "out = take pos buf @ snapBytes snap @ drop n buf \<and> n = pos + length (snapBytes snap) \<and> n \<le> length buf \<and>
    (\<forall>(e, k) \<in> set snap. length k \<le> 65535)"
    using assms
  proof (induction snap arbitrary: buf pos)
    case Nil
    then show ?case by (simp add: snapBytes_def)
  next
    case (Cons a snap)
    obtain e k where a: "a = (e, k)" by force
    have c: "length k \<le> 65535" "pos + entrySize k \<le> length buf"
      "encEntries (copy_at buf pos (entryBytes e k)) (pos + entrySize k) snap = (Inr n, out)"
      using Cons.prems(1) by (auto simp: a split: if_splits)
    let ?b = "copy_at buf pos (entryBytes e k)"
    have b: "length ?b = length buf" using c(2) by (simp add: length_entryBytes)
    have ih: "out = take (pos + entrySize k) ?b @ snapBytes snap @ drop n ?b" "n = pos + entrySize k + length (snapBytes snap)" "n \<le> length buf"
      "\<forall>(e, k) \<in> set snap. length k \<le> 65535"
      using Cons.IH [OF c(3)] c(2) b by simp_all
    have "take (pos + entrySize k) ?b = take pos buf @ entryBytes e k" "drop n ?b = drop n buf"
      using c(2) ih(2) by (simp_all add: copy_at_def length_entryBytes min_def ac_simps)
    then show ?case using ih c(1) by (simp add: a snapBytes_def length_entryBytes)
  qed
  then show "out = take pos buf @ snapBytes snap @ drop n buf" "n = pos + length (snapBytes snap)" "n \<le> length buf"
    "\<forall>(e, k) \<in> set snap. length k \<le> 65535" by auto
qed

text \<open>What a checkpoint keeps of an entry.\<close>

definition ckpt_entry :: "Entry \<Rightarrow> bytes \<Rightarrow> Entry" where
  "ckpt_entry e key = \<lparr>en_Hash = en_Hash e, en_KeyLen = of_nat (length key),
     en_Handle = (en_Handle e)\<lparr>h_Meta := ucast (ucast (h_Meta (en_Handle e)) :: u8)\<rparr>, en_ExpiresAt = 0\<rparr>"

lemma entry_fields:
  assumes b_def: "b = entryBytes e key @ post"
  shows "slice b 0 8 = put_u64 (en_Hash e)" "slice b 8 10 = put_u16 (of_nat (length key))"
    "slice b 10 14 = put_u32 (h_Offset (en_Handle e))" "slice b 14 18 = put_u32 (h_Size (en_Handle e))"
    "b ! 18 = h_Region (en_Handle e)" "b ! 19 = ucast (h_Meta (en_Handle e))"
    "slice b 20 (20 + (if length key < 4 then length key else 4)) = take 4 key"
    "slice b 24 (24 + (length key - 4)) = drop 4 key"
proof -
  show "slice b 0 8 = put_u64 (en_Hash e)" "slice b 8 10 = put_u16 (of_nat (length key))"
    "slice b 10 14 = put_u32 (h_Offset (en_Handle e))" "slice b 14 18 = put_u32 (h_Size (en_Handle e))"
    by (simp_all add: b_def entryBytes_def slice_def)
  show "b ! 18 = h_Region (en_Handle e)" "b ! 19 = ucast (h_Meta (en_Handle e))"
    by (simp_all add: b_def entryBytes_def nth_append)
  show "slice b 20 (20 + (if length key < 4 then length key else 4)) = take 4 key"
    by (simp add: b_def entryBytes_def slice_def)
  show "slice b 24 (24 + (length key - 4)) = drop 4 key"
    by (cases "length key < 4") (simp_all add: b_def entryBytes_def slice_def)
qed

lemma decEntries_snap:
  assumes "\<forall>(e, k) \<in> set snap. length k \<le> 65535"
  shows "decEntries (pre @ snapBytes snap @ post) (length snap) (length pre) =
    Inr (map (\<lambda>(e, k). (ckpt_entry e k, k)) snap, length pre + length (snapBytes snap))"
  using assms
proof (induction snap arbitrary: pre)
  case Nil
  then show ?case by (simp add: snapBytes_def)
next
  case (Cons a snap)
  obtain e k where a: "a = (e, k)" by force
  have k: "length k \<le> 65535" using Cons.prems by (simp add: a)
  let ?b = "entryBytes e k @ snapBytes snap @ post" and ?p = "length pre + checkpointEntryFixedSize"
  note f = entry_fields [OF refl, of e k "snapBytes snap @ post"]
  have u: "unat (of_nat (length k) :: u16) = length k" using k by (simp add: unat_of_nat_u16)
  have len: "\<not> length (pre @ ?b) < ?p" "\<not> (4 < length k \<and> length (pre @ ?b) < ?p + (length k - 4))"
    using length_entryBytes [of e k] by (auto simp: entrySize_def)
  have sl: "slice (pre @ ?b) ?p (?p + (length k - 4)) = drop 4 k" using f(8) by (simp add: slice_def ckpt_sizes)
  have nx: "?p + (length k - 4) = length (pre @ entryBytes e k)" by (simp add: length_entryBytes entrySize_def)
  have d: "drop (length pre) (pre @ ?b) = ?b" by simp
  have ce: "ckpt_entry e k = \<lparr>en_Hash = en_Hash e, en_KeyLen = of_nat (length k), en_Handle = \<lparr>h_Offset = h_Offset (en_Handle e),
      h_Size = h_Size (en_Handle e), h_Meta = ucast (ucast (h_Meta (en_Handle e)) :: u8), h_Region = h_Region (en_Handle e)\<rparr>, en_ExpiresAt = 0\<rparr>"
    by (cases "en_Handle e") (simp add: ckpt_entry_def)
  have "decEntries (pre @ ?b) (Suc (length snap)) (length pre) =
      (case decEntries (pre @ ?b) (length snap) (?p + (length k - 4)) of
         Inl err \<Rightarrow> Inl err | Inr (out, fin) \<Rightarrow> Inr ((ckpt_entry e k, k) # out, fin))"
    unfolding decEntries.simps Let_def d f(1-6) get_put u if_not_P [OF len(1)] if_not_P [OF len(2)] f(7) sl
    by (simp only: append_take_drop_id ce)
  moreover have "decEntries ((pre @ entryBytes e k) @ snapBytes snap @ post) (length snap) (length (pre @ entryBytes e k)) =
      Inr (map (\<lambda>(e, k). (ckpt_entry e k, k)) snap, length (pre @ entryBytes e k) + length (snapBytes snap))"
    by (rule Cons.IH) (use Cons.prems in simp)
  moreover have "snapBytes (a # snap) = entryBytes e k @ snapBytes snap" by (simp add: a snapBytes_def)
  ultimately show ?case unfolding nx by (simp add: a)
qed

lemma checkpoint_roundtrip:
  assumes "encodeCheckpoint buf snap = (Inr n, out)" "length snap < 4294967296"
  shows "length out = length buf" "n \<le> length buf" "take n out = checkpointMagic @ put_u32 checkpointVersion @ put_u32 (of_nat (length snap)) @ snapBytes snap"
    and "decodeCheckpoint (take n out @ post) = Inr (map (\<lambda>(e, k). (ckpt_entry e k, k)) snap, n)"
proof -
  let ?h = "checkpointMagic @ put_u32 checkpointVersion @ put_u32 (of_nat (length snap))"
  have h: "length ?h = 12" by (simp add: checkpointMagic_def)
  have e: "12 \<le> length buf" "encEntries (copy_at buf 0 ?h) 12 snap = (Inr n, out)"
    using assms(1) by (simp_all add: encodeCheckpoint_def ckpt_sizes split: if_splits)
  have lb: "length (copy_at buf 0 ?h) = length buf" using e(1) h by simp
  note o = encEntries_ok [OF e(2), unfolded lb, OF e(1)]
  have t: "take 12 (copy_at buf 0 ?h) = ?h" using h by (simp add: copy_at_def checkpointMagic_def)
  show "length out = length buf" "n \<le> length buf" using o(1-3) lb h unfolding t by simp_all
  show tn: "take n out = checkpointMagic @ put_u32 checkpointVersion @ put_u32 (of_nat (length snap)) @ snapBytes snap"
    using o(1,2) h unfolding t by simp
  have m: "slice (take n out @ post) 0 4 = checkpointMagic" "slice (take n out @ post) 4 8 = put_u32 checkpointVersion"
    "slice (take n out @ post) 8 12 = put_u32 (of_nat (length snap))"
    unfolding tn by (simp_all add: slice_def checkpointMagic_def)
  have "decEntries (?h @ snapBytes snap @ post) (length snap) (length ?h) =
      Inr (map (\<lambda>(e, k). (ckpt_entry e k, k)) snap, length ?h + length (snapBytes snap))"
    by (rule decEntries_snap [OF o(4)])
  then have "decEntries (take n out @ post) (length snap) 12 = Inr (map (\<lambda>(e, k). (ckpt_entry e k, k)) snap, n)"
    unfolding tn h using o(2) by simp
  then show "decodeCheckpoint (take n out @ post) = Inr (map (\<lambda>(e, k). (ckpt_entry e k, k)) snap, n)"
    using m assms(2) h o(2) tn by (simp add: decodeCheckpoint_def ckpt_sizes unat_of_nat_u32)
qed

section \<open>Properties\<close>

text \<open>
  C11. The metadata of an arena file survives the disk: a superblock of the current version decodes to itself
  whatever the buffer held before, and a snapshot that fits the checkpoint area decodes, with anything behind
  it, to the same keys in the same order with the same hashes, offsets, sizes and regions, of which the
  metadata word keeps its low byte only and the expiry time is lost.
\<close>

theorem Persist_metadata_roundtrip:
  assumes "4096 \<le> length buf" "sb_Version sb = sb_version" "encodeCheckpoint buf' snap = (Inr n, out)" "length snap < 4294967296"
  shows "(\<exists>b. encodeSuperblock buf sb = Some b \<and> length b = length buf \<and> decodeSuperblock b = Inr sb) \<and>
    decodeCheckpoint (take n out @ post) = Inr (map (\<lambda>(e, k). (\<lparr>en_Hash = en_Hash e, en_KeyLen = of_nat (length k),
      en_Handle = (en_Handle e)\<lparr>h_Meta := ucast (ucast (h_Meta (en_Handle e)) :: u8)\<rparr>, en_ExpiresAt = 0\<rparr>, k)) snap, n)"
  using encodeSuperblock_eq [OF assms(1), of sb] superblock_roundtrip [OF assms(1), of sb] assms(2)
    checkpoint_roundtrip(4) [OF assms(3,4), of post] unfolding ckpt_entry_def by auto

theorem Persist_metadata_roundtrip_witness:
  "\<exists>n out. encodeCheckpoint (replicate 64 0) [(zeroEntry, [1, 2, 3, 4, 5])] = (Inr n, out) \<and>
     decodeCheckpoint (take n out @ [7]) = Inr ([(zeroEntry\<lparr>en_KeyLen := 5\<rparr>, [1, 2, 3, 4, 5])], n)"
proof -
  obtain n out where e: "encodeCheckpoint (replicate 64 0) [(zeroEntry, [1, 2, 3, 4, 5])] = (Inr n, out)"
    by (auto simp: encodeCheckpoint_def ckpt_sizes entrySize_def copy_at_def checkpointMagic_def)
  have "4096 \<le> length (replicate 4096 (0 :: u8))" by simp
  note Persist_metadata_roundtrip [OF this _ e, of "\<lparr>sb_Version = 1, sb_RegionSize = 0, sb_IndexOffset = 0, sb_IndexLen = 0,
    sb_WALOffset = 0, sb_Flags = 0, sb_CheckpointCount = 0\<rparr>" "[7]"]
  then show ?thesis using e by (simp add: sb_version_def zeroEntry_def zeroHandle_def)
qed

end
