(* ===== verification/Wal.thy ===== *)
theory Wal
  imports Horreum_Prelude
begin

text \<open>
  \<^verbatim>\<open>internal/arena/persist/wal.go\<close>: the write-ahead log.  The log's file is its bytes; \<open>wal_io\<close> says which of the
  file operations of a call succeed, and for a failing write how many bytes still reached the file.  Key and
  value of a record that was read are nil when their length is zero.
\<close>

section \<open>Definitions\<close>

definition walOpSet :: u8 where "walOpSet = 1"
definition walOpDel :: u8 where "walOpDel = 2"
definition walOpSetEx :: u8 where "walOpSetEx = 3"

lemmas wal_ops = walOpSet_def walOpDel_def walOpSetEx_def

definition walHeaderSizeSet :: nat where "walHeaderSizeSet = 4 + 1 + 2 + 4 + 4 + 4 + 1"
definition walHeaderSizeSetEx :: nat where "walHeaderSizeSetEx = 4 + 1 + 2 + 4 + 4 + 4 + 1 + 4"
definition walHeaderSizeDel :: nat where "walHeaderSizeDel = 4 + 1 + 2 + 4"

lemmas wal_sizes = walHeaderSizeSet_def walHeaderSizeSetEx_def walHeaderSizeDel_def

definition walMagic :: bytes where "walMagic = [0x57, 0x41, 0x4C, 0]"

datatype wal_error = WalIO | WalUnknownOp | WalFull | WalEOF | WalBadMagic

record wal_io =
  io_open :: bool
  io_trunc :: bool
  io_write :: "nat \<Rightarrow> nat option"
  io_sync :: bool

record WAL =
  wl_file :: bytes
  wl_off :: nat
  wl_maxOff :: nat

record arenaHandleLike =
  ah_Offset :: u32
  ah_Size :: u32
  ah_Region :: u8

text \<open>\<open>None\<close> is the result -1.\<close>

definition walHeaderSize :: "u8 \<Rightarrow> nat option" where
  "walHeaderSize op =
    (if op = walOpSet then Some walHeaderSizeSet
     else if op = walOpSetEx then Some walHeaderSizeSetEx
     else if op = walOpDel then Some walHeaderSizeDel
     else None)"

lemma walHeaderSize_pos: "walHeaderSize op = Some n \<Longrightarrow> 11 \<le> n"
  by (auto simp: walHeaderSize_def wal_sizes split: if_splits)

subsection \<open>Opening\<close>

text \<open>The walk over the records: where the last complete one ends.\<close>

function walkTail :: "bytes \<Rightarrow> nat \<Rightarrow> nat" where
  "walkTail d pos =
    (if pos < length d
     then let rem = length d - pos in
       if rem < walHeaderSizeDel then pos
       else case walHeaderSize (d ! (pos + 4)) of
         None \<Rightarrow> pos
       | Some hdrSize \<Rightarrow>
           if rem < hdrSize then pos
           else let keyLen = unat (get_u16 (slice d (pos + 5) (pos + 7)));
                    valLen = unat (get_u32 (slice d (pos + 7) (pos + 11)));
                    recLen = hdrSize + keyLen + valLen
                in if rem < recLen then pos else walkTail d (pos + recLen)
     else pos)"
  by auto
termination
  by (relation "measure (\<lambda>(d, pos). length d - pos)") (auto dest: walHeaderSize_pos)

declare walkTail.simps [simp del]

definition repairTail :: "wal_io \<Rightarrow> WAL \<Rightarrow> wal_error + WAL" where
  "repairTail io w =
    (if wl_off w = 0 then Inr w
     else let d = take (wl_off w) (wl_file w); pos = walkTail d 0 in
       if pos < length d
       then if io_trunc io then Inr (w\<lparr>wl_file := take pos (wl_file w), wl_off := pos\<rparr>) else Inl WalIO
       else Inr w)"

definition OpenWAL :: "wal_io \<Rightarrow> bytes \<Rightarrow> nat \<Rightarrow> wal_error + WAL" where
  "OpenWAL io file maxLen =
    (if \<not> io_open io then Inl WalIO
     else repairTail io \<lparr>wl_file = file, wl_off = length file, wl_maxOff = maxLen\<rparr>)"

definition wal_Offset :: "WAL \<Rightarrow> nat" where
  "wal_Offset w = wl_off w"

subsection \<open>Appending\<close>

text \<open>\<^verbatim>\<open>os.File.WriteAt\<close>: a write past the end fills the gap with zeros.\<close>

definition writeAt :: "bytes \<Rightarrow> nat \<Rightarrow> bytes \<Rightarrow> bytes" where
  "writeAt f off bs = take off f @ replicate (off - length f) 0 @ bs @ drop (off + length bs) f"

text \<open>The \<open>i\<close>th write of a call.\<close>

definition wal_write :: "wal_io \<Rightarrow> nat \<Rightarrow> bytes \<Rightarrow> nat \<Rightarrow> bytes \<Rightarrow> bool \<times> bytes" where
  "wal_write io i f off bs =
    (case io_write io i of None \<Rightarrow> (True, writeAt f off bs) | Some k \<Rightarrow> (False, writeAt f off (take k bs)))"

definition walHeader :: "u8 \<Rightarrow> bytes \<Rightarrow> bytes \<Rightarrow> arenaHandleLike \<Rightarrow> u32 \<Rightarrow> bytes" where
  "walHeader op key val h expiresAt = walMagic @ [op] @ put_u16 (of_nat (length key)) @
     (if op = walOpSet \<or> op = walOpSetEx
      then put_u32 (of_nat (length val)) @ put_u32 (ah_Offset h) @ put_u32 (ah_Size h) @ [ah_Region h] @
           (if op = walOpSetEx then put_u32 expiresAt else [])
      else put_u32 0)"

definition appendRecord :: "wal_io \<Rightarrow> WAL \<Rightarrow> u8 \<Rightarrow> bytes \<Rightarrow> bytes \<Rightarrow> arenaHandleLike \<Rightarrow> u32 \<Rightarrow> (wal_error + nat) \<times> WAL" where
  "appendRecord io w op key val h expiresAt =
    (case walHeaderSize op of
       None \<Rightarrow> (Inl WalUnknownOp, w)
     | Some hdrSize \<Rightarrow>
         let recLen = hdrSize + length key + length val in
         if wl_off w + recLen > wl_maxOff w then (Inl WalFull, w)
         else case wal_write io 0 (wl_file w) (wl_off w) (walHeader op key val h expiresAt) of (ok0, f0) \<Rightarrow>
           if \<not> ok0 then (Inl WalIO, w\<lparr>wl_file := f0\<rparr>)
           else case (if length key > 0 then wal_write io 1 f0 (wl_off w + hdrSize) key else (True, f0)) of (ok1, f1) \<Rightarrow>
             if \<not> ok1 then (Inl WalIO, w\<lparr>wl_file := f1\<rparr>)
             else case (if (op = walOpSet \<or> op = walOpSetEx) \<and> length val > 0
                        then wal_write io 2 f1 (wl_off w + hdrSize + length key) val else (True, f1)) of (ok2, f2) \<Rightarrow>
               if \<not> ok2 then (Inl WalIO, w\<lparr>wl_file := f2\<rparr>)
               else (Inr (wl_off w), w\<lparr>wl_file := f2, wl_off := wl_off w + recLen\<rparr>))"

definition AppendSet :: "wal_io \<Rightarrow> WAL \<Rightarrow> bytes \<Rightarrow> bytes \<Rightarrow> arenaHandleLike \<Rightarrow> (wal_error + nat) \<times> WAL" where
  "AppendSet io w key val h = appendRecord io w walOpSet key val h 0"

definition AppendSetEx :: "wal_io \<Rightarrow> WAL \<Rightarrow> bytes \<Rightarrow> bytes \<Rightarrow> arenaHandleLike \<Rightarrow> u32 \<Rightarrow> (wal_error + nat) \<times> WAL" where
  "AppendSetEx io w key val h expiresAt = appendRecord io w walOpSetEx key val h expiresAt"

definition AppendDel :: "wal_io \<Rightarrow> WAL \<Rightarrow> bytes \<Rightarrow> (wal_error + nat) \<times> WAL" where
  "AppendDel io w key = appendRecord io w walOpDel key [] \<lparr>ah_Offset = 0, ah_Size = 0, ah_Region = 0\<rparr> 0"

definition wal_Sync :: "wal_io \<Rightarrow> WAL \<Rightarrow> wal_error + unit" where
  "wal_Sync io w = (if io_sync io then Inr () else Inl WalIO)"

definition Rotate :: "wal_io \<Rightarrow> WAL \<Rightarrow> (wal_error + unit) \<times> WAL" where
  "Rotate io w = (if io_trunc io then (Inr (), w\<lparr>wl_file := [], wl_off := 0\<rparr>) else (Inl WalIO, w))"

subsection \<open>Reading\<close>

record WALRecord =
  wr_Op :: u8
  wr_Key :: "bytes option"
  wr_Value :: "bytes option"
  wr_Offset :: u32
  wr_Size :: u32
  wr_Region :: u8
  wr_ExpiresAt :: u32

definition nilIfEmpty :: "bytes \<Rightarrow> bytes option" where
  "nilIfEmpty bs = (if length bs = 0 then None else Some bs)"

text \<open>\<^verbatim>\<open>Next\<close> at offset \<open>off\<close>, with the offset after the record.  A read past the end of the file is an error.\<close>

definition wal_Next :: "bytes \<Rightarrow> nat \<Rightarrow> nat \<Rightarrow> wal_error + WALRecord \<times> nat" where
  "wal_Next f off fin =
    (if off \<ge> fin then Inl WalEOF
     else if length f < off + walHeaderSizeDel then Inl WalEOF
     else if slice f off (off + 4) \<noteq> walMagic then Inl WalBadMagic
     else let op = f ! (off + 4) in
       case walHeaderSize op of
         None \<Rightarrow> Inl WalUnknownOp
       | Some hdrSize \<Rightarrow>
           if length f < off + hdrSize then Inl WalEOF
           else let keyLen = unat (get_u16 (slice f (off + 5) (off + 7)));
                    valLen = unat (get_u32 (slice f (off + 7) (off + 11)));
                    recLen = hdrSize + keyLen + valLen;
                    isSet = (op = walOpSet \<or> op = walOpSetEx)
                in if off + recLen > fin then Inl WalEOF
                   else if keyLen > 0 \<and> length f < off + hdrSize + keyLen then Inl WalEOF
                   else if isSet \<and> valLen > 0 \<and> length f < off + hdrSize + keyLen + valLen then Inl WalEOF
                   else Inr (\<lparr>wr_Op = op,
                       wr_Key = nilIfEmpty (slice f (off + hdrSize) (off + hdrSize + keyLen)),
                       wr_Value = (if isSet then nilIfEmpty (slice f (off + hdrSize + keyLen) (off + recLen)) else None),
                       wr_Offset = (if isSet then get_u32 (slice f (off + 11) (off + 15)) else 0),
                       wr_Size = (if isSet then get_u32 (slice f (off + 15) (off + 19)) else 0),
                       wr_Region = (if isSet then f ! (off + 19) else 0),
                       wr_ExpiresAt = (if op = walOpSetEx then get_u32 (slice f (off + 20) (off + 24)) else 0)\<rparr>, off + recLen))"

lemma wal_Next_progress: "wal_Next f off fin = Inr (r, off') \<Longrightarrow> off < off' \<and> off' \<le> fin"
  by (auto simp: wal_Next_def Let_def split: if_splits option.splits dest: walHeaderSize_pos)

text \<open>The records an iterator returns before its first error.\<close>

function walRecords :: "bytes \<Rightarrow> nat \<Rightarrow> nat \<Rightarrow> WALRecord list" where
  "walRecords f off fin =
    (case wal_Next f off fin of Inl _ \<Rightarrow> [] | Inr (r, off') \<Rightarrow> r # walRecords f off' fin)"
  by auto
termination
  by (relation "measure (\<lambda>(f, off, fin). fin - off)") (auto dest: wal_Next_progress)

declare walRecords.simps [simp del]

definition wal_Iterate :: "WAL \<Rightarrow> nat \<Rightarrow> WALRecord list" where
  "wal_Iterate w from_off = walRecords (wl_file w) from_off (wl_off w)"

section \<open>Records on disk\<close>

text \<open>What the three append operations log, the bytes of it, and the record an iterator returns for it.\<close>

datatype logged = LSet bytes bytes arenaHandleLike | LSetEx bytes bytes arenaHandleLike u32 | LDel bytes

definition noHandle :: arenaHandleLike where
  "noHandle = \<lparr>ah_Offset = 0, ah_Size = 0, ah_Region = 0\<rparr>"

fun l_op :: "logged \<Rightarrow> u8" where
  "l_op (LSet _ _ _) = walOpSet" | "l_op (LSetEx _ _ _ _) = walOpSetEx" | "l_op (LDel _) = walOpDel"

fun l_key :: "logged \<Rightarrow> bytes" where
  "l_key (LSet k _ _) = k" | "l_key (LSetEx k _ _ _) = k" | "l_key (LDel k) = k"

fun l_val :: "logged \<Rightarrow> bytes" where
  "l_val (LSet _ v _) = v" | "l_val (LSetEx _ v _ _) = v" | "l_val (LDel _) = []"

fun l_handle :: "logged \<Rightarrow> arenaHandleLike" where
  "l_handle (LSet _ _ h) = h" | "l_handle (LSetEx _ _ h _) = h" | "l_handle (LDel _) = noHandle"

fun l_expires :: "logged \<Rightarrow> u32" where
  "l_expires (LSetEx _ _ _ e) = e" | "l_expires _ = 0"

definition enc :: "logged \<Rightarrow> bytes" where
  "enc l = walHeader (l_op l) (l_key l) (l_val l) (l_handle l) (l_expires l) @ l_key l @ l_val l"

definition dec :: "logged \<Rightarrow> WALRecord" where
  "dec l = \<lparr>wr_Op = l_op l, wr_Key = nilIfEmpty (l_key l), wr_Value = nilIfEmpty (l_val l),
     wr_Offset = ah_Offset (l_handle l), wr_Size = ah_Size (l_handle l), wr_Region = ah_Region (l_handle l),
     wr_ExpiresAt = l_expires l\<rparr>"

definition fits :: "logged \<Rightarrow> bool" where
  "fits l \<longleftrightarrow> length (l_key l) < 65536 \<and> length (l_val l) < 4294967296"

definition hdrLen :: "logged \<Rightarrow> nat" where
  "hdrLen l = (case l of LSet _ _ _ \<Rightarrow> 20 | LSetEx _ _ _ _ \<Rightarrow> 24 | LDel _ \<Rightarrow> 11)"

lemma walHeaderSize_op: "walHeaderSize (l_op l) = Some (hdrLen l)"
  by (cases l) (simp_all add: walHeaderSize_def wal_ops wal_sizes hdrLen_def)

lemma length_header: "length (walHeader (l_op l) (l_key l) (l_val l) (l_handle l) (l_expires l)) = hdrLen l"
  by (cases l) (simp_all add: walHeader_def walMagic_def wal_ops hdrLen_def)

lemma length_enc: "length (enc l) = hdrLen l + length (l_key l) + length (l_val l)"
  by (simp add: enc_def length_header)

lemma hdrLen_min: "11 \<le> hdrLen l"
  by (cases l) (simp_all add: hdrLen_def)

lemma enc_fields:
  shows "slice (enc l @ post) 0 4 = walMagic" "(enc l @ post) ! 4 = l_op l"
    "slice (enc l @ post) 5 7 = put_u16 (of_nat (length (l_key l)))"
    "slice (enc l @ post) 7 11 = put_u32 (of_nat (length (l_val l)))"
    "slice (enc l @ post) (hdrLen l) (hdrLen l + length (l_key l)) = l_key l"
    "slice (enc l @ post) (hdrLen l + length (l_key l)) (hdrLen l + length (l_key l) + length (l_val l)) = l_val l"
proof -
  show "slice (enc l @ post) 0 4 = walMagic" "(enc l @ post) ! 4 = l_op l"
    "slice (enc l @ post) 5 7 = put_u16 (of_nat (length (l_key l)))"
    "slice (enc l @ post) 7 11 = put_u32 (of_nat (length (l_val l)))"
    by (cases l; simp add: enc_def walHeader_def walMagic_def slice_def wal_ops)+
  show "slice (enc l @ post) (hdrLen l) (hdrLen l + length (l_key l)) = l_key l"
    "slice (enc l @ post) (hdrLen l + length (l_key l)) (hdrLen l + length (l_key l) + length (l_val l)) = l_val l"
    unfolding enc_def by (simp_all add: slice_def length_header)
qed

lemma enc_set_fields:
  assumes "l_op l = walOpSet \<or> l_op l = walOpSetEx"
  shows "slice (enc l @ post) 11 15 = put_u32 (ah_Offset (l_handle l))" "slice (enc l @ post) 15 19 = put_u32 (ah_Size (l_handle l))"
    "(enc l @ post) ! 19 = ah_Region (l_handle l)" "l_op l = walOpSetEx \<Longrightarrow> slice (enc l @ post) 20 24 = put_u32 (l_expires l)"
  using assms by (cases l; simp add: enc_def walHeader_def walMagic_def slice_def wal_ops nth_append)+

text \<open>Reading at an offset is reading the rest of the file.\<close>

lemma slice_shift: "slice (pre @ f) (length pre + a) (length pre + b) = slice f a b"
  by (simp add: slice_def)

lemma wal_Next_shift:
  "wal_Next (pre @ f) (length pre) (length pre + n) = map_sum id (apsnd ((+) (length pre))) (wal_Next f 0 n)"
proof -
  have s0: "slice (pre @ f) (length pre) (length pre + b) = slice f 0 b" for b using slice_shift [of pre f 0 b] by simp
  show ?thesis
    unfolding wal_Next_def
    by (simp only: s0 slice_shift nth_append_length_plus length_append add_0_left add.assoc add_less_cancel_left
          add_le_cancel_left Let_def)
      (auto simp: slice_shift add.assoc split: option.splits if_splits)
qed

lemma unat_lens:
  assumes "fits l"
  shows "unat (of_nat (length (l_key l)) :: u16) = length (l_key l)" "unat (of_nat (length (l_val l)) :: u32) = length (l_val l)"
  using assms by (simp_all add: fits_def unat_of_nat_u16 unat_of_nat_u32)

lemma wal_Next_enc:
  assumes "fits l" "length (enc l) \<le> n"
  shows "wal_Next (enc l @ post) 0 n = Inr (dec l, length (enc l))"
proof -
  note u = unat_lens [OF assms(1)] and le = length_enc [of l] and mn = hdrLen_min [of l]
  have len: "11 \<le> length (enc l @ post)" "hdrLen l \<le> length (enc l @ post)" using le mn by auto
  have n: "0 < n" using assms(2) le mn by linarith
  note f = enc_fields [of l post]
  show ?thesis
  proof (cases "l_op l = walOpSet \<or> l_op l = walOpSetEx")
    case True
    then show ?thesis
      using assms(2) n u le len f enc_set_fields [OF True, of post] walHeaderSize_op [of l]
      by (cases l) (simp_all add: wal_Next_def wal_sizes Let_def dec_def add.assoc wal_ops)
  next
    case False
    then obtain k where l: "l = LDel k" by (cases l) auto
    show ?thesis
      using assms(2) n u le len f walHeaderSize_op [of l]
      by (simp add: l wal_Next_def wal_sizes Let_def dec_def add.assoc wal_ops noHandle_def nilIfEmpty_def)
  qed
qed

lemma walRecords_enc:
  assumes "\<forall>l \<in> set ls. fits l"
  shows "walRecords (pre @ concat (map enc ls) @ post) (length pre) (length pre + length (concat (map enc ls))) = map dec ls"
  using assms
proof (induction ls arbitrary: pre)
  case Nil
  then show ?case by (simp add: walRecords.simps wal_Next_def)
next
  case (Cons l ls)
  have "wal_Next (enc l @ concat (map enc ls) @ post) 0 (length (concat (map enc (l # ls)))) = Inr (dec l, length (enc l))"
    using wal_Next_enc [of l] Cons.prems by simp
  then have "wal_Next (pre @ concat (map enc (l # ls)) @ post) (length pre) (length pre + length (concat (map enc (l # ls)))) =
      Inr (dec l, length (pre @ enc l))"
    using wal_Next_shift [of pre "concat (map enc (l # ls)) @ post" "length (concat (map enc (l # ls)))"] by simp
  then show ?case
    using Cons.IH [of "pre @ enc l"] Cons.prems by (simp add: walRecords.simps [of _ "length pre"] add.assoc)
qed

section \<open>Appending\<close>

text \<open>The log between calls: what was appended, nothing after it.\<close>

definition holds :: "logged list \<Rightarrow> WAL \<Rightarrow> bool" where
  "holds ls w \<longleftrightarrow> wl_file w = concat (map enc ls) \<and> wl_off w = length (wl_file w) \<and> (\<forall>l \<in> set ls. fits l)"

lemma writeAt_end: "off = length f \<Longrightarrow> writeAt f off bs = f @ bs"
  by (simp add: writeAt_def)

definition append_logged :: "wal_io \<Rightarrow> WAL \<Rightarrow> logged \<Rightarrow> (wal_error + nat) \<times> WAL" where
  "append_logged io w l = appendRecord io w (l_op l) (l_key l) (l_val l) (l_handle l) (l_expires l)"

lemma append_ops:
  "AppendSet io w k v h = append_logged io w (LSet k v h)" "AppendSetEx io w k v h e = append_logged io w (LSetEx k v h e)"
  "AppendDel io w k = append_logged io w (LDel k)"
  by (simp_all add: AppendSet_def AppendSetEx_def AppendDel_def append_logged_def noHandle_def)

text \<open>An append either adds the whole record, or leaves the log as it was with at most a torn record behind it.\<close>

lemma append_logged_cases:
  assumes "wl_off w = length (wl_file w)"
  shows "append_logged io w l = (Inr (wl_off w), w\<lparr>wl_file := wl_file w @ enc l, wl_off := wl_off w + length (enc l)\<rparr>) \<or>
    (\<exists>e n. append_logged io w l = (Inl e, w\<lparr>wl_file := wl_file w @ take n (enc l)\<rparr>))"
proof (cases "wl_off w + (hdrLen l + length (l_key l) + length (l_val l)) > wl_maxOff w")
  case True
  then have "append_logged io w l = (Inl WalFull, w\<lparr>wl_file := wl_file w @ take 0 (enc l)\<rparr>)"
    by (simp add: append_logged_def appendRecord_def walHeaderSize_op Let_def add.assoc)
  then show ?thesis by blast
next
  case False
  let ?hd = "walHeader (l_op l) (l_key l) (l_val l) (l_handle l) (l_expires l)"
  have e: "enc l = ?hd @ l_key l @ l_val l" by (simp add: enc_def)
  have torn0: "take k ?hd = take (min k (length ?hd)) (enc l)" for k by (simp add: e min_def)
  have torn1: "?hd @ take k (l_key l) = take (length ?hd + min k (length (l_key l))) (enc l)" for k by (simp add: e min_def)
  have torn2: "?hd @ l_key l @ take k (l_val l) = take (length ?hd + (length (l_key l) + k)) (enc l)" for k by (simp add: e)
  have del: "l_val l = []" if "\<not> (l_op l = walOpSet \<or> l_op l = walOpSetEx)" using that by (cases l) auto
  have io: "\<exists>e n. append_logged io w l = (Inl e, w\<lparr>wl_file := wl_file w @ take n (enc l)\<rparr>)"
    if "append_logged io w l = (Inl WalIO, w\<lparr>wl_file := wl_file w @ t\<rparr>)" "t = take n (enc l)" for t n using that by blast
  note sz = walHeaderSize_op [of l] length_header [of l]
  note ap = append_logged_def appendRecord_def wal_write_def Let_def
  consider k where "io_write io 0 = Some k" | k where "io_write io 0 = None" "l_key l \<noteq> []" "io_write io 1 = Some k"
    | k where "io_write io 0 = None" "l_key l = [] \<or> io_write io 1 = None" "l_val l \<noteq> []" "io_write io 2 = Some k"
    | "io_write io 0 = None" "l_key l = [] \<or> io_write io 1 = None" "l_val l = [] \<or> io_write io 2 = None" by fastforce
  then show ?thesis
  proof cases
    case 1
    then have "append_logged io w l = (Inl WalIO, w\<lparr>wl_file := wl_file w @ take k ?hd\<rparr>)"
      using False sz assms by (simp add: ap writeAt_end add.assoc)
    then show ?thesis using io torn0 by blast
  next
    case 2
    then have "append_logged io w l = (Inl WalIO, w\<lparr>wl_file := wl_file w @ (?hd @ take k (l_key l))\<rparr>)"
      using False sz assms by (simp add: ap writeAt_end add.assoc)
    then show ?thesis using io torn1 by blast
  next
    case 3
    then have "append_logged io w l = (Inl WalIO, w\<lparr>wl_file := wl_file w @ (?hd @ l_key l @ take k (l_val l))\<rparr>)"
      using False sz assms del by (auto simp: ap writeAt_end add.assoc)
    then show ?thesis using io torn2 by blast
  next
    case 4
    then have "append_logged io w l = (Inr (wl_off w), w\<lparr>wl_file := wl_file w @ enc l, wl_off := wl_off w + length (enc l)\<rparr>)"
      using False sz assms del length_enc [of l] by (auto simp: ap writeAt_end add.assoc e)
    then show ?thesis by blast
  qed
qed

section \<open>Repairing the tail\<close>

lemma walkTail_enc:
  assumes "fits l"
  shows "walkTail (pre @ enc l @ post) (length pre) = walkTail (pre @ enc l @ post) (length pre + length (enc l))"
proof -
  let ?f = "enc l @ post"
  note u = unat_lens [OF assms] and le = length_enc [of l] and mn = hdrLen_min [of l] and f = enc_fields [of l post]
  have at: "(pre @ ?f) ! (length pre + 4) = l_op l" using f(2) nth_append_length_plus [of pre ?f 4] by simp
  have sl: "slice (pre @ ?f) (length pre + 5) (length pre + 7) = put_u16 (of_nat (length (l_key l)))"
    "slice (pre @ ?f) (length pre + 7) (length pre + 11) = put_u32 (of_nat (length (l_val l)))"
    using f(3,4) slice_shift [of pre ?f] by simp_all
  show ?thesis
    using le mn u by (subst walkTail.simps) (simp add: at f(2) sl walHeaderSize_op wal_sizes Let_def add.assoc)
qed

lemma walkTail_torn:
  assumes "fits l" "n < length (enc l)"
  shows "walkTail (pre @ take n (enc l)) (length pre) = length pre"
proof (cases "11 \<le> n")
  case False
  then show ?thesis using assms(2) by (subst walkTail.simps) (simp add: wal_sizes Let_def min_def)
next
  case True
  let ?f = "take n (enc l)"
  note u = unat_lens [OF assms(1)] and le = length_enc [of l] and f = enc_fields [of l "[]", simplified]
  have at: "(pre @ ?f) ! (length pre + 4) = l_op l" "?f ! 4 = l_op l" using f(2) True nth_append_length_plus [of pre ?f 4] by simp_all
  have tk: "slice ?f a b = slice (enc l) a b" if "b \<le> n" for a b using that by (simp add: slice_take_drop min_def)
  have sl: "slice (pre @ ?f) (length pre + 5) (length pre + 7) = put_u16 (of_nat (length (l_key l)))"
    "slice (pre @ ?f) (length pre + 7) (length pre + 11) = put_u32 (of_nat (length (l_val l)))"
    using f(3,4) slice_shift [of pre ?f] tk [of 7 5] tk [of 11 7] True by simp_all
  show ?thesis
    using le u assms(2) by (subst walkTail.simps) (simp add: at f(2) sl walHeaderSize_op wal_sizes Let_def min_def)
qed

lemma walkTail_all:
  assumes "\<forall>l \<in> set ls. fits l" "fits l" "n < length (enc l)"
  shows "walkTail (pre @ concat (map enc ls) @ take n (enc l)) (length pre) = length pre + length (concat (map enc ls))"
  using assms(1)
proof (induction ls arbitrary: pre)
  case Nil
  then show ?case using walkTail_torn [OF assms(2,3)] by simp
next
  case (Cons a ls)
  have "walkTail (pre @ enc a @ concat (map enc ls) @ take n (enc l)) (length pre) =
      walkTail ((pre @ enc a) @ concat (map enc ls) @ take n (enc l)) (length (pre @ enc a))"
    using walkTail_enc [of a pre "concat (map enc ls) @ take n (enc l)"] Cons.prems by simp
  also have "\<dots> = length (pre @ enc a) + length (concat (map enc ls))" by (rule Cons.IH) (use Cons.prems in simp)
  finally show ?case by simp
qed

lemma OpenWAL_torn:
  assumes "\<forall>l \<in> set ls. fits l" "fits l" "n < length (enc l)" "io_open io" "io_trunc io"
  shows "OpenWAL io (concat (map enc ls) @ take n (enc l)) mx =
    Inr \<lparr>wl_file = concat (map enc ls), wl_off = length (concat (map enc ls)), wl_maxOff = mx\<rparr>"
  using walkTail_all [OF assms(1-3), of "[]"] assms(3-5)
  by (auto simp: OpenWAL_def repairTail_def Let_def)

lemma holds_Iterate: "holds ls w \<Longrightarrow> wal_Iterate w 0 = map dec ls"
  using walRecords_enc [of ls "[]" "[]"] by (simp add: wal_Iterate_def holds_def)

lemma holds_append:
  assumes "holds ls w" "fits l" "append_logged io w l = (Inr off, w')"
  shows "holds (ls @ [l]) w'" "off = wl_off w"
  using assms append_logged_cases [of w io l] by (auto simp: holds_def)

section \<open>Where the log goes wrong\<close>

text \<open>
  \<^verbatim>\<open>repairTail\<close> does not look at the magic: a tail whose fifth byte is an opcode is kept, the iterator stops at
  it, and what is appended after it is never read again, although the append succeeds.
\<close>

lemma repairTail_keeps_bad_magic:
  assumes "io_open io" "fits l"
  shows "\<exists>w. OpenWAL io [0, 0, 0, 0, 2, 0, 0, 0, 0, 0, 0] mx = Inr w \<and>
    (\<forall>off w'. append_logged io w l = (Inr off, w') \<longrightarrow> wal_Iterate w' 0 = [])"
proof -
  let ?g = "[0, 0, 0, 0, 2, 0, 0, 0, 0, 0, 0] :: bytes"
  have "walkTail ?g 0 = 11"
    by (subst walkTail.simps; simp add: wal_sizes walHeaderSize_def wal_ops slice_def get_u16_def get_u32_def; subst walkTail.simps; simp)
  then have o: "OpenWAL io ?g mx = Inr \<lparr>wl_file = ?g, wl_off = 11, wl_maxOff = mx\<rparr>"
    using assms(1) by (simp add: OpenWAL_def repairTail_def)
  have "wal_Iterate w' 0 = []" if "append_logged io \<lparr>wl_file = ?g, wl_off = 11, wl_maxOff = mx\<rparr> l = (Inr off, w')" for off w'
  proof -
    have "wl_file w' = ?g @ enc l" "wl_off w' = 11 + length (enc l)" using that append_logged_cases [of "\<lparr>wl_file = ?g, wl_off = 11, wl_maxOff = mx\<rparr>" io l] by auto
    moreover have "wal_Next (?g @ enc l) 0 (11 + length (enc l)) = Inl WalBadMagic"
      by (simp add: wal_Next_def wal_sizes slice_def walMagic_def)
    ultimately show ?thesis by (simp add: wal_Iterate_def walRecords.simps)
  qed
  then show ?thesis using o by blast
qed

section \<open>Properties\<close>

text \<open>
  C10. The log survives a crash at any byte of an append.  From a log that holds the records \<open>ls\<close>, an append of a
  record whose key is shorter than 64 KiB and value shorter than 4 GiB either succeeds, and an iterator then
  returns exactly \<open>ls\<close> followed by it, with the handle and the expiry time it was given; or it fails without
  moving the write offset.  And a log file that ends in the first \<open>n\<close> bytes of the record only, as a crash
  between or within the writes leaves it, opens as the log that holds exactly \<open>ls\<close>.
\<close>

theorem WAL_append_crash_safe:
  assumes "holds ls w" "fits l"
  shows "(case append_logged io w l of
       (Inr off, w') \<Rightarrow> off = wl_off w \<and> holds (ls @ [l]) w' \<and> wal_Iterate w' 0 = map dec (ls @ [l])
     | (Inl e, w') \<Rightarrow> wl_off w' = wl_off w \<and> wal_Iterate w' 0 = map dec ls) \<and>
    (\<forall>n < length (enc l). \<forall>io' mx. io_open io' \<and> io_trunc io' \<longrightarrow>
       (\<exists>w'. OpenWAL io' (wl_file w @ take n (enc l)) mx = Inr w' \<and> holds ls w' \<and> wal_Iterate w' 0 = map dec ls))"
proof -
  have h: "wl_file w = concat (map enc ls)" "wl_off w = length (wl_file w)" "\<forall>l \<in> set ls. fits l" using assms(1) by (auto simp: holds_def)
  have "wal_Iterate (w\<lparr>wl_file := wl_file w @ t\<rparr>) 0 = map dec ls" for t
    using walRecords_enc [OF h(3), of "[]" t] h(1,2) by (simp add: wal_Iterate_def)
  then have "case append_logged io w l of
       (Inr off, w') \<Rightarrow> off = wl_off w \<and> holds (ls @ [l]) w' \<and> wal_Iterate w' 0 = map dec (ls @ [l])
     | (Inl e, w') \<Rightarrow> wl_off w' = wl_off w \<and> wal_Iterate w' 0 = map dec ls"
    using append_logged_cases [OF h(2), of io l] holds_append [OF assms] holds_Iterate by fastforce
  moreover have "\<exists>w'. OpenWAL io' (wl_file w @ take n (enc l)) mx = Inr w' \<and> holds ls w' \<and> wal_Iterate w' 0 = map dec ls"
    if "n < length (enc l)" "io_open io'" "io_trunc io'" for n io' mx
    using OpenWAL_torn [OF h(3) assms(2) that, of mx] h(1,3) holds_Iterate by (simp add: holds_def)
  ultimately show ?thesis by blast
qed

definition wio :: wal_io where
  "wio = \<lparr>io_open = True, io_trunc = True, io_write = (\<lambda>_. None), io_sync = True\<rparr>"

theorem WAL_append_crash_safe_witness:
  "\<exists>w w'. OpenWAL wio (enc (LSet [1] [2] noHandle)) 4096 = Inr w \<and>
     append_logged wio w (LDel [1]) = (Inr 22, w') \<and> wal_Iterate w' 0 = [dec (LSet [1] [2] noHandle), dec (LDel [1])]"
proof -
  let ?l = "LSet [1] [2] noHandle"
  define w where "w = \<lparr>wl_file = enc ?l, wl_off = length (enc ?l), wl_maxOff = 4096\<rparr>"
  have f: "fits ?l" "fits (LDel [1])" by (simp_all add: fits_def)
  have o: "OpenWAL wio (enc ?l) 4096 = Inr w" using OpenWAL_torn [of "[?l]" ?l 0 wio 4096] f by (simp add: wio_def w_def length_enc hdrLen_def)
  have h: "holds [?l] w" using f by (simp add: holds_def w_def)
  have len: "length (enc ?l) = 22" "length (enc (LDel [1])) = 12" by (simp_all add: length_enc hdrLen_def)
  have "\<exists>w'. append_logged wio w (LDel [1]) = (Inr 22, w')"
    by (simp add: append_logged_def appendRecord_def wio_def wal_write_def w_def len walHeaderSize_def wal_ops wal_sizes Let_def)
  then show ?thesis using WAL_append_crash_safe [OF h f(2), of wio] o by auto
qed

end
