(* ===== verification/Persist.thy ===== *)
theory Persist
  imports Checkpoint Wal
begin

text \<open>
  \<^verbatim>\<open>recovery.go\<close>, the rest of \<^verbatim>\<open>checkpoint.go\<close>, and \<^verbatim>\<open>persist.go\<close> of \<^verbatim>\<open>internal/arena/persist\<close>: the arena file, the
  write-ahead log and the index that is rebuilt from both.

  Parameters stand for the outside: the \<^verbatim>\<open>mmap\<close> calls, what is on disk (\<open>disk\<close>), which file operations of
  the log succeed (\<open>wal_io\<close>), and which of the arena's \<^verbatim>\<open>Sync\<close> calls do (\<open>nat \<Rightarrow> bool\<close>, by number).  An operation
  on the index may not return (\<open>None\<close>).
\<close>

section \<open>Definitions\<close>

datatype pm_error = PFormat persist_error | PNoRegions | PPastEnd | PSync | PClosed | PEmptyPath | PDir | PRegionSize | PUnmap
  | PArena arena_error | PWal wal_error

subsection \<open>Bytes of the arena file\<close>

definition copyArenaTo :: "Manager \<Rightarrow> u64 \<Rightarrow> nat \<Rightarrow> pm_error + bytes" where
  "copyArenaTo m off n =
    (case mg_regions m of
       [] \<Rightarrow> Inl PNoRegions
     | reg # _ \<Rightarrow>
         let fin = off + of_nat n in
         if unat fin > length (rg_data reg) then Inl PPastEnd else Inr (slice (rg_data reg) (unat off) (unat fin)))"

definition copyToArena :: "Manager \<Rightarrow> u64 \<Rightarrow> bytes \<Rightarrow> pm_error + Manager" where
  "copyToArena m off buf =
    (case mg_regions m of
       [] \<Rightarrow> Inl PNoRegions
     | reg # regs \<Rightarrow>
         let fin = off + of_nat (length buf) in
         if unat fin > length (rg_data reg) then Inl PPastEnd
         else Inr (m\<lparr>mg_regions := reg\<lparr>rg_data := copy_at (rg_data reg) (unat off) buf\<rparr> # regs\<rparr>))"

definition readSuperblock :: "Manager \<Rightarrow> pm_error + Superblock" where
  "readSuperblock m =
    (case copyArenaTo m 0 superblockSize of
       Inl e \<Rightarrow> Inl e
     | Inr buf \<Rightarrow> map_sum PFormat id (decodeSuperblock buf))"

definition setSuperblock :: "Manager \<Rightarrow> Superblock \<Rightarrow> pm_error + Manager" where
  "setSuperblock m sb = copyToArena m 0 (the (encodeSuperblock (replicate superblockSize 0) sb))"

definition writeFreshSuperblock :: "Manager \<Rightarrow> u64 \<Rightarrow> pm_error + Manager" where
  "writeFreshSuperblock m regionSize = setSuperblock m
    \<lparr>sb_Version = sb_version, sb_RegionSize = regionSize, sb_IndexOffset = of_nat superblockSize,
     sb_IndexLen = indexCheckpointMaxLen regionSize, sb_WALOffset = of_nat superblockSize + indexCheckpointMaxLen regionSize,
     sb_Flags = 0, sb_CheckpointCount = 0\<rparr>"

definition validateSuperblock :: "Manager \<Rightarrow> pm_error + unit" where
  "validateSuperblock m = map_sum id (\<lambda>_. ()) (readSuperblock m)"

subsection \<open>Checkpoints in the arena file\<close>

definition writeCheckpoint :: "(nat \<Rightarrow> bool) \<Rightarrow> Manager \<Rightarrow> (Entry \<times> bytes) list \<Rightarrow> u64 \<Rightarrow> (pm_error + nat) \<times> Manager" where
  "writeCheckpoint synced m snap regionSize =
    (case encodeCheckpoint (replicate (unat (checkpointMaxSize regionSize)) 0) snap of
       (Inl e, _) \<Rightarrow> (Inl (PFormat e), m)
     | (Inr n, buf) \<Rightarrow>
         (case copyToArena m indexCheckpointOffset (take n buf) of
            Inl e \<Rightarrow> (Inl e, m)
          | Inr m1 \<Rightarrow>
              if \<not> synced 0 then (Inl PSync, m1)
              else case readSuperblock m1 of
                Inl e \<Rightarrow> (Inl e, m1)
              | Inr sb \<Rightarrow>
                  (case setSuperblock m1 (sb\<lparr>sb_CheckpointCount := of_nat (length snap), sb_WALOffset := 0\<rparr>) of
                     Inl e \<Rightarrow> (Inl e, m1)
                   | Inr m2 \<Rightarrow> if \<not> synced 1 then (Inl PSync, m2) else (Inr n, m2))))"

definition loadCheckpoint :: "Manager \<Rightarrow> u64 \<Rightarrow> pm_error + (Entry \<times> bytes) list" where
  "loadCheckpoint m regionSize =
    (case copyArenaTo m indexCheckpointOffset (unat (checkpointMaxSize regionSize)) of
       Inl e \<Rightarrow> Inl e
     | Inr body \<Rightarrow>
         if slice body 0 4 \<noteq> checkpointMagic then Inl (PFormat PCkptBadMagic)
         else map_sum PFormat fst (decodeCheckpoint body))"

subsection \<open>Replay\<close>

definition handleOf :: "WALRecord \<Rightarrow> Handle" where
  "handleOf r = \<lparr>h_Offset = wr_Offset r, h_Size = wr_Size r, h_Meta = 0, h_Region = wr_Region r\<rparr>"

fun replayRecs :: "WALRecord list \<Rightarrow> HashIndex \<Rightarrow> HashIndex option" where
  "replayRecs [] idx = Some idx"
| "replayRecs (r # rs) idx =
    (if wr_Op r = walOpSet then do { (_, idx1) \<leftarrow> hi_Put idx (wr_Key r) (handleOf r) 0; replayRecs rs idx1 }
     else if wr_Op r = walOpSetEx then do { (_, idx1) \<leftarrow> hi_Put idx (wr_Key r) (handleOf r) (wr_ExpiresAt r); replayRecs rs idx1 }
     else if wr_Op r = walOpDel then do { (_, idx1) \<leftarrow> hi_Delete idx (wr_Key r); replayRecs rs idx1 }
     else replayRecs rs idx)"

definition ReplayTo :: "WAL \<Rightarrow> HashIndex \<Rightarrow> HashIndex option" where
  "ReplayTo w idx = replayRecs (wal_Iterate w 0) idx"

subsection \<open>Cold start\<close>

record disk =
  dk_mkdir :: bool
  dk_stat :: "bool option"
  dk_mmapFile :: mmap_file_fn
  dk_wal :: bytes
  dk_io :: wal_io

text \<open>
  The replay without an index only reads.  The result includes the log file, which \<^verbatim>\<open>OpenWAL\<close> may have cut.
\<close>

definition ColdStart :: "disk \<Rightarrow> string \<Rightarrow> u64 \<Rightarrow> pm_error + Manager \<times> bytes" where
  "ColdStart dk dir regionSize =
    (if dir = [] then Inl PEmptyPath
     else if \<not> dk_mkdir dk then Inl PDir
     else case dk_stat dk of
       None \<Rightarrow> Inl PDir
     | Some present \<Rightarrow>
         (case OpenFileManager (dk_mmapFile dk) (dir @ ''/arena.dat'') regionSize (\<not> present) of
            Inl e \<Rightarrow> Inl (PArena e)
          | Inr m \<Rightarrow>
              (case (if \<not> present then writeFreshSuperblock m regionSize else map_sum id (\<lambda>_. m) (validateSuperblock m)) of
                 Inl e \<Rightarrow> Inl e
               | Inr m1 \<Rightarrow>
                   (case OpenWAL (dk_io dk) (dk_wal dk) (unat (walMaxLen regionSize)) of
                      Inl e \<Rightarrow> Inl (PWal e)
                    | Inr w \<Rightarrow> Inr (m1, wl_file w)))))"

record PersistentManager =
  pm_mgr :: Manager
  pm_wal :: WAL
  pm_dir :: string
  pm_regionSize :: u64
  pm_durable :: bool
  pm_closed :: bool

definition pm_New :: "disk \<Rightarrow> string \<Rightarrow> u64 \<Rightarrow> bool \<Rightarrow> pm_error + PersistentManager" where
  "pm_New dk dir regionSize durable =
    (if regionSize = 0 then Inl PRegionSize
     else if \<not> dk_mkdir dk then Inl PDir
     else case ColdStart dk dir regionSize of
       Inl e \<Rightarrow> Inl e
     | Inr (m, file) \<Rightarrow>
         (case OpenWAL (dk_io dk) file (unat (walMaxLen regionSize)) of
            Inl e \<Rightarrow> Inl (PWal e)
          | Inr w \<Rightarrow> Inr \<lparr>pm_mgr = m, pm_wal = w, pm_dir = dir, pm_regionSize = regionSize, pm_durable = durable,
                          pm_closed = False\<rparr>))"

definition syncLiveObjects :: "PersistentManager \<Rightarrow> HashIndex \<Rightarrow> PersistentManager" where
  "syncLiveObjects pm idx =
    (let m1 = SetLiveObjects (pm_mgr pm) (word_of_int (hi_Count idx));
         used = foldl (\<lambda>u (e, _). u + ucast (h_Size (en_Handle e))) 0 (hi_Snapshot idx) :: u64
     in pm\<lparr>pm_mgr := SetUsedBytes m1 used\<rparr>)"

fun addAll :: "(Entry \<times> bytes) list \<Rightarrow> HashIndex \<Rightarrow> HashIndex option" where
  "addAll [] idx = Some idx"
| "addAll ((e, k) # es) idx = do { (_, idx1) \<leftarrow> hi_Add idx (Some k) (en_Handle e) (en_ExpiresAt e); addAll es idx1 }"

definition LoadIndex :: "PersistentManager \<Rightarrow> HashIndex \<Rightarrow> ((pm_error + unit) \<times> PersistentManager \<times> HashIndex) option" where
  "LoadIndex pm idx =
    (case loadCheckpoint (pm_mgr pm) (pm_regionSize pm) of
       Inl e \<Rightarrow>
         if e = PFormat PCkptBadMagic
         then do { idx1 \<leftarrow> ReplayTo (pm_wal pm) idx; Some (Inr (), syncLiveObjects pm idx1, idx1) }
         else Some (Inl e, pm, idx)
     | Inr entries \<Rightarrow> do {
         idx1 \<leftarrow> addAll entries idx;
         idx2 \<leftarrow> ReplayTo (pm_wal pm) idx1;
         Some (Inr (), syncLiveObjects pm idx2, idx2) })"

subsection \<open>Operations\<close>

definition likeOf :: "Handle \<Rightarrow> arenaHandleLike" where
  "likeOf h = \<lparr>ah_Offset = h_Offset h, ah_Size = h_Size h, ah_Region = h_Region h\<rparr>"

text \<open>The common body of \<^verbatim>\<open>Put\<close> and \<^verbatim>\<open>PutEx\<close>, which differ in the record they append.\<close>

definition pm_store :: "mmap_fn \<Rightarrow> wal_io \<Rightarrow> PersistentManager \<Rightarrow> bytes \<Rightarrow> (WAL \<Rightarrow> Handle \<Rightarrow> (wal_error + nat) \<times> WAL) \<Rightarrow>
    (pm_error + Handle \<times> bytes) \<times> PersistentManager" where
  "pm_store mmap io pm val logRec =
    (if pm_closed pm then (Inl PClosed, pm)
     else case Put mmap (pm_mgr pm) val of
       (Inl e, m) \<Rightarrow> (Inl (PArena e), pm\<lparr>pm_mgr := m\<rparr>)
     | (Inr h, m) \<Rightarrow>
         (case logRec (pm_wal pm) h of
            (Inl e, w) \<Rightarrow> (Inl (PWal e), pm\<lparr>pm_mgr := snd (Free m h), pm_wal := w\<rparr>)
          | (Inr _, w) \<Rightarrow>
              if pm_durable pm \<and> wal_Sync io w \<noteq> Inr ()
              then (Inl (PWal WalIO), pm\<lparr>pm_mgr := snd (Free m h), pm_wal := w\<rparr>)
              else (case View m h of
                  Inl e \<Rightarrow> (Inl (PArena e), pm\<lparr>pm_mgr := m, pm_wal := w\<rparr>)
                | Inr view \<Rightarrow> (Inr (h, view), pm\<lparr>pm_mgr := m, pm_wal := w\<rparr>))))"

definition pm_Put :: "mmap_fn \<Rightarrow> wal_io \<Rightarrow> PersistentManager \<Rightarrow> bytes \<Rightarrow> bytes \<Rightarrow> (pm_error + Handle \<times> bytes) \<times> PersistentManager" where
  "pm_Put mmap io pm key val = pm_store mmap io pm val (\<lambda>w h. AppendSet io w key val (likeOf h))"

definition pm_PutEx :: "mmap_fn \<Rightarrow> wal_io \<Rightarrow> PersistentManager \<Rightarrow> bytes \<Rightarrow> bytes \<Rightarrow> u32 \<Rightarrow> (pm_error + Handle \<times> bytes) \<times> PersistentManager" where
  "pm_PutEx mmap io pm key val expiresAt = pm_store mmap io pm val (\<lambda>w h. AppendSetEx io w key val (likeOf h) expiresAt)"

definition pm_View :: "PersistentManager \<Rightarrow> Handle \<Rightarrow> arena_error + bytes" where
  "pm_View pm h = View (pm_mgr pm) h"

definition pm_Delete :: "wal_io \<Rightarrow> PersistentManager \<Rightarrow> bytes \<Rightarrow> (pm_error + unit) \<times> PersistentManager" where
  "pm_Delete io pm key =
    (if pm_closed pm then (Inl PClosed, pm)
     else case AppendDel io (pm_wal pm) key of
       (Inl e, w) \<Rightarrow> (Inl (PWal e), pm\<lparr>pm_wal := w\<rparr>)
     | (Inr _, w) \<Rightarrow> (if pm_durable pm then map_sum PWal id (wal_Sync io w) else Inr (), pm\<lparr>pm_wal := w\<rparr>))"

definition pm_Sync :: "wal_io \<Rightarrow> (nat \<Rightarrow> bool) \<Rightarrow> PersistentManager \<Rightarrow> pm_error + unit" where
  "pm_Sync io synced pm =
    (case wal_Sync io (pm_wal pm) of Inl e \<Rightarrow> Inl (PWal e) | Inr _ \<Rightarrow> if synced 0 then Inr () else Inl PSync)"

text \<open>The arena's part of the two is the outcome of its \<^verbatim>\<open>msync\<close> calls.\<close>

definition pm_SyncAsync :: "wal_io \<Rightarrow> (nat \<Rightarrow> bool) \<Rightarrow> PersistentManager \<Rightarrow> pm_error + unit" where
  "pm_SyncAsync io synced pm =
    (case wal_Sync io (pm_wal pm) of Inl e \<Rightarrow> Inl (PWal e) | Inr _ \<Rightarrow> if synced 0 then Inr () else Inl PSync)"

definition pm_Replay :: "PersistentManager \<Rightarrow> HashIndex \<Rightarrow> HashIndex option" where
  "pm_Replay pm idx = ReplayTo (pm_wal pm) idx"

definition pm_Checkpoint :: "wal_io \<Rightarrow> (nat \<Rightarrow> bool) \<Rightarrow> PersistentManager \<Rightarrow> HashIndex \<Rightarrow> (pm_error + unit) \<times> PersistentManager" where
  "pm_Checkpoint io synced pm idx =
    (case writeCheckpoint synced (pm_mgr pm) (hi_Snapshot idx) (pm_regionSize pm) of
       (Inl e, m) \<Rightarrow> (Inl e, pm\<lparr>pm_mgr := m\<rparr>)
     | (Inr _, m) \<Rightarrow>
         (case Rotate io (pm_wal pm) of
            (Inl e, w) \<Rightarrow> (Inl (PWal e), pm\<lparr>pm_mgr := m, pm_wal := w\<rparr>)
          | (Inr _, w) \<Rightarrow> (Inr (), pm\<lparr>pm_mgr := m, pm_wal := w\<rparr>)))"

text \<open>\<open>walClosed\<close> and \<open>unmapped\<close> say whether closing the log file and unmapping the regions succeed.\<close>

definition pm_Close :: "bool \<Rightarrow> bool \<Rightarrow> PersistentManager \<Rightarrow> (pm_error + unit) \<times> PersistentManager" where
  "pm_Close walClosed unmapped pm =
    (if pm_closed pm then (Inr (), pm)
     else (if \<not> walClosed then Inl (PWal WalIO) else if \<not> unmapped then Inl PUnmap else Inr (),
           pm\<lparr>pm_closed := True, pm_mgr := mgr_Close (pm_mgr pm)\<rparr>))"

end
