(* ===== verification/Index_Growth.thy ===== *)
theory Index_Growth
  imports Hash_Index
begin

text \<open>
  How large the tables of \<^verbatim>\<open>internal/index/index.go\<close> and \<^verbatim>\<open>internal/transport/transport.go\<close> become: a table only
  grows when three quarters of it are live, so a history of operations keeps it within three times the
  number of keys it ever held, and the limit of \<open>2 ^ 62\<close> slots is never met.
\<close>

locale sized_table = kv_table +
  fixes cap :: "'a \<Rightarrow> nat"
  assumes room_cap: "cap s < 2 ^ 62 \<Longrightarrow> room s"
    and ins_cap: "inv s \<Longrightarrow> cap s < 2 ^ 62 \<Longrightarrow> ins s k v = Some s' \<Longrightarrow> cap s' \<le> max (cap s) (3 * card (dom (lookup s)))"
    and del_cap: "inv s \<Longrightarrow> del s k = Some s' \<Longrightarrow> cap s' = cap s"
    and fin_dom: "inv s \<Longrightarrow> finite (dom (lookup s))"
begin

lemma run_total:
  assumes "inv s" "cap s \<le> B" "3 * (card (dom (lookup s)) + length ops) \<le> B" "B < 2 ^ 62"
  shows "\<exists>s'. kv_run ins del ops s = Some s' \<and> inv s' \<and> lookup s' = fold kv_step ops (lookup s) \<and> cap s' \<le> B"
  using assms
proof (induction ops arbitrary: s)
  case (Cons a ops)
  note f = fin_dom [OF Cons.prems(1)]
  have c: "cap s < 2 ^ 62" using Cons.prems(2,4) by linarith
  obtain s1 where s1: "inv s1" "lookup s1 = kv_step a (lookup s)" "kv_run ins del (a # ops) s = kv_run ins del ops s1" "cap s1 \<le> B"
  proof (cases a)
    case (KPut k v)
    then obtain s1 where "ins s k v = Some s1" "inv s1" "lookup s1 = (lookup s)(k \<mapsto> v)"
      using ins [OF Cons.prems(1) room_cap [OF c]] by blast
    then show thesis using that [of s1] ins_cap [OF Cons.prems(1) c, of k v s1] Cons.prems(2,3) KPut by auto
  next
    case (KDel k)
    then obtain s1 where "del s k = Some s1" "inv s1" "lookup s1 = (lookup s)(k := None)" using del [OF Cons.prems(1)] by blast
    then show thesis using that [of s1] del_cap [OF Cons.prems(1), of k s1] Cons.prems(2) KDel by auto
  qed
  have "card (dom (lookup s1)) \<le> Suc (card (dom (lookup s)))"
    using f by (cases a) (auto simp: s1(2) card_insert_if intro: le_SucI card_Diff1_le)
  then have "3 * (card (dom (lookup s1)) + length ops) \<le> B" using Cons.prems(3) by simp
  from Cons.IH [OF s1(1,4) this Cons.prems(4)] show ?case using s1(2,3) by simp
qed simp

end

section \<open>shardIndex\<close>

lemma distinct_ents: "ukeys t \<Longrightarrow> distinct (map fst (ents t))"
proof (induction t rule: ents.induct)
  case (2 t)
  have "ukeys t" using 2(2) unfolding ukeys_def by (metis Suc_less_eq length_Cons nth_Cons_Suc old.nat.inject)
  then show ?case using 2(1) by simp
next
  case (3 x t)
  have u: "ukeys t" using 3(2) unfolding ukeys_def by (metis Suc_less_eq length_Cons nth_Cons_Suc old.nat.inject)
  have "(fst x, v) \<notin> set (ents t)" for v
  proof
    assume "(fst x, v) \<in> set (ents t)"
    then obtain p where p: "p < length t" "t ! p = Some (fst x, v)" by (auto simp: set_ents)
    then have "Suc p = 0"
      using 3(2) unfolding ukeys_def
      by (metis length_Cons nth_Cons_0 nth_Cons_Suc Suc_less_eq zero_less_Suc surjective_pairing)
    then show False by simp
  qed
  then show ?case using 3(1) [OF u] by force
qed simp

lemma si_count_card:
  assumes "si_table j s"
  shows "si_count s = int (card (dom (si_map s)))" "finite (dom (si_map s))"
proof -
  have "ukeys (si_slots s)" using si_tableD(5) [OF assms] by (simp add: lp_wf_def)
  then have "card (dom (si_map s)) = length (ents (si_slots s))"
    using distinct_card [OF distinct_ents] by (simp add: si_map_def tab_def dom_map_of_conv_image_fst)
  then show "si_count s = int (card (dom (si_map s)))" using assms by (simp add: si_table_def)
  show "finite (dom (si_map s))" by (simp add: si_map_def tab_def finite_dom_map_of)
qed

lemma si_put_cap:
  assumes inv: "si_inv s" and room: "si_room s" and put: "si_put s key h e = Some (r, s')"
  shows "length (si_keys s') \<le> max (length (si_keys s)) (3 * card (dom (si_map s)))"
proof (cases "si_count s * 4 \<ge> int (length (si_keys s)) * 3")
  case False
  then have "si_insert s key h e = Some (r, s')" using put by (simp add: si_put_def numeral_2_eq_2 si_putN.simps)
  then show ?thesis using si_insert_size by fastforce
next
  case True
  obtain j where j: "si_table j s" using inv by (rule si_invD)
  show ?thesis using si_put_size [OF assms] True si_count_card(1) [OF j] by linarith
qed

lemma si_delete_cap:
  assumes "si_inv s" "si_delete s key = Some (r, s')"
  shows "length (si_keys s') = length (si_keys s)"
proof -
  have "length (si_keys t) = length (si_keys s)" if "si_probe s key = Some w" "si_keys s ! unat w = Some k" "si_deleteAt s w = Some t" for w k t
  proof -
    obtain j where j: "si_table j s" "length (ents (si_slots s)) < length (si_keys s)" using assms(1) by (rule si_invD)
    have "unat w < length (si_keys s)" using si_probe_found [OF j, of key] that(1) by auto
    then show ?thesis using si_deleteAt_ok [OF assms(1) _ that(2)] that(3) by auto
  qed
  then show ?thesis using assms(2) by (auto simp: si_delete_def bind_eq_Some_conv Let_def split: if_splits option.splits)
qed

interpretation si_sized: sized_table si_inv si_room si_map
  "\<lambda>s k v. map_option snd (si_put s k (fst v) (snd v))" "\<lambda>s k. map_option snd (si_delete s k)" "\<lambda>s. length (si_keys s)"
proof
  fix s s' :: shardIndex and k :: bytes and v :: "Handle \<times> u32"
  show room: "si_room s" if "length (si_keys s) < 2 ^ 62" using that by (simp add: si_room_def)
  show "length (si_keys s') \<le> max (length (si_keys s)) (3 * card (dom (si_map s)))"
    if "si_inv s" "length (si_keys s) < 2 ^ 62" "map_option snd (si_put s k (fst v) (snd v)) = Some s'"
    using si_put_cap [OF that(1) room [OF that(2)]] that(3) by auto
  show "length (si_keys s') = length (si_keys s)" if "si_inv s" "map_option snd (si_delete s k) = Some s'"
    using si_delete_cap [OF that(1)] that(2) by auto
  show "finite (dom (si_map s))" if "si_inv s" using that si_count_card(2) by (auto simp: si_inv_def)
qed

section \<open>HashIndex\<close>

lemma hi_length: "length (si_keys (toShard h)) = length (hi_keys h)" "si_count (toShard h) = hi_count h"
  by (simp_all add: toShard_def)

lemma hi_count_card:
  assumes "hi_inv h"
  shows "hi_count h = int (card (dom (hi_map h)))" "finite (dom (hi_map h))"
proof -
  obtain j where "si_table j (toShard h)" using hi_invD(2) [OF assms] by (auto simp: si_inv_def)
  from si_count_card [OF this] show "hi_count h = int (card (dom (hi_map h)))" "finite (dom (hi_map h))"
    by (simp_all add: hi_length hi_map_def)
qed

lemma hi_Put_cap:
  assumes inv: "hi_inv h" and room: "length (hi_keys h) < 2 ^ 62" and put: "hi_Put h (Some k) hdl e = Some (r, h')"
  shows "length (hi_keys h') \<le> max (length (hi_keys h)) (3 * card (dom (hi_map h)))"
proof -
  have rm: "si_room (toShard h)" using room by (simp add: si_room_def hi_length)
  obtain s' where s': "si_put (toShard h) k hdl e = Some (si_old (toShard h) k, s')"
    using si_put_ok [OF hi_invD(2) [OF inv] rm] by blast
  obtain h2 where "hi_Put h (Some k) hdl e = Some (snd (si_old (toShard h) k), h2)" "hi_rel h2 s'"
    using hi_put_sim [OF hi_invD(1,2) [OF inv] rm s'] by blast
  then have "length (hi_keys h') = length (si_keys s')" using put hi_relD(2) by fastforce
  then show ?thesis using si_put_cap [OF hi_invD(2) [OF inv] rm s'] by (simp add: hi_length hi_map_def)
qed

lemma hi_Delete_cap:
  assumes inv: "hi_inv h" and del: "hi_Delete h key = Some (r, h')"
  shows "length (hi_keys h') = length (hi_keys h)"
proof -
  obtain j where j: "si_table j (toShard h)" using hi_invD(2) [OF inv] by (auto simp: si_inv_def)
  have "length (hi_keys t) = length (hi_keys h)"
    if w: "hi_probe h (keyBytes key) = Some w" "hi_keys h ! unat w = Some k" "hi_deleteAt h w = Some t" for w k t
  proof -
    have i: "unat w < length (hi_keys h)" using hi_probe_found [OF inv, of "keyBytes key"] w(1) by auto
    obtain s' where s': "si_deleteAt (toShard h) w = Some s'" "length (si_keys s') = length (si_keys (toShard h))"
      using si_deleteAt_ok [OF hi_invD(2) [OF inv], of w k] i w(2) by (auto simp: toShard_def)
    obtain h2 where "hi_deleteAt h w = Some h2" "hi_rel h2 s'"
      using hi_deleteAt_sim [OF hi_invD(1) [OF inv] j _ s'(1)] i by (auto simp: hi_length)
    then show ?thesis using w(3) s'(2) hi_relD(2) by (fastforce simp: hi_length)
  qed
  then show ?thesis using del by (auto simp: hi_Delete_def bind_eq_Some_conv split: option.splits)
qed

interpretation hi_sized: sized_table hi_inv "\<lambda>h. length (hi_keys h) < 2 ^ 62" hi_map
  "\<lambda>h k v. map_option snd (hi_Put h (Some k) (fst v) (snd v))" "\<lambda>h k. map_option snd (hi_Delete h (Some k))"
  "\<lambda>h. length (hi_keys h)"
  by unfold_locales (auto dest: hi_Put_cap hi_Delete_cap hi_count_card(2))

lemma hi_New_cap:
  assumes "3 \<le> n" "n \<le> 2 ^ 60"
  shows "length (hi_keys (hi_New n)) \<le> 2 * nat n" "nat n \<le> length (hi_keys (hi_New n))"
proof -
  have "uint (word_of_int n :: u64) = n" using assms by (simp add: uint_word_of_int_eq take_bit_int_eq_self)
  then have w: "unat (word_of_int n :: u64) = nat n" by (simp flip: nat_uint_eq)
  have "1 \<le> unat (word_of_int n :: u64)" "unat (word_of_int n :: u64) \<le> 2 ^ 63" using assms w by simp_all
  then obtain k where k: "unat (nextPowerOfTwo (word_of_int n)) = 2 ^ k" "k = 0 \<or> 2 ^ (k - 1) < unat (word_of_int n :: u64)"
    "unat (word_of_int n :: u64) \<le> 2 ^ k"
    by (rule nextPowerOfTwo_cases)
  have "(2 :: nat) ^ k \<le> 2 * nat n"
  proof (cases k)
    case 0
    then show ?thesis using assms by simp
  next
    case (Suc i)
    then show ?thesis using k(2) w by simp
  qed
  then show "length (hi_keys (hi_New n)) \<le> 2 * nat n" "nat n \<le> length (hi_keys (hi_New n))"
    using k(1,3) w by (simp_all add: hi_New_def hi_make_def)
qed

section \<open>Properties\<close>

text \<open>
  C19. The index of a shard is a map: every history of up to \<open>2 ^ 60\<close> puts and deletes on a fresh \<^verbatim>\<open>shardIndex\<close>
  returns, and leaves a well-formed table that holds exactly the map the history builds, in at most 64 slots
  or three times as many slots as there were operations.
\<close>

theorem shardIndex_history_total:
  fixes ops :: "(bytes, Handle \<times> u32) kv_op list"
  assumes "length ops \<le> 2 ^ 60"
  shows "\<exists>s'. kv_run (\<lambda>s k v. map_option snd (si_put s k (fst v) (snd v))) (\<lambda>s k. map_option snd (si_delete s k)) ops newShardIndex =
      Some s' \<and> si_inv s' \<and> si_map s' = fold kv_step ops Map.empty \<and> length (si_keys s') \<le> max 64 (3 * length ops)"
proof -
  have a: "length (si_keys newShardIndex) \<le> max 64 (3 * length ops)" by (simp add: newShardIndex_def makeIndex_def)
  have b: "3 * (card (dom (si_map newShardIndex)) + length ops) \<le> max 64 (3 * length ops)"
    by (simp add: newShardIndex_inv(2))
  have c: "max 64 (3 * length ops) < 2 ^ 62" using assms by simp
  from si_sized.run_total [OF newShardIndex_inv(1) a b c] show ?thesis unfolding newShardIndex_inv(2) .
qed

theorem shardIndex_history_total_witness:
  "\<exists>s'. kv_run (\<lambda>s k v. map_option snd (si_put s k (fst v) (snd v))) (\<lambda>s k. map_option snd (si_delete s k))
     [KPut [1] (wh1, 0), KPut [2] (wh1, 5), KDel [1]] newShardIndex = Some s' \<and> si_map s' = [[2] \<mapsto> (wh1, 5)]"
  using shardIndex_history_total [of "[KPut [1] (wh1, 0), KPut [2] (wh1, 5), KDel [1]]"] by (auto simp: fun_upd_twist)



end
