(* ===== verification/Recovery.thy ===== *)
theory Recovery
  imports Persist Index_Growth
begin

text \<open>
  What survives a crash: a client that writes through the \<^verbatim>\<open>PersistentManager\<close> and keeps its index up to date,
  and the index that \<^verbatim>\<open>New\<close> and \<^verbatim>\<open>LoadIndex\<close> of \<^verbatim>\<open>internal/arena/persist/persist.go\<close> rebuild from the file and the log.
\<close>

section \<open>The reserved area of the file\<close>

abbreviation img :: "Manager \<Rightarrow> bytes" where
  "img m \<equiv> rg_data (mg_regions m ! 0)"

definition areaLen :: "u64 \<Rightarrow> nat" where
  "areaLen rs = 4096 + unat (checkpointMaxSize rs)"

lemma area_bounds:
  assumes "16384 \<le> unat rs" "unat rs < 4294967296"
  shows "4096 \<le> unat (checkpointMaxSize rs)" "areaLen rs \<le> unat rs div 2" "unat (persistReservedBytes rs) = areaLen rs"
proof -
  let ?v = "unat rs div 8"
  have mx: "unat (checkpointMaxSize rs) = (let v = (if ?v > 1048576 then 1048576 else ?v) in if v < 4096 then 4096 else v)"
    by (simp add: checkpointMaxSize_def indexCheckpointMaxLen_def Let_def word_less_nat_alt unat_div)
  then show a: "4096 \<le> unat (checkpointMaxSize rs)" by (simp add: Let_def)
  show b: "areaLen rs \<le> unat rs div 2" using assms(1) by (auto simp: areaLen_def mx Let_def)
  let ?c = "checkpointMaxSize rs"
  have "persistReservedBytes rs = ucast (if 4096 + ?c > rs div 2 then rs div 2 else 4096 + ?c)"
    by (simp add: persistReservedBytes_def persistSuperblockBytes_def checkpointMaxSize_def indexCheckpointMaxLen_def Let_def)
  moreover have u: "unat (4096 + ?c) = areaLen rs"
    using b assms(2) by (subst unat_add_lem [THEN iffD1]) (simp_all add: areaLen_def)
  then have "\<not> 4096 + ?c > rs div 2" using b by (simp add: word_less_nat_alt unat_div)
  moreover have "unat (ucast (4096 + ?c) :: u32) = areaLen rs"
    using u b assms(2) by (simp add: unsigned_ucast_eq take_bit_nat_eq_self)
  ultimately show "unat (persistReservedBytes rs) = areaLen rs" by simp
qed

lemma copyArenaTo_eq:
  assumes "mg_regions m \<noteq> []" "unat off + n \<le> length (img m)" "length (img m) < 4294967296"
  shows "copyArenaTo m off n = Inr (slice (img m) (unat off) (unat off + n))"
proof -
  have "unat (off + of_nat n) = unat off + n"
    using assms(2,3) by (subst unat_add_lem [THEN iffD1]) (simp_all add: unat_of_nat_u64)
  then show ?thesis using assms(1,2) by (cases "mg_regions m") (simp_all add: copyArenaTo_def Let_def)
qed

lemma copyToArena_eq:
  assumes "mg_regions m \<noteq> []" "unat off + length buf \<le> length (img m)" "length (img m) < 4294967296"
  shows "copyToArena m off buf = Inr (m\<lparr>mg_regions := (mg_regions m)[0 := (mg_regions m ! 0)\<lparr>rg_data := copy_at (img m) (unat off) buf\<rparr>]\<rparr>)"
proof -
  have "unat (off + of_nat (length buf)) = unat off + length buf"
    using assms(2,3) by (subst unat_add_lem [THEN iffD1]) (simp_all add: unat_of_nat_u64)
  then show ?thesis using assms(1,2) by (cases "mg_regions m") (simp_all add: copyToArena_def Let_def)
qed

text \<open>A manager over a file of the right size.\<close>

definition file_ok :: "u64 \<Rightarrow> Manager \<Rightarrow> bool" where
  "file_ok rs m \<longleftrightarrow> mg_filePath m \<noteq> [] \<and> mg_size m = rs \<and> 16384 \<le> unat rs \<and> unat rs < 4294967296 \<and>
     mg_regions m \<noteq> [] \<and> length (img m) = unat rs"

lemma file_ok_area:
  assumes "file_ok rs m"
  shows "areaLen rs \<le> length (img m)" "4096 \<le> areaLen rs" "regBase m 0 = areaLen rs"
proof -
  have b: "16384 \<le> unat rs" "unat rs < 4294967296" "length (img m) = unat rs" "mg_size m = rs" "mg_filePath m \<noteq> []"
    using assms by (simp_all add: file_ok_def)
  show "areaLen rs \<le> length (img m)" using area_bounds(2) [OF b(1,2)] b(3) by linarith
  show "4096 \<le> areaLen rs" by (simp add: areaLen_def)
  show "regBase m 0 = areaLen rs" using area_bounds(3) [OF b(1,2)] b(4,5) by (simp add: regBase_def)
qed

lemma readSuperblock_eq:
  assumes "file_ok rs m"
  shows "readSuperblock m = map_sum PFormat id (decodeSuperblock (take 4096 (img m)))"
proof -
  have "copyArenaTo m 0 superblockSize = Inr (slice (img m) 0 4096)"
    using copyArenaTo_eq [of m 0 4096] assms by (simp add: file_ok_def superblockSize_def)
  then show ?thesis by (simp add: readSuperblock_def slice_def)
qed

lemma loadCheckpoint_eq:
  assumes "file_ok rs m"
  shows "loadCheckpoint m rs =
    (let body = slice (img m) 4096 (areaLen rs) in
     if slice body 0 4 \<noteq> checkpointMagic then Inl (PFormat PCkptBadMagic) else map_sum PFormat fst (decodeCheckpoint body))"
proof -
  have "copyArenaTo m indexCheckpointOffset (unat (checkpointMaxSize rs)) = Inr (slice (img m) 4096 (areaLen rs))"
    using copyArenaTo_eq [of m indexCheckpointOffset "unat (checkpointMaxSize rs)"] assms file_ok_area(1) [OF assms]
    by (simp add: file_ok_def indexCheckpointOffset_def superblockSize_def areaLen_def)
  then show ?thesis by (simp add: loadCheckpoint_def Let_def)
qed

definition same_area :: "Manager \<Rightarrow> Manager \<Rightarrow> bool" where
  "same_area m m' \<longleftrightarrow> mg_size m' = mg_size m \<and> mg_filePath m' = mg_filePath m \<and> mg_regions m' \<noteq> [] \<and>
     length (img m') = length (img m) \<and> take (regBase m 0) (img m') = take (regBase m 0) (img m)"

lemma same_area_trans: "same_area a b \<Longrightarrow> same_area b c \<Longrightarrow> same_area a c"
  by (auto simp: same_area_def regBase_def)

lemma same_area_reads:
  assumes "file_ok rs m" "length (img m') = length (img m)" "take (areaLen rs) (img m') = take (areaLen rs) (img m)" "file_ok rs m'"
  shows "readSuperblock m' = readSuperblock m" "loadCheckpoint m' rs = loadCheckpoint m rs"
proof -
  have "take 4096 (img m') = take 4096 (img m)"
    using arg_cong [OF assms(3), of "take 4096"] file_ok_area(2) [OF assms(1)] by (simp add: min_def)
  then show "readSuperblock m' = readSuperblock m" by (simp add: readSuperblock_eq [OF assms(1)] readSuperblock_eq [OF assms(4)])
  have "slice (img m') 4096 (areaLen rs) = slice (img m) 4096 (areaLen rs)" using assms(3) by (simp add: slice_take_drop)
  then show "loadCheckpoint m' rs = loadCheckpoint m rs" by (simp add: loadCheckpoint_eq [OF assms(1)] loadCheckpoint_eq [OF assms(4)])
qed

section \<open>Values never touch the reserved area\<close>

lemma put_step_area:
  assumes p: "put_step m H i v off a ms h"
  shows "same_area m (stored m i a off v ms)"
proof -
  note d = put_stepD [OF p] and q = put_step_region [OF p]
  note st = stored_simps [OF d(2), where a = a and off = off and v = v and ms = ms]
  have ne: "mg_regions (stored m i a off v ms) \<noteq> []" using st(1) d(2) by auto
  show ?thesis
  proof (cases "i = 0")
    case False
    then show ?thesis using ne st(2) [of 0] by (simp add: same_area_def stored_def)
  next
    case True
    have "placed (regBase m 0) (unat (al_offset a)) (blockOf off (h_Size h))" using q(1) True by (simp add: alloc_inv_def)
    then have "regBase m 0 \<le> unat off" by (simp add: placed_def blockOf_def)
    then have "take (regBase m 0) (copy_at (img m) (unat off) v) = take (regBase m 0) (img m)"
      using q(3,4) True by (simp add: copy_at_def min_def)
    then show ?thesis using ne st(3) True q(3,4) by (simp add: same_area_def stored_def)
  qed
qed

lemma putAt_area:
  assumes "mgr_inv m H" "i < length (mg_regions m)" "length v \<le> 67108864"
    and "Alloc (rg_alloc (mg_regions m ! i)) (of_nat (length v)) = (Inr off, a)"
  shows "same_area m (snd (putAt (setAlloc m i a) i off (of_nat (length v)) v))"
proof -
  obtain ms where ms: "rg_meta (mg_regions m ! i) = Some ms"
    using mgr_inv_region(1) [OF assms(1,2)] by (auto elim: region_okE)
  then have p: "put_step m H i v off a ms \<lparr>h_Offset = off, h_Size = of_nat (length v), h_Meta = 0, h_Region = of_nat i\<rparr>"
    using assms by (simp add: put_step_def)
  have n: "unat (of_nat (length v) :: u32) = length v" using assms(3) by (simp add: unat_of_nat_u32)
  show ?thesis using put_step_area [OF p] putAt_eq [OF assms(2) ms put_step_region(5) [OF p]] n by simp
qed

lemma same_area_refl: "mg_regions m \<noteq> [] \<Longrightarrow> same_area m m"
  by (simp add: same_area_def)

lemma putSlow_area:
  assumes inv: "mgr_inv m H" and ok: "mmap_ok mmap" and len: "length v \<le> 67108864"
  shows "same_area m (snd (putSlow mmap m v (of_nat (length v))))"
proof -
  let ?n = "of_nat (length v) :: u32" and ?i = "unat (mg_currentIdx m)"
  have i: "?i < length (mg_regions m)" using inv by (simp add: mgr_inv_def)
  then have ne: "mg_regions m \<noteq> []" by auto
  obtain res a where al: "Alloc (rg_alloc (mg_regions m ! ?i)) ?n = (res, a)" by force
  consider off where "res = Inr off" | e where "res = Inl e" "256 \<le> length (mg_regions m) \<or> (\<exists>e. newRegion mmap (mg_size m) = Inl e)"
    | e r where "res = Inl e" "length (mg_regions m) < 256" "newRegion mmap (mg_size m) = Inr r"
    by (cases res; cases "newRegion mmap (mg_size m)"; cases "length (mg_regions m) < 256") (auto simp: not_less)
  then show ?thesis
  proof cases
    case 1
    then show ?thesis using putAt_area [OF inv i len] al by (simp add: putSlow_def Let_def)
  next
    case 2
    then show ?thesis using al same_area_refl [OF ne] by (auto simp: putSlow_def Let_def)
  next
    case 3
    define m1 where "m1 = m\<lparr>mg_regions := mg_regions m @ [r\<lparr>rg_meta := Some (makeMeta (rg_data r))\<rparr>],
      mg_currentIdx := of_nat (length (mg_regions m))\<rparr>"
    note inv1 = add_region(1) [OF inv ok 3(3,2) m1_def]
    have a1: "same_area m m1" using ne by (simp add: same_area_def m1_def nth_append)
    obtain res1 a1 where al1: "Alloc (rg_alloc r) ?n = (res1, a1)" by force
    have l1: "length (mg_regions m) < length (mg_regions m1)"
      and r1: "rg_alloc (mg_regions m1 ! length (mg_regions m)) = rg_alloc r" by (simp_all add: m1_def)
    have "same_area m1 (snd (case res1 of Inl e \<Rightarrow> (Inl e, m1)
        | Inr off \<Rightarrow> putAt (setAlloc m1 (length (mg_regions m)) a1) (length (mg_regions m)) off ?n v))"
      using putAt_area [OF inv1 l1 len] al1 same_area_refl [of m1] by (cases res1) (simp_all add: r1 m1_def)
    then show ?thesis
      using same_area_trans [OF a1] 3 al al1 by (cases res1) (simp_all add: putSlow_def Let_def m1_def)
  qed
qed

lemma Put_area:
  assumes inv: "mgr_inv m H" and ok: "mmap_ok mmap" and len: "length v < 4294967296"
  shows "same_area m (snd (Put mmap m v))"
proof -
  let ?n = "of_nat (length v) :: u32" and ?i = "unat (mg_currentIdx m)"
  have i: "?i < length (mg_regions m)" using inv by (simp add: mgr_inv_def)
  then have "mg_regions m \<noteq> []" by auto
  note refl = same_area_refl [OF this]
  have n: "?n > MaxObjectSize \<longleftrightarrow> 67108864 < length v"
    using len by (simp add: MaxObjectSize_def word_less_nat_alt unat_of_nat_u32)
  obtain res a where al: "Alloc (rg_alloc (mg_regions m ! ?i)) ?n = (res, a)" by force
  show ?thesis
  proof (cases "67108864 < length v")
    case True
    then show ?thesis using n refl by (simp add: Put_def)
  next
    case False
    then have "length v \<le> 67108864" by simp
    then show ?thesis
      using n i al putAt_area [OF inv i, of v] putSlow_area [OF inv ok, of v] by (cases res) (simp_all add: Put_def Let_def not_le)
  qed
qed

lemma same_area_file_ok: "file_ok rs m \<Longrightarrow> same_area m m' \<Longrightarrow> file_ok rs m'"
  by (simp add: file_ok_def same_area_def)

section \<open>Rebuilding the index\<close>

text \<open>What a logged record means for the index, and what a checkpoint holds.\<close>

definition l_kv :: "logged \<Rightarrow> (bytes, Handle \<times> u32) kv_op" where
  "l_kv l = (case l of LDel k \<Rightarrow> KDel k | _ \<Rightarrow> KPut (l_key l) (handleOf (dec l), l_expires l))"

definition snap_map :: "(Entry \<times> bytes) list \<Rightarrow> bytes \<Rightarrow> (Handle \<times> u32) option" where
  "snap_map es = map_of (map (\<lambda>(e, k). (k, (en_Handle e, en_ExpiresAt e))) es)"

abbreviation hi_ins :: "HashIndex \<Rightarrow> bytes \<Rightarrow> Handle \<times> u32 \<Rightarrow> HashIndex option" where
  "hi_ins h k v \<equiv> map_option snd (hi_Put h (Some k) (fst v) (snd v))"

abbreviation hi_del :: "HashIndex \<Rightarrow> bytes \<Rightarrow> HashIndex option" where
  "hi_del h k \<equiv> map_option snd (hi_Delete h (Some k))"

lemma replayRecs_run:
  assumes "\<forall>l \<in> set ls. l_key l \<noteq> []"
  shows "replayRecs (map dec ls) idx = kv_run hi_ins hi_del (map l_kv ls) idx"
  using assms
proof (induction ls arbitrary: idx)
  case (Cons l ls)
  have ih: "replayRecs (map dec ls) i = kv_run hi_ins hi_del (map l_kv ls) i" for i using Cons by simp
  have d: "wr_Op (dec l) = l_op l" "wr_Key (dec l) = Some (l_key l)" "wr_ExpiresAt (dec l) = l_expires l"
    using Cons.prems by (simp_all add: dec_def nilIfEmpty_def)
  have "l_kv l = (if l_op l = walOpDel then KDel (l_key l) else KPut (l_key l) (handleOf (dec l), l_expires l))"
    by (cases l) (simp_all add: l_kv_def wal_ops)
  moreover have "l_op l = walOpSet \<and> l_expires l = 0 \<or> l_op l = walOpSetEx \<or> l_op l = walOpDel" by (cases l) simp_all
  ultimately show ?case
    by (auto simp: d ih wal_ops bind_eq_Some_conv split: option.splits)
qed simp

lemma hi_Add_length: "hi_Add h key hdl e = Some (b, h') \<Longrightarrow> length (hi_keys h') = length (hi_keys h)"
  by (auto simp: hi_Add_def bind_eq_Some_conv Let_def split: option.splits)

lemma addAll_ok:
  assumes "hi_inv h" "4 * (card (dom (hi_map h)) + length es) \<le> 3 * length (hi_keys h)"
  shows "\<exists>h'. addAll es h = Some h' \<and> hi_inv h' \<and> hi_map h' = snap_map es ++ hi_map h \<and>
    length (hi_keys h') = length (hi_keys h)"
  using assms
proof (induction es arbitrary: h)
  case Nil
  then show ?case by (simp add: snap_map_def)
next
  case (Cons a es)
  obtain e k where a: "a = (e, k)" by force
  note c = hi_count_card [OF Cons.prems(1)]
  have "4 * (hi_count h + 1) \<le> 3 * int (length (hi_keys h))" using Cons.prems(2) c(1) by simp
  from hi_Add_ok [OF Cons.prems(1) this, of k "en_Handle e" "en_ExpiresAt e"] obtain h1 where
    h1: "hi_Add h (Some k) (en_Handle e) (en_ExpiresAt e) = Some (hi_map h k = None, h1)" "hi_inv h1"
      "hi_map h1 = (if hi_map h k = None then (hi_map h)(k \<mapsto> (en_Handle e, en_ExpiresAt e)) else hi_map h)" by blast
  have len: "length (hi_keys h1) = length (hi_keys h)" by (rule hi_Add_length [OF h1(1)])
  have "card (dom (hi_map h1)) \<le> Suc (card (dom (hi_map h)))"
    unfolding h1(3) by (simp add: card_insert_if c(2))
  then have "4 * (card (dom (hi_map h1)) + length es) \<le> 3 * length (hi_keys h1)" using Cons.prems(2) len by simp
  from Cons.IH [OF h1(2) this] obtain h' where
    h': "addAll es h1 = Some h'" "hi_inv h'" "hi_map h' = snap_map es ++ hi_map h1" "length (hi_keys h') = length (hi_keys h1)" by blast
  have "hi_map h' = snap_map (a # es) ++ hi_map h"
    by (rule ext) (auto simp: h'(3) h1(3) a snap_map_def map_add_def split: option.splits)
  then show ?case using h1(1) h' len by (simp add: a)
qed

text \<open>The checkpoint of the file: none, or one with these entries.\<close>

definition ckpt_of :: "u64 \<Rightarrow> Manager \<Rightarrow> (Entry \<times> bytes) list \<Rightarrow> bool" where
  "ckpt_of rs m es \<longleftrightarrow> loadCheckpoint m rs = Inr es \<or> (es = [] \<and> loadCheckpoint m rs = Inl (PFormat PCkptBadMagic))"

lemma LoadIndex_ok:
  assumes inv: "hi_inv idx" "hi_map idx = Map.empty" and room: "4 * length es \<le> 3 * length (hi_keys idx)"
    and log: "holds ls (pm_wal pm)" "\<forall>l \<in> set ls. l_key l \<noteq> []" and ck: "ckpt_of (pm_regionSize pm) (pm_mgr pm) es"
    and B: "length (hi_keys idx) \<le> B" "3 * (length es + length ls) \<le> B" "B < 2 ^ 62"
  shows "\<exists>idx'. LoadIndex pm idx = Some (Inr (), syncLiveObjects pm idx', idx') \<and> hi_inv idx' \<and>
    hi_map idx' = fold kv_step (map l_kv ls) (snap_map es)"
proof -
  have "4 * (card (dom (hi_map idx)) + length es) \<le> 3 * length (hi_keys idx)" using room inv(2) by simp
  from addAll_ok [OF inv(1) this] obtain h where
    h: "addAll es idx = Some h" "hi_inv h" "hi_map h = snap_map es" "length (hi_keys h) = length (hi_keys idx)" using inv(2) by auto
  have "card (dom (snap_map es)) \<le> length es"
    using card_length [of "map fst (map (\<lambda>(e, k). (k, (en_Handle e, en_ExpiresAt e))) es)"]
    by (simp add: snap_map_def dom_map_of_conv_image_fst image_image)
  then have "3 * (card (dom (hi_map h)) + length (map l_kv ls)) \<le> B" using B(2) h(3) by simp
  moreover have "length (hi_keys h) \<le> B" using h(4) B(1) by simp
  ultimately obtain idx' where
    r: "kv_run hi_ins hi_del (map l_kv ls) h = Some idx'" "hi_inv idx'" "hi_map idx' = fold kv_step (map l_kv ls) (hi_map h)"
    using hi_sized.run_total [OF h(2) _ _ B(3)] by blast
  have "ReplayTo (pm_wal pm) h = Some idx'"
    using r(1) holds_Iterate [OF log(1)] replayRecs_run [OF log(2)] by (simp add: ReplayTo_def)
  moreover have "h = idx" if "es = []" using h(1) that by simp
  ultimately have "LoadIndex pm idx = Some (Inr (), syncLiveObjects pm idx', idx')"
    using ck h(1) by (auto simp: LoadIndex_def ckpt_of_def)
  then show ?thesis using r(2,3) h(3) by simp
qed

section \<open>Writing a checkpoint\<close>

definition with_img :: "Manager \<Rightarrow> bytes \<Rightarrow> Manager" where
  "with_img m d = m\<lparr>mg_regions := (mg_regions m)[0 := (mg_regions m ! 0)\<lparr>rg_data := d\<rparr>]\<rparr>"

lemma with_img_simps [simp]:
  "mg_size (with_img m d) = mg_size m" "mg_filePath (with_img m d) = mg_filePath m" "mg_regions (with_img m d) = [] \<longleftrightarrow> mg_regions m = []"
  "mg_regions m \<noteq> [] \<Longrightarrow> img (with_img m d) = d" "regBase (with_img m d) i = regBase m i"
  "length (mg_regions (with_img m d)) = length (mg_regions m)" "mg_currentIdx (with_img m d) = mg_currentIdx m"
  by (simp_all add: with_img_def regBase_def)

lemma with_img_nth:
  "i < length (mg_regions m) \<Longrightarrow> mg_regions (with_img m d) ! i = (if i = 0 then (mg_regions m ! 0)\<lparr>rg_data := d\<rparr> else mg_regions m ! i)"
  by (auto simp: with_img_def nth_list_update)

lemma file_ok_with_img: "file_ok rs m \<Longrightarrow> length d = length (img m) \<Longrightarrow> file_ok rs (with_img m d)"
  by (simp add: file_ok_def)

lemma with_img_inv:
  assumes inv: "mgr_inv m H" and d: "length d = length (img m)" "drop (regBase m 0) d = drop (regBase m 0) (img m)"
  shows "mgr_inv (with_img m d) H" "h \<in> H \<Longrightarrow> View (with_img m d) h = View m h"
proof -
  have ne: "0 < length (mg_regions m)" using inv by (auto simp: mgr_inv_def)
  have "region_ok (mg_size m) r" if r: "r \<in> set (mg_regions (with_img m d))" for r
  proof -
    obtain i where i: "i < length (mg_regions (with_img m d))" "mg_regions (with_img m d) ! i = r"
      using r unfolding in_set_conv_nth by blast
    have "region_ok (mg_size m) (mg_regions m ! i)" using mgr_inv_region(1) [OF inv, of i] i(1) by simp
    moreover have "r = (if i = 0 then (mg_regions m ! 0)\<lparr>rg_data := d\<rparr> else mg_regions m ! i)"
      using i with_img_nth [of i m d] by simp
    ultimately show ?thesis using d(1) by (cases "i = 0") (simp_all add: region_ok_def)
  qed
  moreover have "rg_alloc (mg_regions (with_img m d) ! i) = rg_alloc (mg_regions m ! i)" if "i < length (mg_regions m)" for i
    using that by (simp add: with_img_nth)
  ultimately show inv': "mgr_inv (with_img m d) H" using inv by (simp add: mgr_inv_def)
  show "View (with_img m d) h = View m h" if h: "h \<in> H"
  proof (cases "unat (h_Region h) = 0")
    case False
    then show ?thesis using View_live [OF inv' h] View_live [OF inv h] live_block(1) [OF inv h] by (simp add: with_img_nth)
  next
    case True
    have "regBase m 0 \<le> unat (h_Offset h)" using live_block(3) [OF inv h] True by (simp add: placed_def blockOf_def)
    then obtain j where j: "unat (h_Offset h) = j + regBase m 0" using le_Suc_ex by (metis add.commute)
    have "drop (unat (h_Offset h)) d = drop (unat (h_Offset h)) (img m)"
      unfolding j drop_drop [symmetric] d(2) ..
    then show ?thesis using View_live [OF inv' h] View_live [OF inv h] ne True by (simp add: slice_def)
  qed
qed

lemma decodeSuperblock_version: "decodeSuperblock buf = Inr sb \<Longrightarrow> sb_Version sb = sb_version"
  by (auto simp: decodeSuperblock_def Let_def split: if_splits)

lemma snapBytes_length: "length snap \<le> length (snapBytes snap)"
  by (induction snap) (auto simp: snapBytes_def length_entryBytes entrySize_def ckpt_sizes)

lemma encodeCheckpoint_size:
  assumes "encodeCheckpoint buf snap = (Inr n, out)"
  shows "n \<le> length buf" "n = 12 + length (snapBytes snap)"
proof -
  let ?h = "checkpointMagic @ put_u32 checkpointVersion @ put_u32 (of_nat (length snap))"
  have e: "12 \<le> length buf" "encEntries (copy_at buf 0 ?h) 12 snap = (Inr n, out)"
    using assms by (simp_all add: encodeCheckpoint_def ckpt_sizes split: if_splits)
  have lb: "length (copy_at buf 0 ?h) = length buf" using e(1) by (simp add: checkpointMagic_def)
  from encEntries_ok(2,3) [OF e(2), unfolded lb, OF e(1)] show "n \<le> length buf" "n = 12 + length (snapBytes snap)" by simp_all
qed

lemma setSuperblock_eq:
  assumes "file_ok rs m" "sb_Version sb = sb_version"
  shows "\<exists>b. length b = 4096 \<and> decodeSuperblock b = Inr sb \<and> setSuperblock m sb = Inr (with_img m (b @ drop 4096 (img m)))"
proof -
  define b where "b = the (encodeSuperblock (replicate superblockSize 0) sb)"
  have "encodeSuperblock (replicate superblockSize 0) sb = Some b"
    using encodeSuperblock_eq [of "replicate superblockSize 0" sb] by (simp add: b_def superblockSize_def)
  from superblock_roundtrip [OF _ this] have b: "length b = 4096" "decodeSuperblock b = Inr sb"
    using assms(2) by (simp_all add: superblockSize_def)
  moreover have "4096 \<le> length (img m)" "length (img m) < 4294967296" "mg_regions m \<noteq> []"
    using assms(1) by (simp_all add: file_ok_def)
  ultimately have "setSuperblock m sb = Inr (with_img m (b @ drop 4096 (img m)))"
    using copyToArena_eq [of m 0 b] by (simp add: setSuperblock_def with_img_def copy_at_def flip: b_def)
  then show ?thesis using b by blast
qed

lemma writeCheckpoint_ok:
  assumes ok: "file_ok rs m" and sb: "readSuperblock m = Inr sb" and inv: "mgr_inv m H"
    and wr: "writeCheckpoint synced m snap rs = (Inr n, m')"
  shows "file_ok rs m'" "\<exists>sb. readSuperblock m' = Inr sb" "loadCheckpoint m' rs = Inr (map (\<lambda>(e, k). (ckpt_entry e k, k)) snap)"
    "mgr_inv m' H" "\<forall>h \<in> H. View m' h = View m h"
proof -
  let ?c = "unat (checkpointMaxSize rs)"
  obtain buf where e: "encodeCheckpoint (replicate ?c 0) snap = (Inr n, buf)"
    using wr by (auto simp: writeCheckpoint_def split: prod.splits sum.splits if_splits)
  have big: "length snap < 4294967296"
  proof -
    have "n \<le> ?c" "n = 12 + length (snapBytes snap)" using encodeCheckpoint_size [OF e] by simp_all
    moreover have "areaLen rs \<le> unat rs div 2" "unat rs < 4294967296" using ok area_bounds(2) by (simp_all add: file_ok_def)
    ultimately show ?thesis using snapBytes_length [of snap] unfolding areaLen_def by linarith
  qed
  note rt = checkpoint_roundtrip [OF e big]
  have ln: "length (take n buf) = n" "n \<le> ?c" using rt(1,2) by simp_all
  note area = file_ok_area [OF ok]
  define d1 where "d1 = copy_at (img m) 4096 (take n buf)"
  have n1: "4096 + n \<le> length (img m)" using ln area(1) by (simp add: areaLen_def)
  then have l1: "length d1 = length (img m)" "take 4096 d1 = take 4096 (img m)" "drop (areaLen rs) d1 = drop (areaLen rs) (img m)"
    "slice d1 4096 (areaLen rs) = take n buf @ slice (img m) (4096 + n) (areaLen rs)"
    using ln by (simp_all add: d1_def copy_at_def areaLen_def slice_def add.commute)
  have ne: "mg_regions m \<noteq> []" "length (img m) < 4294967296" using ok by (simp_all add: file_ok_def)
  have c1: "copyToArena m indexCheckpointOffset (take n buf) = Inr (with_img m d1)"
    using copyToArena_eq [OF ne(1), of indexCheckpointOffset "take n buf"] n1 ln ne(2)
    by (simp add: indexCheckpointOffset_def superblockSize_def with_img_def d1_def)
  note ok1 = file_ok_with_img [OF ok l1(1)]
  have rd: "readSuperblock (with_img m d1) = Inr sb" using sb l1(2) ne by (simp add: readSuperblock_eq [OF ok] readSuperblock_eq [OF ok1])
  have ver: "sb_Version sb = sb_version"
    using sb by (cases "decodeSuperblock (take 4096 (img m))") (auto simp: readSuperblock_eq [OF ok] decodeSuperblock_version)
  let ?sb = "sb\<lparr>sb_CheckpointCount := of_nat (length snap), sb_WALOffset := 0\<rparr>"
  have "sb_Version ?sb = sb_version" using ver by simp
  from setSuperblock_eq [OF ok1 this] obtain b where
    b: "length b = 4096" "decodeSuperblock b = Inr ?sb" "setSuperblock (with_img m d1) ?sb = Inr (with_img (with_img m d1) (b @ drop 4096 d1))"
    using ne by auto
  let ?d = "b @ drop 4096 d1"
  have "m' = with_img (with_img m d1) ?d"
    using wr e c1 rd b(3) by (auto simp: writeCheckpoint_def split: if_splits)
  then have m': "m' = with_img m ?d" using ne by (simp add: with_img_def)
  have ld: "length ?d = length (img m)" using b(1) l1(1) n1 by simp
  show ok': "file_ok rs m'" unfolding m' by (rule file_ok_with_img [OF ok ld])
  show "\<exists>sb. readSuperblock m' = Inr sb"
    unfolding readSuperblock_eq [OF ok'] unfolding m' using b(1,2) ne by simp
  have "slice ?d 4096 (areaLen rs) = slice d1 4096 (areaLen rs)" using b(1) by (simp add: slice_def areaLen_def)
  then have sl: "slice (img m') 4096 (areaLen rs) = take n buf @ slice (img m) (4096 + n) (areaLen rs)" using l1(4) ne by (simp add: m')
  have mg: "slice (take n buf @ z) 0 4 = checkpointMagic" for z unfolding rt(3) by (simp add: slice_def checkpointMagic_def)
  show "loadCheckpoint m' rs = Inr (map (\<lambda>(e, k). (ckpt_entry e k, k)) snap)"
    unfolding loadCheckpoint_eq [OF ok'] sl Let_def rt(4) mg by simp
  have "drop (areaLen rs) ?d = drop (areaLen rs) (img m)" using l1(3) b(1) area(2) by simp
  note wi = with_img_inv [OF inv ld, unfolded area(3), OF this]
  show "mgr_inv m' H" "\<forall>h \<in> H. View m' h = View m h" unfolding m' using wi by blast+
qed

section \<open>A client and its store\<close>

text \<open>
  The client of \<^verbatim>\<open>PersistentManager\<close> that the package comment shows: it stores a value and puts the handle into
  its index, deletes a key from both, and writes a checkpoint of the index now and then.  A step is \<open>None\<close> when
  the call fails or does not return.
\<close>

datatype client_op = CPut bytes bytes | CPutEx bytes bytes u32 | CDelete bytes | CCheckpoint

record client_env =
  ce_mmap :: mmap_fn
  ce_io :: wal_io
  ce_synced :: "nat \<Rightarrow> bool"

fun client_step :: "client_env \<Rightarrow> client_op \<Rightarrow> PersistentManager \<times> HashIndex \<Rightarrow> (PersistentManager \<times> HashIndex) option" where
  "client_step ce (CPut k v) (pm, idx) =
    (case pm_Put (ce_mmap ce) (ce_io ce) pm k v of
       (Inr (h, _), pm1) \<Rightarrow> map_option (\<lambda>(_, idx1). (pm1, idx1)) (hi_Put idx (Some k) h 0)
     | _ \<Rightarrow> None)"
| "client_step ce (CPutEx k v e) (pm, idx) =
    (case pm_PutEx (ce_mmap ce) (ce_io ce) pm k v e of
       (Inr (h, _), pm1) \<Rightarrow> map_option (\<lambda>(_, idx1). (pm1, idx1)) (hi_Put idx (Some k) h e)
     | _ \<Rightarrow> None)"
| "client_step ce (CDelete k) (pm, idx) =
    (case pm_Delete (ce_io ce) pm k of
       (Inr _, pm1) \<Rightarrow> map_option (\<lambda>(_, idx1). (pm1, idx1)) (hi_Delete idx (Some k))
     | _ \<Rightarrow> None)"
| "client_step ce CCheckpoint (pm, idx) =
    (case pm_Checkpoint (ce_io ce) (ce_synced ce) pm idx of (Inr _, pm1) \<Rightarrow> Some (pm1, idx) | _ \<Rightarrow> None)"

fun client_run :: "(client_env \<times> client_op) list \<Rightarrow> PersistentManager \<times> HashIndex \<Rightarrow> (PersistentManager \<times> HashIndex) option" where
  "client_run [] s = Some s"
| "client_run ((ce, op) # ops) s = (case client_step ce op s of None \<Rightarrow> None | Some s1 \<Rightarrow> client_run ops s1)"

text \<open>What the operations mean; a checkpoint forgets the expiry times.\<close>

fun client_spec :: "client_op \<Rightarrow> (bytes \<Rightarrow> (bytes \<times> u32) option) \<Rightarrow> bytes \<Rightarrow> (bytes \<times> u32) option" where
  "client_spec (CPut k v) M = M(k \<mapsto> (v, 0))"
| "client_spec (CPutEx k v e) M = M(k \<mapsto> (v, e))"
| "client_spec (CDelete k) M = M(k := None)"
| "client_spec CCheckpoint M = (\<lambda>k. map_option (\<lambda>(v, _). (v, 0)) (M k))"

fun op_ok :: "client_op \<Rightarrow> bool" where
  "op_ok (CPut k v) \<longleftrightarrow> k \<noteq> [] \<and> length k < 65536 \<and> length v < 4294967296"
| "op_ok (CPutEx k v e) \<longleftrightarrow> k \<noteq> [] \<and> length k < 65536 \<and> length v < 4294967296"
| "op_ok (CDelete k) \<longleftrightarrow> k \<noteq> [] \<and> length k < 65536"
| "op_ok CCheckpoint \<longleftrightarrow> True"

text \<open>
  The store: what a restart would rebuild is \<open>R\<close>, from the checkpoint \<open>es\<close> and the log \<open>ls\<close>, and all its handles are
  live in the arena.
\<close>

definition store_ok :: "nat \<Rightarrow> Handle set \<Rightarrow> (bytes \<Rightarrow> (Handle \<times> u32) option) \<Rightarrow> PersistentManager \<Rightarrow> bool" where
  "store_ok N H R pm \<longleftrightarrow> \<not> pm_closed pm \<and> file_ok (pm_regionSize pm) (pm_mgr pm) \<and> mgr_inv (pm_mgr pm) H \<and>
     (\<exists>sb. readSuperblock (pm_mgr pm) = Inr sb) \<and>
     (\<exists>es ls. ckpt_of (pm_regionSize pm) (pm_mgr pm) es \<and> length es \<le> N \<and> holds ls (pm_wal pm) \<and> length ls \<le> N \<and>
        (\<forall>l \<in> set ls. l_key l \<noteq> []) \<and> R = fold kv_step (map l_kv ls) (snap_map es)) \<and>
     (\<forall>k h e. R k = Some (h, e) \<longrightarrow> h \<in> H \<and> h_Meta h = 0)"

lemma handleOf_likeOf: "h_Meta h = 0 \<Longrightarrow> handleOf (dec (LSet k v (likeOf h))) = h" "h_Meta h = 0 \<Longrightarrow> handleOf (dec (LSetEx k v (likeOf h) e)) = h"
  by (cases h; simp add: handleOf_def dec_def likeOf_def)+

lemma ckpt_of_same_area:
  assumes "file_ok rs m" "same_area m m'" "ckpt_of rs m es" "readSuperblock m = Inr sb"
  shows "ckpt_of rs m' es" "readSuperblock m' = Inr sb"
proof -
  have "length (img m') = length (img m)" "take (areaLen rs) (img m') = take (areaLen rs) (img m)"
    using assms(2) file_ok_area(3) [OF assms(1)] by (simp_all add: same_area_def)
  from same_area_reads [OF assms(1) this same_area_file_ok [OF assms(1,2)]] assms(3,4)
  show "ckpt_of rs m' es" "readSuperblock m' = Inr sb" by (simp_all add: ckpt_of_def)
qed

text \<open>A successful store of a value, whatever record it logs.\<close>

lemma pm_store_ok:
  assumes st: "store_ok N H R pm" and ok: "mmap_ok mmap" and fit: "\<And>h. fits (L h)" "length v < 4294967296"
    and L: "\<And>h. l_key (L h) = k" "\<And>h. h_Meta h = 0 \<Longrightarrow> l_kv (L h) = KPut k (h, ex)" and k: "k \<noteq> []"
    and run: "pm_store mmap io pm v (\<lambda>w h. append_logged io w (L h)) = (Inr (h, view), pm')"
  shows "store_ok (Suc N) (insert h H) (R(k \<mapsto> (h, ex))) pm'" "View (pm_mgr pm') h = Inr v" "h_Meta h = 0"
    "\<forall>x \<in> H. View (pm_mgr pm') x = View (pm_mgr pm) x"
proof -
  obtain m where put: "Put mmap (pm_mgr pm) v = (Inr h, m)"
    using run by (auto simp: pm_store_def split: if_splits sum.splits prod.splits)
  obtain off w where ap: "append_logged io (pm_wal pm) (L h) = (Inr off, w)" and pm': "pm' = pm\<lparr>pm_mgr := m, pm_wal := w\<rparr>"
    using run put by (auto simp: pm_store_def split: if_splits sum.splits prod.splits)
  have d: "\<not> pm_closed pm" "file_ok (pm_regionSize pm) (pm_mgr pm)" "mgr_inv (pm_mgr pm) H" using st by (simp_all add: store_ok_def)
  obtain sb where sb: "readSuperblock (pm_mgr pm) = Inr sb" using st by (auto simp: store_ok_def)
  obtain es ls where el: "ckpt_of (pm_regionSize pm) (pm_mgr pm) es" "length es \<le> N" "holds ls (pm_wal pm)" "length ls \<le> N"
    "\<forall>l \<in> set ls. l_key l \<noteq> []" "R = fold kv_step (map l_kv ls) (snap_map es)" using st by (auto simp: store_ok_def)
  have p: "mgr_inv m (insert h H)" "View m h = Inr v" "h_Meta h = 0" "frame (pm_mgr pm) m H"
    using Put_post [OF d(3) ok fit(2)] put by (simp_all add: put_post_def)
  have ar: "same_area (pm_mgr pm) m" using Put_area [OF d(3) ok fit(2)] put by simp
  note ck = ckpt_of_same_area [OF d(2) ar el(1) sb]
  have h: "holds (ls @ [L h]) w" by (rule holds_append(1) [OF el(3) fit(1) ap])
  have "R(k \<mapsto> (h, ex)) = fold kv_step (map l_kv (ls @ [L h])) (snap_map es)" by (simp add: el(6) L(2) [OF p(3)])
  moreover have "\<forall>l \<in> set (ls @ [L h]). l_key l \<noteq> []" using el(5) k L(1) by auto
  ultimately have "\<exists>es ls. ckpt_of (pm_regionSize pm) m es \<and> length es \<le> Suc N \<and> holds ls w \<and> length ls \<le> Suc N \<and>
      (\<forall>l \<in> set ls. l_key l \<noteq> []) \<and> R(k \<mapsto> (h, ex)) = fold kv_step (map l_kv ls) (snap_map es)"
    using ck(1) el(2,4) h by (intro exI [of _ es] exI [of _ "ls @ [L h]"]) simp
  moreover have "\<forall>k h' e. (R(k \<mapsto> (h, ex))) k = Some (h', e) \<longrightarrow> h' \<in> insert h H \<and> h_Meta h' = 0" for k
    using st p(3) by (auto simp: store_ok_def)
  moreover have "file_ok (pm_regionSize pm) m" by (rule same_area_file_ok [OF d(2) ar])
  ultimately show "store_ok (Suc N) (insert h H) (R(k \<mapsto> (h, ex))) pm'"
    using d p(1,3) ck(2) st unfolding store_ok_def by (auto simp: pm')
  show "View (pm_mgr pm') h = Inr v" "h_Meta h = 0" "\<forall>x \<in> H. View (pm_mgr pm') x = View (pm_mgr pm) x"
    using p(2-4) by (simp_all add: pm' frame_def)
qed

lemma pm_Put_ok:
  assumes "store_ok N H R pm" "mmap_ok mmap" "op_ok (CPut k v)" "pm_Put mmap io pm k v = (Inr (h, view), pm')"
  shows "store_ok (Suc N) (insert h H) (R(k \<mapsto> (h, 0))) pm'" "View (pm_mgr pm') h = Inr v"
    "\<forall>x \<in> H. View (pm_mgr pm') x = View (pm_mgr pm) x"
proof -
  let ?L = "\<lambda>h. LSet k v (likeOf h)"
  have L: "fits (?L h)" "l_key (?L h) = k" "h_Meta h = 0 \<Longrightarrow> l_kv (?L h) = KPut k (h, 0)" for h
    using assms(3) by (simp_all add: fits_def l_kv_def handleOf_likeOf)
  have r: "pm_store mmap io pm v (\<lambda>w h. append_logged io w (?L h)) = (Inr (h, view), pm')"
    using assms(4) by (simp add: pm_Put_def append_ops)
  have v: "length v < 4294967296" "k \<noteq> []" using assms(3) by simp_all
  from pm_store_ok [OF assms(1,2) L(1) v(1) L(2,3) v(2) r]
  show "store_ok (Suc N) (insert h H) (R(k \<mapsto> (h, 0))) pm'" "View (pm_mgr pm') h = Inr v"
    "\<forall>x \<in> H. View (pm_mgr pm') x = View (pm_mgr pm) x" by simp_all
qed

lemma pm_PutEx_ok:
  assumes "store_ok N H R pm" "mmap_ok mmap" "op_ok (CPutEx k v e)" "pm_PutEx mmap io pm k v e = (Inr (h, view), pm')"
  shows "store_ok (Suc N) (insert h H) (R(k \<mapsto> (h, e))) pm'" "View (pm_mgr pm') h = Inr v"
    "\<forall>x \<in> H. View (pm_mgr pm') x = View (pm_mgr pm) x"
proof -
  let ?L = "\<lambda>h. LSetEx k v (likeOf h) e"
  have L: "fits (?L h)" "l_key (?L h) = k" "h_Meta h = 0 \<Longrightarrow> l_kv (?L h) = KPut k (h, e)" for h
    using assms(3) by (simp_all add: fits_def l_kv_def handleOf_likeOf)
  have r: "pm_store mmap io pm v (\<lambda>w h. append_logged io w (?L h)) = (Inr (h, view), pm')"
    using assms(4) by (simp add: pm_PutEx_def append_ops)
  have v: "length v < 4294967296" "k \<noteq> []" using assms(3) by simp_all
  from pm_store_ok [OF assms(1,2) L(1) v(1) L(2,3) v(2) r]
  show "store_ok (Suc N) (insert h H) (R(k \<mapsto> (h, e))) pm'" "View (pm_mgr pm') h = Inr v"
    "\<forall>x \<in> H. View (pm_mgr pm') x = View (pm_mgr pm) x" by simp_all
qed

lemma pm_Delete_ok:
  assumes st: "store_ok N H R pm" and op: "op_ok (CDelete k)" and run: "pm_Delete io pm k = (Inr u, pm')"
  shows "store_ok (Suc N) H (R(k := None)) pm'" "pm_mgr pm' = pm_mgr pm"
proof -
  have f: "fits (LDel k)" "k \<noteq> []" using op by (simp_all add: fits_def)
  obtain off w where ap: "append_logged io (pm_wal pm) (LDel k) = (Inr off, w)" and pm': "pm' = pm\<lparr>pm_wal := w\<rparr>"
    using run by (auto simp: pm_Delete_def append_ops split: if_splits sum.splits prod.splits)
  show "pm_mgr pm' = pm_mgr pm" by (simp add: pm')
  obtain es ls where el: "ckpt_of (pm_regionSize pm) (pm_mgr pm) es" "length es \<le> N" "holds ls (pm_wal pm)" "length ls \<le> N"
    "\<forall>l \<in> set ls. l_key l \<noteq> []" "R = fold kv_step (map l_kv ls) (snap_map es)" using st by (auto simp: store_ok_def)
  have "R(k := None) = fold kv_step (map l_kv (ls @ [LDel k])) (snap_map es)" by (simp add: el(6) l_kv_def)
  then have "\<exists>es ls. ckpt_of (pm_regionSize pm) (pm_mgr pm) es \<and> length es \<le> Suc N \<and> holds ls w \<and> length ls \<le> Suc N \<and>
      (\<forall>l \<in> set ls. l_key l \<noteq> []) \<and> R(k := None) = fold kv_step (map l_kv ls) (snap_map es)"
    using el holds_append(1) [OF el(3) f(1) ap] f(2) by (intro exI [of _ es] exI [of _ "ls @ [LDel k]"]) auto
  then show "store_ok (Suc N) H (R(k := None)) pm'" using st unfolding store_ok_def by (auto simp: pm')
qed

lemma Snapshot_card:
  assumes "hi_inv idx" shows "length (hi_Snapshot idx) = card (dom (hi_map idx))"
proof -
  note c = HashIndex_Snapshot_complete [OF assms]
  have "dom (hi_map idx) = set (map snd (hi_Snapshot idx))" using c by (force simp: dom_def)
  then show ?thesis using c by (metis distinct_card length_map)
qed

text \<open>What a checkpoint of the index holds.\<close>

lemma snap_map_ckpt:
  assumes "hi_inv idx"
  shows "snap_map (map (\<lambda>(e, k). (ckpt_entry e k, k)) (hi_Snapshot idx)) k =
    map_option (\<lambda>(h, _). (h\<lparr>h_Meta := ucast (ucast (h_Meta h) :: u8)\<rparr>, 0)) (hi_map idx k)"
proof -
  note c = HashIndex_Snapshot_complete [OF assms]
  let ?f = "\<lambda>(e, k). (k, (en_Handle (ckpt_entry e k), en_ExpiresAt (ckpt_entry e k)))"
  have sm: "snap_map (map (\<lambda>(e, k). (ckpt_entry e k, k)) (hi_Snapshot idx)) = map_of (map ?f (hi_Snapshot idx))"
    by (simp add: snap_map_def comp_def case_prod_unfold)
  have ds: "distinct (map fst (map ?f (hi_Snapshot idx)))" using c by (simp add: comp_def case_prod_unfold)
  show ?thesis
  proof (cases "hi_map idx k")
    case None
    have "hi_map idx k = Some (en_Handle e, en_ExpiresAt e)" if "(e, k) \<in> set (hi_Snapshot idx)" for e using c that by blast
    then have "(e, k) \<notin> set (hi_Snapshot idx)" for e using None by force
    then have "map_of (map ?f (hi_Snapshot idx)) k = None" by (auto simp: map_of_eq_None_iff)
    then show ?thesis using None sm by simp
  next
    case (Some he)
    obtain h x where he: "he = (h, x)" by force
    obtain e where e: "(e, k) \<in> set (hi_Snapshot idx)" "en_Handle e = h" using c Some he by auto
    have "?f (e, k) \<in> set (map ?f (hi_Snapshot idx))" using e(1) by force
    then have "map_of (map ?f (hi_Snapshot idx)) k = Some (en_Handle (ckpt_entry e k), en_ExpiresAt (ckpt_entry e k))"
      by (intro map_of_is_SomeI [OF ds]) simp
    then show ?thesis using Some he e(2) sm by (simp add: ckpt_entry_def)
  qed
qed

lemma pm_Checkpoint_ok:
  assumes st: "store_ok N H R pm" and idx: "hi_inv idx" "card (dom (hi_map idx)) \<le> N"
    and R: "\<forall>k. map_option fst (hi_map idx k) = map_option fst (R k)"
    and run: "pm_Checkpoint io synced pm idx = (Inr u, pm')"
  shows "store_ok (Suc N) H (\<lambda>k. map_option (\<lambda>(h, _). (h, 0)) (R k)) pm'" "\<forall>x \<in> H. View (pm_mgr pm') x = View (pm_mgr pm) x"
proof -
  let ?R = "\<lambda>k. map_option (\<lambda>(h, _). (h, 0 :: u32)) (R k)" and ?es = "map (\<lambda>(e, k). (ckpt_entry e k, k)) (hi_Snapshot idx)"
  obtain n m where wr: "writeCheckpoint synced (pm_mgr pm) (hi_Snapshot idx) (pm_regionSize pm) = (Inr n, m)"
    using run by (auto simp: pm_Checkpoint_def split: prod.splits sum.splits)
  then have pm': "pm' = pm\<lparr>pm_mgr := m, pm_wal := (pm_wal pm)\<lparr>wl_file := [], wl_off := 0\<rparr>\<rparr>"
    using run by (auto simp: pm_Checkpoint_def Rotate_def split: if_splits)
  have d: "\<not> pm_closed pm" "file_ok (pm_regionSize pm) (pm_mgr pm)" "mgr_inv (pm_mgr pm) H" using st by (simp_all add: store_ok_def)
  obtain sb where sb: "readSuperblock (pm_mgr pm) = Inr sb" using st by (auto simp: store_ok_def)
  note w = writeCheckpoint_ok [OF d(2) sb d(3) wr]
  have "snap_map ?es k = ?R k" for k
  proof (cases "R k")
    case None
    then have "hi_map idx k = None" using R by (metis map_option_is_None)
    then show ?thesis using None snap_map_ckpt [OF idx(1), of k] by simp
  next
    case (Some he)
    obtain h e where he: "he = (h, e)" by force
    have "map_option fst (hi_map idx k) = Some h" using R Some he by simp
    then obtain x where "hi_map idx k = Some (h, x)" by auto
    moreover have "h_Meta h = 0" using st Some he by (auto simp: store_ok_def)
    ultimately show ?thesis using Some he snap_map_ckpt [OF idx(1), of k] by (cases h) simp
  qed
  then have eq: "?R = fold kv_step (map l_kv []) (snap_map ?es)" by auto
  have "\<exists>es ls. ckpt_of (pm_regionSize pm) m es \<and> length es \<le> Suc N \<and> holds ls (pm_wal pm') \<and> length ls \<le> Suc N \<and>
      (\<forall>l \<in> set ls. l_key l \<noteq> []) \<and> ?R = fold kv_step (map l_kv ls) (snap_map es)"
    by (rule exI [of _ ?es], rule exI [of _ "[]"]) (use w(3) idx Snapshot_card eq in \<open>simp add: ckpt_of_def holds_def pm'\<close>)
  moreover have "\<forall>k h e. ?R k = Some (h, e) \<longrightarrow> h \<in> H \<and> h_Meta h = 0" using st by (auto simp: store_ok_def)
  ultimately show "store_ok (Suc N) H ?R pm'" using d w(1,2,4) unfolding store_ok_def by (simp add: pm')
  show "\<forall>x \<in> H. View (pm_mgr pm') x = View (pm_mgr pm) x" using w(5) by (simp add: pm')
qed

section \<open>Histories\<close>

definition vals :: "(bytes \<Rightarrow> (Handle \<times> u32) option) \<Rightarrow> (bytes \<Rightarrow> (bytes \<times> u32) option) \<Rightarrow> Manager \<Rightarrow> bool" where
  "vals R M m \<longleftrightarrow> (\<forall>k. case R k of None \<Rightarrow> M k = None | Some (h, e) \<Rightarrow> \<exists>v. View m h = Inr v \<and> M k = Some (v, e))"

definition client_inv :: "nat \<Rightarrow> nat \<Rightarrow> (bytes \<Rightarrow> (bytes \<times> u32) option) \<Rightarrow> PersistentManager \<Rightarrow> HashIndex \<Rightarrow> bool" where
  "client_inv N B M pm idx \<longleftrightarrow> (\<exists>H R. store_ok N H R pm \<and> vals R M (pm_mgr pm) \<and>
     (\<forall>k. map_option fst (hi_map idx k) = map_option fst (R k))) \<and>
     hi_inv idx \<and> card (dom (hi_map idx)) \<le> N \<and> length (hi_keys idx) \<le> B"

lemma vals_put:
  assumes "vals R M m" "\<forall>x \<in> H. View m' x = View m x" "\<forall>k h e. R k = Some (h, e) \<longrightarrow> h \<in> H" "View m' h = Inr v"
  shows "vals (R(k \<mapsto> (h, e))) (M(k \<mapsto> (v, e))) m'"
proof -
  have same: "View m' h = View m h" if "R k = Some (h, e)" for k h e using assms(2,3) that by blast
  have "case R k of None \<Rightarrow> M k = None | Some (h, e) \<Rightarrow> \<exists>v. View m' h = Inr v \<and> M k = Some (v, e)" for k
    using assms(1) [unfolded vals_def, THEN spec, of k] by (cases "R k") (auto dest: same)
  then show ?thesis using assms(4) unfolding vals_def fun_upd_apply by simp
qed

lemma vals_keep:
  assumes "vals R M m" "\<forall>x \<in> H. View m' x = View m x" "\<forall>k h e. R k = Some (h, e) \<longrightarrow> h \<in> H"
  shows "vals (\<lambda>k. map_option (\<lambda>(h, _). (h, 0)) (R k)) (\<lambda>k. map_option (\<lambda>(v, _). (v, 0)) (M k)) m'" "vals (R(k := None)) (M(k := None)) m"
proof -
  have same: "View m' h = View m h" if "R k = Some (h, e)" for k h e using assms(2,3) that by blast
  show "vals (\<lambda>k. map_option (\<lambda>(h, _). (h, 0)) (R k)) (\<lambda>k. map_option (\<lambda>(v, _). (v, 0)) (M k)) m'"
    unfolding vals_def
  proof
    fix k
    show "case map_option (\<lambda>(h, _). (h, 0)) (R k) of None \<Rightarrow> map_option (\<lambda>(v, _). (v, 0)) (M k) = None
      | Some (h, e) \<Rightarrow> \<exists>v. View m' h = Inr v \<and> map_option (\<lambda>(v, _). (v, 0)) (M k) = Some (v, e)"
      using assms(1) [unfolded vals_def, THEN spec, of k] by (cases "R k") (auto dest: same)
  qed
  show "vals (R(k := None)) (M(k := None)) m" using assms(1) unfolding vals_def fun_upd_apply by simp
qed

lemma index_put:
  assumes "hi_inv idx" "card (dom (hi_map idx)) \<le> N" "length (hi_keys idx) \<le> B" "3 * N \<le> B" "B < 2 ^ 62"
    and "map_option (\<lambda>(_, i). (pm, i)) (hi_Put idx (Some k) h e) = Some (pm', idx')"
  shows "pm' = pm" "hi_inv idx'" "hi_map idx' = (hi_map idx)(k \<mapsto> (h, e))" "card (dom (hi_map idx')) \<le> Suc N" "length (hi_keys idx') \<le> B"
proof -
  have room: "length (hi_keys idx) < 2 ^ 62" using assms(3,5) by linarith
  obtain b where p: "hi_Put idx (Some k) h e = Some (b, idx')" "pm' = pm" using assms(6) by auto
  show "pm' = pm" by (rule p(2))
  show "hi_inv idx'" and m: "hi_map idx' = (hi_map idx)(k \<mapsto> (h, e))" using hi_Put_ok [OF assms(1) room, of k h e] p(1) by auto
  show "card (dom (hi_map idx')) \<le> Suc N" using assms(2) hi_count_card(2) [OF assms(1)] by (simp add: m card_insert_if)
  show "length (hi_keys idx') \<le> B" using hi_Put_cap [OF assms(1) room p(1)] assms(2-4) by simp
qed

lemma client_step_inv:
  assumes inv: "client_inv N B M pm idx" and B: "3 * N \<le> B" "B < 2 ^ 62" and ok: "mmap_ok (ce_mmap ce)" "op_ok op"
    and run: "client_step ce op (pm, idx) = Some (pm', idx')"
  shows "client_inv (Suc N) B (client_spec op M) pm' idx'"
proof -
  obtain H R where st: "store_ok N H R pm" and v: "vals R M (pm_mgr pm)" and R: "\<forall>k. map_option fst (hi_map idx k) = map_option fst (R k)"
    and idx: "hi_inv idx" "card (dom (hi_map idx)) \<le> N" "length (hi_keys idx) \<le> B" using inv by (auto simp: client_inv_def)
  have RH: "\<forall>k h e. R k = Some (h, e) \<longrightarrow> h \<in> H" using st by (auto simp: store_ok_def)
  note put = index_put [OF idx B]
  have fin: "client_inv (Suc N) B M' pm' idx'" if "store_ok (Suc N) H' R' pm'" "vals R' M' (pm_mgr pm')"
    "\<forall>k. map_option fst (hi_map idx' k) = map_option fst (R' k)" "hi_inv idx'" "card (dom (hi_map idx')) \<le> Suc N" "length (hi_keys idx') \<le> B" for M' H' R'
    using that by (auto simp: client_inv_def)
  show ?thesis
  proof (cases op)
    case (CPut k x)
    obtain h view pm1 where p: "pm_Put (ce_mmap ce) (ce_io ce) pm k x = (Inr (h, view), pm1)"
      "map_option (\<lambda>(_, i). (pm1, i)) (hi_Put idx (Some k) h 0) = Some (pm', idx')"
      using run CPut by (auto split: prod.splits sum.splits)
    note i = put [OF p(2)]
    note s = pm_Put_ok [OF st ok(1) ok(2) [unfolded CPut] p(1), folded i(1)]
    show ?thesis using fin [OF s(1) vals_put [OF v s(3) RH s(2)] _ i(2,4,5)] R i(3) CPut by simp
  next
    case (CPutEx k x e)
    obtain h view pm1 where p: "pm_PutEx (ce_mmap ce) (ce_io ce) pm k x e = (Inr (h, view), pm1)"
      "map_option (\<lambda>(_, i). (pm1, i)) (hi_Put idx (Some k) h e) = Some (pm', idx')"
      using run CPutEx by (auto split: prod.splits sum.splits)
    note i = put [OF p(2)]
    note s = pm_PutEx_ok [OF st ok(1) ok(2) [unfolded CPutEx] p(1), folded i(1)]
    show ?thesis using fin [OF s(1) vals_put [OF v s(3) RH s(2)] _ i(2,4,5)] R i(3) CPutEx by simp
  next
    case (CDelete k)
    obtain u r where p: "pm_Delete (ce_io ce) pm k = (Inr u, pm')" "hi_Delete idx (Some k) = Some (r, idx')"
      using run CDelete by (auto split: prod.splits sum.splits)
    note s = pm_Delete_ok [OF st ok(2) [unfolded CDelete] p(1)]
    have i: "hi_inv idx'" "hi_map idx' = (hi_map idx)(k := None)"
      using hi_Delete_ok [OF idx(1), of "Some k"] p(2) by (auto simp: keyBytes_def)
    have "card (dom (hi_map idx')) \<le> Suc N"
      using idx(2) card_Diff1_le [of "dom (hi_map idx)" k] by (simp add: i(2))
    moreover have "length (hi_keys idx') \<le> B" using hi_Delete_cap [OF idx(1) p(2)] idx(3) by simp
    ultimately show ?thesis
      using fin [OF s(1) vals_keep(2) [OF v _ RH, of "pm_mgr pm" k, folded s(2)] _ i(1)] R i(2) CDelete by simp
  next
    case CCheckpoint
    obtain u where p: "pm_Checkpoint (ce_io ce) (ce_synced ce) pm idx = (Inr u, pm')" "idx' = idx"
      using run CCheckpoint by (auto split: prod.splits sum.splits)
    note s = pm_Checkpoint_ok [OF st idx(1,2) R p(1)]
    show ?thesis
      using fin [OF s(1) vals_keep(1) [OF v s(2) RH]] R idx p(2) CCheckpoint by (simp add: option.map_comp comp_def case_prod_unfold)
  qed
qed

lemma client_run_inv:
  assumes "client_inv N B M pm idx" "3 * (N + length ops) \<le> B" "B < 2 ^ 62" "\<forall>(ce, op) \<in> set ops. mmap_ok (ce_mmap ce) \<and> op_ok op"
    and "client_run ops (pm, idx) = Some (pm', idx')"
  shows "client_inv (N + length ops) B (fold client_spec (map snd ops) M) pm' idx'"
  using assms
proof (induction ops arbitrary: N M pm idx)
  case (Cons a ops)
  obtain ce op where a: "a = (ce, op)" by force
  obtain pm1 idx1 where s: "client_step ce op (pm, idx) = Some (pm1, idx1)" "client_run ops (pm1, idx1) = Some (pm', idx')"
    using Cons.prems(5) by (auto simp: a split: option.splits)
  have "client_inv (Suc N) B (client_spec op M) pm1 idx1"
    using client_step_inv [OF Cons.prems(1) _ Cons.prems(3) _ _ s(1)] Cons.prems(2,4) by (auto simp: a)
  from Cons.IH [OF this _ Cons.prems(3) _ s(2)] Cons.prems(2,4) show ?case by (auto simp: a)
qed simp

section \<open>Starting and restarting\<close>

definition arenaPath :: "string \<Rightarrow> string" where
  "arenaPath dir = dir @ ''/arena.dat''"

lemma OpenFileManager_file:
  assumes "mmapFile (arenaPath dir) rs create = Inr d" "length d = unat rs" "16384 \<le> unat rs" "unat rs < 4294967296"
  shows "\<exists>m. OpenFileManager mmapFile (dir @ ''/arena.dat'') rs create = Inr m \<and> file_ok rs m \<and> mgr_inv m {} \<and> img m = d \<and>
    length (mg_regions m) = 1"
proof -
  have "rs \<noteq> 0" using assms(3) by auto
  then obtain m where m: "OpenFileManager mmapFile (arenaPath dir) rs create = Inr m"
    using assms(1) by (simp add: OpenFileManager_def)
  then have "file_ok rs m" "img m = d" "length (mg_regions m) = 1"
    using assms \<open>rs \<noteq> 0\<close> by (auto simp: OpenFileManager_def file_ok_def arenaPath_def)
  moreover have "mgr_inv m {}" using OpenFileManager_inv [OF assms(1,2,4) _ m] by (simp add: arenaPath_def)
  ultimately show ?thesis using m by (auto simp: arenaPath_def)
qed

lemma ColdStart_New:
  assumes "pm_New dk dir rs dur = Inr pm"
  shows "\<exists>m f w. ColdStart dk dir rs = Inr (m, f) \<and> OpenWAL (dk_io dk) f (unat (walMaxLen rs)) = Inr w \<and>
    pm = \<lparr>pm_mgr = m, pm_wal = w, pm_dir = dir, pm_regionSize = rs, pm_durable = dur, pm_closed = False\<rparr>"
  using assms by (auto simp: pm_New_def split: if_splits sum.splits prod.splits)

lemma fresh_start:
  assumes new: "pm_New dk dir rs dur = Inr pm" and disk: "dk_stat dk = Some False" "dk_wal dk = []"
    "dk_mmapFile dk (arenaPath dir) rs True = Inr (replicate (unat rs) 0)" and rs: "16384 \<le> unat rs" "unat rs < 4294967296"
  shows "store_ok 0 {} Map.empty pm"
proof -
  let ?d = "replicate (unat rs) (0 :: u8)"
  obtain m f w where c: "ColdStart dk dir rs = Inr (m, f)" "OpenWAL (dk_io dk) f (unat (walMaxLen rs)) = Inr w"
    "pm = \<lparr>pm_mgr = m, pm_wal = w, pm_dir = dir, pm_regionSize = rs, pm_durable = dur, pm_closed = False\<rparr>" using ColdStart_New [OF new] by blast
  obtain m0 where m0: "OpenFileManager (dk_mmapFile dk) (dir @ ''/arena.dat'') rs True = Inr m0" "file_ok rs m0" "mgr_inv m0 {}" "img m0 = ?d"
    using OpenFileManager_file [of "dk_mmapFile dk" dir rs True, OF disk(3) _ rs] by auto
  obtain b where b: "length b = 4096" "writeFreshSuperblock m0 rs = Inr (with_img m0 (b @ drop 4096 ?d))" "\<exists>sb. decodeSuperblock b = Inr sb"
  proof -
    let ?sb = "\<lparr>sb_Version = sb_version, sb_RegionSize = rs, sb_IndexOffset = of_nat superblockSize,
      sb_IndexLen = indexCheckpointMaxLen rs, sb_WALOffset = of_nat superblockSize + indexCheckpointMaxLen rs, sb_Flags = 0, sb_CheckpointCount = 0\<rparr>"
    have "sb_Version ?sb = sb_version" by simp
    from setSuperblock_eq [OF m0(2) this] obtain b where
      "length b = 4096" "decodeSuperblock b = Inr ?sb" "setSuperblock m0 ?sb = Inr (with_img m0 (b @ drop 4096 (img m0)))" by blast
    then show thesis using that [of b] m0(4) by (simp add: writeFreshSuperblock_def)
  qed
  let ?e = "b @ drop 4096 ?d"
  have m: "m = with_img m0 ?e" and f: "f = []"
    using c(1) m0(1) b(2) disk(1,2) by (auto simp: ColdStart_def OpenWAL_def repairTail_def split: if_splits sum.splits)
  have w: "wl_file w = []" "wl_off w = 0" using c(2) by (auto simp: f OpenWAL_def repairTail_def split: if_splits)
  have le: "length ?e = length (img m0)" using b(1) rs m0(4) by simp
  have ne: "mg_regions m0 \<noteq> []" using m0(2) by (simp add: file_ok_def)
  have fo: "file_ok rs m" unfolding m by (rule file_ok_with_img [OF m0(2) le])
  have bs: "regBase m0 0 = areaLen rs" "4096 \<le> areaLen rs" using file_ok_area [OF m0(2)] by simp_all
  have inv: "mgr_inv m {}" unfolding m by (rule with_img_inv(1) [OF m0(3) le]) (use b(1) bs m0(4) in simp)
  have im: "img m = ?e" using ne by (simp add: m)
  have sb: "\<exists>sb. readSuperblock m = Inr sb" unfolding readSuperblock_eq [OF fo] im using b(1,3) by auto
  have "slice (slice ?e 4096 (areaLen rs)) 0 4 = replicate 4 0"
    using b(1) area_bounds [OF rs] rs by (simp add: slice_def areaLen_def)
  moreover have "replicate 4 0 \<noteq> checkpointMagic"
    by (rule notI, drule arg_cong [of _ _ hd]) (simp add: checkpointMagic_def)
  ultimately have "loadCheckpoint m rs = Inl (PFormat PCkptBadMagic)" unfolding loadCheckpoint_eq [OF fo] im by (simp add: Let_def)
  then have "\<exists>es ls. ckpt_of rs m es \<and> length es \<le> 0 \<and> holds ls w \<and> length ls \<le> 0 \<and>
      (\<forall>l \<in> set ls. l_key l \<noteq> []) \<and> Map.empty = fold kv_step (map l_kv ls) (snap_map es)"
    by (intro exI [of _ "[]"]) (simp add: ckpt_of_def holds_def w snap_map_def)
  then show ?thesis using fo inv sb unfolding store_ok_def by (simp add: c(3))
qed

text \<open>A restart on the file and the log the old process left, the log possibly cut within a record.\<close>

lemma restart:
  assumes st: "store_ok N H R pm" and disk: "dk_stat dk = Some True" "dk_mkdir dk" "dir \<noteq> []" "io_open (dk_io dk)" "io_trunc (dk_io dk)"
    "dk_mmapFile dk (arenaPath dir) (pm_regionSize pm) False = Inr (img (pm_mgr pm))" "dk_wal dk = wl_file (pm_wal pm) @ take t (enc l)"
    and torn: "fits l" "t < length (enc l)"
    and idx: "hi_inv idx" "hi_map idx = Map.empty" "4 * N \<le> 3 * length (hi_keys idx)" "length (hi_keys idx) \<le> B" "6 * N \<le> B" "B < 2 ^ 62"
  shows "\<exists>pm1 idx'. pm_New dk dir (pm_regionSize pm) dur = Inr pm1 \<and> LoadIndex pm1 idx = Some (Inr (), syncLiveObjects pm1 idx', idx') \<and>
    hi_inv idx' \<and> hi_map idx' = R \<and> (\<forall>h. h_Region h = 0 \<longrightarrow> View (pm_mgr pm1) h = View (pm_mgr pm) h)"
proof -
  let ?rs = "pm_regionSize pm"
  have d: "file_ok ?rs (pm_mgr pm)" using st by (simp add: store_ok_def)
  obtain sb where sb: "readSuperblock (pm_mgr pm) = Inr sb" using st by (auto simp: store_ok_def)
  obtain es ls where el: "ckpt_of ?rs (pm_mgr pm) es" "length es \<le> N" "holds ls (pm_wal pm)" "length ls \<le> N"
    "\<forall>l \<in> set ls. l_key l \<noteq> []" "R = fold kv_step (map l_kv ls) (snap_map es)" using st by (auto simp: store_ok_def)
  have sz: "length (img (pm_mgr pm)) = unat ?rs" "16384 \<le> unat ?rs" "unat ?rs < 4294967296" "mg_regions (pm_mgr pm) \<noteq> []" using d by (simp_all add: file_ok_def)
  obtain m where m: "OpenFileManager (dk_mmapFile dk) (dir @ ''/arena.dat'') ?rs False = Inr m" "file_ok ?rs m" "img m = img (pm_mgr pm)"
    "length (mg_regions m) = 1" using OpenFileManager_file [of "dk_mmapFile dk" dir ?rs False, OF disk(6) sz(1-3)] by auto
  have rd: "readSuperblock m = Inr sb" "ckpt_of ?rs m es"
    using same_area_reads [OF d _ _ m(2)] m(3) sb el(1) by (simp_all add: ckpt_of_def)
  let ?mx = "unat (walMaxLen ?rs)" and ?f = "concat (map enc ls)"
  let ?w = "\<lparr>wl_file = ?f, wl_off = length ?f, wl_maxOff = ?mx\<rparr>"
  have h: "wl_file (pm_wal pm) = ?f" "\<forall>l \<in> set ls. fits l" using el(3) by (simp_all add: holds_def)
  have o1: "OpenWAL (dk_io dk) (?f @ take t (enc l)) ?mx = Inr ?w" by (rule OpenWAL_torn [OF h(2) torn disk(4,5)])
  have o2: "OpenWAL (dk_io dk) ?f ?mx = Inr ?w" using OpenWAL_torn [OF h(2) torn(1) _ disk(4,5), of 0 ?mx] torn(2) by fastforce
  have cs: "ColdStart dk dir ?rs = Inr (m, ?f)" using disk m(1) rd(1) o1 h(1) by (simp add: ColdStart_def validateSuperblock_def)
  let ?pm = "\<lparr>pm_mgr = m, pm_wal = ?w, pm_dir = dir, pm_regionSize = ?rs, pm_durable = dur, pm_closed = False\<rparr>"
  have "?rs \<noteq> 0" using sz(2) by auto
  then have new: "pm_New dk dir ?rs dur = Inr ?pm" using disk(2) cs o2 by (simp add: pm_New_def)
  have hw: "holds ls (pm_wal ?pm)" using h(2) by (simp add: holds_def)
  have room: "4 * length es \<le> 3 * length (hi_keys idx)" "3 * (length es + length ls) \<le> B" using idx(3,5) el(2,4) by simp_all
  have ck: "ckpt_of (pm_regionSize ?pm) (pm_mgr ?pm) es" using rd(2) by simp
  from LoadIndex_ok [OF idx(1,2) room(1) hw el(5) ck idx(4) room(2) idx(6)] obtain idx' where
    li: "LoadIndex ?pm idx = Some (Inr (), syncLiveObjects ?pm idx', idx')" "hi_inv idx'" "hi_map idx' = R" using el(6) by auto
  have "View m h = View (pm_mgr pm) h" if "h_Region h = 0" for h
    using that m(3,4) sz(4) by (simp add: View_def Let_def)
  then show ?thesis using new li by (intro exI [of _ ?pm] exI [of _ idx']) simp
qed

lemma View_syncLiveObjects: "View (pm_mgr (syncLiveObjects pm idx)) h = View (pm_mgr pm) h"
  by (auto simp: syncLiveObjects_def Let_def SetUsedBytes_def SetLiveObjects_def setAlloc_def View_def nth_list_update)

lemma client_step_size: "client_step ce op (pm, idx) = Some (pm', idx') \<Longrightarrow> pm_regionSize pm' = pm_regionSize pm"
  by (cases op) (auto simp: pm_Put_def pm_PutEx_def pm_store_def pm_Delete_def pm_Checkpoint_def split: prod.splits sum.splits if_splits)

lemma client_run_size: "client_run ops (pm, idx) = Some (pm', idx') \<Longrightarrow> pm_regionSize pm' = pm_regionSize pm"
  by (induction ops arbitrary: pm idx) (fastforce dest: client_step_size split: option.splits)+

section \<open>Where recovery goes wrong\<close>

text \<open>
  After a restart \<^verbatim>\<open>syncLiveObjects\<close> sets the bump pointer to the sum of the live sizes, which is less than what the
  live blocks occupy: with two values of three bytes the next allocation returns the block of the second.
\<close>

lemma restart_reuses_live_block:
  defines "a0 \<equiv> alloc_Skip (alloc_Init 16384) (persistReservedBytes 16384)"
  shows "fst (Alloc a0 3) = Inr 8192" "fst (Alloc (snd (Alloc a0 3)) 3) = Inr 8200"
    "fst (Alloc (a0\<lparr>al_offset := (3 + 3) + ucast (persistReservedBytes 16384)\<rparr>) 3) = Inr 8200"
  unfolding a0_def by code_simp+

section \<open>An example\<close>

text \<open>A first start on an empty directory, and one value stored.\<close>

definition wdisk :: "bool \<Rightarrow> bytes \<Rightarrow> bytes \<Rightarrow> disk" where
  "wdisk present d w = \<lparr>dk_mkdir = True, dk_stat = Some present, dk_mmapFile = (\<lambda>_ _ _. Inr d), dk_wal = w, dk_io = wio\<rparr>"

definition wce :: client_env where
  "wce = \<lparr>ce_mmap = mmapRegion_other, ce_io = wio, ce_synced = (\<lambda>_. True)\<rparr>"

lemma wdisk_start:
  "\<exists>pm. pm_New (wdisk False (replicate 16384 0) []) ''d'' 16384 True = Inr pm \<and> wl_maxOff (pm_wal pm) = 4096 \<and>
    mg_currentIdx (pm_mgr pm) = 0 \<and> rg_alloc (mg_regions (pm_mgr pm) ! 0) = alloc_Skip (alloc_Init 16384) (persistReservedBytes 16384)"
proof -
  have "length (the (encodeSuperblock (replicate superblockSize 0) sb)) = 4096" for sb
    using encodeSuperblock_eq [of "replicate superblockSize 0" sb] by (simp add: superblockSize_def sb_magic_def)
  then show ?thesis
    by (simp add: pm_New_def ColdStart_def wdisk_def OpenFileManager_def writeFreshSuperblock_def setSuperblock_def copyToArena_def
        Let_def OpenWAL_def repairTail_def wio_def walMaxLen_def)
qed

lemma wdisk_put:
  assumes "pm_New (wdisk False (replicate 16384 0) []) ''d'' 16384 True = Inr pm"
  shows "\<exists>pm' idx'. client_run [(wce, CPut [1] [2, 3, 4])] (pm, hi_New 16) = Some (pm', idx')"
proof -
  have st: "store_ok 0 {} Map.empty pm" by (rule fresh_start [OF assms]) (simp_all add: wdisk_def)
  have pm: "wl_maxOff (pm_wal pm) = 4096" "mg_currentIdx (pm_mgr pm) = 0"
    "rg_alloc (mg_regions (pm_mgr pm) ! 0) = alloc_Skip (alloc_Init 16384) (persistReservedBytes 16384)" using wdisk_start assms by auto
  have inv: "mgr_inv (pm_mgr pm) {}" "\<not> pm_closed pm" using st by (simp_all add: store_ok_def)
  have i: "0 < length (mg_regions (pm_mgr pm))" using inv(1) by (auto simp: mgr_inv_def)
  obtain a where al: "Alloc (rg_alloc (mg_regions (pm_mgr pm) ! 0)) 3 = (Inr 8192, a)"
    unfolding pm(3) using restart_reuses_live_block(1) by (metis prod.collapse)
  obtain ms where ms: "rg_meta (mg_regions (pm_mgr pm) ! 0) = Some ms"
    using mgr_inv_region(1) [OF inv(1) i] by (auto elim: region_okE)
  let ?h = "\<lparr>h_Offset = 8192, h_Size = 3, h_Meta = 0, h_Region = 0\<rparr>"
  have ps: "put_step (pm_mgr pm) {} 0 [2, 3, 4] 8192 a ms ?h" using inv(1) i al ms by (simp add: put_step_def)
  have put: "Put mmapRegion_other (pm_mgr pm) [2, 3, 4] = (Inr ?h, stored (pm_mgr pm) 0 a 8192 [2, 3, 4] ms)"
    using putAt_eq [OF i ms put_step_region(5) [OF ps], of a 3 "[2, 3, 4]"] al pm(2) i by (simp add: Put_def MaxObjectSize_def)
  obtain es ls where "holds ls (pm_wal pm)" "length ls \<le> 0" using st by (auto simp: store_ok_def)
  then have "wl_off (pm_wal pm) = 0" by (simp add: holds_def)
  then obtain off w where ap: "AppendSet wio (pm_wal pm) [1] [2, 3, 4] (likeOf ?h) = (Inr off, w)"
    using pm(1) by (simp add: AppendSet_def appendRecord_def wio_def wal_write_def walHeaderSize_def wal_ops wal_sizes Let_def)
  have vw: "View (stored (pm_mgr pm) 0 a 8192 [2, 3, 4] ms) ?h = Inr [2, 3, 4]" by (rule put_step_view [OF ps])
  have "wal_Sync wio w = Inr ()" by (simp add: wal_Sync_def wio_def)
  then obtain pm1 where p1: "pm_Put mmapRegion_other wio pm [1] [2, 3, 4] = (Inr (?h, [2, 3, 4]), pm1)"
    using put ap vw inv(2) by (simp add: pm_Put_def pm_store_def)
  have "length (hi_keys (hi_New 16)) < 2 ^ 62" using hi_New_cap(1) [of 16] by simp
  then show ?thesis using hi_Put_ok [OF hi_New_inv(1) [of 16], of "[1]" ?h 0] p1 by (auto simp: wce_def)
qed

section \<open>Properties\<close>



text \<open>
  Values never overwrite the metadata of the file.  With a region of 16 KiB up to 4 GiB, \<^verbatim>\<open>Put\<close> and \<^verbatim>\<open>PutEx\<close> on
  a well-formed store leave the superblock and the checkpoint as they were, whether they succeed or not.
\<close>

theorem Persist_Put_keeps_metadata:
  assumes "file_ok (pm_regionSize pm) (pm_mgr pm)" "mgr_inv (pm_mgr pm) H" "mmap_ok mmap" "length v < 4294967296"
    and "pm_Put mmap io pm k v = (r, pm') \<or> pm_PutEx mmap io pm k v e = (r, pm')"
  shows "readSuperblock (pm_mgr pm') = readSuperblock (pm_mgr pm) \<and>
    loadCheckpoint (pm_mgr pm') (pm_regionSize pm) = loadCheckpoint (pm_mgr pm) (pm_regionSize pm)"
proof -
  let ?m = "snd (Put mmap (pm_mgr pm) v)"
  note ar = Put_area [OF assms(2-4)]
  have free: "same_area m (snd (Free m h))" if "mg_regions m \<noteq> []" for m h
    using that by (auto simp: Free_def Let_def same_area_def setAlloc_def nth_list_update)
  have "same_area (pm_mgr pm) (pm_mgr pm)" using assms(1) by (simp add: same_area_def file_ok_def)
  moreover have "same_area (pm_mgr pm) (snd (Free ?m h))" for h
    using same_area_trans [OF ar free] ar by (simp add: same_area_def)
  ultimately have "same_area (pm_mgr pm) (pm_mgr pm')"
    using assms(5) ar by (auto simp: pm_Put_def pm_PutEx_def pm_store_def split: if_splits sum.splits prod.splits)
  moreover from this have "take (areaLen (pm_regionSize pm)) (img (pm_mgr pm')) = take (areaLen (pm_regionSize pm)) (img (pm_mgr pm))"
    using file_ok_area(3) [OF assms(1)] by (simp add: same_area_def)
  ultimately show ?thesis
    using same_area_reads [OF assms(1) _ _ same_area_file_ok [OF assms(1)]] by (simp add: same_area_def)
qed

theorem Persist_Put_keeps_metadata_witness:
  "\<exists>pm r pm'. pm_New (wdisk False (replicate 16384 0) []) ''d'' 16384 True = Inr pm \<and>
     pm_Put mmapRegion_other wio pm [1] [2] = (r, pm') \<and> readSuperblock (pm_mgr pm') = readSuperblock (pm_mgr pm)"
proof -
  obtain pm where p: "pm_New (wdisk False (replicate 16384 0) []) ''d'' 16384 True = Inr pm" using wdisk_start by blast
  have "store_ok 0 {} Map.empty pm" by (rule fresh_start [OF p]) (simp_all add: wdisk_def)
  then have "file_ok (pm_regionSize pm) (pm_mgr pm)" "mgr_inv (pm_mgr pm) {}" by (simp_all add: store_ok_def)
  moreover obtain r pm' where "pm_Put mmapRegion_other wio pm [1] [2] = (r, pm')" by force
  ultimately show ?thesis using Persist_Put_keeps_metadata [of pm "{}" mmapRegion_other "[2]" wio "[1]" r pm' 0] p mmap_ok_other by auto
qed

end
