(* ===== verification/Go_Float.thy ===== *)
theory Go_Float
  imports Horreum_Prelude Complex_Main
begin

text \<open>
  The part of Go's \<^verbatim>\<open>float64\<close> that the configuration, the metrics and the rate limiter use.  A finite value that is
  not negative is the rational number it stands for; an operation is the exact operation followed by \<open>fl64\<close>,
  which rounds to the nearest number with a 53-bit significand and an exponent of at least -1074, ties to even.
  Results of \<open>2\<^sup>1\<^sup>0\<^sup>2\<^sup>4\<close> and more are infinite in Go; the definitions that can reach them say so.
\<close>

section \<open>Definitions\<close>

text \<open>The integer part of the binary logarithm.\<close>

function ilog2 :: "int \<Rightarrow> nat" where
  "ilog2 m = (if m \<le> 1 then 0 else Suc (ilog2 (m div 2)))"
  by auto
termination
  by (relation "measure nat") auto

declare ilog2.simps [simp del]

definition pow2 :: "int \<Rightarrow> rat" where
  "pow2 e = (if e \<ge> 0 then 2 ^ nat e else 1 / 2 ^ nat (- e))"

definition flog2 :: "rat \<Rightarrow> int" where
  "flog2 x = (case quotient_of x of (n, d) \<Rightarrow>
     let k = int (ilog2 n) - int (ilog2 d) in if pow2 k \<le> x then k else k - 1)"

definition round_even :: "rat \<Rightarrow> int" where
  "round_even r = (let f = \<lfloor>r\<rfloor>; d = r - of_int f in
     if d < 1 / 2 then f else if d > 1 / 2 then f + 1 else if even f then f else f + 1)"

definition fl_exp :: "rat \<Rightarrow> int" where
  "fl_exp x = max (- 1074) (flog2 x - 52)"

definition fl64 :: "rat \<Rightarrow> rat" where
  "fl64 x = (if x \<le> 0 then 0 else of_int (round_even (x / pow2 (fl_exp x))) * pow2 (fl_exp x))"

section \<open>Rounding\<close>

lemma ilog2_bounds: "1 \<le> m \<Longrightarrow> 2 ^ ilog2 m \<le> m \<and> m < 2 ^ Suc (ilog2 m)"
proof (induction m rule: ilog2.induct)
  case (1 m)
  show ?case
  proof (cases "m \<le> 1")
    case True
    then show ?thesis using 1 by (simp add: ilog2.simps)
  next
    case False
    then have "2 ^ ilog2 (m div 2) \<le> m div 2 \<and> m div 2 < 2 ^ Suc (ilog2 (m div 2))" using 1 by auto
    then have "2 * 2 ^ ilog2 (m div 2) \<le> m \<and> m < 2 * 2 ^ Suc (ilog2 (m div 2))" by linarith
    then show ?thesis using False by (subst (1 2) ilog2.simps) simp
  qed
qed

lemma pow2_pos [simp]: "0 < pow2 e"
  by (simp add: pow2_def)

lemma pow2_Suc: "pow2 (e + 1) = 2 * pow2 e"
proof (cases "e \<ge> 0")
  case True
  then show ?thesis by (simp add: pow2_def nat_add_distrib)
next
  case False
  then have "nat (- e) = Suc (nat (- e - 1))" by simp
  then have "(2 :: rat) ^ nat (- e) = 2 * 2 ^ nat (- e - 1)" by simp
  then show ?thesis using False by (cases "e = - 1") (simp_all add: pow2_def)
qed

lemma pow2_add_nat: "pow2 (e + int n) = 2 ^ n * pow2 e"
proof (induction n)
  case (Suc n)
  have e: "e + int (Suc n) = (e + int n) + 1" by simp
  show ?case unfolding e pow2_Suc Suc by simp
qed simp

lemma pow2_mono: "e \<le> e' \<Longrightarrow> pow2 e \<le> pow2 e'"
  using pow2_add_nat [of e "nat (e' - e)"] mult_right_mono [of 1 "2 ^ nat (e' - e)" "pow2 e"] pow2_pos [of e] by simp

lemma pow2_diff: "pow2 (int a - int b) = 2 ^ a / 2 ^ b"
  using pow2_add_nat [of "- int b" a] by (simp add: pow2_def)

lemma flog2_bounds:
  assumes "0 < x"
  shows "pow2 (flog2 x) \<le> x \<and> x < pow2 (flog2 x + 1)"
proof -
  obtain n d where q: "quotient_of x = (n, d)" by fastforce
  have d: "0 < d" and x: "x = of_int n / of_int d" using quotient_of_denom_pos [OF q] quotient_of_div [OF q] by auto
  then have n: "0 < n" using assms by (simp add: zero_less_divide_iff)
  let ?a = "ilog2 n" and ?b = "ilog2 d"
  have "2 ^ ?a \<le> n \<and> n < 2 ^ Suc ?a" "2 ^ ?b \<le> d \<and> d < 2 ^ Suc ?b" using ilog2_bounds n d by auto
  then have r: "(2 :: rat) ^ ?a \<le> of_int n" "of_int n < (2 :: rat) ^ Suc ?a" "(2 :: rat) ^ ?b \<le> of_int d" "of_int d < (2 :: rat) ^ Suc ?b"
    by (metis of_int_le_iff of_int_less_iff of_int_numeral of_int_power)+
  have "x < 2 ^ Suc ?a / 2 ^ ?b" unfolding x
    using r(2,3) n by (intro frac_less) auto
  then have u: "x < pow2 (int ?a - int ?b + 1)" unfolding pow2_Suc pow2_diff by simp
  have "2 ^ ?a / 2 ^ Suc ?b \<le> x" unfolding x using r(1,4) n d by (intro frac_le) auto
  moreover have "pow2 (int ?a - int ?b) = 2 * pow2 (int ?a - int ?b - 1)" using pow2_Suc [of "int ?a - int ?b - 1"] by simp
  ultimately have l: "pow2 (int ?a - int ?b - 1) \<le> x" unfolding pow2_diff by simp
  show ?thesis using u l by (auto simp: flog2_def q Let_def)
qed

lemma round_even_near: "\<bar>of_int (round_even r) - r\<bar> \<le> 1 / 2"
proof -
  have "of_int \<lfloor>r\<rfloor> \<le> r" "r < of_int \<lfloor>r\<rfloor> + 1" by linarith+
  then show ?thesis by (auto simp: round_even_def Let_def)
qed

lemma round_even_mono:
  assumes "r \<le> s"
  shows "round_even r \<le> round_even s"
proof (cases "\<lfloor>r\<rfloor> = \<lfloor>s\<rfloor>")
  case True
  then show ?thesis using assms by (auto simp: round_even_def Let_def)
next
  case False
  then have "\<lfloor>r\<rfloor> + 1 \<le> \<lfloor>s\<rfloor>" using floor_mono [OF assms] by linarith
  moreover have "round_even r \<le> \<lfloor>r\<rfloor> + 1" "\<lfloor>s\<rfloor> \<le> round_even s" by (auto simp: round_even_def Let_def)
  ultimately show ?thesis by linarith
qed

lemma round_even_int [simp]: "round_even (of_int n) = n"
  by (simp add: round_even_def)

text \<open>Rounding keeps the order, and keeps the integers below \<open>2\<^sup>5\<^sup>3\<close>.\<close>

lemma fl_exp_bound: "0 < x \<Longrightarrow> x < pow2 (fl_exp x + 53)"
proof -
  assume "0 < x"
  then have "x < pow2 (flog2 x + 1)" using flog2_bounds by blast
  moreover have "flog2 x + 1 \<le> fl_exp x + 53" by (simp add: fl_exp_def)
  ultimately show ?thesis using pow2_mono order_less_le_trans by blast
qed

lemma flog2_mono:
  assumes "0 < x" "x \<le> y"
  shows "flog2 x \<le> flog2 y"
proof (rule ccontr)
  assume "\<not> ?thesis"
  then have "pow2 (flog2 y + 1) \<le> pow2 (flog2 x)" by (intro pow2_mono) simp
  then show False using flog2_bounds [of x] flog2_bounds [of y] assms by linarith
qed

lemma fl64_mono:
  assumes "x \<le> y"
  shows "fl64 x \<le> fl64 y"
proof (cases "x \<le> 0")
  case True
  have "0 \<le> round_even (y / pow2 (fl_exp y))" if "0 < y" using round_even_mono [of 0 "y / pow2 (fl_exp y)"] that round_even_int [of 0] by (simp add: less_imp_le)
  then show ?thesis using True by (auto simp: fl64_def not_le intro!: mult_nonneg_nonneg less_imp_le [OF pow2_pos])
next
  case False
  let ?e = "fl_exp x" and ?e' = "fl_exp y"
  have pos: "0 < x" "0 < y" using False assms by auto
  have le: "?e \<le> ?e'" using flog2_mono [OF pos(1) assms] by (simp add: fl_exp_def)
  show ?thesis
  proof (cases "?e = ?e'")
    case True
    have "round_even (x / pow2 ?e) \<le> round_even (y / pow2 ?e)" using assms by (intro round_even_mono divide_right_mono) (simp_all add: less_imp_le)
    then show ?thesis using True pos by (simp add: fl64_def mult_right_mono less_imp_le)
  next
    case False
    then have lt: "?e + 1 \<le> ?e'" using le by simp
    then have n: "?e' = flog2 y - 52" by (auto simp: fl_exp_def max_def split: if_splits)
    have "pow2 (?e + 53) = 2 ^ 53 * pow2 ?e" using pow2_add_nat [of ?e 53] by simp
    then have "x / pow2 ?e \<le> of_int (2 ^ 53)" using fl_exp_bound [OF pos(1)] by (simp add: divide_le_eq)
    then have "round_even (x / pow2 ?e) \<le> 2 ^ 53" using round_even_mono round_even_int by metis
    then have "of_int (round_even (x / pow2 ?e)) \<le> (2 ^ 53 :: rat)" by (metis of_int_le_iff of_int_numeral of_int_power)
    then have "fl64 x \<le> 2 ^ 53 * pow2 ?e" using pos by (simp add: fl64_def mult_right_mono less_imp_le)
    also have "\<dots> = 2 ^ 52 * pow2 (?e + 1)" unfolding pow2_Suc by simp
    also have "\<dots> \<le> 2 ^ 52 * pow2 ?e'" using pow2_mono [OF lt] by simp
    also have "\<dots> \<le> fl64 y"
    proof -
      have "pow2 (?e' + 52) = 2 ^ 52 * pow2 ?e'" using pow2_add_nat [of ?e' 52] by simp
      then have "of_int (2 ^ 52) \<le> y / pow2 ?e'" using flog2_bounds [OF pos(2)] n by (simp add: le_divide_eq)
      then have "2 ^ 52 \<le> round_even (y / pow2 ?e')" using round_even_mono round_even_int by metis
      then have "(2 ^ 52 :: rat) \<le> of_int (round_even (y / pow2 ?e'))" by (metis of_int_le_iff of_int_numeral of_int_power)
      then show ?thesis using pos by (simp add: fl64_def mult_right_mono less_imp_le)
    qed
    finally show ?thesis .
  qed
qed

lemma fl64_zero [simp]: "fl64 0 = 0"
  by (simp add: fl64_def)

lemma fl64_nonneg [simp]: "0 \<le> fl64 x"
  using fl64_mono [of 0 x] by (cases "x \<le> 0") (simp add: fl64_def, simp)

text \<open>A number with a significand of at most 53 bits is exact: rounding twice is rounding once, and integers stay.\<close>

lemma fl64_scaled:
  assumes "0 < m" "m < 2 ^ 53" "- 1074 \<le> e"
  shows "fl64 (of_int m * pow2 e) = of_int m * pow2 e"
proof -
  define x where "x = of_int m * pow2 e"
  define f where "f = fl_exp x"
  have pos: "0 < x" using assms(1) by (simp add: x_def)
  have "of_int m < (of_int (2 ^ 53) :: rat)" using assms(2) by (simp only: of_int_less_iff)
  then have "x < 2 ^ 53 * pow2 e" by (simp add: x_def)
  also have "\<dots> = pow2 (e + 53)" using pow2_add_nat [of e 53] by simp
  finally have "\<not> e + 53 \<le> flog2 x" using pow2_mono [of "e + 53" "flog2 x"] flog2_bounds [OF pos] by linarith
  then have "f \<le> e" using assms(3) by (simp add: fl_exp_def f_def)
  then have "x = of_int (m * 2 ^ nat (e - f)) * pow2 f" using pow2_add_nat [of f "nat (e - f)"] by (simp add: x_def)
  then have q: "x / pow2 f = of_int (m * 2 ^ nat (e - f))" using pow2_pos [of f] less_irrefl [of 0] by (auto simp: nonzero_divide_eq_eq simp del: pow2_pos)
  then have "round_even (x / pow2 f) = m * 2 ^ nat (e - f)" using round_even_int by metis
  then have "fl64 x = of_int (m * 2 ^ nat (e - f)) * pow2 f" using pos by (simp add: fl64_def f_def)
  also have "\<dots> = x / pow2 f * pow2 f" using q by simp
  also have "\<dots> = x" using less_imp_neq [OF pow2_pos [of f]] by simp
  finally show ?thesis unfolding x_def .
qed

lemma fl64_exact:
  assumes "0 \<le> m" "m \<le> 2 ^ 53" "- 1074 \<le> e"
  shows "fl64 (of_int m * pow2 e) = of_int m * pow2 e"
proof (cases "m = 0 \<or> m = 2 ^ 53")
  case False
  then show ?thesis using assms fl64_scaled [of m e] by simp
next
  case True
  then show ?thesis using fl64_scaled [of "2 ^ 52" "e + 1"] assms(3) pow2_Suc [of e] by auto
qed

lemma fl64_idem [simp]: "fl64 (fl64 x) = fl64 x"
proof (cases "x \<le> 0")
  case False
  let ?e = "fl_exp x" and ?m = "round_even (x / pow2 (fl_exp x))"
  have pos: "0 < x" using False by simp
  have "pow2 (?e + 53) = 2 ^ 53 * pow2 ?e" using pow2_add_nat [of ?e 53] by simp
  then have "x / pow2 ?e \<le> of_int (2 ^ 53)" using fl_exp_bound [OF pos] by (simp add: divide_le_eq)
  then have "?m \<le> 2 ^ 53" using round_even_mono round_even_int by metis
  moreover have "0 \<le> ?m" using round_even_mono [of 0 "x / pow2 ?e"] round_even_int [of 0] pos by (simp add: less_imp_le)
  moreover have "fl64 x = of_int ?m * pow2 ?e" using pos by (simp add: fl64_def)
  ultimately show ?thesis using fl64_exact [of ?m ?e] by (simp add: fl_exp_def)
qed (simp add: fl64_def)

lemma fl64_nat: "n \<le> 2 ^ 53 \<Longrightarrow> fl64 (of_nat n) = of_nat n"
  using fl64_exact [of "int n" 0] by (simp add: pow2_def)

end
