(* ===== verification/Go_Text.thy ===== *)
theory Go_Text
  imports Go_Float
begin

text \<open>
  What the configuration and the metrics use of Go's packages \<^verbatim>\<open>strings\<close> and \<^verbatim>\<open>strconv\<close>, and of the verb \<^verbatim>\<open>%d\<close>.  A Go
  string is the list of its bytes, one \<^typ>\<open>char\<close> each.  Errors carry no text.
\<close>

section \<open>Definitions\<close>

subsection \<open>Numbers\<close>

fun decimal :: "nat \<Rightarrow> string" where
  "decimal n = (if n < 10 then [char_of (48 + n)] else decimal (n div 10) @ [char_of (48 + n mod 10)])"

declare decimal.simps [simp del]

definition isDigit :: "char \<Rightarrow> bool" where
  "isDigit c \<longleftrightarrow> 48 \<le> (of_char c :: nat) \<and> (of_char c :: nat) \<le> 57"

definition digitsVal :: "string \<Rightarrow> nat" where
  "digitsVal s = foldl (\<lambda>n c. n * 10 + (of_char c - 48)) 0 s"

definition parseNat :: "string \<Rightarrow> nat option" where
  "parseNat s = (if s \<noteq> [] \<and> list_all isDigit s then Some (digitsVal s) else None)"

definition ParseUint :: "string \<Rightarrow> u64 option" where
  "ParseUint s = (case parseNat s of Some n \<Rightarrow> if n < 2 ^ 64 then Some (of_nat n) else None | None \<Rightarrow> None)"

definition Atoi :: "string \<Rightarrow> int option" where
  "Atoi s =
    (let neg = (s \<noteq> [] \<and> hd s = CHR ''-''); sgn = (s \<noteq> [] \<and> (hd s = CHR ''-'' \<or> hd s = CHR ''+''))
     in case parseNat (if sgn then tl s else s) of
          None \<Rightarrow> None
        | Some n \<Rightarrow> if neg then (if n \<le> 2 ^ 63 then Some (- int n) else None) else if n < 2 ^ 63 then Some (int n) else None)"

text \<open>\<^verbatim>\<open>ParseFloat\<close> on a string of digits and dots; the other forms it accepts do not reach it.\<close>

definition ParseFloat :: "string \<Rightarrow> rat option" where
  "ParseFloat s =
    (let ip = takeWhile (\<lambda>c. c \<noteq> CHR ''.'') s; fp = drop (length ip + 1) s; ds = ip @ fp
     in if ds \<noteq> [] \<and> list_all isDigit ds
        then (let v = fl64 (of_nat (digitsVal ds) / 10 ^ length fp) in if v < 2 ^ 1024 then Some v else None)
        else None)"

text \<open>The conversion of a \<^verbatim>\<open>float64\<close> to \<^verbatim>\<open>uint64\<close>; beyond the range it depends on the machine (\<open>big\<close>).\<close>

definition f2u :: "(rat \<Rightarrow> u64) \<Rightarrow> rat \<Rightarrow> u64" where
  "f2u big v = (if v < 2 ^ 64 then word_of_int \<lfloor>v\<rfloor> else big v)"

subsection \<open>Trimming\<close>

definition trimLeft :: "char set \<Rightarrow> string \<Rightarrow> string" where
  "trimLeft cs s = dropWhile (\<lambda>c. c \<in> cs) s"

definition TrimRight :: "char set \<Rightarrow> string \<Rightarrow> string" where
  "TrimRight cs s = rev (dropWhile (\<lambda>c. c \<in> cs) (rev s))"

definition Trim :: "char set \<Rightarrow> string \<Rightarrow> string" where
  "Trim cs s = TrimRight cs (trimLeft cs s)"

text \<open>The encodings of the characters that \<^verbatim>\<open>unicode.IsSpace\<close> accepts.\<close>

definition spaceSeqs :: "string list" where
  "spaceSeqs = map (\<lambda>n. [char_of n]) [9, 10, 11, 12, 13, 32 :: nat] @
     map (map char_of) ([[0xC2, 0x85], [0xC2, 0xA0], [0xE1, 0x9A, 0x80]] @ map (\<lambda>n. [0xE2, 0x80, n]) [0x80..<0x8B] @
       [[0xE2, 0x80, 0xA8], [0xE2, 0x80, 0xA9], [0xE2, 0x80, 0xAF], [0xE2, 0x81, 0x9F], [0xE3, 0x80, 0x80 :: nat]])"

fun stripSeq :: "string list \<Rightarrow> string \<Rightarrow> string option" where
  "stripSeq [] s = None"
| "stripSeq (p # ps) s = (if p \<noteq> [] \<and> take (length p) s = p then Some (drop (length p) s) else stripSeq ps s)"

lemma stripSeq_shorter: "stripSeq ps s = Some t \<Longrightarrow> length t < length s"
proof (induction ps)
  case (Cons p ps)
  show ?case
  proof (cases "p \<noteq> [] \<and> take (length p) s = p")
    case True
    then have "length p \<le> length s" by (metis length_take min.cobounded1)
    then show ?thesis using True Cons.prems by (cases p) auto
  qed (use Cons in auto)
qed simp

function stripAll :: "string list \<Rightarrow> string \<Rightarrow> string" where
  "stripAll ps s = (case stripSeq ps s of Some t \<Rightarrow> stripAll ps t | None \<Rightarrow> s)"
  by auto
termination
  by (relation "measure (\<lambda>(ps, s). length s)") (auto dest: stripSeq_shorter)

declare stripAll.simps [simp del]

definition TrimSpace :: "string \<Rightarrow> string" where
  "TrimSpace s = rev (stripAll (map rev spaceSeqs) (rev (stripAll spaceSeqs s)))"

subsection \<open>Lower case\<close>

text \<open>
  \<^verbatim>\<open>strings.ToLower\<close>, as far as it can be told by a comparison with an ASCII string: the ASCII letters and the two
  other characters whose lower case is an ASCII letter, the Kelvin sign and the dotted capital I.
\<close>

definition lowerChar :: "char \<Rightarrow> char" where
  "lowerChar c = (let n = of_char c :: nat in if 65 \<le> n \<and> n \<le> 90 then char_of (n + 32) else c)"

fun ToLower :: "string \<Rightarrow> string" where
  "ToLower [] = []"
| "ToLower (c # s) =
    (if take 3 (c # s) = map char_of [0xE2, 0x84, 0xAA :: nat] then CHR ''k'' # ToLower (drop 2 s)
     else if take 2 (c # s) = map char_of [0xC4, 0xB0 :: nat] then CHR ''i'' # ToLower (drop 1 s)
     else lowerChar c # ToLower s)"

subsection \<open>Searching\<close>

definition Index :: "string \<Rightarrow> char \<Rightarrow> nat option" where
  "Index s c = (let n = length (takeWhile (\<lambda>x. x \<noteq> c) s) in if n < length s then Some n else None)"

fun Join :: "string list \<Rightarrow> string \<Rightarrow> string" where
  "Join [] sep = []"
| "Join [s] sep = s"
| "Join (s # t # ss) sep = s @ sep @ Join (t # ss) sep"

subsection \<open>Durations\<close>

text \<open>\<^verbatim>\<open>time.ParseDuration\<close>; a duration is its number of nanoseconds.  \<open>leadingInt\<close> is \<open>None\<close> on overflow.\<close>

fun leadingInt :: "nat \<Rightarrow> string \<Rightarrow> (nat \<times> string) option" where
  "leadingInt x [] = Some (x, [])"
| "leadingInt x (c # s) =
    (if \<not> isDigit c then Some (x, c # s)
     else if x > 2 ^ 63 div 10 then None
     else let y = x * 10 + (of_char c - 48) in if y > 2 ^ 63 then None else leadingInt y s)"

fun leadingFraction :: "nat \<Rightarrow> rat \<Rightarrow> bool \<Rightarrow> string \<Rightarrow> nat \<times> rat \<times> string" where
  "leadingFraction x scale over [] = (x, scale, [])"
| "leadingFraction x scale over (c # s) =
    (if \<not> isDigit c then (x, scale, c # s)
     else if over then leadingFraction x scale over s
     else if x > (2 ^ 63 - 1) div 10 then leadingFraction x scale True s
     else let y = x * 10 + (of_char c - 48) in
       if y > 2 ^ 63 then leadingFraction x scale True s else leadingFraction y (fl64 (scale * 10)) False s)"

definition durUnit :: "string \<Rightarrow> nat option" where
  "durUnit u =
    (if u = ''ns'' then Some 1
     else if u \<in> {''us'', [CHR 0xC2, CHR 0xB5, CHR ''s''], [CHR 0xCE, CHR 0xBC, CHR ''s'']} then Some (10 ^ 3)
     else if u = ''ms'' then Some (10 ^ 6)
     else if u = ''s'' then Some (10 ^ 9)
     else if u = ''m'' then Some (60 * 10 ^ 9)
     else if u = ''h'' then Some (3600 * 10 ^ 9)
     else None)"

text \<open>The loop over the components; every round takes a character, so that the length of the string is fuel enough.\<close>

fun durLoop :: "nat \<Rightarrow> string \<Rightarrow> nat \<Rightarrow> nat option" where
  "durLoop fuel [] d = Some d"
| "durLoop 0 s d = None"
| "durLoop (Suc fuel) s d =
    (if \<not> (hd s = CHR ''.'' \<or> isDigit (hd s)) then None
     else case leadingInt 0 s of
       None \<Rightarrow> None
     | Some (v, s1) \<Rightarrow>
         let dot = (s1 \<noteq> [] \<and> hd s1 = CHR ''.'');
             (f, scale, s2) = (if dot then leadingFraction 0 1 False (tl s1) else (0, 1, s1));
             pre = (length s1 \<noteq> length s); post = (dot \<and> length s2 \<noteq> length (tl s1));
             u = takeWhile (\<lambda>c. \<not> (c = CHR ''.'' \<or> isDigit c)) s2
         in if \<not> pre \<and> \<not> post then None
            else if u = [] then None
            else case durUnit u of
                None \<Rightarrow> None
              | Some unit \<Rightarrow>
                  if v > 2 ^ 63 div unit then None
                  else let v1 = v * unit + (if f > 0 then nat \<lfloor>fl64 (fl64 (of_nat f) * fl64 (of_nat unit / scale))\<rfloor> else 0) in
                    if v1 > 2 ^ 63 then None
                    else if d + v1 > 2 ^ 63 then None
                    else durLoop fuel (drop (length u) s2) (d + v1))"

definition ParseDuration :: "string \<Rightarrow> int option" where
  "ParseDuration s =
    (let neg = (s \<noteq> [] \<and> hd s = CHR ''-''); s1 = (if s \<noteq> [] \<and> (hd s = CHR ''-'' \<or> hd s = CHR ''+'') then tl s else s)
     in if s1 = ''0'' then Some 0
        else if s1 = [] then None
        else case durLoop (length s1) s1 0 of
            None \<Rightarrow> None
          | Some d \<Rightarrow> if neg then Some (- int d) else if d > 2 ^ 63 - 1 then None else Some (int d))"

text \<open>\<^verbatim>\<open>time.Duration.Seconds\<close> of a duration that is not negative.\<close>

definition Seconds :: "nat \<Rightarrow> rat" where
  "Seconds d = fl64 (fl64 (of_nat (d div 10 ^ 9)) + fl64 (fl64 (of_nat (d mod 10 ^ 9)) / 10 ^ 9))"

section \<open>Numbers\<close>

lemma isDigit_char_of [simp]: "d < 10 \<Longrightarrow> isDigit (char_of (48 + d :: nat))"
  by (simp add: isDigit_def)

lemma decimal_digits: "decimal n \<noteq> [] \<and> list_all isDigit (decimal n)"
proof (induction n rule: decimal.induct)
  case (1 n)
  then show ?case by (subst (1 2) decimal.simps) auto
qed

lemma digitsVal_snoc: "digitsVal (s @ [c]) = digitsVal s * 10 + (of_char c - 48)"
  by (simp add: digitsVal_def)

lemma digitsVal_decimal: "digitsVal (decimal n) = n"
proof (induction n rule: decimal.induct)
  case (1 n)
  show ?case
  proof (cases "n < 10")
    case True
    then show ?thesis by (subst decimal.simps) (simp add: digitsVal_def)
  next
    case False
    then show ?thesis using 1 by (subst decimal.simps) (simp add: digitsVal_snoc)
  qed
qed

lemma parseNat_decimal [simp]: "parseNat (decimal n) = Some n"
  using decimal_digits [of n] by (simp add: parseNat_def digitsVal_decimal)

lemma ParseUint_decimal: "n < 2 ^ 64 \<Longrightarrow> ParseUint (decimal n) = Some (of_nat n)"
  by (simp add: ParseUint_def)

lemma digit_char: "isDigit c \<Longrightarrow> c \<noteq> CHR ''-'' \<and> c \<noteq> CHR ''+'' \<and> c \<noteq> CHR ''.''"
  by (auto simp: isDigit_def)

lemma Atoi_decimal:
  assumes "n < 2 ^ 63"
  shows "Atoi (decimal n) = Some (int n)"
proof -
  have "isDigit (hd (decimal n))" using decimal_digits [of n] by (cases "decimal n") auto
  then show ?thesis using assms digit_char by (auto simp: Atoi_def Let_def)
qed

lemma ParseFloat_decimal:
  assumes "n \<le> 2 ^ 53"
  shows "ParseFloat (decimal n) = Some (of_nat n)"
proof -
  have d: "list_all isDigit (decimal n)" "decimal n \<noteq> []" using decimal_digits [of n] by auto
  then have tw: "takeWhile (\<lambda>c. c \<noteq> CHR ''.'') (decimal n) = decimal n" by (auto simp: takeWhile_eq_all_conv list_all_iff dest: digit_char)
  have "fl64 (of_nat n) = of_nat n" using fl64_nat [OF assms] .
  moreover have "(of_nat n :: rat) < 2 ^ 1024"
  proof -
    have "(of_nat n :: rat) \<le> of_nat (2 ^ 53)" using assms by (simp only: of_nat_le_iff)
    also have "\<dots> < 2 ^ 1024" by simp
    finally show ?thesis .
  qed
  ultimately show ?thesis using d unfolding ParseFloat_def Let_def tw by (simp add: digitsVal_decimal)
qed

section \<open>Durations\<close>

lemma leadingInt_digits:
  assumes "list_all isDigit s" "u = [] \<or> \<not> isDigit (hd u)" "foldl (\<lambda>n c. n * 10 + (of_char c - 48)) x s \<le> 2 ^ 63"
  shows "leadingInt x (s @ u) = Some (foldl (\<lambda>n c. n * 10 + (of_char c - 48)) x s, u)"
  using assms(1,3)
proof (induction s arbitrary: x)
  case Nil
  then show ?case using assms(2) by (cases u) auto
next
  case (Cons c s)
  let ?y = "x * 10 + (of_char c - 48)"
  have g: "n \<le> foldl (\<lambda>n c. n * 10 + (of_char c - 48)) n s" for n :: nat
  proof (induction s arbitrary: n)
    case (Cons a s)
    show ?case using Cons.IH [of "n * 10 + (of_char a - 48)"] by simp
  qed simp
  have "?y \<le> 2 ^ 63" using g [of ?y] Cons.prems(2) by simp
  moreover from this have "\<not> x > 2 ^ 63 div 10" by simp
  ultimately show ?case using Cons by (simp add: Let_def)
qed

text \<open>A whole number with one unit is read exactly.\<close>

lemma ParseDuration_whole:
  assumes "durUnit u = Some m" "n * m < 2 ^ 63"
  shows "ParseDuration (decimal n @ u) = Some (int (n * m))"
proof -
  have d: "decimal n \<noteq> []" "list_all isDigit (decimal n)" using decimal_digits [of n] by auto
  have u: "u \<noteq> []" "list_all (\<lambda>c. \<not> (c = CHR ''.'' \<or> isDigit c)) u" and m: "0 < m"
    using assms(1) by (auto simp: durUnit_def isDigit_def split: if_splits)
  have hu: "hd u \<noteq> CHR ''.''" "\<not> isDigit (hd u)" using u by (cases u; auto)+
  have tw: "takeWhile (\<lambda>c. c \<noteq> CHR ''.'' \<and> \<not> isDigit c) u = u" using u(2) by (auto simp: takeWhile_eq_all_conv list_all_iff)
  have "n * 1 \<le> n * m" using m by (intro mult_le_mono2) simp
  then have n: "n \<le> 2 ^ 63" using assms(2) by linarith
  have li: "leadingInt 0 (decimal n @ u) = Some (n, u)"
    using leadingInt_digits [OF d(2), of u 0] hu(2) n digitsVal_decimal [of n] by (simp add: digitsVal_def)
  have v: "\<not> n > 2 ^ 63 div m" using assms(2) m by (simp add: not_less less_eq_div_iff_mult_less_eq)
  obtain c t where ct: "decimal n @ u = c # t" "isDigit c" using d by (cases "decimal n") auto
  have "length (c # t) \<noteq> length u" unfolding ct(1) [symmetric] using d(1) by simp
  then have l: "durLoop (length (c # t)) (c # t) 0 = Some (n * m)"
    using hu(1) u(1) ct(2) li v assms unfolding ct(1) by (simp add: Let_def tw del: leadingInt.simps)
  have "c # t \<noteq> ''0''" using d(1) u(1) ct(1) [symmetric] by (cases "decimal n") auto
  then show ?thesis using digit_char [OF ct(2)] l assms(2) unfolding ct(1) by (auto simp: ParseDuration_def Let_def simp del: durLoop.simps)
qed

text \<open>The conversion of a duration to seconds keeps the order, for every duration of 63 bits.\<close>

lemma Seconds_eq:
  assumes "d < 2 ^ 63"
  shows "Seconds d = fl64 (of_nat (d div 10 ^ 9) + fl64 (of_nat (d mod 10 ^ 9) / 10 ^ 9))"
proof -
  have "d div 10 ^ 9 \<le> 2 ^ 63 div 10 ^ 9" using assms by (intro div_le_mono) simp
  then have "d div 10 ^ 9 \<le> 2 ^ 53" by simp
  moreover have "d mod 10 ^ 9 < 10 ^ 9" by simp
  then have "d mod 10 ^ 9 \<le> 2 ^ 53" by (rule order.trans [OF less_imp_le]) simp
  ultimately show ?thesis by (simp only: Seconds_def fl64_nat)
qed

lemma Seconds_mono:
  assumes "d \<le> d'" "d' < 2 ^ 63"
  shows "Seconds d \<le> Seconds d'"
proof -
  let ?s = "d div 10 ^ 9" and ?s' = "d' div 10 ^ 9" and ?n = "d mod 10 ^ 9" and ?n' = "d' mod 10 ^ 9"
  have "of_nat ?s + fl64 (of_nat ?n / 10 ^ 9) \<le> (of_nat ?s' + fl64 (of_nat ?n' / 10 ^ 9) :: rat)"
  proof (cases "?s = ?s'")
    case True
    have "?s * 10 ^ 9 + ?n \<le> ?s' * 10 ^ 9 + ?n'" using assms(1) by simp
    then have "?n \<le> ?n'" unfolding True by linarith
    then show ?thesis using True fl64_mono [of "of_nat ?n / 10 ^ 9" "of_nat ?n' / 10 ^ 9"] by (simp add: divide_right_mono)
  next
    case False
    then have "?s + 1 \<le> ?s'" using div_le_mono [OF assms(1), of "10 ^ 9"] by linarith
    then have "(of_nat ?s + 1 :: rat) \<le> of_nat ?s'" by (metis of_nat_1 of_nat_add of_nat_le_iff)
    moreover have "?n \<le> 10 ^ 9" by (simp add: less_imp_le)
    then have "(of_nat ?n :: rat) / 10 ^ 9 \<le> 1" by (metis divide_le_eq_1_pos of_nat_le_iff of_nat_numeral of_nat_power zero_less_numeral zero_less_power)
    then have "fl64 (of_nat ?n / 10 ^ 9) \<le> 1" using fl64_mono [of "of_nat ?n / 10 ^ 9" 1] fl64_nat [of 1] by simp
    ultimately show ?thesis using fl64_nonneg [of "of_nat ?n' / 10 ^ 9"] by linarith
  qed
  then show ?thesis using assms fl64_mono by (simp add: Seconds_eq)
qed

section \<open>Plain text\<close>

text \<open>Printable ASCII without the blank: what trimming leaves alone.\<close>

definition plain :: "char \<Rightarrow> bool" where
  "plain c \<longleftrightarrow> 33 \<le> (of_char c :: nat) \<and> (of_char c :: nat) \<le> 126"

lemma space_ends: "p \<in> set spaceSeqs \<Longrightarrow> p \<noteq> [] \<and> \<not> plain (hd p) \<and> \<not> plain (last p)"
  unfolding spaceSeqs_def by (auto simp: plain_def upt_rec_numeral)

lemma stripSeq_None: "(\<And>p. p \<in> set ps \<Longrightarrow> p \<noteq> [] \<and> \<not> plain (hd p)) \<Longrightarrow> s = [] \<or> plain (hd s) \<Longrightarrow> stripSeq ps s = None"
proof (induction ps)
  case (Cons p ps)
  have p: "p \<noteq> []" "\<not> plain (hd p)" using Cons.prems(1) [of p] by simp_all
  have "take (length p) s \<noteq> p"
  proof
    assume "take (length p) s = p"
    then have "s \<noteq> []" "hd s = hd p" using p(1) by (cases s; cases p; auto)+
    then show False using p(2) Cons.prems(2) by simp
  qed
  then show ?case using Cons by simp
qed simp

lemma stripAll_plain:
  assumes "s = [] \<or> plain (hd s)"
  shows "stripAll spaceSeqs s = s" "stripAll (map rev spaceSeqs) s = s"
proof -
  have "p \<noteq> [] \<and> \<not> plain (hd p)" if "p \<in> set (map rev spaceSeqs)" for p
    using that space_ends by (auto simp: hd_rev)
  then have "stripSeq spaceSeqs s = None" "stripSeq (map rev spaceSeqs) s = None"
    using stripSeq_None [OF _ assms] space_ends by blast+
  then show "stripAll spaceSeqs s = s" "stripAll (map rev spaceSeqs) s = s" by (simp_all add: stripAll.simps [of _ s])
qed

lemma TrimSpace_plain:
  assumes "list_all plain s"
  shows "TrimSpace s = s"
proof -
  have "s = [] \<or> plain (hd s)" "rev s = [] \<or> plain (hd (rev s))" using assms by (auto simp: list_all_iff hd_rev dest: bspec [OF _ hd_in_set] bspec [OF _ last_in_set])
  then show ?thesis using stripAll_plain by (simp add: TrimSpace_def)
qed

lemma TrimSpace_blank:
  assumes "list_all plain s"
  shows "TrimSpace (CHR '' '' # s) = s"
proof -
  have "stripSeq spaceSeqs (CHR '' '' # s) = Some s" by (simp add: spaceSeqs_def char_of_def bit_Suc bit_0)
  then have "stripAll spaceSeqs (CHR '' '' # s) = stripAll spaceSeqs s" by (simp add: stripAll.simps [of _ "_ # s"])
  then show ?thesis using TrimSpace_plain [OF assms] by (simp add: TrimSpace_def)
qed

lemma TrimRight_keep: "s = [] \<or> last s \<notin> cs \<Longrightarrow> TrimRight cs s = s"
  by (cases s rule: rev_cases) (auto simp: TrimRight_def)

lemma Trim_keep: "s = [] \<or> hd s \<notin> cs \<and> last s \<notin> cs \<Longrightarrow> Trim cs s = s"
proof -
  assume s: "s = [] \<or> hd s \<notin> cs \<and> last s \<notin> cs"
  then have "trimLeft cs s = s" by (cases s) (auto simp: trimLeft_def)
  then show ?thesis using s TrimRight_keep by (auto simp: Trim_def)
qed

lemma takeWhile_until: "c \<notin> set s \<Longrightarrow> takeWhile (\<lambda>x. x \<noteq> c) s = s"
  by (auto simp: takeWhile_eq_all_conv)

lemma Index_append: "c \<notin> set s \<Longrightarrow> Index (s @ c # t) c = Some (length s)"
proof -
  assume "c \<notin> set s"
  then have "takeWhile (\<lambda>x. x \<noteq> c) (s @ c # t) = s" by (auto simp: takeWhile_tail takeWhile_until)
  then show ?thesis by (simp add: Index_def)
qed

lemma Index_None:
  assumes "c \<notin> set s"
  shows "Index s c = None"
  unfolding Index_def Let_def takeWhile_until [OF assms] by simp

end
