(* ===== verification/Config.thy ===== *)
theory Config
  imports Go_Text
begin

text \<open>
  \<^verbatim>\<open>internal/config/config.go\<close>: the configuration file, in the subset of YAML it is written in, and memory sizes.  A
  parse is \<open>None\<close> when it panics.  The map of dotted keys is a function, the stack of open sections has its top at
  the end, as in the source.
\<close>

section \<open>Definitions\<close>

record ServerConfig =
  cs_Addr :: string
  cs_Transport :: string
  cs_Shards :: "int option"
  cs_RegionSize :: string
  cs_EvictCapacity :: "u64 option"
  cs_TLSCert :: string
  cs_TLSKey :: string
  cs_ShutdownTimeout :: string

record StorageConfig =
  cp_PersistentPath :: string
  cp_Durable :: "bool option"

record MetricsConfig =
  cm_Addr :: string

record CompressionConfig =
  cc_Algorithm :: string
  cc_MinSize :: "int option"

record LoggingConfig =
  cl_Level :: string
  cl_Format :: string
  cl_SlowLogThreshold :: string

record SecurityConfig =
  ck_EncryptionKeyPath :: string

record Config =
  cf_Server :: ServerConfig
  cf_Storage :: StorageConfig
  cf_Metrics :: MetricsConfig
  cf_Compression :: CompressionConfig
  cf_Logging :: LoggingConfig
  cf_Security :: SecurityConfig

datatype config_error = MissingColon nat | LineTooLong | BadShards | BadEvictCapacity | BadDurable | BadMinSize
  | BadSizeNumber | BadSizeUnit

subsection \<open>Lines\<close>

text \<open>
  \<^verbatim>\<open>bufio.Scanner\<close> over the lines: a line without its line feed and a carriage return before it; a line of 64 KiB
  stops the scan with an error.
\<close>

definition maxTokenSize :: nat where "maxTokenSize = 65536"

definition dropCR :: "string \<Rightarrow> string" where
  "dropCR l = (if l \<noteq> [] \<and> last l = CHR 0x0D then butlast l else l)"

function scanLines :: "string \<Rightarrow> string list \<times> bool" where
  "scanLines d =
    (if d = [] then ([], False)
     else let l = takeWhile (\<lambda>c. c \<noteq> CHR 0x0A) d
          in if length l \<ge> maxTokenSize then ([], True) else apfst ((#) (dropCR l)) (scanLines (drop (length l + 1) d)))"
  by auto
termination
  by (relation "measure length") auto

declare scanLines.simps [simp del]

abbreviation blanks :: "char set" where
  "blanks \<equiv> {CHR '' '', CHR 0x09}"

type_synonym yaml_state = "(nat \<times> string) list \<times> (string \<Rightarrow> string option)"

definition stripComment :: "string \<Rightarrow> string" where
  "stripComment trimmed = (case Index trimmed (CHR ''#'') of
       Some i \<Rightarrow> if i = 0 \<or> trimmed ! (i - 1) \<in> blanks then TrimRight blanks (take i trimmed) else trimmed
     | None \<Rightarrow> trimmed)"

definition popStack :: "nat \<Rightarrow> (nat \<times> string) list \<Rightarrow> (nat \<times> string) list" where
  "popStack indent stack = rev (dropWhile (\<lambda>(i, _). i \<ge> indent) (rev stack))"

text \<open>A value that is a single quotation mark makes the slice expression panic.\<close>

definition unquote :: "string \<Rightarrow> string option" where
  "unquote val =
    (if val \<noteq> [] \<and> (hd val = CHR 0x22 \<and> last val = CHR 0x22 \<or> hd val = CHR 0x27 \<and> last val = CHR 0x27)
     then if length val < 2 then None else Some (tl (butlast val))
     else Some val)"

definition yamlLine :: "nat \<Rightarrow> string \<Rightarrow> yaml_state \<Rightarrow> (config_error + yaml_state) option" where
  "yamlLine lineNum text st = (case st of (stack, kv) \<Rightarrow>
     let line = TrimRight {CHR '' '', CHR 0x09, CHR 0x0D, CHR 0x0A} text;
         indent = length (takeWhile (\<lambda>c. c \<in> blanks) line);
         trimmed = drop indent line
     in if trimmed = [] \<or> hd trimmed = CHR ''#'' then Some (Inr st)
        else let body = stripComment trimmed in
          if body = [] then Some (Inr st)
          else case Index body (CHR '':'') of
              None \<Rightarrow> Some (Inl (MissingColon lineNum))
            | Some colonIdx \<Rightarrow>
                let key = Trim {CHR 0x22, CHR 0x27} (TrimSpace (take colonIdx body));
                    val = TrimSpace (drop (colonIdx + 1) body);
                    stack1 = popStack indent stack
                in if val = [] \<and> last body = CHR '':'' then Some (Inr (stack1 @ [(indent, key)], kv))
                   else map_option (\<lambda>v. Inr (stack1, kv(Join (map snd stack1 @ [key]) ''.'' \<mapsto> v))) (unquote val))"

fun yamlLines :: "nat \<Rightarrow> string list \<Rightarrow> yaml_state \<Rightarrow> (config_error + yaml_state) option" where
  "yamlLines n [] st = Some (Inr st)"
| "yamlLines n (l # ls) st = (case yamlLine (Suc n) l st of
       None \<Rightarrow> None
     | Some (Inl e) \<Rightarrow> Some (Inl e)
     | Some (Inr st1) \<Rightarrow> yamlLines (Suc n) ls st1)"

subsection \<open>Fields\<close>

definition parseBool :: "string \<Rightarrow> bool option" where
  "parseBool s0 = (let s = ToLower s0 in
     if s \<in> {''true'', ''yes'', ''on'', ''1''} then Some True
     else if s \<in> {''false'', ''no'', ''off'', ''0''} then Some False else None)"

definition str_field :: "(string \<Rightarrow> string option) \<Rightarrow> string \<Rightarrow> string" where
  "str_field kv k = (case kv k of Some v \<Rightarrow> v | None \<Rightarrow> [])"

text \<open>An optional field that is parsed: the outer sum is the error.\<close>

definition opt_field :: "(string \<Rightarrow> string option) \<Rightarrow> string \<Rightarrow> (string \<Rightarrow> 'a option) \<Rightarrow> config_error \<Rightarrow> config_error + 'a option" where
  "opt_field kv k p e = (case kv k of
       None \<Rightarrow> Inr None
     | Some v \<Rightarrow> (case p v of None \<Rightarrow> Inl e | Some x \<Rightarrow> Inr (Some x)))"

definition fillConfig :: "(string \<Rightarrow> string option) \<Rightarrow> config_error + Config" where
  "fillConfig kv =
    (case opt_field kv ''server.shards'' Atoi BadShards of Inl e \<Rightarrow> Inl e | Inr sh \<Rightarrow>
     case opt_field kv ''server.evict_capacity'' ParseUint BadEvictCapacity of Inl e \<Rightarrow> Inl e | Inr ec \<Rightarrow>
     case opt_field kv ''storage.durable'' parseBool BadDurable of Inl e \<Rightarrow> Inl e | Inr du \<Rightarrow>
     case opt_field kv ''compression.min_size'' Atoi BadMinSize of Inl e \<Rightarrow> Inl e | Inr ms \<Rightarrow>
     Inr \<lparr>cf_Server = \<lparr>cs_Addr = str_field kv ''server.addr'', cs_Transport = str_field kv ''server.transport'', cs_Shards = sh,
            cs_RegionSize = str_field kv ''server.region_size'', cs_EvictCapacity = ec, cs_TLSCert = str_field kv ''server.tls_cert'',
            cs_TLSKey = str_field kv ''server.tls_key'', cs_ShutdownTimeout = str_field kv ''server.shutdown_timeout''\<rparr>,
          cf_Storage = \<lparr>cp_PersistentPath = str_field kv ''storage.persistent_path'', cp_Durable = du\<rparr>,
          cf_Metrics = \<lparr>cm_Addr = str_field kv ''metrics.addr''\<rparr>,
          cf_Compression = \<lparr>cc_Algorithm = str_field kv ''compression.algorithm'', cc_MinSize = ms\<rparr>,
          cf_Logging = \<lparr>cl_Level = str_field kv ''logging.level'', cl_Format = str_field kv ''logging.format'',
            cl_SlowLogThreshold = str_field kv ''logging.slow_log_threshold''\<rparr>,
          cf_Security = \<lparr>ck_EncryptionKeyPath = str_field kv ''security.encryption_key_path''\<rparr>\<rparr>)"

definition ParseYAML :: "string \<Rightarrow> (config_error + Config) option" where
  "ParseYAML d = (case scanLines d of (ls, tooLong) \<Rightarrow>
     case yamlLines 0 ls ([], Map.empty) of
       None \<Rightarrow> None
     | Some (Inl e) \<Rightarrow> Some (Inl e)
     | Some (Inr (_, kv)) \<Rightarrow> Some (if tooLong then Inl LineTooLong else fillConfig kv))"

subsection \<open>Sizes\<close>

definition sizeUnit :: "string \<Rightarrow> nat option" where
  "sizeUnit u =
    (if u \<in> {''b'', []} then Some 1
     else if u \<in> {''k'', ''kb''} then Some (10 ^ 3)
     else if u \<in> {''m'', ''mb''} then Some (10 ^ 6)
     else if u \<in> {''g'', ''gb''} then Some (10 ^ 9)
     else if u \<in> {''t'', ''tb''} then Some (10 ^ 12)
     else if u \<in> {''ki'', ''kib''} then Some (2 ^ 10)
     else if u \<in> {''mi'', ''mib''} then Some (2 ^ 20)
     else if u \<in> {''gi'', ''gib''} then Some (2 ^ 30)
     else if u \<in> {''ti'', ''tib''} then Some (2 ^ 40)
     else None)"

definition ParseSize :: "(rat \<Rightarrow> u64) \<Rightarrow> string \<Rightarrow> config_error + u64" where
  "ParseSize big s0 =
    (let s = TrimSpace s0 in
     if s = [] then Inr 0
     else let numStr = takeWhile (\<lambda>c. isDigit c \<or> c = CHR ''.'') s;
              unitStr = ToLower (TrimSpace (drop (length numStr) s))
          in case ParseFloat numStr of
               None \<Rightarrow> Inl BadSizeNumber
             | Some val \<Rightarrow> (case sizeUnit unitStr of
                   None \<Rightarrow> Inl BadSizeUnit
                 | Some multiplier \<Rightarrow> Inr (f2u big (fl64 (val * of_nat multiplier)))))"

section \<open>Written configurations\<close>

text \<open>A configuration file as sections of keys and values, and what it says.\<close>

definition okName :: "string \<Rightarrow> bool" where
  "okName s \<longleftrightarrow> s \<noteq> [] \<and> list_all plain s \<and> set s \<inter> {CHR '':'', CHR ''#'', CHR 0x22, CHR 0x27} = {}"

definition okValue :: "string \<Rightarrow> bool" where
  "okValue v \<longleftrightarrow> v \<noteq> [] \<and> list_all plain v \<and> CHR ''#'' \<notin> set v \<and> hd v \<noteq> CHR 0x22 \<and> hd v \<noteq> CHR 0x27"

definition sectionLine :: "string \<Rightarrow> string" where
  "sectionLine s = s @ '':''"

definition keyLine :: "string \<times> string \<Rightarrow> string" where
  "keyLine kv = (case kv of (k, v) \<Rightarrow> ''  '' @ k @ '': '' @ v)"

definition yamlOf :: "(string \<times> (string \<times> string) list) list \<Rightarrow> string list" where
  "yamlOf secs = concat (map (\<lambda>(s, kvs). sectionLine s # map keyLine kvs) secs)"

definition entry :: "string \<Rightarrow> (string \<Rightarrow> string option) \<Rightarrow> string \<times> string \<Rightarrow> string \<Rightarrow> string option" where
  "entry s m kv = m(s @ ''.'' @ fst kv \<mapsto> snd kv)"

definition says :: "(string \<times> (string \<times> string) list) list \<Rightarrow> string \<Rightarrow> string option" where
  "says secs = foldl (\<lambda>m (s, kvs). foldl (entry s) m kvs) Map.empty secs"

definition written :: "(string \<times> (string \<times> string) list) list \<Rightarrow> string" where
  "written secs = concat (map (\<lambda>l. l @ [CHR 0x0A]) (yamlOf secs))"

lemma scanLines_lines:
  assumes "\<forall>l \<in> set ls. CHR 0x0A \<notin> set l \<and> length l < maxTokenSize \<and> last l \<noteq> CHR 0x0D"
  shows "scanLines (concat (map (\<lambda>l. l @ [CHR 0x0A]) ls)) = (ls, False)"
  using assms
proof (induction ls)
  case Nil
  then show ?case by (simp add: scanLines.simps)
next
  case (Cons l ls)
  let ?rest = "concat (map (\<lambda>l. l @ [CHR 0x0A]) ls)"
  have "takeWhile (\<lambda>c. c \<noteq> CHR 0x0A) (l @ CHR 0x0A # ?rest) = l"
    using Cons.prems takeWhile_until [of "CHR 0x0A" l] by (simp add: takeWhile_tail)
  moreover have "dropCR l = l" using Cons.prems by (simp add: dropCR_def)
  ultimately show ?case using Cons by (subst scanLines.simps) simp
qed

lemma plain_not_blank: "plain c \<Longrightarrow> c \<notin> {CHR '' '', CHR 0x09, CHR 0x0D, CHR 0x0A}"
  by (auto simp: plain_def)

lemma popStack_top: "popStack 0 stack = []" "popStack (Suc (Suc 0)) [(0, s)] = [(0, s)]"
  by (simp_all add: popStack_def dropWhile_eq_Nil_conv split_beta)

lemma ends_in: "s \<noteq> [] \<Longrightarrow> c \<notin> set s \<Longrightarrow> hd s \<noteq> c \<and> last s \<noteq> c"
  by auto

lemma okName_trim:
  assumes "okName s"
  shows "Trim {CHR 0x22, CHR 0x27} (TrimSpace s) = s"
proof -
  have s: "s \<noteq> []" "CHR 0x22 \<notin> set s" "CHR 0x27 \<notin> set s" "TrimSpace s = s" using assms TrimSpace_plain by (auto simp: okName_def)
  then show ?thesis using Trim_keep [of s "{CHR 0x22, CHR 0x27}"] ends_in [OF s(1,2)] ends_in [OF s(1,3)] by simp
qed

lemma yamlLine_section:
  assumes "okName s"
  shows "yamlLine n (sectionLine s) (stack, kv) = Some (Inr ([(0, s)], kv))"
proof -
  have s: "s \<noteq> []" "list_all plain s" "CHR '':'' \<notin> set s" "CHR ''#'' \<notin> set (s @ '':'')" using assms by (auto simp: okName_def)
  have l: "TrimRight {CHR '' '', CHR 0x09, CHR 0x0D, CHR 0x0A} (s @ '':'') = s @ '':''" by (rule TrimRight_keep) simp
  have "plain (hd s)" using s(1,2) by (cases s) auto
  then have h: "hd (s @ '':'') \<notin> blanks" "hd (s @ '':'') \<noteq> CHR ''#''" using s(1) plain_not_blank [of "hd s"] ends_in [of s "CHR ''#''"] s(4) by (auto simp: hd_append)
  then have i: "takeWhile (\<lambda>c. c \<in> blanks) (s @ '':'') = []" using s(1) by (cases s) auto
  have c: "stripComment (s @ '':'') = s @ '':''" unfolding stripComment_def Index_None [OF s(4)] by simp
  have x: "Index (s @ '':'') CHR '':'' = Some (length s)" using Index_append [OF s(3), of "[]"] by simp
  have t: "TrimSpace [] = []" using TrimSpace_plain [of "[]"] by simp
  show ?thesis using s(1) h(2) okName_trim [OF assms] t
    unfolding yamlLine_def sectionLine_def Let_def l i case_prod_conv by (simp add: c x popStack_top)
qed

lemma yamlLine_key:
  assumes "okName k" "okValue v"
  shows "yamlLine n (keyLine (k, v)) ([(0, s)], kv) = Some (Inr ([(0, s)], kv(s @ ''.'' @ k \<mapsto> v)))"
proof -
  let ?b = "k @ '': '' @ v"
  have k: "k \<noteq> []" "list_all plain k" "CHR '':'' \<notin> set k" "CHR ''#'' \<notin> set ?b" using assms by (auto simp: okName_def okValue_def)
  have v: "v \<noteq> []" "list_all plain v" using assms by (auto simp: okValue_def)
  have p: "plain (hd k)" "plain (last v)" using k(1,2) v by (auto simp: list_all_iff)
  have l: "TrimRight {CHR '' '', CHR 0x09, CHR 0x0D, CHR 0x0A} (''  '' @ ?b) = ''  '' @ ?b"
    using v(1) plain_not_blank [OF p(2)] by (intro TrimRight_keep) simp
  have h: "hd ?b \<notin> blanks" "hd ?b \<noteq> CHR ''#''" using k(1,4) plain_not_blank [OF p(1)] ends_in [of k "CHR ''#''"] by (auto simp: hd_append)
  then have i: "takeWhile (\<lambda>c. c \<in> blanks) (''  '' @ ?b) = ''  ''" using k(1) by (cases k) auto
  have c: "stripComment ?b = ?b" unfolding stripComment_def Index_None [OF k(4)] by simp
  have x: "Index ?b CHR '':'' = Some (length k)" using Index_append [OF k(3), of "CHR '' '' # v"] by simp
  have t: "TrimSpace (drop (length k + 1) ?b) = v" using TrimSpace_blank [OF v(2)] by simp
  have u: "unquote v = Some v" using assms(2) by (simp add: unquote_def okValue_def)
  have d: "drop (length ''  '') (''  '' @ ?b) = ?b" by simp
  show ?thesis using k(1) v(1) h(2) okName_trim [OF assms(1)] u
    unfolding yamlLine_def keyLine_def Let_def case_prod_conv l i d c x option.case t by (simp add: popStack_top)
qed

lemma yamlLines_keys:
  assumes "\<forall>(k, v) \<in> set kvs. okName k \<and> okValue v"
  shows "yamlLines n (map keyLine kvs @ ls) ([(0, s)], kv) =
    yamlLines (n + length kvs) ls ([(0, s)], foldl (entry s) kv kvs)"
  using assms
proof (induction kvs arbitrary: n kv)
  case (Cons a kvs)
  obtain k v where a: "a = (k, v)" by fastforce
  then show ?case using Cons yamlLine_key [of k v "Suc n" s kv] by (simp add: entry_def [of s kv])
qed simp

lemma yamlLines_sections:
  assumes "\<forall>(s, kvs) \<in> set secs. okName s \<and> (\<forall>(k, v) \<in> set kvs. okName k \<and> okValue v)"
  shows "\<exists>stack'. yamlLines n (yamlOf secs) (stack, kv) = Some (Inr (stack',
    foldl (\<lambda>m (s, kvs). foldl (entry s) m kvs) kv secs))"
  using assms
proof (induction secs arbitrary: n stack kv)
  case (Cons a secs)
  obtain s kvs where a: "a = (s, kvs)" by fastforce
  have s: "okName s" "\<forall>(k, v) \<in> set kvs. okName k \<and> okValue v" using Cons.prems a by auto
  have y: "yamlOf (a # secs) = sectionLine s # (map keyLine kvs @ yamlOf secs)" by (simp add: yamlOf_def a)
  have "yamlLines n (yamlOf (a # secs)) (stack, kv) = yamlLines (Suc n) (map keyLine kvs @ yamlOf secs) ([(0, s)], kv)"
    unfolding y using yamlLine_section [OF s(1), of "Suc n" stack kv] by simp
  then show ?case unfolding yamlLines_keys [OF s(2)] using Cons a by simp
qed (simp add: yamlOf_def)

text \<open>Every line of a written configuration is short enough to be scanned.\<close>

definition short :: "(string \<times> (string \<times> string) list) list \<Rightarrow> bool" where
  "short secs \<longleftrightarrow> (\<forall>l \<in> set (yamlOf secs). length l < maxTokenSize)"

lemma written_scan:
  assumes "\<forall>(s, kvs) \<in> set secs. okName s \<and> (\<forall>(k, v) \<in> set kvs. okName k \<and> okValue v)" "short secs"
  shows "scanLines (written secs) = (yamlOf secs, False)"
proof -
  have p: "plain c \<Longrightarrow> c \<noteq> CHR 0x0A \<and> c \<noteq> CHR 0x0D" for c by (auto simp: plain_def)
  have "CHR 0x0A \<notin> set l \<and> last l \<noteq> CHR 0x0D" if m: "l \<in> set (yamlOf secs)" for l
  proof -
    obtain s kvs where s: "(s, kvs) \<in> set secs" "l = sectionLine s \<or> l \<in> keyLine ` set kvs" using m by (fastforce simp: yamlOf_def)
    then have ok: "okName s" "\<forall>(k, v) \<in> set kvs. okName k \<and> okValue v" using assms(1) by auto
    show ?thesis
    proof (cases "l = sectionLine s")
      case True
      then show ?thesis using ok(1) p by (auto simp: sectionLine_def okName_def list_all_iff)
    next
      case False
      then obtain k v where kv: "(k, v) \<in> set kvs" "l = keyLine (k, v)" using s(2) by auto
      then have "okName k" "okValue v" using ok(2) by auto
      then show ?thesis using p [of "last v"] p kv(2) by (auto simp: keyLine_def okName_def okValue_def list_all_iff)
    qed
  qed
  then show ?thesis using assms(2) unfolding written_def short_def by (intro scanLines_lines) blast
qed

section \<open>Sizes and odd lines\<close>

definition isLetter :: "char \<Rightarrow> bool" where
  "isLetter c \<longleftrightarrow> (let n = of_char c :: nat in 65 \<le> n \<and> n \<le> 90 \<or> 97 \<le> n \<and> n \<le> 122)"

lemma isLetter_plain: "isLetter c \<Longrightarrow> plain c \<and> \<not> isDigit c \<and> c \<noteq> CHR ''.''"
  by (auto simp: isLetter_def plain_def isDigit_def Let_def)

lemma size_split:
  assumes "list_all isLetter u"
  shows "TrimSpace (decimal n @ u) = decimal n @ u" "TrimSpace u = u"
    "takeWhile (\<lambda>c. isDigit c \<or> c = CHR ''.'') (decimal n @ u) = decimal n"
proof -
  have d: "\<forall>c \<in> set (decimal n). isDigit c" using decimal_digits [of n] by (simp add: list_all_iff)
  have "list_all plain (decimal n @ u)" "list_all plain u"
    using d assms isLetter_plain by (auto simp: list_all_iff isDigit_def plain_def)
  then show "TrimSpace (decimal n @ u) = decimal n @ u" "TrimSpace u = u" by (simp_all add: TrimSpace_plain)
  have "takeWhile (\<lambda>c. isDigit c \<or> c = CHR ''.'') u = []" using assms isLetter_plain by (cases u) auto
  then show "takeWhile (\<lambda>c. isDigit c \<or> c = CHR ''.'') (decimal n @ u) = decimal n" using d by simp
qed

lemma sizeUnit_pos: "sizeUnit u = Some m \<Longrightarrow> 0 < m"
  by (auto simp: sizeUnit_def split: if_splits)

text \<open>A value that is one quotation mark makes the parser panic.\<close>

lemma ParseYAML_lone_quote: "ParseYAML (''a: '' @ [CHR 0x22]) = None"
proof -
  have "scanLines (''a: '' @ [CHR 0x22]) = ([''a: '' @ [CHR 0x22]], False)"
    by (subst scanLines.simps, subst scanLines.simps) (simp add: maxTokenSize_def dropCR_def)
  moreover have "TrimSpace (CHR '' '' # [CHR 0x22]) = [CHR 0x22]" by (rule TrimSpace_blank) (simp add: plain_def)
  then have "yamlLine 1 (''a: '' @ [CHR 0x22]) ([], Map.empty) = None"
    by (simp add: yamlLine_def TrimRight_def Let_def stripComment_def Index_def unquote_def)
  ultimately show ?thesis by (simp add: ParseYAML_def)
qed

text \<open>
  Only the first hash sign of a line is looked at, and it counts inside quotation marks too: a comment after a
  value with a hash sign stays in the value, and a quoted value with a blank before a hash sign is cut.
\<close>

lemma stripComment_first_hash:
  "stripComment ''k: a#b # c'' = ''k: a#b # c''" "stripComment (''k: '' @ [CHR 0x22] @ ''a # b'' @ [CHR 0x22]) = ''k: '' @ [CHR 0x22] @ ''a''"
  by code_simp+

section \<open>Properties\<close>



text \<open>
  C26. Sizes are exact.  A whole number followed by a unit of letters in any case is the number times the unit, as
  long as that is at most \<open>2\<^sup>5\<^sup>3\<close>, although the program computes it in floating point; an unknown unit is an
  error.
\<close>

theorem ParseSize_exact:
  assumes "list_all isLetter u" "n \<le> 2 ^ 53"
  shows "(\<forall>m. sizeUnit (ToLower u) = Some m \<and> n * m \<le> 2 ^ 53 \<longrightarrow> ParseSize big (decimal n @ u) = Inr (of_nat (n * m))) \<and>
    (sizeUnit (ToLower u) = None \<longrightarrow> ParseSize big (decimal n @ u) = Inl BadSizeUnit)"
proof -
  have p: "ParseSize big (decimal n @ u) = (case sizeUnit (ToLower u) of
      None \<Rightarrow> Inl BadSizeUnit | Some m \<Rightarrow> Inr (f2u big (fl64 (of_nat n * of_nat m))))"
    unfolding ParseSize_def size_split [OF assms(1)] Let_def using decimal_digits [of n] size_split(2) [OF assms(1)] ParseFloat_decimal [OF assms(2)] by simp
  have "f2u big (fl64 (of_nat n * of_nat m)) = of_nat (n * m)" if "n * m \<le> 2 ^ 53" for m
  proof -
    have f: "fl64 (of_nat (n * m)) = of_nat (n * m)" using that by (rule fl64_nat)
    have "(of_nat (n * m) :: rat) \<le> of_nat (2 ^ 53)" using that by (simp only: of_nat_le_iff)
    then have "(of_nat (n * m) :: rat) < 2 ^ 64" by simp
    then show ?thesis unfolding of_nat_mult [symmetric] f by (simp add: f2u_def del: of_nat_mult)
  qed
  then show ?thesis unfolding p by auto
qed

theorem ParseSize_exact_witness: "ParseSize (\<lambda>_. 0) (decimal 256 @ ''MiB'') = Inr 268435456"
proof -
  have "list_all isLetter ''MiB'' \<and> sizeUnit (ToLower ''MiB'') = Some (2 ^ 20)"
    by (simp add: isLetter_def sizeUnit_def lowerChar_def char_of_def bit_Suc bit_0)
  then show ?thesis using ParseSize_exact [of "''MiB''" 256 "\<lambda>_. 0"] by simp
qed

end
