(* ===== verification/Metrics.thy ===== *)
theory Metrics
  imports Handler Go_Text "HOL-Library.AList"
begin

text \<open>
  \<^verbatim>\<open>internal/metrics/metrics.go\<close>: the registry of counters, gauges and histograms, the recorder of the transport
  layer and the text exposition.  A Go map is an association list; \<^verbatim>\<open>WriteText\<close> sorts the keys, so that its order
  is not seen.  The formatting of a bucket bound with \<^verbatim>\<open>%g\<close> is an argument.  A duration is its number of
  nanoseconds, which the monotonic clock makes non-negative.
\<close>

section \<open>Definitions\<close>

type_synonym Hash = u64

record Label =
  lb_Name :: string
  lb_Value :: string

record counterEntry =
  ce_name :: string
  ce_help :: string
  ce_labels :: "Label list"
  ce_val :: u64

record gaugeEntry =
  ge_name :: string
  ge_help :: string
  ge_labels :: "Label list"
  ge_val :: u64

record histogramEntry =
  he_name :: string
  he_help :: string
  he_labels :: "Label list"
  he_buckets :: "rat list"
  he_counts :: "u64 list"
  he_sum :: u64
  he_count :: u64

record reg =
  rg_counter :: "(Hash \<times> counterEntry) list"
  rg_gauge :: "(Hash \<times> gaugeEntry) list"
  rg_hist :: "(Hash \<times> histogramEntry) list"

definition emptyReg :: reg where
  "emptyReg = \<lparr>rg_counter = [], rg_gauge = [], rg_hist = []\<rparr>"

definition hashStr :: "u64 \<Rightarrow> string \<Rightarrow> u64" where
  "hashStr h s = foldl fnv_step h (map of_char s)"

definition metricKey :: "string \<Rightarrow> Label list \<Rightarrow> Hash" where
  "metricKey name labels = foldl (\<lambda>h l. fnv_step (hashStr (fnv_step (hashStr h (lb_Name l)) 0xff) (lb_Value l)) 0xff)
     (hashStr fnv_offset name) labels"

definition RegisterCounter :: "string \<Rightarrow> string \<Rightarrow> Label list \<Rightarrow> reg \<Rightarrow> Hash \<times> reg" where
  "RegisterCounter name help labels r =
    (let k = metricKey name labels in
     if map_of (rg_counter r) k \<noteq> None then (k, r)
     else (k, r\<lparr>rg_counter := AList.update k \<lparr>ce_name = name, ce_help = help, ce_labels = labels, ce_val = 0\<rparr> (rg_counter r)\<rparr>))"

definition IncCounterBy :: "Hash \<Rightarrow> u64 \<Rightarrow> reg \<Rightarrow> reg" where
  "IncCounterBy k delta r = (case map_of (rg_counter r) k of
       Some e \<Rightarrow> r\<lparr>rg_counter := AList.update k (e\<lparr>ce_val := ce_val e + delta\<rparr>) (rg_counter r)\<rparr>
     | None \<Rightarrow> r)"

definition IncCounter :: "Hash \<Rightarrow> reg \<Rightarrow> reg" where
  "IncCounter k r = (case map_of (rg_counter r) k of
       Some e \<Rightarrow> r\<lparr>rg_counter := AList.update k (e\<lparr>ce_val := ce_val e + 1\<rparr>) (rg_counter r)\<rparr>
     | None \<Rightarrow> r)"

definition RegisterGauge :: "string \<Rightarrow> string \<Rightarrow> Label list \<Rightarrow> reg \<Rightarrow> Hash \<times> reg" where
  "RegisterGauge name help labels r =
    (let k = metricKey name labels in
     if map_of (rg_gauge r) k \<noteq> None then (k, r)
     else (k, r\<lparr>rg_gauge := AList.update k \<lparr>ge_name = name, ge_help = help, ge_labels = labels, ge_val = 0\<rparr> (rg_gauge r)\<rparr>))"

definition SetGauge :: "Hash \<Rightarrow> u64 \<Rightarrow> reg \<Rightarrow> reg" where
  "SetGauge k v r = (case map_of (rg_gauge r) k of
       Some e \<Rightarrow> r\<lparr>rg_gauge := AList.update k (e\<lparr>ge_val := v\<rparr>) (rg_gauge r)\<rparr>
     | None \<Rightarrow> r)"

definition AddGauge :: "Hash \<Rightarrow> u64 \<Rightarrow> reg \<Rightarrow> reg" where
  "AddGauge k delta r = (case map_of (rg_gauge r) k of
       Some e \<Rightarrow> r\<lparr>rg_gauge := AList.update k (e\<lparr>ge_val := ge_val e + delta\<rparr>) (rg_gauge r)\<rparr>
     | None \<Rightarrow> r)"

definition RegisterHistogram :: "string \<Rightarrow> string \<Rightarrow> Label list \<Rightarrow> rat list \<Rightarrow> reg \<Rightarrow> Hash \<times> reg" where
  "RegisterHistogram name help labels buckets r =
    (let k = metricKey name labels in
     if map_of (rg_hist r) k \<noteq> None then (k, r)
     else (k, r\<lparr>rg_hist := AList.update k \<lparr>he_name = name, he_help = help, he_labels = labels, he_buckets = buckets,
            he_counts = replicate (length buckets + 1) 0, he_sum = 0, he_count = 0\<rparr> (rg_hist r)\<rparr>))"

text \<open>The counts of a histogram, the one of the infinite bucket last.\<close>

fun bumpCounts :: "rat \<Rightarrow> rat list \<Rightarrow> u64 list \<Rightarrow> u64 list" where
  "bumpCounts v (ub # ubs) (c # cs) = (if v \<le> ub then c + 1 else c) # bumpCounts v ubs cs"
| "bumpCounts v [] (c # cs) = (c + 1) # cs"
| "bumpCounts v ubs [] = []"

definition observeEntry :: "(rat \<Rightarrow> u64) \<Rightarrow> rat \<Rightarrow> histogramEntry \<Rightarrow> histogramEntry" where
  "observeEntry big v e = e\<lparr>he_counts := bumpCounts v (he_buckets e) (he_counts e),
     he_sum := he_sum e + f2u big (fl64 (v * 10 ^ 9)), he_count := he_count e + 1\<rparr>"

definition Observe :: "(rat \<Rightarrow> u64) \<Rightarrow> Hash \<Rightarrow> rat \<Rightarrow> reg \<Rightarrow> reg" where
  "Observe big k valueSeconds r = (case map_of (rg_hist r) k of
       None \<Rightarrow> r
     | Some e \<Rightarrow> r\<lparr>rg_hist := AList.update k (observeEntry big valueSeconds e) (rg_hist r)\<rparr>)"

subsection \<open>Text exposition\<close>

definition labelText :: "Label \<Rightarrow> string" where
  "labelText l = lb_Name l @ ''='' @ [CHR 0x22] @ lb_Value l @ [CHR 0x22]"

definition writeLabels :: "Label list \<Rightarrow> string" where
  "writeLabels labels = (if labels = [] then [] else ''{'' @ Join (map labelText labels) '','' @ ''}'')"

definition newline :: string where "newline = [CHR 0x0A]"

definition writeCounterLine :: "counterEntry \<Rightarrow> string" where
  "writeCounterLine e = ce_name e @ writeLabels (ce_labels e) @ '' '' @ decimal (unat (ce_val e)) @ newline"

definition writeGaugeLine :: "gaugeEntry \<Rightarrow> string" where
  "writeGaugeLine e = ge_name e @ writeLabels (ge_labels e) @ '' '' @ decimal (unat (ge_val e)) @ newline"

definition writeHistogramLines :: "(rat \<Rightarrow> string) \<Rightarrow> histogramEntry \<Rightarrow> string" where
  "writeHistogramLines fmtG e =
     concat (map (\<lambda>(ub, c). he_name e @ ''_bucket'' @ writeLabels (he_labels e @ [\<lparr>lb_Name = ''le'', lb_Value = fmtG ub\<rparr>]) @ '' '' @
       decimal (unat c) @ newline) (zip (he_buckets e) (he_counts e))) @
     he_name e @ ''_bucket'' @ writeLabels (he_labels e @ [\<lparr>lb_Name = ''le'', lb_Value = ''+Inf''\<rparr>]) @ '' '' @
       decimal (unat (he_counts e ! length (he_buckets e))) @ newline @
     he_name e @ ''_sum'' @ writeLabels (he_labels e) @ '' '' @ decimal (unat (he_sum e)) @ newline @
     he_name e @ ''_count'' @ writeLabels (he_labels e) @ '' '' @ decimal (unat (he_count e)) @ newline"

definition metricHead :: "string \<Rightarrow> string \<Rightarrow> string \<Rightarrow> string" where
  "metricHead name help kind = ''# HELP '' @ name @ '' '' @ help @ newline @ ''# TYPE '' @ name @ kind @ newline"

definition inOrder :: "(Hash \<times> 'e) list \<Rightarrow> ('e \<Rightarrow> string) \<Rightarrow> string" where
  "inOrder m f = concat (map (\<lambda>k. case map_of m k of Some e \<Rightarrow> f e | None \<Rightarrow> []) (sort (map fst m)))"

definition WriteText :: "(rat \<Rightarrow> string) \<Rightarrow> reg \<Rightarrow> string" where
  "WriteText fmtG r = ''# HELP horreum horreum metrics'' @ newline @
     inOrder (rg_counter r) (\<lambda>e. metricHead (ce_name e) (ce_help e) '' counter'' @ writeCounterLine e) @
     inOrder (rg_gauge r) (\<lambda>e. metricHead (ge_name e) (ge_help e) '' gauge'' @ writeGaugeLine e) @
     inOrder (rg_hist r) (\<lambda>e. metricHead (he_name e) (he_help e) '' histogram'' @ writeHistogramLines fmtG e)"

subsection \<open>The recorder\<close>

record DefaultRecorder =
  setTotal :: "string \<Rightarrow> Hash option"
  getTotal :: "string \<Rightarrow> Hash option"
  delTotal :: "string \<Rightarrow> Hash option"
  casTotal :: "string \<Rightarrow> Hash option"
  incrTotal :: "string \<Rightarrow> Hash option"
  scanTotal :: "string \<Rightarrow> Hash option"
  delPrefixTotal :: "string \<Rightarrow> Hash option"
  setLat :: Hash
  getLat :: Hash
  delLat :: Hash
  casLat :: Hash
  incrLat :: Hash
  scanLat :: Hash
  delPrefixLat :: Hash

definition opsLabels :: "string \<Rightarrow> string \<Rightarrow> Label list" where
  "opsLabels cmd status = [\<lparr>lb_Name = ''cmd'', lb_Value = cmd\<rparr>, \<lparr>lb_Name = ''status'', lb_Value = status\<rparr>]"

definition latLabels :: "string \<Rightarrow> Label list" where
  "latLabels cmd = [\<lparr>lb_Name = ''cmd'', lb_Value = cmd\<rparr>]"

text \<open>The two counters of a command, as the map the recorder keeps.\<close>

definition registerTotal :: "string \<Rightarrow> reg \<Rightarrow> (string \<Rightarrow> Hash option) \<times> reg" where
  "registerTotal cmd r =
    (case RegisterCounter ''horreum_ops_total'' ''Total number of operations by command and status.'' (opsLabels cmd ''ok'') r of (k1, r1) \<Rightarrow>
     case RegisterCounter ''horreum_ops_total'' ''Total number of operations by command and status.'' (opsLabels cmd ''err'') r1 of (k2, r2) \<Rightarrow>
       ([''ok'' \<mapsto> k1, ''err'' \<mapsto> k2], r2))"

definition latBuckets :: "rat list" where
  "latBuckets = map fl64 [1 / 10000, 5 / 10000, 1 / 1000, 5 / 1000, 1 / 100, 5 / 100, 1 / 10, 5 / 10, 1, 5]"

definition registerLat :: "string \<Rightarrow> reg \<Rightarrow> Hash \<times> reg" where
  "registerLat cmd r = RegisterHistogram ''horreum_latency_seconds'' ''Op latency in seconds, by command.'' (latLabels cmd) latBuckets r"

definition NewRecorder :: "reg \<Rightarrow> DefaultRecorder \<times> reg" where
  "NewRecorder r0 =
    (case registerTotal ''set'' r0 of (st, r1) \<Rightarrow> case registerTotal ''get'' r1 of (gt, r2) \<Rightarrow>
     case registerTotal ''del'' r2 of (dt, r3) \<Rightarrow> case registerTotal ''cas'' r3 of (ct, r4) \<Rightarrow>
     case registerTotal ''incr'' r4 of (it, r5) \<Rightarrow> case registerTotal ''scan'' r5 of (nt, r6) \<Rightarrow>
     case registerTotal ''delprefix'' r6 of (pt, r7) \<Rightarrow>
     case registerLat ''set'' r7 of (sl, r8) \<Rightarrow> case registerLat ''get'' r8 of (gl, r9) \<Rightarrow>
     case registerLat ''del'' r9 of (dl, r10) \<Rightarrow> case registerLat ''cas'' r10 of (cl, r11) \<Rightarrow>
     case registerLat ''incr'' r11 of (il, r12) \<Rightarrow> case registerLat ''scan'' r12 of (nl, r13) \<Rightarrow>
     case registerLat ''delprefix'' r13 of (pl, r14) \<Rightarrow>
     (\<lparr>setTotal = st, getTotal = gt, delTotal = dt, casTotal = ct, incrTotal = it, scanTotal = nt, delPrefixTotal = pt,
        setLat = sl, getLat = gl, delLat = dl, casLat = cl, incrLat = il, scanLat = nl, delPrefixLat = pl\<rparr>, r14))"

definition recordOp :: "(rat \<Rightarrow> u64) \<Rightarrow> (string \<Rightarrow> Hash option) \<Rightarrow> Hash \<Rightarrow> string \<Rightarrow> nat \<Rightarrow> reg \<Rightarrow> reg" where
  "recordOp big tot lat status dur r =
    Observe big lat (Seconds dur) (case tot status of Some h \<Rightarrow> IncCounter h r | None \<Rightarrow> r)"

text \<open>The recorder on what a handler reports (\<^typ>\<open>observation\<close>), with the time it took.\<close>

fun record_obs :: "(rat \<Rightarrow> u64) \<Rightarrow> DefaultRecorder \<Rightarrow> observation \<times> nat \<Rightarrow> reg \<Rightarrow> reg" where
  "record_obs big rc (ObserveSet status, dur) r = recordOp big (setTotal rc) (setLat rc) status dur r"
| "record_obs big rc (ObserveGet status, dur) r = recordOp big (getTotal rc) (getLat rc) status dur r"
| "record_obs big rc (ObserveDel status, dur) r = recordOp big (delTotal rc) (delLat rc) status dur r"
| "record_obs big rc (ObserveCAS status, dur) r = recordOp big (casTotal rc) (casLat rc) status dur r"
| "record_obs big rc (ObserveIncr status, dur) r = recordOp big (incrTotal rc) (incrLat rc) status dur r"
| "record_obs big rc (ObserveScan status, dur) r = recordOp big (scanTotal rc) (scanLat rc) status dur r"
| "record_obs big rc (ObserveDelPrefix status, dur) r = recordOp big (delPrefixTotal rc) (delPrefixLat rc) status dur r"

end
