(* ===== verification/Metrics_Laws.thy ===== *)
theory Metrics_Laws
  imports Metrics
begin

text \<open>
  What the metrics say: after any sequence of observations, the counters and histograms of the recorder hold
  exactly the numbers of operations, and the buckets are exact to the nanosecond.
\<close>

section \<open>Single metrics\<close>

definition cval :: "reg \<Rightarrow> Hash \<Rightarrow> u64 option" where
  "cval r k = map_option ce_val (map_of (rg_counter r) k)"

definition hval :: "reg \<Rightarrow> Hash \<Rightarrow> histogramEntry option" where
  "hval r k = map_of (rg_hist r) k"

lemma RegisterCounter_val:
  "fst (RegisterCounter name help labels r) = metricKey name labels"
  "cval (snd (RegisterCounter name help labels r)) k = (if k = metricKey name labels \<and> cval r k = None then Some 0 else cval r k)"
  "hval (snd (RegisterCounter name help labels r)) = hval r"
  by (auto simp: RegisterCounter_def cval_def hval_def Let_def update_conv')

lemma RegisterHistogram_val:
  "fst (RegisterHistogram name help labels bs r) = metricKey name labels"
  "cval (snd (RegisterHistogram name help labels bs r)) = cval r"
  "hval (snd (RegisterHistogram name help labels bs r)) k = (if k = metricKey name labels \<and> hval r k = None
     then Some \<lparr>he_name = name, he_help = help, he_labels = labels, he_buckets = bs, he_counts = replicate (length bs + 1) 0, he_sum = 0, he_count = 0\<rparr>
     else hval r k)"
  by (auto simp: RegisterHistogram_def cval_def hval_def Let_def update_conv')

lemma IncCounter_val:
  "cval (IncCounter h r) k = (if k = h then map_option (\<lambda>v. v + 1) (cval r k) else cval r k)" "hval (IncCounter h r) = hval r"
  by (auto simp: IncCounter_def cval_def hval_def update_conv' split: option.split)

lemma Observe_val:
  "cval (Observe big h v r) = cval r" "hval (Observe big h v r) k = (if k = h then map_option (observeEntry big v) (hval r k) else hval r k)"
  by (auto simp: Observe_def cval_def hval_def update_conv' split: option.split)

section \<open>The recorder\<close>

definition opsKey :: "string \<Rightarrow> string \<Rightarrow> Hash" where
  "opsKey cmd status = metricKey ''horreum_ops_total'' (opsLabels cmd status)"

definition latKey :: "string \<Rightarrow> Hash" where
  "latKey cmd = metricKey ''horreum_latency_seconds'' (latLabels cmd)"

definition cmds :: "string list" where
  "cmds = [''set'', ''get'', ''del'', ''cas'', ''incr'', ''scan'', ''delprefix'']"

lemma in_cmds: "c \<in> set cmds \<longleftrightarrow> c = ''set'' \<or> c = ''get'' \<or> c = ''del'' \<or> c = ''cas'' \<or> c = ''incr'' \<or> c = ''scan'' \<or> c = ''delprefix''"
  by (simp add: cmds_def)

definition opsFrom :: "u64 \<Rightarrow> string \<Rightarrow> string \<Rightarrow> u64" where
  "opsFrom h cmd status = fnv_step (hashStr (fnv_step (hashStr (fnv_step (hashStr h cmd) 0xff) ''status'') 0xff) status) 0xff"

text \<open>The hashes that address the metrics do not collide.\<close>

lemma opsKey_from: "opsKey cmd status = opsFrom 14024806312141858906 cmd status"
proof -
  have "fnv_step (hashStr (hashStr fnv_offset ''horreum_ops_total'') ''cmd'') 0xff = 14024806312141858906" by code_simp
  then show ?thesis by (simp add: opsKey_def metricKey_def opsLabels_def opsFrom_def)
qed

lemma opsKey_distinct: "distinct (map (\<lambda>(c, s). opsKey c s) (List.product cmds [''ok'', ''err'']))"
  unfolding opsKey_from by code_simp

lemma latKey_from: "latKey cmd = fnv_step (hashStr 8903873140244869627 cmd) 0xff"
proof -
  have "fnv_step (hashStr (hashStr fnv_offset ''horreum_latency_seconds'') ''cmd'') 0xff = 8903873140244869627" by code_simp
  then show ?thesis by (simp add: latKey_def metricKey_def latLabels_def)
qed

lemma latKey_distinct: "distinct (map latKey cmds)"
  unfolding latKey_from by code_simp

lemma opsKey_inj:
  assumes "c \<in> set cmds" "c' \<in> set cmds" "s \<in> {''ok'', ''err''}" "s' \<in> {''ok'', ''err''}"
  shows "opsKey c s = opsKey c' s' \<longleftrightarrow> c = c' \<and> s = s'"
proof -
  have i: "inj_on (\<lambda>(c, s). opsKey c s) (set (List.product cmds [''ok'', ''err'']))"
    using opsKey_distinct by (simp only: distinct_map)
  have m: "(c, s) \<in> set (List.product cmds [''ok'', ''err''])" "(c', s') \<in> set (List.product cmds [''ok'', ''err''])"
    using assms by auto
  show ?thesis using inj_on_eq_iff [OF i m] by simp
qed

lemma latKey_inj: "c \<in> set cmds \<Longrightarrow> c' \<in> set cmds \<Longrightarrow> latKey c = latKey c' \<longleftrightarrow> c = c'"
  using latKey_distinct unfolding distinct_map by (metis inj_on_eq_iff)

lemma registerTotal_val:
  "fst (registerTotal cmd r) = [''ok'' \<mapsto> opsKey cmd ''ok'', ''err'' \<mapsto> opsKey cmd ''err'']"
  "cval (snd (registerTotal cmd r)) k = (if k \<in> {opsKey cmd ''ok'', opsKey cmd ''err''} \<and> cval r k = None then Some 0 else cval r k)"
  "hval (snd (registerTotal cmd r)) = hval r"
  by (auto simp: registerTotal_def split_beta RegisterCounter_val opsKey_def)

definition freshLat :: "string \<Rightarrow> histogramEntry" where
  "freshLat cmd = \<lparr>he_name = ''horreum_latency_seconds'', he_help = ''Op latency in seconds, by command.'', he_labels = latLabels cmd,
     he_buckets = latBuckets, he_counts = replicate (length latBuckets + 1) 0, he_sum = 0, he_count = 0\<rparr>"

lemma registerLat_val:
  "fst (registerLat cmd r) = latKey cmd"
  "cval (snd (registerLat cmd r)) = cval r"
  "hval (snd (registerLat cmd r)) k = (if k = latKey cmd \<and> hval r k = None then Some (freshLat cmd) else hval r k)"
  unfolding registerLat_def RegisterHistogram_val latKey_def freshLat_def by simp_all

fun cmdOf :: "observation \<Rightarrow> string" where
  "cmdOf (ObserveSet s) = ''set''" | "cmdOf (ObserveGet s) = ''get''" | "cmdOf (ObserveDel s) = ''del''" | "cmdOf (ObserveCAS s) = ''cas''"
| "cmdOf (ObserveIncr s) = ''incr''" | "cmdOf (ObserveScan s) = ''scan''" | "cmdOf (ObserveDelPrefix s) = ''delprefix''"

fun statusOf :: "observation \<Rightarrow> string" where
  "statusOf (ObserveSet s) = s" | "statusOf (ObserveGet s) = s" | "statusOf (ObserveDel s) = s" | "statusOf (ObserveCAS s) = s"
| "statusOf (ObserveIncr s) = s" | "statusOf (ObserveScan s) = s" | "statusOf (ObserveDelPrefix s) = s"

lemma NewRecorder_obs:
  "record_obs big (fst (NewRecorder r0)) (ob, d) r =
    recordOp big [''ok'' \<mapsto> opsKey (cmdOf ob) ''ok'', ''err'' \<mapsto> opsKey (cmdOf ob) ''err''] (latKey (cmdOf ob)) (statusOf ob) d r"
  by (cases ob) (simp_all add: NewRecorder_def split_beta registerTotal_val registerLat_val)

text \<open>Which commands are registered, with all values zero.\<close>

definition registered :: "string set \<Rightarrow> string set \<Rightarrow> reg \<Rightarrow> bool" where
  "registered C D r \<longleftrightarrow> (\<forall>c \<in> set cmds. (\<forall>s \<in> {''ok'', ''err''}. cval r (opsKey c s) = (if c \<in> C then Some 0 else None)) \<and>
     hval r (latKey c) = (if c \<in> D then Some (freshLat c) else None))"

lemma registerTotal_registered:
  assumes "registered C D r" "cmd \<in> set cmds"
  shows "registered (insert cmd C) D (snd (registerTotal cmd r))"
  unfolding registered_def registerTotal_val
proof (intro ballI conjI)
  fix c s assume c: "c \<in> set cmds" and s: "s \<in> {''ok'', ''err''}"
  have k: "opsKey c s \<in> {opsKey cmd ''ok'', opsKey cmd ''err''} \<longleftrightarrow> c = cmd"
    using opsKey_inj [OF c assms(2) s, of "''ok''"] opsKey_inj [OF c assms(2) s, of "''err''"] s by auto
  have "cval r (opsKey c s) = (if c \<in> C then Some 0 else None)" using assms(1) c s unfolding registered_def by blast
  then show "(if opsKey c s \<in> {opsKey cmd ''ok'', opsKey cmd ''err''} \<and> cval r (opsKey c s) = None then Some 0 else cval r (opsKey c s)) =
    (if c \<in> insert cmd C then Some 0 else None)" unfolding k by auto
qed (use assms(1) in \<open>auto simp: registered_def\<close>)

lemma registerLat_registered:
  assumes "registered C D r" "cmd \<in> set cmds"
  shows "registered C (insert cmd D) (snd (registerLat cmd r))"
  unfolding registered_def registerLat_val
proof (intro ballI conjI)
  fix c assume c: "c \<in> set cmds"
  have "hval r (latKey c) = (if c \<in> D then Some (freshLat c) else None)" using assms(1) c unfolding registered_def by blast
  then show "(if latKey c = latKey cmd \<and> hval r (latKey c) = None then Some (freshLat cmd) else hval r (latKey c)) =
    (if c \<in> insert cmd D then Some (freshLat c) else None)" using latKey_inj [OF c assms(2)] by auto
qed (use assms(1) in \<open>auto simp: registered_def\<close>)

lemma NewRecorder_registered: "registered (set cmds) (set cmds) (snd (NewRecorder emptyReg))"
proof -
  have e: "registered {} {} emptyReg" by (simp add: registered_def cval_def hval_def emptyReg_def)
  have "snd (NewRecorder emptyReg) = (snd \<circ> registerLat ''delprefix'' \<circ> snd \<circ> registerLat ''scan'' \<circ> snd \<circ> registerLat ''incr'' \<circ>
      snd \<circ> registerLat ''cas'' \<circ> snd \<circ> registerLat ''del'' \<circ> snd \<circ> registerLat ''get'' \<circ> snd \<circ> registerLat ''set'' \<circ>
      snd \<circ> registerTotal ''delprefix'' \<circ> snd \<circ> registerTotal ''scan'' \<circ> snd \<circ> registerTotal ''incr'' \<circ> snd \<circ> registerTotal ''cas'' \<circ>
      snd \<circ> registerTotal ''del'' \<circ> snd \<circ> registerTotal ''get'' \<circ> snd \<circ> registerTotal ''set'') emptyReg"
    by (simp add: NewRecorder_def split_beta)
  moreover have "registered {''delprefix'', ''scan'', ''incr'', ''cas'', ''del'', ''get'', ''set''}
      {''delprefix'', ''scan'', ''incr'', ''cas'', ''del'', ''get'', ''set''} \<dots>"
    unfolding comp_def by (intro registerLat_registered registerTotal_registered e) (simp_all only: in_cmds simp_thms)
  moreover have "{''delprefix'', ''scan'', ''incr'', ''cas'', ''del'', ''get'', ''set''} = set cmds" by (auto simp: cmds_def)
  ultimately show ?thesis by simp
qed

section \<open>Runs\<close>

lemma recordOp_val:
  "cval (recordOp big tot lat status d r) k = (if tot status = Some k then map_option (\<lambda>v. v + 1) (cval r k) else cval r k)"
  "hval (recordOp big tot lat status d r) k = (if k = lat then map_option (observeEntry big (Seconds d)) (hval r k) else hval r k)"
  by (auto simp: recordOp_def Observe_val IncCounter_val split: option.split)

lemma run_counter:
  assumes "c \<in> set cmds" "s \<in> {''ok'', ''err''}" "cval r (opsKey c s) = Some n"
  shows "cval (fold (record_obs big (fst (NewRecorder r0))) os r) (opsKey c s) =
    Some (n + of_nat (length (filter (\<lambda>(ob, d). cmdOf ob = c \<and> statusOf ob = s) os)))"
  using assms(3)
proof (induction os arbitrary: r n)
  case (Cons a os)
  obtain ob d where a: "a = (ob, d)" by fastforce
  have o: "cmdOf ob \<in> set cmds" by (cases ob) (simp_all add: cmds_def)
  have "[''ok'' \<mapsto> opsKey (cmdOf ob) ''ok'', ''err'' \<mapsto> opsKey (cmdOf ob) ''err''] (statusOf ob) = Some (opsKey c s) \<longleftrightarrow>
      cmdOf ob = c \<and> statusOf ob = s"
    using opsKey_inj [OF o assms(1) _ assms(2), of "''ok''"] opsKey_inj [OF o assms(1) _ assms(2), of "''err''"] assms(2) by auto
  then have "cval (record_obs big (fst (NewRecorder r0)) a r) (opsKey c s) = Some (if cmdOf ob = c \<and> statusOf ob = s then n + 1 else n)"
    unfolding a NewRecorder_obs recordOp_val using Cons.prems by simp
  from Cons.IH [OF this] show ?case by (simp add: a)
qed simp

lemma run_histogram:
  assumes "c \<in> set cmds" "hval r (latKey c) = Some e"
  shows "hval (fold (record_obs big (fst (NewRecorder r0))) os r) (latKey c) =
    Some (fold (\<lambda>d. observeEntry big (Seconds d)) (map snd (filter (\<lambda>(ob, d). cmdOf ob = c) os)) e)"
  using assms(2)
proof (induction os arbitrary: r e)
  case (Cons a os)
  obtain ob d where a: "a = (ob, d)" by fastforce
  have o: "cmdOf ob \<in> set cmds" by (cases ob) (simp_all add: cmds_def)
  have "hval (record_obs big (fst (NewRecorder r0)) a r) (latKey c) = Some (if cmdOf ob = c then observeEntry big (Seconds d) e else e)"
    unfolding a NewRecorder_obs recordOp_val using Cons.prems latKey_inj [OF assms(1) o] by auto
  from Cons.IH [OF this] show ?case by (simp add: a)
qed simp

section \<open>Buckets\<close>

lemma bumps:
  assumes "length cs = length ubs"
  shows "fold (\<lambda>v. bumpCounts v ubs) vs (cs @ [c]) =
    map2 (\<lambda>ub x. x + of_nat (length (filter (\<lambda>v. v \<le> ub) vs))) ubs cs @ [c + of_nat (length vs)]"
proof -
  have step: "bumpCounts v ubs (cs @ [c]) = map2 (\<lambda>ub x. if v \<le> ub then x + 1 else x) ubs cs @ [c + 1]" if "length cs = length ubs" for v cs c
    using that by (induction ubs cs rule: list_induct2') auto
  have m: "map2 g ubs (map2 f ubs cs) = map2 (\<lambda>ub x. g ub (f ub x)) ubs cs" for f g :: "rat \<Rightarrow> u64 \<Rightarrow> u64" and cs
    by (induction ubs cs rule: list_induct2') auto
  have "map2 (\<lambda>ub x. x) ubs cs = cs" using assms by (induction ubs cs rule: list_induct2') auto
  then show ?thesis using assms
  proof (induction vs arbitrary: cs c)
    case (Cons v vs)
    let ?f = "\<lambda>ub x. if v \<le> ub then x + 1 else x :: u64"
    have l: "length (map2 ?f ubs cs) = length ubs" using Cons.prems(2) by simp
    have i: "map2 (\<lambda>ub x. x) ubs (map2 ?f ubs cs) = map2 ?f ubs cs" unfolding m by simp
    have "(\<lambda>ub x. ?f ub x + of_nat (length (filter (\<lambda>v. v \<le> ub) vs))) = (\<lambda>ub x. x + of_nat (length (filter (\<lambda>v. v \<le> ub) (v # vs))))"
      by (auto simp: fun_eq_iff)
    then show ?case using Cons.IH [OF i l, of "c + 1"] step [OF Cons.prems(2), of v c] by (simp add: m)
  qed simp
qed

lemma fold_observe:
  "he_buckets (fold (\<lambda>d. observeEntry big (Seconds d)) ds e) = he_buckets e"
  "he_count (fold (\<lambda>d. observeEntry big (Seconds d)) ds e) = he_count e + of_nat (length ds)"
  "he_counts (fold (\<lambda>d. observeEntry big (Seconds d)) ds e) = fold (\<lambda>v. bumpCounts v (he_buckets e)) (map Seconds ds) (he_counts e)"
  by (induction ds arbitrary: e) (simp_all add: observeEntry_def)

text \<open>The bounds of the latency buckets in nanoseconds.\<close>

definition latBounds :: "nat list" where
  "latBounds = [100000, 500000, 1000000, 5000000, 10000000, 50000000, 100000000, 500000000, 1000000000, 5000000000]"

lemma Seconds_steps:
  "fl64 (1 / 10000) < fl64 (100001 / 10 ^ 9)" "fl64 (5 / 10000) < fl64 (500001 / 10 ^ 9)" "fl64 (1 / 1000) < fl64 (1000001 / 10 ^ 9)"
  "fl64 (5 / 1000) < fl64 (5000001 / 10 ^ 9)" "fl64 (1 / 100) < fl64 (10000001 / 10 ^ 9)" "fl64 (5 / 100) < fl64 (50000001 / 10 ^ 9)"
  "fl64 (1 / 10) < fl64 (100000001 / 10 ^ 9)" "fl64 (5 / 10) < fl64 (500000001 / 10 ^ 9)" "fl64 1 < fl64 (1 + fl64 (1 / 10 ^ 9))"
  "fl64 5 < fl64 (5 + fl64 (1 / 10 ^ 9))"
  by code_simp+

lemma Seconds_bounds:
  "list_all2 (\<lambda>b ub. b + 1 < 2 ^ 63 \<and> Seconds b = ub \<and> ub < Seconds (b + 1)) latBounds latBuckets"
  using Seconds_steps by (simp add: latBounds_def latBuckets_def Seconds_eq)

lemma bucket_exact:
  assumes "list_all2 (\<lambda>b ub. b + 1 < 2 ^ 63 \<and> Seconds b = ub \<and> ub < Seconds (b + 1)) bs ubs" "\<forall>d \<in> set ds. d < 2 ^ 63"
  shows "map (\<lambda>ub. of_nat (length (filter (\<lambda>v. v \<le> ub) (map Seconds ds)))) ubs = map (\<lambda>b. of_nat (length (filter (\<lambda>d. d \<le> b) ds)) :: u64) bs"
  using assms(1)
proof (induction bs ubs rule: list_all2_induct)
  case (Cons b bs ub ubs)
  have "Seconds d \<le> ub \<longleftrightarrow> d \<le> b" if "d \<in> set ds" for d
  proof
    assume "Seconds d \<le> ub"
    then have "\<not> b + 1 \<le> d" using Seconds_mono [of "b + 1" d] assms(2) that Cons.hyps(1) by force
    then show "d \<le> b" by simp
  next
    assume "d \<le> b"
    then show "Seconds d \<le> ub" using Seconds_mono [of d b] Cons.hyps(1) by simp
  qed
  then have "filter ((\<lambda>v. v \<le> ub) \<circ> Seconds) ds = filter (\<lambda>d. d \<le> b) ds" by (simp cong: filter_cong)
  then show ?case using Cons by simp
qed simp

section \<open>Properties\<close>

text \<open>
  C14. The metrics count every operation once.  A recorder registered in an empty registry is given any sequence
  of observations with their durations (below \<open>2\<^sup>6\<^sup>3\<close> nanoseconds).  Then for each of the seven commands the counter of each status
  holds the number of observations with that command and status, modulo \<open>2\<^sup>6\<^sup>4\<close>; and in the histogram of the
  command the count and the infinite bucket hold the number of its observations, and each other bucket the number of
  those whose duration is at most its bound, to the nanosecond, although both are compared as floating-point
  seconds.  In particular no two of the hashed metric keys collide.
\<close>

theorem Recorder_counts:
  assumes "NewRecorder emptyReg = (rc, r0)" "\<forall>(ob, d) \<in> set os. d < 2 ^ 63" "c \<in> set cmds"
    "r = fold (record_obs big rc) os r0" "ds = map snd (filter (\<lambda>(ob, d). cmdOf ob = c) os)"
  shows "(\<forall>s \<in> {''ok'', ''err''}. map_option ce_val (map_of (rg_counter r) (metricKey ''horreum_ops_total'' (opsLabels c s))) =
      Some (of_nat (length (filter (\<lambda>(ob, d). cmdOf ob = c \<and> statusOf ob = s) os)))) \<and>
    (\<exists>e. map_of (rg_hist r) (metricKey ''horreum_latency_seconds'' (latLabels c)) = Some e \<and> he_count e = of_nat (length ds) \<and>
      he_counts e = map (\<lambda>b. of_nat (length (filter (\<lambda>d. d \<le> b) ds))) latBounds @ [of_nat (length ds)])"
proof -
  have rc: "rc = fst (NewRecorder emptyReg)" "r0 = snd (NewRecorder emptyReg)" using assms(1) by simp_all
  have z: "cval r0 (opsKey c s) = Some 0" "hval r0 (latKey c) = Some (freshLat c)" if "s \<in> {''ok'', ''err''}" for s
    using NewRecorder_registered assms(3) that unfolding rc(2) registered_def by auto
  let ?e = "fold (\<lambda>d. observeEntry big (Seconds d)) ds (freshLat c)"
  have h: "hval r (latKey c) = Some ?e" using run_histogram [OF assms(3) z(2)] unfolding assms(4,5) rc(1) by blast
  have d: "\<forall>d \<in> set ds. d < 2 ^ 63" using assms(2) by (auto simp: assms(5))
  have "replicate (length latBuckets + 1) 0 = replicate (length latBuckets) 0 @ [0 :: u64]" by (simp add: replicate_append_same)
  then have "he_counts ?e = map2 (\<lambda>ub x. x + of_nat (length (filter (\<lambda>v. v \<le> ub) (map Seconds ds)))) latBuckets (replicate (length latBuckets) 0) @
      [of_nat (length ds)]"
    using bumps [of "replicate (length latBuckets) 0" latBuckets "map Seconds ds" 0] by (simp add: fold_observe freshLat_def)
  also have "map2 (\<lambda>ub x. x + of_nat (length (filter (\<lambda>v. v \<le> ub) (map Seconds ds)))) latBuckets (replicate (length latBuckets) (0 :: u64)) =
      map (\<lambda>ub. of_nat (length (filter (\<lambda>v. v \<le> ub) (map Seconds ds)))) latBuckets"
    by (simp add: zip_replicate2)
  finally have "he_counts ?e = map (\<lambda>b. of_nat (length (filter (\<lambda>d. d \<le> b) ds))) latBounds @ [of_nat (length ds)]"
    using bucket_exact [OF Seconds_bounds d] by simp
  moreover have "he_count ?e = of_nat (length ds)" by (simp add: fold_observe freshLat_def)
  moreover have "cval r (opsKey c s) = Some (of_nat (length (filter (\<lambda>(ob, d). cmdOf ob = c \<and> statusOf ob = s) os)))"
    if "s \<in> {''ok'', ''err''}" for s using run_counter [OF assms(3) that z(1) [OF that]] unfolding assms(4) rc(1) by simp
  ultimately show ?thesis using h unfolding cval_def hval_def opsKey_def latKey_def by blast
qed

theorem Recorder_counts_witness:
  "map_option ce_val (map_of (rg_counter (fold (record_obs (\<lambda>_. 0) (fst (NewRecorder emptyReg)))
       [(ObserveGet ''ok'', 70000), (ObserveGet ''err'', 2000000)] (snd (NewRecorder emptyReg))))
     (metricKey ''horreum_ops_total'' (opsLabels ''get'' ''ok''))) = Some 1"
  using Recorder_counts [of "fst (NewRecorder emptyReg)" "snd (NewRecorder emptyReg)"
      "[(ObserveGet ''ok'', 70000), (ObserveGet ''err'', 2000000)]" "''get''" _ "\<lambda>_. 0", OF _ _ _ refl refl]
  by (simp add: cmds_def)

end
