(* ===== verification/Lifecycle.thy ===== *)
theory Lifecycle
  imports Go_Text
begin

text \<open>
  \<^verbatim>\<open>internal/shutdown/shutdown.go\<close> and \<^verbatim>\<open>internal/logger/logger.go\<close>: the coordinator that runs the shutdown hooks, the
  rate limiter of the log and the log settings.

  A hook is a function of the time it is given and of the state it acts on; it returns the new state and an
  error, where the error of a cancelled context is told apart.  \<^verbatim>\<open>Run\<close> is \<open>None\<close> while it waits for the trigger.
\<close>

section \<open>Definitions\<close>

subsection \<open>Shutdown\<close>

datatype 'e hook_error = CtxCanceled | HookFailed 'e

type_synonym ('s, 'e) hook_fn = "int \<Rightarrow> 's \<Rightarrow> 'e hook_error option \<times> 's"

record ('s, 'e) hook =
  hk_name :: string
  hk_fn :: "('s, 'e) hook_fn"

record ('s, 'e) Coordinator =
  co_hooks :: "('s, 'e) hook list"
  co_closed :: bool

definition NewCoordinator :: "('s, 'e) Coordinator" where
  "NewCoordinator = \<lparr>co_hooks = [], co_closed = False\<rparr>"

definition co_Register :: "string \<Rightarrow> ('s, 'e) hook_fn \<Rightarrow> ('s, 'e) Coordinator \<Rightarrow> ('s, 'e) Coordinator" where
  "co_Register name fn c = c\<lparr>co_hooks := co_hooks c @ [\<lparr>hk_name = name, hk_fn = fn\<rparr>]\<rparr>"

definition co_Trigger :: "('s, 'e) Coordinator \<Rightarrow> ('s, 'e) Coordinator" where
  "co_Trigger c = (if co_closed c then c else c\<lparr>co_closed := True\<rparr>)"

text \<open>A signal other than the two it asked for does not reach the channel.\<close>

datatype signal = SIGINT | SIGTERM | OtherSignal

fun co_WaitForSignal :: "signal list \<Rightarrow> ('s, 'e) Coordinator \<Rightarrow> ('s, 'e) Coordinator" where
  "co_WaitForSignal [] c = c"
| "co_WaitForSignal (sig # sigs) c = (if sig = OtherSignal then co_WaitForSignal sigs c else co_Trigger c)"

text \<open>The lines on standard error, without their error texts.\<close>

datatype shutdown_line = Starting string | Failed string | Ok string

fun runHooks :: "int \<Rightarrow> ('s, 'e) hook list \<Rightarrow> 'e option \<Rightarrow> 's \<Rightarrow> 'e option \<times> shutdown_line list \<times> 's" where
  "runHooks t [] firstErr s = (firstErr, [], s)"
| "runHooks t (h # hs) firstErr s =
    (case hk_fn h t s of
       (Some (HookFailed e), s1) \<Rightarrow>
         (case runHooks t hs (if firstErr = None then Some e else firstErr) s1 of (r, out, s2) \<Rightarrow>
            (r, Starting (hk_name h) # Failed (hk_name h) # out, s2))
     | (_, s1) \<Rightarrow>
         (case runHooks t hs firstErr s1 of (r, out, s2) \<Rightarrow> (r, Starting (hk_name h) # Ok (hk_name h) # out, s2)))"

definition runTimeout :: "int \<Rightarrow> int" where
  "runTimeout timeout = (if timeout \<le> 0 then 30 * 10 ^ 9 else timeout)"

definition co_Run :: "int \<Rightarrow> ('s, 'e) Coordinator \<Rightarrow> 's \<Rightarrow> ('e option \<times> shutdown_line list \<times> 's) option" where
  "co_Run timeout c s =
    (if \<not> co_closed c then None
     else Some (runHooks (runTimeout timeout) (co_hooks c) None s))"

subsection \<open>The rate limiter\<close>

record RateLimiter =
  rl_rate :: rat
  rl_capacity :: rat
  rl_tokens :: rat
  rl_lastRefill :: nat

definition NewRateLimiter :: "nat \<Rightarrow> rat \<Rightarrow> rat \<Rightarrow> RateLimiter" where
  "NewRateLimiter now rate capacity = \<lparr>rl_rate = rate, rl_capacity = capacity, rl_tokens = capacity, rl_lastRefill = now\<rparr>"

definition rl_Allow :: "nat \<Rightarrow> RateLimiter \<Rightarrow> bool \<times> RateLimiter" where
  "rl_Allow now rl =
    (let elapsed = Seconds (now - rl_lastRefill rl);
         tokens = fl64 (rl_tokens rl + fl64 (elapsed * rl_rate rl));
         tokens1 = (if tokens > rl_capacity rl then rl_capacity rl else tokens);
         rl1 = rl\<lparr>rl_lastRefill := now, rl_tokens := tokens1\<rparr>
     in if tokens1 \<ge> 1 then (True, rl1\<lparr>rl_tokens := fl64 (tokens1 - 1)\<rparr>) else (False, rl1))"

definition NetErrorLimiter :: "nat \<Rightarrow> RateLimiter" where
  "NetErrorLimiter now = NewRateLimiter now 5 10"

subsection \<open>Log settings\<close>

datatype level = LevelDebug | LevelInfo | LevelWarn | LevelError

record log_settings =
  GlobalLogLevel :: level
  SlowLogThreshold :: int
  log_json :: bool

definition log_Init :: "string \<Rightarrow> string \<Rightarrow> int \<Rightarrow> log_settings \<Rightarrow> log_settings" where
  "log_Init levelStr formatStr slowThreshold s =
    (let l = ToLower levelStr;
         lev = (if l = ''debug'' then LevelDebug else if l = ''info'' then LevelInfo else if l = ''warn'' then LevelWarn
                else if l = ''error'' then LevelError else LevelInfo)
     in s\<lparr>GlobalLogLevel := lev,
          SlowLogThreshold := (if slowThreshold > 0 then slowThreshold else SlowLogThreshold s),
          log_json := (ToLower formatStr = ''json'')\<rparr>)"

section \<open>The rate limiter\<close>

fun allowAll :: "nat list \<Rightarrow> RateLimiter \<Rightarrow> bool list \<times> RateLimiter" where
  "allowAll [] rl = ([], rl)"
| "allowAll (now # nows) rl = (case rl_Allow now rl of (b, rl1) \<Rightarrow> apfst ((#) b) (allowAll nows rl1))"

lemma Seconds_zero [simp]: "Seconds 0 = 0"
  by (simp add: Seconds_def)

text \<open>The tokens stay between zero and the capacity, whatever the rounding.\<close>

lemma rl_Allow_tokens:
  assumes "0 \<le> rl_tokens rl" "rl_tokens rl \<le> rl_capacity rl" "fl64 (rl_capacity rl) = rl_capacity rl"
  shows "0 \<le> rl_tokens (snd (rl_Allow now rl)) \<and> rl_tokens (snd (rl_Allow now rl)) \<le> rl_capacity rl \<and>
    rl_capacity (snd (rl_Allow now rl)) = rl_capacity rl \<and> rl_rate (snd (rl_Allow now rl)) = rl_rate rl"
proof -
  have "0 \<le> rl_capacity rl" using assms by simp
  moreover have "fl64 (t - 1) \<le> rl_capacity rl" if "t \<le> rl_capacity rl" for t
    using fl64_mono [of "t - 1" "rl_capacity rl"] that assms(3) by simp
  ultimately show ?thesis by (auto simp: rl_Allow_def Let_def)
qed

text \<open>In one instant no more lines pass than whole tokens are left.\<close>

lemma burst_bound:
  assumes "rl_tokens rl \<le> of_nat k" "k \<le> 2 ^ 53" "\<forall>now \<in> set nows. now = rl_lastRefill rl"
  shows "length (filter (\<lambda>b. b) (fst (allowAll nows rl))) \<le> k"
  using assms
proof (induction nows arbitrary: rl k)
  case (Cons now nows)
  let ?t = "fl64 (rl_tokens rl)"
  have t: "?t \<le> of_nat k" using fl64_mono [OF Cons.prems(1)] fl64_nat [OF Cons.prems(2)] by simp
  define u where "u = (if ?t > rl_capacity rl then rl_capacity rl else ?t)"
  have u: "u \<le> of_nat k" using t by (auto simp: u_def)
  have now: "now = rl_lastRefill rl" using Cons.prems(3) by simp
  have step: "rl_Allow now rl = (if 1 \<le> u then (True, rl\<lparr>rl_tokens := fl64 (u - 1)\<rparr>) else (False, rl\<lparr>rl_tokens := u\<rparr>))"
    unfolding now rl_Allow_def Let_def u_def by simp
  show ?case
  proof (cases "1 \<le> u")
    case True
    then obtain j where j: "k = Suc j" using u by (cases k) auto
    have "fl64 (u - 1) \<le> of_nat j" using fl64_mono [of "u - 1" "of_nat j"] fl64_nat [of j] u j Cons.prems(2) by simp
    then have "length (filter (\<lambda>b. b) (fst (allowAll nows (rl\<lparr>rl_tokens := fl64 (u - 1)\<rparr>)))) \<le> j"
      using Cons.IH [of "rl\<lparr>rl_tokens := fl64 (u - 1)\<rparr>" j] Cons.prems(2,3) j by simp
    then show ?thesis using step True j by simp
  next
    case False
    then show ?thesis using step Cons.IH [of "rl\<lparr>rl_tokens := u\<rparr>" k] u Cons.prems(2,3) by simp
  qed
qed simp

lemma NetErrorLimiter_burst:
  assumes "\<forall>t \<in> set nows. t = now"
  shows "length (filter (\<lambda>b. b) (fst (allowAll nows (NetErrorLimiter now)))) \<le> 10"
  using burst_bound [of "NetErrorLimiter now" 10 nows] assms by (simp add: NetErrorLimiter_def NewRateLimiter_def)

section \<open>Properties\<close>

text \<open>The states the hooks see, one after the other, and the error each returned.\<close>

fun hookRuns :: "int \<Rightarrow> ('s, 'e) hook list \<Rightarrow> 's \<Rightarrow> ('e hook_error option \<times> 's) list" where
  "hookRuns t [] s = []"
| "hookRuns t (h # hs) s = hk_fn h t s # hookRuns t hs (snd (hk_fn h t s))"

fun failure :: "'e hook_error option \<Rightarrow> 'e option" where
  "failure (Some (HookFailed e)) = Some e"
| "failure _ = None"

lemma failure_cases: "(case r of (Some (HookFailed e), s1) \<Rightarrow> f e s1 | (_, s1) \<Rightarrow> g s1) =
    (case failure (fst r) of Some e \<Rightarrow> f e (snd r) | None \<Rightarrow> g (snd r))"
  by (cases r; cases "fst r"; cases "the (fst r)") auto

lemma runHooks_all:
  "runHooks t hs err s =
    (case err of
       Some e \<Rightarrow> Some e
     | None \<Rightarrow> (case List.map_filter (failure \<circ> fst) (hookRuns t hs s) of [] \<Rightarrow> None | e # _ \<Rightarrow> Some e),
     concat (map2 (\<lambda>h r. [Starting (hk_name h), if failure (fst r) = None then Ok (hk_name h) else Failed (hk_name h)]) hs (hookRuns t hs s)),
     fold (\<lambda>h s. snd (hk_fn h t s)) hs s)"
proof (induction hs arbitrary: err s)
  case Nil
  then show ?case by (simp add: map_filter_simps split: option.split)
next
  case (Cons h hs)
  show ?case unfolding runHooks.simps failure_cases
    by (cases "failure (fst (hk_fn h t s))") (auto simp: Cons map_filter_simps split: option.split)
qed

text \<open>
  C25. Shutdown runs every hook.  Once shutdown is triggered, by a call or by a signal, \<^verbatim>\<open>Run\<close> runs the registered
  hooks one after the other in the order of registration, each exactly once and on the state the previous one
  left, also when earlier ones fail; it reports each, and returns the first error that is not the
  cancellation of the context.  Before the trigger it does not return.
\<close>

theorem Coordinator_Run_all:
  "co_Run timeout (co_Trigger c) s = Some
      (case List.map_filter (failure \<circ> fst) (hookRuns (runTimeout timeout) (co_hooks c) s) of [] \<Rightarrow> None | e # _ \<Rightarrow> Some e,
       concat (map2 (\<lambda>h r. [Starting (hk_name h), if failure (fst r) = None then Ok (hk_name h) else Failed (hk_name h)])
         (co_hooks c) (hookRuns (runTimeout timeout) (co_hooks c) s)),
       fold (\<lambda>h s. snd (hk_fn h (runTimeout timeout) s)) (co_hooks c) s) \<and>
    co_Trigger (co_Trigger c) = co_Trigger c \<and> co_hooks (co_Trigger c) = co_hooks c \<and>
    (co_Run timeout (co_WaitForSignal sigs c) s = None) = (\<not> co_closed c \<and> set sigs \<subseteq> {OtherSignal})"
proof -
  have w: "co_closed (co_WaitForSignal sigs c) = (co_closed c \<or> \<not> set sigs \<subseteq> {OtherSignal})"
    by (induction sigs) (auto simp: co_Trigger_def)
  show ?thesis using w by (simp add: co_Run_def co_Trigger_def runHooks_all)
qed

end
