(* ===== verification/Server_Main.thy ===== *)
theory Server_Main
  imports Net_Server Recovery Config Metrics_Laws Lifecycle
begin

text \<open>
  \<^verbatim>\<open>cmd/horreum/main.go\<close>: from the configuration to a running server and back.  \<open>None\<close> is the end of the process with
  an error.  Files, random numbers and sockets are arguments; the command line is its list of arguments, and
  what the \<^verbatim>\<open>flag\<close> package makes of it is the configuration the start is given.  Log lines are not modelled.
\<close>

section \<open>Definitions\<close>

subsection \<open>Configuration\<close>

record serverConfig =
  sf_addr :: string
  sf_transportName :: string
  sf_shards :: int
  sf_regionSize :: u64
  sf_evictCapacity :: u64
  sf_persistPath :: string
  sf_durable :: bool
  sf_metricsAddr :: string
  sf_tlsCert :: string
  sf_tlsKey :: string
  sf_shutdownTimeout :: int
  sf_compression :: string
  sf_minCompressSize :: int
  sf_logLevel :: string
  sf_logFormat :: string
  sf_slowLogThreshold :: int
  sf_encryptionKeyPath :: string

definition defaultServerConfig :: serverConfig where
  "defaultServerConfig = \<lparr>sf_addr = '':7373'', sf_transportName = ''tcp'', sf_shards = 4, sf_regionSize = 268435456,
     sf_evictCapacity = 4096, sf_persistPath = [], sf_durable = True, sf_metricsAddr = '':9090'', sf_tlsCert = [], sf_tlsKey = [],
     sf_shutdownTimeout = 30 * 10 ^ 9, sf_compression = ''none'', sf_minCompressSize = 64, sf_logLevel = ''info'',
     sf_logFormat = ''text'', sf_slowLogThreshold = 10 * 10 ^ 6, sf_encryptionKeyPath = []\<rparr>"

text \<open>The path of the configuration file among the arguments after the program name.\<close>

fun parseYAMLPath :: "string list \<Rightarrow> string" where
  "parseYAMLPath [] = []"
| "parseYAMLPath (arg # args) =
    (if take 9 arg = ''--config='' then drop 9 arg
     else if arg = ''--config'' \<and> args \<noteq> [] then hd args
     else if take 8 arg = ''-config='' then drop 8 arg
     else if arg = ''-config'' \<and> args \<noteq> [] then hd args
     else parseYAMLPath args)"

definition applyParsedYAML :: "(rat \<Rightarrow> u64) \<Rightarrow> serverConfig \<Rightarrow> Config \<Rightarrow> serverConfig option" where
  "applyParsedYAML big cfg p =
    (let sv = cf_Server p; orStr = (\<lambda>s old. if s \<noteq> [] then s else old)
     in do {
       regionSize \<leftarrow> (if cs_RegionSize sv \<noteq> []
                     then (case ParseSize big (cs_RegionSize sv) of Inl _ \<Rightarrow> None | Inr sz \<Rightarrow> Some sz) else Some (sf_regionSize cfg));
       shutdownTimeout \<leftarrow> (if cs_ShutdownTimeout sv \<noteq> [] then ParseDuration (cs_ShutdownTimeout sv) else Some (sf_shutdownTimeout cfg));
       slowLog \<leftarrow> (if cl_SlowLogThreshold (cf_Logging p) \<noteq> [] then ParseDuration (cl_SlowLogThreshold (cf_Logging p))
                  else Some (sf_slowLogThreshold cfg));
       Some \<lparr>sf_addr = orStr (cs_Addr sv) (sf_addr cfg), sf_transportName = orStr (cs_Transport sv) (sf_transportName cfg),
         sf_shards = (case cs_Shards sv of Some n \<Rightarrow> n | None \<Rightarrow> sf_shards cfg), sf_regionSize = regionSize,
         sf_evictCapacity = (case cs_EvictCapacity sv of Some n \<Rightarrow> n | None \<Rightarrow> sf_evictCapacity cfg),
         sf_persistPath = orStr (cp_PersistentPath (cf_Storage p)) (sf_persistPath cfg),
         sf_durable = (case cp_Durable (cf_Storage p) of Some b \<Rightarrow> b | None \<Rightarrow> sf_durable cfg),
         sf_metricsAddr = orStr (cm_Addr (cf_Metrics p)) (sf_metricsAddr cfg),
         sf_tlsCert = orStr (cs_TLSCert sv) (sf_tlsCert cfg), sf_tlsKey = orStr (cs_TLSKey sv) (sf_tlsKey cfg),
         sf_shutdownTimeout = shutdownTimeout,
         sf_compression = orStr (cc_Algorithm (cf_Compression p)) (sf_compression cfg),
         sf_minCompressSize = (case cc_MinSize (cf_Compression p) of Some n \<Rightarrow> n | None \<Rightarrow> sf_minCompressSize cfg),
         sf_logLevel = orStr (cl_Level (cf_Logging p)) (sf_logLevel cfg), sf_logFormat = orStr (cl_Format (cf_Logging p)) (sf_logFormat cfg),
         sf_slowLogThreshold = slowLog,
         sf_encryptionKeyPath = orStr (ck_EncryptionKeyPath (cf_Security p)) (sf_encryptionKeyPath cfg)\<rparr> })"

definition loadConfig :: "(rat \<Rightarrow> u64) \<Rightarrow> (string \<Rightarrow> string option) \<Rightarrow> string \<Rightarrow> serverConfig option" where
  "loadConfig big readFile yamlPath =
    (if yamlPath = [] then Some defaultServerConfig
     else case readFile yamlPath of
       None \<Rightarrow> None
     | Some d \<Rightarrow> (case ParseYAML d of Some (Inr parsed) \<Rightarrow> applyParsedYAML big defaultServerConfig parsed | _ \<Rightarrow> None))"

subsection \<open>Codecs\<close>

definition initCompressor :: "string \<Rightarrow> int \<Rightarrow> Compressor option" where
  "initCompressor algorithm minSize =
    (if algorithm = ''lz4'' then Some (lz4_compressor minSize)
     else if algorithm \<in> {''none'', []} then Some noop_compressor else None)"

text \<open>\<^verbatim>\<open>hex.DecodeString\<close> and the decoder of \<^verbatim>\<open>base64.StdEncoding\<close>, which skips line ends.\<close>

definition hexVal :: "char \<Rightarrow> u8 option" where
  "hexVal c = (let n = of_char c :: nat in
     if 48 \<le> n \<and> n \<le> 57 then Some (of_nat (n - 48))
     else if 97 \<le> n \<and> n \<le> 102 then Some (of_nat (n - 87))
     else if 65 \<le> n \<and> n \<le> 70 then Some (of_nat (n - 55)) else None)"

fun hexDecode :: "string \<Rightarrow> bytes option" where
  "hexDecode [] = Some []"
| "hexDecode [c] = None"
| "hexDecode (a # b # s) = do { x \<leftarrow> hexVal a; y \<leftarrow> hexVal b; r \<leftarrow> hexDecode s; Some ((x * 16 + y) # r) }"

definition b64Val :: "char \<Rightarrow> u32 option" where
  "b64Val c = (let n = of_char c :: nat in
     if 65 \<le> n \<and> n \<le> 90 then Some (of_nat (n - 65))
     else if 97 \<le> n \<and> n \<le> 122 then Some (of_nat (n - 71))
     else if 48 \<le> n \<and> n \<le> 57 then Some (of_nat (n + 4))
     else if c = CHR ''+'' then Some 62 else if c = CHR 0x2F then Some 63 else None)"

definition b64Quantum :: "u32 \<Rightarrow> u32 \<Rightarrow> u32 \<Rightarrow> u32 \<Rightarrow> bytes" where
  "b64Quantum a b c d = (let v = push_bit 18 a OR push_bit 12 b OR push_bit 6 c OR d
     in [ucast (drop_bit 16 v), ucast (drop_bit 8 v), ucast v])"

fun b64Groups :: "string \<Rightarrow> bytes option" where
  "b64Groups [] = Some []"
| "b64Groups (a # b # c # d # s) =
    (if s = [] \<and> d = CHR ''='' \<and> c = CHR ''='' then do { x \<leftarrow> b64Val a; y \<leftarrow> b64Val b; Some (take 1 (b64Quantum x y 0 0)) }
     else if s = [] \<and> d = CHR ''='' then do { x \<leftarrow> b64Val a; y \<leftarrow> b64Val b; z \<leftarrow> b64Val c; Some (take 2 (b64Quantum x y z 0)) }
     else do { x \<leftarrow> b64Val a; y \<leftarrow> b64Val b; z \<leftarrow> b64Val c; w \<leftarrow> b64Val d; r \<leftarrow> b64Groups s; Some (b64Quantum x y z w @ r) })"
| "b64Groups s = None"

definition b64Decode :: "string \<Rightarrow> bytes option" where
  "b64Decode s = b64Groups (filter (\<lambda>c. c \<noteq> CHR 0x0A \<and> c \<noteq> CHR 0x0D) s)"

definition parseEnvKey :: "string \<Rightarrow> bytes option" where
  "parseEnvKey envKey =
    (if length envKey = 64 then hexDecode envKey
     else if length envKey = 44 then b64Decode envKey
     else if length envKey = 32 then Some (map of_char envKey)
     else None)"

text \<open>The key file, created with random bytes when there is none; the second result is the file system after it.\<close>

definition loadOrGenerateKeyFile :: "bytes option \<Rightarrow> bool \<Rightarrow> (string \<Rightarrow> bytes option) \<Rightarrow> string \<Rightarrow> (bytes \<times> (string \<Rightarrow> bytes option)) option" where
  "loadOrGenerateKeyFile rnd writable fs keyPath0 =
    (let keyPath = (if keyPath0 = [] then ''horreum.key'' else keyPath0) in
     if fs keyPath = None
     then (case rnd of
         None \<Rightarrow> None
       | Some autoKey \<Rightarrow> if \<not> writable then None else Some (autoKey, fs(keyPath \<mapsto> autoKey)))
     else (case LoadKey fs keyPath of Inl _ \<Rightarrow> None | Inr k \<Rightarrow> Some (k, fs)))"

definition initCipher :: "string \<Rightarrow> bytes option \<Rightarrow> bool \<Rightarrow> (string \<Rightarrow> bytes option) \<Rightarrow> string \<Rightarrow> (Cipher \<times> (string \<Rightarrow> bytes option)) option" where
  "initCipher envKey rnd writable fs keyPath = do {
     (keyBytes, fs1) \<leftarrow> (if envKey \<noteq> [] then map_option (\<lambda>k. (k, fs)) (parseEnvKey envKey)
                        else loadOrGenerateKeyFile rnd writable fs keyPath);
     if length keyBytes = 0 then Some (noop_cipher, fs1)
     else case NewAESGCM keyBytes of Inl _ \<Rightarrow> None | Inr k \<Rightarrow> Some (aesgcm_cipher k, fs1) }"

definition generateKeyAndExit :: "bytes option \<Rightarrow> bool \<Rightarrow> (string \<Rightarrow> bytes option) \<Rightarrow> string \<Rightarrow> (string \<Rightarrow> bytes option) option" where
  "generateKeyAndExit rnd writable fs path = (case rnd of
       None \<Rightarrow> None
     | Some k \<Rightarrow> if \<not> writable then None else Some (fs(path \<mapsto> k)))"

subsection \<open>Storage\<close>

text \<open>
  \<^verbatim>\<open>NewShardSetFromArena\<close> of \<^verbatim>\<open>transport.go\<close>: all shards hold the same manager.  The model gives each a copy, which is
  the same thing for the single shard that \<^verbatim>\<open>buildShardSetFromArena\<close> asks for.
\<close>

definition NewShardSetFromArena :: "Manager \<Rightarrow> int \<Rightarrow> u64 \<Rightarrow> Compressor option \<Rightarrow> Cipher option \<Rightarrow> ShardSet option" where
  "NewShardSetFromArena mgr numShards evictCap cmpr cip =
    (let n = (if numShards \<le> 0 then 1 else numShards); cap = (if evictCap = 0 then 1024 else evictCap)
     in map_option (\<lambda>c. \<lparr>shards = replicate (nat n) (Some c), set_closed = False\<rparr>) (newShardCacheFromArena mgr cap cmpr cip))"

definition buildShardSetFromArena :: "Manager \<Rightarrow> int \<Rightarrow> u64 \<Rightarrow> Compressor option \<Rightarrow> Cipher option \<Rightarrow> ShardSet option" where
  "buildShardSetFromArena mgr numShards evictCap cmpr cip =
    NewShardSetFromArena mgr (if numShards > 1 then 1 else numShards) evictCap cmpr cip"

record storageBackend =
  sb_sets :: ShardSet
  sb_index :: "HashIndex option"
  sb_pm :: "PersistentManager option"

definition initPersistentStorage :: "disk \<Rightarrow> string \<Rightarrow> bool \<Rightarrow> u64 \<Rightarrow> int \<Rightarrow> u64 \<Rightarrow> Compressor \<Rightarrow> Cipher \<Rightarrow> storageBackend option" where
  "initPersistentStorage dk persistPath durable regionSize numShards evictCapacity cmpr cip =
    (case pm_New dk persistPath regionSize durable of
       Inl _ \<Rightarrow> None
     | Inr pm \<Rightarrow> do {
         sets \<leftarrow> buildShardSetFromArena (pm_mgr pm) numShards evictCapacity (Some cmpr) (Some cip);
         idx \<leftarrow> pm_Replay pm (hi_New 65536);
         Some \<lparr>sb_sets = sets, sb_index = Some idx, sb_pm = Some pm\<rparr> })"

definition initStorage :: "int \<Rightarrow> (nat \<Rightarrow> mmap_fn) \<Rightarrow> disk \<Rightarrow> serverConfig \<Rightarrow> Compressor \<Rightarrow> Cipher \<Rightarrow> storageBackend option" where
  "initStorage numCPU mm dk cfg cmpr cip =
    (if sf_persistPath cfg \<noteq> []
     then initPersistentStorage dk (sf_persistPath cfg) (sf_durable cfg) (sf_regionSize cfg) (sf_shards cfg) (sf_evictCapacity cfg) cmpr cip
     else map_option (\<lambda>ss. \<lparr>sb_sets = ss, sb_index = None, sb_pm = None\<rparr>)
       (NewShardSetOrPanic numCPU mm (sf_shards cfg) (sf_regionSize cfg) (sf_evictCapacity cfg) (Some cmpr) (Some cip)))"

text \<open>
  Closing the storage: the persistent manager works on the arena that the shard has written to.  The
  arguments say which system calls succeed; the errors of sync and checkpoint are only logged.
\<close>

definition closeStorage :: "wal_io \<Rightarrow> (nat \<Rightarrow> bool) \<Rightarrow> bool \<Rightarrow> bool \<Rightarrow> storageBackend \<Rightarrow> (pm_error + unit) \<times> storageBackend" where
  "closeStorage io synced walClosed unmapped sb =
    (case (sb_pm sb, sb_index sb) of
       (Some pm, Some idx) \<Rightarrow>
         let _ = pm_Sync io synced pm;
             mgr = (case shards (sb_sets sb) of Some c # _ \<Rightarrow> sc_mgr c | _ \<Rightarrow> pm_mgr pm);
             pm1 = snd (pm_Checkpoint io synced (pm\<lparr>pm_mgr := mgr\<rparr>) idx)
         in (case pm_Close walClosed unmapped pm1 of (r, pm2) \<Rightarrow> (r, sb\<lparr>sb_pm := Some pm2\<rparr>))
     | _ \<Rightarrow> (Inr (), sb\<lparr>sb_sets := set_Close (sb_sets sb)\<rparr>))"

subsection \<open>Metrics\<close>

record gauges =
  memUsedGauge :: Hash
  memFreeGauge :: Hash
  indexKeysGauge :: Hash
  evictS_hash :: Hash
  evictM_hash :: Hash

definition initMetrics :: "reg \<Rightarrow> gauges \<times> reg" where
  "initMetrics r =
    (case RegisterGauge ''horreum_memory_used_bytes'' ''Bytes currently allocated in the arena.'' [\<lparr>lb_Name = ''region'', lb_Value = []\<rparr>] r of (a, r1) \<Rightarrow>
     case RegisterGauge ''horreum_memory_free_bytes'' ''Bytes free in the arena.'' [\<lparr>lb_Name = ''region'', lb_Value = []\<rparr>] r1 of (b, r2) \<Rightarrow>
     case RegisterGauge ''horreum_index_keys_total'' ''Number of live keys in the index.'' [] r2 of (c, r3) \<Rightarrow>
     case RegisterCounter ''horreum_evictions_total'' ''Total evictions by queue (S or M).'' [\<lparr>lb_Name = ''queue'', lb_Value = ''S''\<rparr>] r3 of (d, r4) \<Rightarrow>
     case RegisterCounter ''horreum_evictions_total'' ''Total evictions by queue (S or M).'' [\<lparr>lb_Name = ''queue'', lb_Value = ''M''\<rparr>] r4 of (e, r5) \<Rightarrow>
     (\<lparr>memUsedGauge = a, memFreeGauge = b, indexKeysGauge = c, evictS_hash = d, evictM_hash = e\<rparr>, r5))"

text \<open>One tick of the goroutine that refreshes the gauges.\<close>

definition updateGauges :: "gauges \<Rightarrow> ShardSet \<Rightarrow> HashIndex option \<Rightarrow> reg \<Rightarrow> reg" where
  "updateGauges g sets idx r =
    (let s = set_Stats sets; r1 = SetGauge (memFreeGauge g) (ss_FreeBytes s) (SetGauge (memUsedGauge g) (ss_UsedBytes s) r)
     in case idx of None \<Rightarrow> r1 | Some h \<Rightarrow> SetGauge (indexKeysGauge g) (word_of_int (hi_Count h)) r1)"

subsection \<open>The server\<close>

definition initServer :: "(string \<Rightarrow> bool) \<Rightarrow> (string \<Rightarrow> string \<Rightarrow> 'c option) \<Rightarrow> (string \<Rightarrow> 'c option) \<Rightarrow> string \<Rightarrow> string \<Rightarrow> string \<Rightarrow> string \<Rightarrow>
    ShardSet \<Rightarrow> 'j Server option" where
  "initServer listens loadPair certs addr transportName tlsCert tlsKey sets = do {
     (certs1, certFile) \<leftarrow> (if transportName = ''quic''
       then (case loadPair tlsCert tlsKey of None \<Rightarrow> None | Some cert \<Rightarrow> Some (RegisterCertificate ''cli-cert'' (Some cert) certs, ''cli-cert''))
       else Some (certs, []));
     case NewServerFromOpts (transports listens certs1)
            \<lparr>op_Addr = addr, op_TransportName = transportName, op_Router = Some sets, op_TLSCertFile = certFile\<rparr> of
       Inl _ \<Rightarrow> None
     | Inr srv \<Rightarrow> Some srv }"

text \<open>What \<^verbatim>\<open>main\<close> starts: the storage, the server, the metrics.\<close>

record ('c) host =
  ho_numCPU :: int
  ho_mmap :: "nat \<Rightarrow> mmap_fn"
  ho_disk :: disk
  ho_envKey :: string
  ho_random :: "bytes option"
  ho_writable :: bool
  ho_files :: "string \<Rightarrow> bytes option"
  ho_listens :: "string \<Rightarrow> bool"
  ho_loadPair :: "string \<Rightarrow> string \<Rightarrow> 'c option"

record 'j running =
  ru_storage :: storageBackend
  ru_server :: "'j Server"
  ru_recorder :: DefaultRecorder
  ru_gauges :: gauges
  ru_reg :: reg
  ru_metricsUp :: bool

definition main_start :: "'c host \<Rightarrow> serverConfig \<Rightarrow> 'j running option" where
  "main_start ho cfg = do {
     cmpr \<leftarrow> initCompressor (sf_compression cfg) (sf_minCompressSize cfg);
     (cip, _) \<leftarrow> initCipher (ho_envKey ho) (ho_random ho) (ho_writable ho) (ho_files ho) (sf_encryptionKeyPath cfg);
     let (rc, r1) = NewRecorder emptyReg;
     let (g, r2) = initMetrics r1;
     sb \<leftarrow> initStorage (ho_numCPU ho) (ho_mmap ho) (ho_disk ho) cfg cmpr cip;
     if \<not> ho_listens ho (sf_metricsAddr cfg) then None
     else do {
       srv \<leftarrow> initServer (ho_listens ho) (ho_loadPair ho) (\<lambda>_. None) (sf_addr cfg) (sf_transportName cfg) (sf_tlsCert cfg) (sf_tlsKey cfg)
                (sb_sets sb);
       Some \<lparr>ru_storage = sb, ru_server = srv, ru_recorder = rc, ru_gauges = g, ru_reg = r2, ru_metricsUp = True\<rparr> } }"

text \<open>The three hooks \<^verbatim>\<open>main\<close> registers, in their order.\<close>

definition main_hooks :: "wal_io \<Rightarrow> (nat \<Rightarrow> bool) \<Rightarrow> bool \<Rightarrow> bool \<Rightarrow> ('j running, pm_error) Coordinator" where
  "main_hooks io synced walClosed unmapped =
    co_Register ''storage'' (\<lambda>_ ru. case closeStorage io synced walClosed unmapped (ru_storage ru) of
        (Inl e, sb) \<Rightarrow> (Some (HookFailed e), ru\<lparr>ru_storage := sb\<rparr>)
      | (Inr _, sb) \<Rightarrow> (None, ru\<lparr>ru_storage := sb\<rparr>))
    (co_Register ''metrics'' (\<lambda>_ ru. (None, ru\<lparr>ru_metricsUp := False\<rparr>))
    (co_Register ''stop-listener'' (\<lambda>_ ru. (None, ru\<lparr>ru_server := sv_Shutdown (ru_server ru)\<rparr>))
      NewCoordinator))"

section \<open>Start and stop\<close>

text \<open>Every compressor and every cipher the start can choose obeys its contract.\<close>

lemma initCompressor_laws: "initCompressor a n = Some cmpr \<Longrightarrow> compressor_laws cmpr"
  using noop_comp.compressor_laws_axioms lz4_comp.compressor_laws_axioms by (auto simp: initCompressor_def split: if_splits)

lemma initCipher_laws:
  assumes "initCipher envKey rnd writable fs path = Some (cip, fs1)"
  shows "cipher_laws cip"
  using assms noop_ciph.cipher_laws_axioms aesgcm_laws
  by (auto simp: initCipher_def bind_eq_Some_conv split: if_splits sum.splits)

text \<open>The shards of a fresh set: well-formed and empty.\<close>

definition fresh_shard :: "shardCache \<Rightarrow> bool" where
  "fresh_shard c \<longleftrightarrow> cache_inv c \<and> cache_codec c \<and> si_room (sc_idx c) \<and> si_map (sc_idx c) = Map.empty"

definition host_memory :: "(nat \<Rightarrow> mmap_fn) \<Rightarrow> u64 \<Rightarrow> bool" where
  "host_memory mm regionSize \<longleftrightarrow> (\<forall>i. mmap_ok (mm i) \<and>
     (\<exists>m. NewManager (mm i) (if regionSize = 0 then 67108864 else regionSize) False = Inr m))"

lemma newShards_fresh:
  assumes "host_memory mm (cfg_RegionSize cfg)" "unat (cfg_EvictCapacity cfg) \<le> 2 ^ 60"
    and "cfg_Compressor cfg = Some cmpr" "cfg_Cipher cfg = Some cip" "value_codec cmpr cip"
  shows "\<exists>cs. newShards mm cfg i n = Some (Inr cs) \<and> length cs = n \<and> list_all fresh_shard cs"
proof (induction n arbitrary: i)
  case (Suc n)
  obtain m where m: "mmap_ok (mm i)" "NewManager (mm i) (if cfg_RegionSize cfg = 0 then 67108864 else cfg_RegionSize cfg) False = Inr m"
    using assms(1) unfolding host_memory_def by metis
  obtain c where "NewShardCache (mm i) (cfg_RegionSize cfg) (cfg_EvictCapacity cfg) (cfg_Compressor cfg) (cfg_Cipher cfg) = Some (Inr c)"
      "fresh_shard c"
    by (rule NewShardCache_ok [OF m assms(2), of "cfg_Compressor cfg" "cfg_Cipher cfg"])
      (auto simp: fresh_shard_def cache_codec_def assms(3-5))
  with Suc [of "Suc i"] show ?case by fastforce
qed simp

lemma fresh_set_ready:
  assumes "list_all fresh_shard cs" "0 < length cs" "length cs \<le> 65536" "env_ok env"
    and "ss = \<lparr>shards = map Some cs, set_closed = False\<rparr>"
  shows "set_ready env ss" "set_map ss k = None"
proof -
  have f: "fresh_shard (cs ! i)" if "i < length cs" for i using assms(1) that by (simp add: list_all_length)
  then show "set_ready env ss"
    using assms by (auto simp: set_ready_def set_ok_def shard_ok_def fresh_shard_def list_all_iff)
  have "CacheIndexFor ss k < length cs"
    using assms(2,3) by (auto simp: CacheIndexFor_def assms(5) word_less_nat_alt unat_mod unat_of_nat)
  then show "set_map ss k = None"
    using f [of "CacheIndexFor ss k"] assms(2) by (auto simp: set_map_def CacheFor_def CacheIndexFor_def assms(5) fresh_shard_def)
qed

text \<open>The two transports open on a free address; QUIC needs a certificate that loads.\<close>

lemma initServer_serves:
  assumes "listens addr" "addr \<noteq> []" "tr = ''tcp'' \<or> tr = ''quic'' \<and> loadPair tc tk \<noteq> None"
  shows "\<exists>srv. initServer listens loadPair certs addr tr tc tk ss = Some srv \<and> tp_listening (sv_transport srv) \<and>
    \<not> tp_closed (sv_transport srv) \<and> tp_workers (sv_transport srv) = transport_workers ss"
  using assms
  by (auto simp: initServer_def NewServerFromOpts_def api_NewServer_def transports_def RegisterTransport_def LookupTransport_def
      tcp_factory_def tcp_NewTransport_def quic_factory_def quic_NewTransport_def RegisterCertificate_def Let_def)

text \<open>
  C9. The server starts into a state its request handler works on.  With a known compression and a usable key,
  between 0 and 65536 shards, memory for every region, and the two addresses free, a start without a
  persistent path reaches the accept loop: the shards are as many as configured (or the default for the number of processors), well-formed
  and empty, so that every law of the handler holds of them, one worker serves each, and the listener is open.
\<close>

theorem main_start_ready:
  assumes "sf_persistPath cfg = []" "initCompressor (sf_compression cfg) (sf_minCompressSize cfg) = Some cmpr"
    and "initCipher (ho_envKey ho) (ho_random ho) (ho_writable ho) (ho_files ho) (sf_encryptionKeyPath cfg) = Some (cip, fs)"
    and "0 \<le> sf_shards cfg" "sf_shards cfg \<le> 65536" "unat (sf_evictCapacity cfg) \<le> 2 ^ 60" "host_memory (ho_mmap ho) (sf_regionSize cfg)"
    and "ho_listens ho (sf_metricsAddr cfg)" "ho_listens ho (sf_addr cfg)" "sf_addr cfg \<noteq> []"
    and "sf_transportName cfg = ''tcp'' \<or> sf_transportName cfg = ''quic'' \<and> ho_loadPair ho (sf_tlsCert cfg) (sf_tlsKey cfg) \<noteq> None"
    and "env_ok env"
  shows "\<exists>ru :: 'j running. main_start ho cfg = Some ru \<and> set_ready env (sb_sets (ru_storage ru)) \<and> (\<forall>k. set_map (sb_sets (ru_storage ru)) k = None) \<and>
    int (ShardCount (sb_sets (ru_storage ru))) = (if sf_shards cfg = 0 then DefaultShardCount (ho_numCPU ho) else sf_shards cfg) \<and>
    tp_listening (sv_transport (ru_server ru)) \<and> tp_workers (sv_transport (ru_server ru)) = transport_workers (sb_sets (ru_storage ru))"
proof -
  define n where "n = (if sf_shards cfg = 0 then DefaultShardCount (ho_numCPU ho) else sf_shards cfg)"
  have n: "0 < n" "n \<le> 65536" using assms(4,5) by (auto simp: n_def DefaultShardCount_def Let_def)
  define sc where "sc = \<lparr>cfg_NumShards = sf_shards cfg, cfg_RegionSize = sf_regionSize cfg, cfg_EvictCapacity = sf_evictCapacity cfg,
    cfg_Compressor = Some cmpr, cfg_Cipher = Some cip\<rparr>"
  have codec: "value_codec cmpr cip"
    using initCompressor_laws [OF assms(2)] initCipher_laws [OF assms(3)] by (rule value_codec.intro)
  obtain cs where cs: "newShards (ho_mmap ho) sc 0 (nat n) = Some (Inr cs)" "length cs = nat n" "list_all fresh_shard cs"
    using newShards_fresh [of "ho_mmap ho" sc cmpr cip 0 "nat n"] assms(6,7) codec by (auto simp: sc_def)
  define ss where "ss = \<lparr>shards = map Some cs, set_closed = False\<rparr>"
  have n_eq: "(if cfg_NumShards sc = 0 then DefaultShardCount (ho_numCPU ho) else cfg_NumShards sc) = n" by (simp add: n_def sc_def)
  have "NewShardSet (ho_numCPU ho) (ho_mmap ho) sc = Some (Inr ss)"
    unfolding NewShardSet_def n_eq Let_def using cs(1) n(1) by (simp add: ss_def)
  then have st: "NewShardSetOrPanic (ho_numCPU ho) (ho_mmap ho) (sf_shards cfg) (sf_regionSize cfg) (sf_evictCapacity cfg) (Some cmpr) (Some cip) = Some ss"
    by (simp add: NewShardSetOrPanic_def sc_def)
  obtain srv :: "'j Server" where srv: "initServer (ho_listens ho) (ho_loadPair ho) (\<lambda>_. None) (sf_addr cfg) (sf_transportName cfg) (sf_tlsCert cfg) (sf_tlsKey cfg) ss = Some srv"
    "tp_listening (sv_transport srv)" "tp_workers (sv_transport srv) = transport_workers ss"
    using initServer_serves [of "ho_listens ho" "sf_addr cfg" "sf_transportName cfg" "ho_loadPair ho" "sf_tlsCert cfg" "sf_tlsKey cfg"
        "\<lambda>_. None" ss] assms(9-11) by auto
  have sb: "initStorage (ho_numCPU ho) (ho_mmap ho) (ho_disk ho) cfg cmpr cip = Some \<lparr>sb_sets = ss, sb_index = None, sb_pm = None\<rparr>"
    using st assms(1) by (simp add: initStorage_def)
  obtain rc r1 g r2 where r: "NewRecorder emptyReg = (rc, r1)" "initMetrics r1 = (g, r2)" by (meson surj_pair)
  obtain ru where ru: "main_start ho cfg = Some ru" "sb_sets (ru_storage ru) = ss" "ru_server ru = srv"
    using assms(2,3,8) sb srv(1) r by (auto simp: main_start_def)
  have "set_ready env ss" "\<And>k. set_map ss k = None"
    using fresh_set_ready [OF cs(3) _ _ assms(12) ss_def] cs(2) n by auto
  moreover have "int (ShardCount ss) = n" using cs(2) n(1) by (simp add: ShardCount_def ss_def)
  ultimately show ?thesis using ru srv(2,3) unfolding n_def [symmetric] by (intro exI [of _ ru]) simp
qed

text \<open>A start with the flags \<^verbatim>\<open>-shards 2 -region-size 64 -evict-capacity 64 -compression lz4\<close> and no key file yet.\<close>

definition wcfg :: serverConfig where
  "wcfg = defaultServerConfig\<lparr>sf_shards := 2, sf_regionSize := 64, sf_evictCapacity := 64, sf_compression := ''lz4''\<rparr>"

definition whost :: "unit host" where
  "whost = \<lparr>ho_numCPU = 1, ho_mmap = \<lambda>_. mmapRegion_other, ho_disk = wdisk False [] [], ho_envKey = [], ho_random = Some (replicate 32 7),
     ho_writable = True, ho_files = \<lambda>_. None, ho_listens = \<lambda>_. True, ho_loadPair = \<lambda>_ _. None\<rparr>"

theorem main_start_ready_witness:
  "\<exists>ru :: nat running. main_start whost wcfg = Some ru \<and> set_ready wenv (sb_sets (ru_storage ru)) \<and> (\<forall>k. set_map (sb_sets (ru_storage ru)) k = None) \<and>
    int (ShardCount (sb_sets (ru_storage ru))) = 2 \<and>
    tp_listening (sv_transport (ru_server ru)) \<and> tp_workers (sv_transport (ru_server ru)) = transport_workers (sb_sets (ru_storage ru))"
proof -
  have c: "initCompressor (sf_compression wcfg) (sf_minCompressSize wcfg) = Some (lz4_compressor 64)"
    by (simp add: initCompressor_def wcfg_def defaultServerConfig_def)
  have k: "initCipher (ho_envKey whost) (ho_random whost) (ho_writable whost) (ho_files whost) (sf_encryptionKeyPath wcfg) =
      Some (aesgcm_cipher (replicate 32 7), [''horreum.key'' \<mapsto> replicate 32 7])"
    by (simp add: initCipher_def loadOrGenerateKeyFile_def NewAESGCM_def wcfg_def whost_def defaultServerConfig_def)
  have m: "host_memory (ho_mmap whost) (sf_regionSize wcfg)"
    using mmap_ok_other by (simp add: host_memory_def whost_def wcfg_def NewManager_def newRegion_def mmapRegion_other_def)
  have e: "env_ok wenv" using wcache_new(2) by (simp add: ready_def)
  show ?thesis
    using main_start_ready [OF _ c k _ _ _ m _ _ _ _ e] by (simp add: wcfg_def whost_def defaultServerConfig_def)
qed

text \<open>
  A restart in persistent mode: the shard that serves requests is empty, whatever the region and the log hold;
  the recovered keys are only in the index, which comes from the log alone.
\<close>

lemma persistent_start_empty:
  assumes "initPersistentStorage dk path durable rsize n cap cmpr cip = Some sb"
  shows "\<exists>pm c idx. pm_New dk path rsize durable = Inr pm \<and> shards (sb_sets sb) = [Some c] \<and> sc_mgr c = pm_mgr pm \<and>
    sc_idx c = newShardIndex \<and> sb_index sb = Some idx \<and> ReplayTo (pm_wal pm) (hi_New 65536) = Some idx \<and>
    (\<forall>k. set_map (sb_sets sb) k = None)"
proof -
  obtain pm ss idx where p: "pm_New dk path rsize durable = Inr pm" "buildShardSetFromArena (pm_mgr pm) n cap (Some cmpr) (Some cip) = Some ss"
    "pm_Replay pm (hi_New 65536) = Some idx" "sb = \<lparr>sb_sets = ss, sb_index = Some idx, sb_pm = Some pm\<rparr>"
    using assms by (auto simp: initPersistentStorage_def bind_eq_Some_conv split: sum.splits)
  have one: "nat (if (if 1 < n then 1 else n) \<le> 0 then 1 else if 1 < n then 1 else n) = Suc 0" by auto
  obtain c where c: "ss = \<lparr>shards = [Some c], set_closed = False\<rparr>" "newShardCacheFromArena (pm_mgr pm) (if cap = 0 then 1024 else cap) (Some cmpr) (Some cip) = Some c"
    using p(2) unfolding buildShardSetFromArena_def NewShardSetFromArena_def Let_def one by auto
  have "sc_mgr c = pm_mgr pm" "sc_idx c = newShardIndex"
    using c(2) by (auto simp: newShardCacheFromArena_def split: option.splits sum.splits)
  then show ?thesis
    using p c(1) newShardIndex_inv by (auto simp: pm_Replay_def set_map_def CacheFor_def)
qed

text \<open>Once triggered, the shutdown in anonymous mode closes the listener and the shards, without an error.\<close>

lemma shutdown_closes:
  assumes "sb_pm (ru_storage ru) = None"
  shows "\<exists>out ru1. co_Run t (co_Trigger (main_hooks io synced wc um)) ru = Some (None, out, ru1) \<and>
    tp_closed (sv_transport (ru_server ru1)) \<and> set_closed (sb_sets (ru_storage ru1)) \<and> \<not> ru_metricsUp ru1"
  using assms
  by (simp add: co_Run_def co_Trigger_def main_hooks_def co_Register_def NewCoordinator_def closeStorage_def sv_Shutdown_def
      tp_Shutdown_def set_Close_def)

end
