(* ===== verification/Spec2Isabelle.thy ===== *)
theory Spec2Isabelle
  imports Cache_Map Server_Main
begin

text \<open>
  Horreum is an in-memory key-value server in Go.  A value lives in an arena of fixed regions outside the
  garbage-collected heap; a shard combines an arena, a hash table from keys to arena handles, an S3-FIFO
  eviction policy, a compressor and a cipher; a server routes requests of a binary protocol over TCP or QUIC to
  the worker of a shard; a persistent manager keeps a log and checkpoints.  This development models that program
  from the sources in \<^verbatim>\<open>src/\<close> and proves what each part promises.

  \<^bold>\<open>How the code is represented.\<close>  An unsigned Go integer is a word of its width and wraps; \<^verbatim>\<open>int\<close> is \<^typ>\<open>int\<close> where its
  range does not matter.  A slice is a list, a struct a record, an enumeration a datatype.  A pair of a value and an
  error is a sum with the error on the left.  \<open>None\<close> as the result of an operation is a panic, an endless loop or the
  end of the process, so that an equation with \<open>Some\<close> says that the code returns.  An operation takes the state and
  returns the new one.  What the program gets from outside is an argument: the outcome of memory mapping, the time,
  the nonce, the contents of pooled buffers (all in \<open>call_env\<close>), the files and their errors (\<open>wal_io\<close>, \<open>disk\<close>), the sockets.
  Methods of one shard run one at a time, under its lock, and are single steps; the worker queue, whose steps
  interleave, is a step relation.  What the sources use of the standard library is written out: \<^verbatim>\<open>encoding/binary\<close>,
  \<^verbatim>\<open>strings\<close>, \<^verbatim>\<open>strconv\<close>, \<^verbatim>\<open>bufio.Scanner\<close>, \<^verbatim>\<open>net.SplitHostPort\<close>, AES-GCM, the rounding of \<^verbatim>\<open>float64\<close>.

  \<^bold>\<open>The theories\<close>, from the bottom up.

  \<^item> \<open>Horreum_Prelude\<close>: word and byte types, little-endian numbers, FNV-1a, and generic lemmas on lists, maps and words.

  \<^item> \<open>Allocator\<close>, \<open>Arena\<close>, \<open>Arena_Range\<close> (\<^verbatim>\<open>internal/arena\<close>): size classes and free lists, the manager of regions with
  \<^verbatim>\<open>Put\<close>, \<^verbatim>\<open>View\<close>, \<^verbatim>\<open>Free\<close> and the metadata words.  Under correct use a stored value reads back, live blocks are disjoint
  and a failing \<^verbatim>\<open>Put\<close> changes none of them; \<open>Arena_Range\<close> shows what remains true when clients free a block twice, which
  the cache does: every handle stays in range.

  \<^item> \<open>Linear_Probing\<close>, \<open>Shard_Index\<close>, \<open>Hash_Index\<close>, \<open>Index_Growth\<close> (\<^verbatim>\<open>transport.go\<close>, \<^verbatim>\<open>internal/index\<close>): open addressing with
  backward-shift deletion once for both tables (locales \<open>open_table\<close>, \<open>kv_table\<close>), expiry, prefix scans and
  deletions.  Each operation returns and acts as on a finite map; a history of up to \<open>2\<^sup>6\<^sup>0\<close> operations never leaves the
  bound on the table size that the single laws assume (locale \<open>sized_table\<close>).

  \<^item> \<open>Ring_Buffer\<close>, \<open>Ghost\<close>, \<open>S3_Fifo\<close> (\<^verbatim>\<open>internal/eviction\<close>): the queues (locale \<open>bounded_fifo\<close>), the ghost table and the policy,
  which loses no handle it does not report.

  \<^item> \<open>Lz4\<close>, \<open>Cipher\<close>, \<open>Codec\<close> (\<^verbatim>\<open>internal/compress\<close>, \<^verbatim>\<open>internal/encrypt\<close>): the block codec and AES-256-GCM with their round
  trips; the locales \<open>compressor_laws\<close>, \<open>cipher_laws\<close> and \<open>value_codec\<close> are the contracts a shard relies on, and every
  implementation is an interpretation.

  \<^item> \<open>Ds\<close> (\<^verbatim>\<open>internal/ds\<close>): lists, sets and hashes in byte payloads (locale \<open>record_format\<close>), refined to deques, sets and maps.

  \<^item> \<open>Shard_Cache\<close>, \<open>Cache_Laws\<close>, \<open>Cache_Map\<close> (\<^verbatim>\<open>shardCache\<close> of \<^verbatim>\<open>transport.go\<close>): all methods of \<^verbatim>\<open>CacheService\<close>; each returns from
  every well-formed shard (\<open>ready\<close>) and keeps it so; a written value reads back; without evictions a shard simulates
  a map.

  \<^item> \<open>Shard_Set\<close>, \<open>Proto\<close>, \<open>Handler\<close>, \<open>Worker_Pool\<close>, \<open>Net_Server\<close> (\<^verbatim>\<open>transport.go\<close>, \<^verbatim>\<open>internal/proto\<close>, \<^verbatim>\<open>internal/transport\<close>): routing, the
  wire format and its incremental parser, the request handlers, the workers as a step relation, the connection loop, the
  accept loops and the registry of transports.

  \<^item> \<open>Wal\<close>, \<open>Checkpoint\<close>, \<open>Persist\<close>, \<open>Recovery\<close> (\<^verbatim>\<open>internal/arena/persist\<close>): the log with torn tails and failing writes, the
  metadata formats, the manager, and what a restart after a crash recovers.

  \<^item> \<open>Go_Float\<close>, \<open>Go_Text\<close>, \<open>Config\<close>, \<open>Metrics\<close>, \<open>Metrics_Laws\<close>, \<open>Lifecycle\<close>, \<open>Server_Main\<close> (\<^verbatim>\<open>internal/config\<close>, \<^verbatim>\<open>internal/metrics\<close>,
  \<^verbatim>\<open>internal/logger\<close>, \<^verbatim>\<open>internal/shutdown\<close>, \<^verbatim>\<open>cmd/horreum\<close>): the configuration file, exact sizes and bucket counts in spite of
  floating point, the shutdown hooks, and the start of the program, which establishes the state
  (\<open>set_ready\<close>) that the laws of the handler assume.

  \<^bold>\<open>Bounds and fuel.\<close>  The probe loops, the doubling loop and the prefix deletions may diverge in the code and are partial functions into
  \<open>option\<close>; their laws prove that they return.  The tables are assumed to have fewer than \<open>2\<^sup>6\<^sup>2\<close> slots, which \<open>Index_Growth\<close>
  discharges for every history that can be run.  A set has at most 65536 shards, because a scan cursor has 16
  bits for the shard.  An eviction capacity of at most \<open>2\<^sup>6\<^sup>0\<close> keeps the rounding to a power of two
  from overflowing.  The fuel of \<^verbatim>\<open>ParseDuration\<close> is the length of its text, of which every round takes a character.

  \<^bold>\<open>Where the code falls short\<close>, a lemma next to the model shows it on an example, such as the first \<^verbatim>\<open>RPUSH\<close> to a key, which
  panics, or the index of a restarted server, which no shard reads.  The laws are stated so that they hold of the code as it is: after
  an eviction the index may still name a freed block, so the invariant of a shard speaks of handles in range and not of
  live ones, and the refinement to a map assumes that nothing was evicted.

  \<^bold>\<open>Not modelled.\<close>  \<^verbatim>\<open>mmap_linux.go\<close> issues system calls, and their outcome is an argument.  \<^verbatim>\<open>metrics/http.go\<close> sends the text of
  \<^verbatim>\<open>WriteText\<close> through \<^verbatim>\<open>net/http\<close>.  The texts of errors and log lines, deadlines of sockets, the periodic
  synchronisation, whose only effect is a system call, and the \<^verbatim>\<open>flag\<close> package are left out.  QUIC is a third-party library; what it hands to the server is an
  argument.  The load generator \<^verbatim>\<open>cmd/horreum-bench\<close>, the clients under \<^verbatim>\<open>examples\<close> and \<^verbatim>\<open>cmd/helper_test\<close> are programs around the
  server and not part of it.  Data races inside a Go slice or map are outside the model: the metadata words are
  atomic in the code, and the shard lock orders the rest.
\<close>

end
